(* ===== verification/Prelude.thy ===== *)
theory Prelude
  imports Main "HOL-Library.Word"
begin

text \<open>
  Shared vocabulary of the development: faults as values, the sequencing
  combinator for fallible steps, the relational view of a linked list that
  threads through an array, and the interface of an intrusive free list (the
  discipline that both \<open>page_free_list\<close> and \<open>env_free_list\<close> follow).
\<close>

unbundle bit_operations_syntax

named_theorems kfault_simps
  "evaluation rules of the sequencing combinator and of the fault type"
named_theorems mmu_simps
  "arithmetic reading of the address-splitting macros"

section \<open>Machine types\<close>

type_synonym u8 = "8 word"
type_synonym u16 = "16 word"
type_synonym u32 = "32 word"
type_synonym u64 = "64 word"

section \<open>Faults and sequencing\<close>

text \<open>
  \<open>KPanic\<close> is a call of \<open>panic()\<close> (or a failed \<open>assert\<close>) with its message;
  \<open>KUndef\<close> marks a step whose behaviour C leaves undefined (an access past the
  end of an array, a read of an uninitialised pointer).
\<close>

datatype kfault = KPanic string | KUndef string

type_synonym 'a fallible = "kfault + 'a"

definition andThen :: "'e + 'a \<Rightarrow> ('a \<Rightarrow> 'e + 'b) \<Rightarrow> 'e + 'b" where
  "andThen r f = (case r of Inl e \<Rightarrow> Inl e | Inr x \<Rightarrow> f x)"

lemma andThen_Inr [simp, kfault_simps]: "andThen (Inr x) f = f x"
  by (simp add: andThen_def)

lemma andThen_Inl [simp, kfault_simps]: "andThen (Inl e) f = Inl e"
  by (simp add: andThen_def)

lemma andThen_eq_Inr [kfault_simps]:
  "andThen r f = Inr y \<longleftrightarrow> (\<exists>x. r = Inr x \<and> f x = Inr y)"
  by (cases r) auto

lemma andThen_assoc: "andThen (andThen r f) g = andThen r (\<lambda>x. andThen (f x) g)"
  by (cases r) auto

section \<open>Lists threaded through an array of links\<close>

text \<open>
  \<open>chain nx h xs\<close>: following the link function \<open>nx\<close> from the head pointer \<open>h\<close>
  visits exactly the elements \<open>xs\<close>, in order, and ends in the null pointer.
\<close>

fun chain :: "('p \<Rightarrow> 'p option) \<Rightarrow> 'p option \<Rightarrow> 'p list \<Rightarrow> bool" where
  "chain nx h [] \<longleftrightarrow> h = None"
| "chain nx h (x # xs) \<longleftrightarrow> h = Some x \<and> chain nx (nx x) xs"

lemma chain_None [simp]: "chain nx None xs \<longleftrightarrow> xs = []"
  by (cases xs) auto

lemma chain_Some: "chain nx (Some p) xs \<longleftrightarrow> (\<exists>ys. xs = p # ys \<and> chain nx (nx p) ys)"
  by (cases xs) auto

lemma chain_unique: "chain nx h xs \<Longrightarrow> chain nx h ys \<Longrightarrow> xs = ys"
proof (induction xs arbitrary: h ys)
  case Nil
  then show ?case by (cases ys) auto
next
  case (Cons x xs)
  then show ?case by (cases ys) auto
qed

lemma chain_cong:
  "chain nx h xs \<Longrightarrow> (\<And>x. x \<in> set xs \<Longrightarrow> nx' x = nx x) \<Longrightarrow> chain nx' h xs"
  by (induction xs arbitrary: h) auto

lemma chain_upd_notin: "chain nx h xs \<Longrightarrow> p \<notin> set xs \<Longrightarrow> chain (nx(p := q)) h xs"
  by (erule chain_cong) auto

lemma chain_append:
  "chain nx h (xs @ ys) \<Longrightarrow> \<exists>h'. chain nx h' ys"
  by (induction xs arbitrary: h) auto

lemma chain_distinct: "chain nx h xs \<Longrightarrow> distinct xs"
proof (induction xs arbitrary: h)
  case (Cons x xs)
  then have tail: "chain nx (nx x) xs" by simp
  have "x \<notin> set xs"
  proof
    assume "x \<in> set xs"
    then obtain us vs where xs: "xs = us @ x # vs" by (meson split_list)
    with tail obtain h' where "chain nx h' (x # vs)"
      using chain_append [of nx "nx x" us "x # vs"] by auto
    then have "chain nx (nx x) vs" by simp
    from chain_unique [OF tail this] xs show False by simp
  qed
  with Cons.IH [OF tail] show ?case by simp
qed simp

section \<open>The free-list interface\<close>

text \<open>
  A free list is a stack threaded through the objects it manages. The client
  pushes and pops; the laws say which links the two operations may touch.
\<close>

locale free_list =
  fixes head :: "'s \<Rightarrow> 'p option"
    and link :: "'s \<Rightarrow> 'p \<Rightarrow> 'p option"
    and push :: "'p \<Rightarrow> 's \<Rightarrow> 's"
    and pop :: "'s \<Rightarrow> 's"
  assumes head_push: "head (push p s) = Some p"
    and link_push: "link (push p s) p = head s"
    and link_push_other: "q \<noteq> p \<Longrightarrow> link (push p s) q = link s q"
    and head_pop: "head s = Some p \<Longrightarrow> head (pop s) = link s p"
    and link_pop_other: "head s = Some p \<Longrightarrow> q \<noteq> p \<Longrightarrow> link (pop s) q = link s q"
begin

lemma chain_push:
  assumes "chain (link s) (head s) xs" and "p \<notin> set xs"
  shows "chain (link (push p s)) (head (push p s)) (p # xs)"
proof -
  have "chain (link (push p s)) (head s) xs"
    by (rule chain_cong [OF assms(1)]) (metis assms(2) link_push_other)
  then show ?thesis by (simp add: head_push link_push)
qed

lemma chain_pop:
  assumes "chain (link s) (head s) (p # xs)"
  shows "chain (link (pop s)) (head (pop s)) xs"
proof -
  from assms have head: "head s = Some p" and tail: "chain (link s) (link s p) xs" by auto
  from chain_distinct [OF assms] have "p \<notin> set xs" by simp
  then have "chain (link (pop s)) (link s p) xs"
    by (intro chain_cong [OF tail]) (metis link_pop_other [OF head])
  then show ?thesis by (simp add: head_pop [OF head])
qed

lemma chain_pop_push:
  assumes "chain (link s) (head s) xs" and "p \<notin> set xs"
  shows "chain (link (pop (push p s))) (head (pop (push p s))) xs"
  by (rule chain_pop) (rule chain_push [OF assms])

end

section \<open>Bounded searches\<close>

text \<open>The first index of \<open>[i, i + n)\<close> that satisfies a test, as C's counting loops find it.\<close>

fun first_from :: "(nat \<Rightarrow> bool) \<Rightarrow> nat \<Rightarrow> nat \<Rightarrow> nat option" where
  "first_from p i 0 = None"
| "first_from p i (Suc n) = (if p i then Some i else first_from p (Suc i) n)"

lemma first_from_Some:
  "first_from p i n = Some k \<longleftrightarrow> i \<le> k \<and> k < i + n \<and> p k \<and> (\<forall>j. i \<le> j \<and> j < k \<longrightarrow> \<not> p j)"
proof (induction n arbitrary: i)
  case (Suc n)
  show ?case
  proof (cases "p i")
    case True
    then show ?thesis by (auto simp: not_less_eq_eq)
  next
    case False
    have "i \<le> k \<and> p k \<longleftrightarrow> Suc i \<le> k \<and> p k" using False by (metis Suc_leD Suc_leI le_neq_implies_less)
    moreover have "(\<forall>j. i \<le> j \<and> j < k \<longrightarrow> \<not> p j) \<longleftrightarrow> (\<forall>j. Suc i \<le> j \<and> j < k \<longrightarrow> \<not> p j)"
      using False by (metis Suc_leD Suc_leI le_neq_implies_less)
    ultimately show ?thesis using False Suc.IH [of "Suc i"] by auto
  qed
qed auto

lemma first_from_None:
  "first_from p i n = None \<longleftrightarrow> (\<forall>j. i \<le> j \<and> j < i + n \<longrightarrow> \<not> p j)"
proof (induction n arbitrary: i)
  case (Suc n)
  then show ?case by (auto simp: Suc_le_eq) (metis Suc_leI le_neq_implies_less)
qed auto

end
