(* ===== verification/Mmu.thy ===== *)
theory Mmu
  imports Prelude
begin

text \<open>
  \<open>inc/mmu.h\<close>, \<open>inc/memlayout.h\<close> and the rounding macros of \<open>inc/types.h\<close>: the
  split of a linear address into directory index, table index and offset, the
  page-table entry flags, the memory layout, and the segment and gate
  descriptors of the x86. Array indices (\<open>PGNUM\<close>, \<open>PDX\<close>, \<open>PTX\<close>) are read as
  natural numbers, everything else stays a 32-bit word.
\<close>

section \<open>Address splitting\<close>

definition PGNUM :: "u32 \<Rightarrow> nat" where
  "PGNUM la = unat (drop_bit 12 la)"

definition PDX :: "u32 \<Rightarrow> nat" where
  "PDX la = unat (drop_bit 22 la AND 0x3FF)"

definition PTX :: "u32 \<Rightarrow> nat" where
  "PTX la = unat (drop_bit 12 la AND 0x3FF)"

definition PGOFF :: "u32 \<Rightarrow> u32" where
  "PGOFF la = la AND 0xFFF"

definition PGADDR :: "nat \<Rightarrow> nat \<Rightarrow> u32 \<Rightarrow> u32" where
  "PGADDR d t off = push_bit 22 (word_of_nat d) OR push_bit 12 (word_of_nat t) OR off"

definition NPDENTRIES :: nat where
  [simp]: "NPDENTRIES = 1024"

definition NPTENTRIES :: nat where
  [simp]: "NPTENTRIES = 1024"

definition PGSIZE :: u32 where
  [simp]: "PGSIZE = 4096"

definition PTSIZE :: u32 where
  [simp]: "PTSIZE = 4194304"

section \<open>Page-table entries\<close>

definition PTE_P :: u32 where [simp]: "PTE_P = 0x001"

definition PTE_W :: u32 where [simp]: "PTE_W = 0x002"

definition PTE_U :: u32 where [simp]: "PTE_U = 0x004"

definition PTE_PWT :: u32 where [simp]: "PTE_PWT = 0x008"

definition PTE_PCD :: u32 where [simp]: "PTE_PCD = 0x010"

definition PTE_PS :: u32 where [simp]: "PTE_PS = 0x080"

definition PTE_AVAIL :: u32 where [simp]: "PTE_AVAIL = 0xE00"

definition PTE_SYSCALL :: u32 where
  "PTE_SYSCALL = PTE_AVAIL OR PTE_P OR PTE_W OR PTE_U"

definition PTE_ADDR :: "u32 \<Rightarrow> u32" where
  "PTE_ADDR pte = pte AND NOT 0xFFF"

definition FL_IF :: u32 where [simp]: "FL_IF = 0x200"

definition FEC_WR :: u32 where [simp]: "FEC_WR = 0x2"

section \<open>Rounding\<close>

definition ROUNDDOWN :: "u32 \<Rightarrow> u32 \<Rightarrow> u32" where
  "ROUNDDOWN a n = a - a mod n"

definition ROUNDUP :: "u32 \<Rightarrow> u32 \<Rightarrow> u32" where
  "ROUNDUP a n = ROUNDDOWN (a + n - 1) n"

section \<open>Memory layout\<close>

definition GD_KT :: u32 where [simp]: "GD_KT = 0x08"

definition GD_KD :: u32 where [simp]: "GD_KD = 0x10"

definition GD_UT :: u32 where [simp]: "GD_UT = 0x18"

definition GD_UD :: u32 where [simp]: "GD_UD = 0x20"

definition GD_TSS0 :: u32 where [simp]: "GD_TSS0 = 0x28"

definition KERNBASE :: u32 where [simp]: "KERNBASE = 0xF0000000"

definition IOPHYSMEM :: u32 where [simp]: "IOPHYSMEM = 0x0A0000"

definition EXTPHYSMEM :: u32 where [simp]: "EXTPHYSMEM = 0x100000"

definition KSTACKTOP :: u32 where [simp]: "KSTACKTOP = 0xF0000000"

definition KSTKSIZE :: u32 where [simp]: "KSTKSIZE = 0x8000"

definition KSTKGAP :: u32 where [simp]: "KSTKGAP = 0x8000"

definition MMIOLIM :: u32 where [simp]: "MMIOLIM = 0xEFC00000"

definition MMIOBASE :: u32 where [simp]: "MMIOBASE = 0xEF800000"

definition ULIM :: u32 where [simp]: "ULIM = 0xEF800000"

definition UVPT :: u32 where [simp]: "UVPT = 0xEF400000"

definition UPAGES :: u32 where [simp]: "UPAGES = 0xEF000000"

definition UENVS :: u32 where [simp]: "UENVS = 0xEEC00000"

definition UTOP :: u32 where [simp]: "UTOP = 0xEEC00000"

definition UXSTACKTOP :: u32 where [simp]: "UXSTACKTOP = 0xEEC00000"

definition USTACKTOP :: u32 where [simp]: "USTACKTOP = 0xEEBFE000"

definition UTEXT :: u32 where [simp]: "UTEXT = 0x00800000"

definition UTEMP :: u32 where [simp]: "UTEMP = 0x00400000"

definition PFTEMP :: u32 where [simp]: "PFTEMP = 0x007FF000"

definition MPENTRY_PADDR :: u32 where [simp]: "MPENTRY_PADDR = 0x7000"

text \<open>The header writes the layout as offsets from the top; the numerals agree with it.\<close>

lemma memlayout_offsets:
  "MMIOLIM = KSTACKTOP - PTSIZE" "MMIOBASE = MMIOLIM - PTSIZE" "ULIM = MMIOBASE"
  "UVPT = ULIM - PTSIZE" "UPAGES = UVPT - PTSIZE" "UENVS = UPAGES - PTSIZE"
  "UTOP = UENVS" "UXSTACKTOP = UTOP" "USTACKTOP = UTOP - 2 * PGSIZE"
  "UTEXT = 2 * PTSIZE" "UTEMP = PTSIZE" "PFTEMP = UTEMP + PTSIZE - PGSIZE"
  "KSTKSIZE = 8 * PGSIZE" "KSTKGAP = 8 * PGSIZE" "PTSIZE = PGSIZE * word_of_nat NPTENTRIES"
  by simp_all

section \<open>Segments and gates\<close>

text \<open>The bit-fields of a descriptor, each at its width.\<close>

record Segdesc =
  sd_lim_15_0 :: u16
  sd_base_15_0 :: u16
  sd_base_23_16 :: u8
  sd_type :: "4 word"
  sd_s :: "1 word"
  sd_dpl :: "2 word"
  sd_p :: "1 word"
  sd_lim_19_16 :: "4 word"
  sd_avl :: "1 word"
  sd_rsv1 :: "1 word"
  sd_db :: "1 word"
  sd_g :: "1 word"
  sd_base_31_24 :: u8

definition SEG_NULL :: Segdesc where
  "SEG_NULL = \<lparr>sd_lim_15_0 = 0, sd_base_15_0 = 0, sd_base_23_16 = 0, sd_type = 0, sd_s = 0,
     sd_dpl = 0, sd_p = 0, sd_lim_19_16 = 0, sd_avl = 0, sd_rsv1 = 0, sd_db = 0, sd_g = 0,
     sd_base_31_24 = 0\<rparr>"

definition SEG :: "4 word \<Rightarrow> u32 \<Rightarrow> u32 \<Rightarrow> 2 word \<Rightarrow> Segdesc" where
  "SEG type base lim dpl = \<lparr>sd_lim_15_0 = ucast (drop_bit 12 lim AND 0xffff),
     sd_base_15_0 = ucast (base AND 0xffff), sd_base_23_16 = ucast (drop_bit 16 base AND 0xff),
     sd_type = type, sd_s = 1, sd_dpl = dpl, sd_p = 1, sd_lim_19_16 = ucast (drop_bit 28 lim),
     sd_avl = 0, sd_rsv1 = 0, sd_db = 1, sd_g = 1, sd_base_31_24 = ucast (drop_bit 24 base)\<rparr>"

definition SEG16 :: "4 word \<Rightarrow> u32 \<Rightarrow> u32 \<Rightarrow> 2 word \<Rightarrow> Segdesc" where
  "SEG16 type base lim dpl = \<lparr>sd_lim_15_0 = ucast (lim AND 0xffff),
     sd_base_15_0 = ucast (base AND 0xffff), sd_base_23_16 = ucast (drop_bit 16 base AND 0xff),
     sd_type = type, sd_s = 1, sd_dpl = dpl, sd_p = 1, sd_lim_19_16 = ucast (drop_bit 16 lim),
     sd_avl = 0, sd_rsv1 = 0, sd_db = 1, sd_g = 0, sd_base_31_24 = ucast (drop_bit 24 base)\<rparr>"

record Gatedesc =
  gd_off_15_0 :: u16
  gd_sel :: u16
  gd_args :: "5 word"
  gd_rsv1 :: "3 word"
  gd_type :: "4 word"
  gd_s :: "1 word"
  gd_dpl :: "2 word"
  gd_p :: "1 word"
  gd_off_31_16 :: u16

definition SETGATE :: "bool \<Rightarrow> u32 \<Rightarrow> u32 \<Rightarrow> 2 word \<Rightarrow> Gatedesc" where
  "SETGATE istrap sel off dpl = \<lparr>gd_off_15_0 = ucast (off AND 0xffff), gd_sel = ucast sel,
     gd_args = 0, gd_rsv1 = 0, gd_type = (if istrap then 0xF else 0xE), gd_s = 0, gd_dpl = dpl,
     gd_p = 1, gd_off_31_16 = ucast (drop_bit 16 off)\<rparr>"

text \<open>The address the processor jumps to when it goes through a gate.\<close>

definition gate_target :: "Gatedesc \<Rightarrow> u32" where
  "gate_target g = push_bit 16 (ucast (gd_off_31_16 g)) OR ucast (gd_off_15_0 g)"

section \<open>Arithmetic reading of the macros\<close>

lemma mask_10_12: "mask 10 = (0x3FF :: u32)" "mask 12 = (0xFFF :: u32)" "mask 16 = (0xFFFF :: u32)"
  by (simp_all add: mask_eq_exp_minus_1)

lemma unat_less_u32: "unat (w :: u32) < 4294967296"
  using unsigned_less [of w, where ?'a = nat] by simp

lemma PGNUM_div [mmu_simps]: "PGNUM la = unat la div 4096"
  by (simp add: PGNUM_def drop_bit_eq_div unat_div_distrib)

lemma PDX_div [mmu_simps]: "PDX la = unat la div 4194304"
proof -
  have "unat la div 4194304 mod 1024 = unat la div 4194304"
    using unat_less_u32 [of la] by simp
  then show ?thesis
    by (simp add: PDX_def mask_10_12 [symmetric] take_bit_eq_mask [symmetric]
        take_bit_eq_mod drop_bit_eq_div unat_div_distrib unat_mod_distrib)
qed

lemma PTX_div [mmu_simps]: "PTX la = unat la div 4096 mod 1024"
  by (simp add: PTX_def mask_10_12 [symmetric] take_bit_eq_mask [symmetric]
      take_bit_eq_mod drop_bit_eq_div unat_div_distrib unat_mod_distrib)

lemma PDX_less [simp]: "PDX la < 1024"
  using unat_less_u32 [of la] by (simp add: PDX_div)

lemma PTX_less [simp]: "PTX la < 1024"
  by (simp add: PTX_div)

lemma PGNUM_less: "PGNUM la < 1048576"
  using unat_less_u32 [of la] by (simp add: PGNUM_div)

lemma PGNUM_split: "PGNUM la = PDX la * 1024 + PTX la"
proof -
  have "PDX la = PGNUM la div 1024" by (simp add: PDX_div PGNUM_div div_mult2_eq [symmetric])
  then show ?thesis by (simp add: PTX_div PGNUM_div)
qed

lemma PGNUM_eq_iff: "PGNUM a = PGNUM b \<longleftrightarrow> PDX a = PDX b \<and> PTX a = PTX b"
proof
  assume eq: "PGNUM a = PGNUM b"
  have "PDX x = PGNUM x div 1024" "PTX x = PGNUM x mod 1024" for x
    by (simp_all add: PDX_div PTX_div PGNUM_div div_mult2_eq [symmetric])
  with eq show "PDX a = PDX b \<and> PTX a = PTX b" by simp
qed (simp add: PGNUM_split)

lemma unat_ROUNDDOWN [mmu_simps]: "unat (ROUNDDOWN a n) = unat a - unat a mod unat n"
proof -
  have "a mod n \<le> a"
    by (simp add: word_le_nat_alt unat_mod_distrib)
  then show ?thesis by (simp add: ROUNDDOWN_def unat_sub unat_mod_distrib)
qed

lemma ROUNDDOWN_page: "unat (ROUNDDOWN a PGSIZE) = 4096 * PGNUM a"
  by (simp add: unat_ROUNDDOWN PGNUM_div minus_mod_eq_mult_div)

lemma PGNUM_ROUNDDOWN [simp]: "PGNUM (ROUNDDOWN a PGSIZE) = PGNUM a"
  by (subst PGNUM_div) (simp only: ROUNDDOWN_page nonzero_mult_div_cancel_left)

lemma ROUNDDOWN_le: "ROUNDDOWN a PGSIZE \<le> a"
  by (simp add: word_le_nat_alt unat_ROUNDDOWN)

text \<open>A gate stores its handler's address whole.\<close>

lemma gate_target_SETGATE: "gate_target (SETGATE t sel off dpl) = off"
proof (rule bit_word_eqI)
  fix n assume "n < LENGTH(32)"
  then show "bit (gate_target (SETGATE t sel off dpl)) n = bit off n"
    by (auto simp: gate_target_def SETGATE_def bit_or_iff bit_push_bit_iff bit_ucast_iff
        bit_and_iff bit_drop_bit_eq mask_10_12 [symmetric] bit_mask_iff)
qed

end
