(* ===== verification/KState.thy ===== *)
theory KState
  imports Mmu
begin

text \<open>
  The kernel's global data (\<open>inc/env.h\<close>, \<open>inc/trap.h\<close>, \<open>kern/cpu.h\<close>, \<open>inc/memlayout.h\<close>
  and the globals of \<open>kern/pmap.c\<close>, \<open>kern/env.c\<close>, \<open>kern/sched.c\<close>) as one record that the
  operations of the kernel theories pass along.

  Pointers into the arrays \<open>pages\<close>, \<open>envs\<close> and \<open>cpus\<close> are indices; the null pointer
  is \<open>None\<close>. Physical memory is a table of pages of 1024 words each, so a page-table
  page is the same object as the memory that holds it, and a page directory is named
  by the number of its physical page.
\<close>

section \<open>Trap frames\<close>

record PushRegs =
  reg_edi :: u32
  reg_esi :: u32
  reg_ebp :: u32
  reg_oesp :: u32
  reg_ebx :: u32
  reg_edx :: u32
  reg_ecx :: u32
  reg_eax :: u32

record Trapframe =
  tf_regs :: PushRegs
  tf_es :: u16
  tf_ds :: u16
  tf_trapno :: u32
  tf_err :: u32
  tf_eip :: u32
  tf_cs :: u16
  tf_eflags :: u32
  tf_esp :: u32
  tf_ss :: u16

record UTrapframe =
  utf_fault_va :: u32
  utf_err :: u32
  utf_regs :: PushRegs
  utf_eip :: u32
  utf_eflags :: u32
  utf_esp :: u32

definition zero_regs :: PushRegs where
  "zero_regs = \<lparr>reg_edi = 0, reg_esi = 0, reg_ebp = 0, reg_oesp = 0, reg_ebx = 0,
     reg_edx = 0, reg_ecx = 0, reg_eax = 0\<rparr>"

definition zero_tf :: Trapframe where
  "zero_tf = \<lparr>tf_regs = zero_regs, tf_es = 0, tf_ds = 0, tf_trapno = 0, tf_err = 0,
     tf_eip = 0, tf_cs = 0, tf_eflags = 0, tf_esp = 0, tf_ss = 0\<rparr>"

section \<open>Environments\<close>

definition LOG2NENV :: nat where [simp]: "LOG2NENV = 10"

definition NENV :: nat where [simp]: "NENV = 1024"

text \<open>\<open>envid_t\<close> is a signed 32-bit integer; it is kept as a word and read with \<open>sint\<close>.\<close>

definition ENVX :: "u32 \<Rightarrow> nat" where
  "ENVX envid = unat (envid AND 0x3FF)"

datatype env_status =
  ENV_FREE | ENV_DYING | ENV_RUNNABLE | ENV_RUNNING | ENV_NOT_RUNNABLE

datatype env_type = ENV_TYPE_USER

fun env_status_code :: "env_status \<Rightarrow> u32" where
  "env_status_code ENV_FREE = 0"
| "env_status_code ENV_DYING = 1"
| "env_status_code ENV_RUNNABLE = 2"
| "env_status_code ENV_RUNNING = 3"
| "env_status_code ENV_NOT_RUNNABLE = 4"

record Env =
  env_tf :: Trapframe
  env_link :: "nat option"
  env_id :: u32
  env_parent_id :: u32
  env_type :: env_type
  env_status :: env_status
  env_runs :: u32
  env_cpunum :: nat
  env_priority :: int
  env_pgdir :: "nat option"
  env_pgfault_upcall :: u32
  env_ipc_recving :: bool
  env_ipc_dstva :: u32
  env_ipc_value :: u32
  env_ipc_from :: u32
  env_ipc_perm :: u32

text \<open>The all-zero environment that \<open>mem_init\<close> leaves in every slot.\<close>

definition zero_env :: Env where
  "zero_env = \<lparr>env_tf = zero_tf, env_link = None, env_id = 0, env_parent_id = 0,
     env_type = ENV_TYPE_USER, env_status = ENV_FREE, env_runs = 0, env_cpunum = 0,
     env_priority = 0, env_pgdir = None, env_pgfault_upcall = 0, env_ipc_recving = False,
     env_ipc_dstva = 0, env_ipc_value = 0, env_ipc_from = 0, env_ipc_perm = 0\<rparr>"

section \<open>Physical pages, processors, scheduler statistics\<close>

record PageInfo =
  pp_link :: "nat option"
  pp_ref :: u16

definition NCPU :: nat where [simp]: "NCPU = 8"

datatype cpu_status_t = CPU_UNUSED | CPU_STARTED | CPU_HALTED

record CpuInfo =
  cpu_id :: u8
  cpu_status :: cpu_status_t
  cpu_env :: "nat option"

record SchedStats =
  number_of_yields :: int
  number_of_switches :: int
  number_of_boosts :: int

section \<open>The kernel state\<close>

text \<open>
  \<open>cpunum\<close> is the processor that executes the current operation (the value of
  \<open>cpunum()\<close>). \<open>cr3\<close> and \<open>tlb\<close> are the paging state of each processor: the loaded
  page directory and the translations it may have cached, by page number.
\<close>

record kstate =
  npages :: nat
  npages_basemem :: nat
  nextfree :: u32
  pages :: "nat \<Rightarrow> PageInfo"
  page_free_list :: "nat option"
  phys :: "nat \<Rightarrow> nat \<Rightarrow> u32"
  kern_pgdir :: nat
  mmio_base :: u32
  user_mem_check_addr :: u32
  envs :: "nat \<Rightarrow> Env"
  env_free_list :: "nat option"
  cpus :: "nat \<Rightarrow> CpuInfo"
  cpunum :: nat
  kernel_lock :: "nat option"
  cr3 :: "nat \<Rightarrow> nat"
  tlb :: "nat \<Rightarrow> nat \<Rightarrow> u32 option"
  stats :: SchedStats

definition curenv :: "kstate \<Rightarrow> nat option" where
  "curenv s = cpu_env (cpus s (cpunum s))"

definition set_curenv :: "nat option \<Rightarrow> kstate \<Rightarrow> kstate" where
  "set_curenv e s = s\<lparr>cpus := (cpus s)(cpunum s := (cpus s (cpunum s))\<lparr>cpu_env := e\<rparr>)\<rparr>"

definition upd_env :: "nat \<Rightarrow> (Env \<Rightarrow> Env) \<Rightarrow> kstate \<Rightarrow> kstate" where
  "upd_env e f s = s\<lparr>envs := (envs s)(e := f (envs s e))\<rparr>"

definition upd_page :: "nat \<Rightarrow> (PageInfo \<Rightarrow> PageInfo) \<Rightarrow> kstate \<Rightarrow> kstate" where
  "upd_page p f s = s\<lparr>pages := (pages s)(p := f (pages s p))\<rparr>"

text \<open>One word of physical memory.\<close>

definition rd :: "kstate \<Rightarrow> nat \<Rightarrow> nat \<Rightarrow> u32" where
  "rd s pg i = phys s pg i"

definition wr :: "nat \<Rightarrow> nat \<Rightarrow> u32 \<Rightarrow> kstate \<Rightarrow> kstate" where
  "wr pg i v s = s\<lparr>phys := (phys s)(pg := (phys s pg)(i := v))\<rparr>"

definition zero_page :: "nat \<Rightarrow> kstate \<Rightarrow> kstate" where
  "zero_page pg s = s\<lparr>phys := (phys s)(pg := (\<lambda>_. 0))\<rparr>"

text \<open>Loading \<open>%cr3\<close> empties the processor's translation cache; \<open>invlpg\<close> drops one entry.\<close>

definition lcr3 :: "nat \<Rightarrow> kstate \<Rightarrow> kstate" where
  "lcr3 pd s = s\<lparr>cr3 := (cr3 s)(cpunum s := pd), tlb := (tlb s)(cpunum s := Map.empty)\<rparr>"

definition invlpg :: "u32 \<Rightarrow> kstate \<Rightarrow> kstate" where
  "invlpg va s = s\<lparr>tlb := (tlb s)(cpunum s := (tlb s (cpunum s))(PGNUM va := None))\<rparr>"

section \<open>Field equations\<close>

lemma ENVX_mod: "ENVX envid = unat envid mod 1024"
  by (simp add: ENVX_def mask_10_12 [symmetric] take_bit_eq_mask [symmetric]
      take_bit_eq_mod unat_mod_distrib)

lemma ENVX_less [simp]: "ENVX envid < 1024"
  by (simp add: ENVX_mod)

text \<open>What each primitive update leaves alone; automation reads states through these.\<close>

named_theorems kfields "fields of the kernel state after a primitive update"

lemma upd_env_fields [simp, kfields]:
  "envs (upd_env e f s) = (envs s)(e := f (envs s e))"
  "npages (upd_env e f s) = npages s"
  "nextfree (upd_env e f s) = nextfree s"
  "pages (upd_env e f s) = pages s"
  "page_free_list (upd_env e f s) = page_free_list s"
  "phys (upd_env e f s) = phys s"
  "kern_pgdir (upd_env e f s) = kern_pgdir s"
  "mmio_base (upd_env e f s) = mmio_base s"
  "env_free_list (upd_env e f s) = env_free_list s"
  "cpus (upd_env e f s) = cpus s"
  "cpunum (upd_env e f s) = cpunum s"
  "kernel_lock (upd_env e f s) = kernel_lock s"
  "cr3 (upd_env e f s) = cr3 s"
  "tlb (upd_env e f s) = tlb s"
  "stats (upd_env e f s) = stats s"
  "curenv (upd_env e f s) = curenv s"
  "rd (upd_env e f s) = rd s"
  by (auto simp: upd_env_def curenv_def rd_def fun_eq_iff)

lemma upd_page_fields [simp, kfields]:
  "pages (upd_page p g s) = (pages s)(p := g (pages s p))"
  "npages (upd_page p g s) = npages s"
  "nextfree (upd_page p g s) = nextfree s"
  "page_free_list (upd_page p g s) = page_free_list s"
  "phys (upd_page p g s) = phys s"
  "kern_pgdir (upd_page p g s) = kern_pgdir s"
  "mmio_base (upd_page p g s) = mmio_base s"
  "envs (upd_page p g s) = envs s"
  "env_free_list (upd_page p g s) = env_free_list s"
  "cpus (upd_page p g s) = cpus s"
  "cpunum (upd_page p g s) = cpunum s"
  "kernel_lock (upd_page p g s) = kernel_lock s"
  "cr3 (upd_page p g s) = cr3 s"
  "tlb (upd_page p g s) = tlb s"
  "stats (upd_page p g s) = stats s"
  "curenv (upd_page p g s) = curenv s"
  "rd (upd_page p g s) = rd s"
  by (auto simp: upd_page_def curenv_def rd_def fun_eq_iff)

lemma wr_fields [simp, kfields]:
  "rd (wr pg i v s) q j = (if q = pg \<and> j = i then v else rd s q j)"
  "npages (wr pg i v s) = npages s"
  "nextfree (wr pg i v s) = nextfree s"
  "pages (wr pg i v s) = pages s"
  "page_free_list (wr pg i v s) = page_free_list s"
  "kern_pgdir (wr pg i v s) = kern_pgdir s"
  "mmio_base (wr pg i v s) = mmio_base s"
  "envs (wr pg i v s) = envs s"
  "env_free_list (wr pg i v s) = env_free_list s"
  "cpus (wr pg i v s) = cpus s"
  "cpunum (wr pg i v s) = cpunum s"
  "kernel_lock (wr pg i v s) = kernel_lock s"
  "cr3 (wr pg i v s) = cr3 s"
  "tlb (wr pg i v s) = tlb s"
  "stats (wr pg i v s) = stats s"
  "curenv (wr pg i v s) = curenv s"
  by (auto simp: wr_def curenv_def rd_def)

lemma zero_page_fields [simp, kfields]:
  "rd (zero_page pg s) q j = (if q = pg then 0 else rd s q j)"
  "npages (zero_page pg s) = npages s"
  "nextfree (zero_page pg s) = nextfree s"
  "pages (zero_page pg s) = pages s"
  "page_free_list (zero_page pg s) = page_free_list s"
  "kern_pgdir (zero_page pg s) = kern_pgdir s"
  "mmio_base (zero_page pg s) = mmio_base s"
  "envs (zero_page pg s) = envs s"
  "env_free_list (zero_page pg s) = env_free_list s"
  "cpus (zero_page pg s) = cpus s"
  "cpunum (zero_page pg s) = cpunum s"
  "kernel_lock (zero_page pg s) = kernel_lock s"
  "cr3 (zero_page pg s) = cr3 s"
  "tlb (zero_page pg s) = tlb s"
  "stats (zero_page pg s) = stats s"
  "curenv (zero_page pg s) = curenv s"
  by (auto simp: zero_page_def curenv_def rd_def)

lemma set_curenv_fields [simp, kfields]:
  "curenv (set_curenv c s) = c"
  "npages (set_curenv c s) = npages s"
  "nextfree (set_curenv c s) = nextfree s"
  "pages (set_curenv c s) = pages s"
  "page_free_list (set_curenv c s) = page_free_list s"
  "phys (set_curenv c s) = phys s"
  "kern_pgdir (set_curenv c s) = kern_pgdir s"
  "mmio_base (set_curenv c s) = mmio_base s"
  "envs (set_curenv c s) = envs s"
  "env_free_list (set_curenv c s) = env_free_list s"
  "cpunum (set_curenv c s) = cpunum s"
  "kernel_lock (set_curenv c s) = kernel_lock s"
  "cr3 (set_curenv c s) = cr3 s"
  "tlb (set_curenv c s) = tlb s"
  "stats (set_curenv c s) = stats s"
  "rd (set_curenv c s) = rd s"
  by (auto simp: set_curenv_def curenv_def rd_def fun_eq_iff)

lemma lcr3_fields [simp, kfields]:
  "npages (lcr3 pd s) = npages s"
  "nextfree (lcr3 pd s) = nextfree s"
  "pages (lcr3 pd s) = pages s"
  "page_free_list (lcr3 pd s) = page_free_list s"
  "phys (lcr3 pd s) = phys s"
  "kern_pgdir (lcr3 pd s) = kern_pgdir s"
  "mmio_base (lcr3 pd s) = mmio_base s"
  "envs (lcr3 pd s) = envs s"
  "env_free_list (lcr3 pd s) = env_free_list s"
  "cpus (lcr3 pd s) = cpus s"
  "cpunum (lcr3 pd s) = cpunum s"
  "kernel_lock (lcr3 pd s) = kernel_lock s"
  "cr3 (lcr3 pd s) = (cr3 s)(cpunum s := pd)"
  "tlb (lcr3 pd s) = (tlb s)(cpunum s := Map.empty)"
  "stats (lcr3 pd s) = stats s"
  "curenv (lcr3 pd s) = curenv s"
  "rd (lcr3 pd s) = rd s"
  by (auto simp: lcr3_def curenv_def rd_def fun_eq_iff)

lemma invlpg_fields [simp, kfields]:
  "npages (invlpg va s) = npages s"
  "nextfree (invlpg va s) = nextfree s"
  "pages (invlpg va s) = pages s"
  "page_free_list (invlpg va s) = page_free_list s"
  "phys (invlpg va s) = phys s"
  "kern_pgdir (invlpg va s) = kern_pgdir s"
  "mmio_base (invlpg va s) = mmio_base s"
  "envs (invlpg va s) = envs s"
  "env_free_list (invlpg va s) = env_free_list s"
  "cpus (invlpg va s) = cpus s"
  "cpunum (invlpg va s) = cpunum s"
  "kernel_lock (invlpg va s) = kernel_lock s"
  "cr3 (invlpg va s) = cr3 s"
  "stats (invlpg va s) = stats s"
  "curenv (invlpg va s) = curenv s"
  "rd (invlpg va s) = rd s"
  by (auto simp: invlpg_def curenv_def rd_def fun_eq_iff)


lemma direct_fields [simp, kfields]:
  "rd (s\<lparr>page_free_list := a\<rparr>) = rd s" "rd (s\<lparr>nextfree := b\<rparr>) = rd s"
  "rd (s\<lparr>user_mem_check_addr := b\<rparr>) = rd s" "rd (s\<lparr>env_free_list := a\<rparr>) = rd s"
  "rd (s\<lparr>kernel_lock := a\<rparr>) = rd s" "rd (s\<lparr>stats := st\<rparr>) = rd s" "rd (s\<lparr>mmio_base := b\<rparr>) = rd s"
  "curenv (s\<lparr>page_free_list := a\<rparr>) = curenv s" "curenv (s\<lparr>nextfree := b\<rparr>) = curenv s"
  "curenv (s\<lparr>user_mem_check_addr := b\<rparr>) = curenv s" "curenv (s\<lparr>env_free_list := a\<rparr>) = curenv s"
  "curenv (s\<lparr>kernel_lock := a\<rparr>) = curenv s" "curenv (s\<lparr>stats := st\<rparr>) = curenv s"
  "curenv (s\<lparr>mmio_base := b\<rparr>) = curenv s"
  by (simp_all add: rd_def curenv_def fun_eq_iff)

end
