(* ===== verification/PhysPages.thy ===== *)
theory PhysPages
  imports KState
begin

text \<open>
  The physical page allocator of \<open>kern/pmap.c\<close>: \<open>boot_alloc\<close>, \<open>page_init\<close>,
  \<open>page_alloc\<close>, \<open>page_free\<close>, \<open>page_decref\<close>, and the address conversions of
  \<open>kern/pmap.h\<close>. Free pages form a list threaded through \<open>pp_link\<close>; the predicate
  \<open>free_pages\<close> relates it to the list of its members.
\<close>

section \<open>Address conversions (kern/pmap.h)\<close>

definition PADDR :: "u32 \<Rightarrow> u32 fallible" where
  "PADDR kva = (if kva < KERNBASE then Inl (KPanic ''PADDR called with invalid kva'')
     else Inr (kva - KERNBASE))"

definition KADDR :: "kstate \<Rightarrow> u32 \<Rightarrow> u32 fallible" where
  "KADDR s pa = (if npages s \<le> PGNUM pa then Inl (KPanic ''KADDR called with invalid pa'')
     else Inr (pa + KERNBASE))"

definition page2pa :: "nat \<Rightarrow> u32" where
  "page2pa pp = push_bit 12 (word_of_nat pp)"

definition pa2page :: "kstate \<Rightarrow> u32 \<Rightarrow> nat fallible" where
  "pa2page s pa = (if npages s \<le> PGNUM pa then Inl (KPanic ''pa2page called with invalid pa'')
     else Inr (PGNUM pa))"

text \<open>\<open>page2kva\<close> yields the page itself: a kernel pointer to page \<open>p\<close> is named by \<open>p\<close>.\<close>

definition page2kva :: "kstate \<Rightarrow> nat \<Rightarrow> nat fallible" where
  "page2kva s pp = andThen (KADDR s (page2pa pp)) (\<lambda>kva. Inr (PGNUM (kva - KERNBASE)))"

section \<open>The boot allocator and the free list\<close>

definition boot_alloc :: "u32 \<Rightarrow> u32 \<Rightarrow> kstate \<Rightarrow> (u32 \<times> kstate) fallible" where
  "boot_alloc kend n s =
     (let nf = (if nextfree s = 0 then ROUNDUP kend PGSIZE else nextfree s)
      in andThen (PADDR (nf + n)) (\<lambda>last.
           if PGSIZE * word_of_nat (npages s) \<le> last
           then Inl (KPanic ''boot_alloc: Not enough memory'')
           else andThen (KADDR s last) (\<lambda>va.
                  Inr (nf, s\<lparr>nextfree := ROUNDUP va PGSIZE\<rparr>))))"

definition push_page :: "nat \<Rightarrow> kstate \<Rightarrow> kstate" where
  "push_page p s = (upd_page p (\<lambda>pi. pi\<lparr>pp_link := page_free_list s\<rparr>) s)\<lparr>page_free_list := Some p\<rparr>"

definition pop_page :: "kstate \<Rightarrow> kstate" where
  "pop_page s = (case page_free_list s of None \<Rightarrow> s
     | Some p \<Rightarrow> upd_page p (\<lambda>pi. pi\<lparr>pp_link := None\<rparr>) (s\<lparr>page_free_list := pp_link (pages s p)\<rparr>))"

text \<open>
  One iteration of the loop of \<open>page_init\<close>. The last test is evaluated only for pages
  at or above \<open>EXTPHYSMEM\<close>, and it calls \<open>boot_alloc(0)\<close>.
\<close>

definition page_init_step :: "u32 \<Rightarrow> nat \<Rightarrow> kstate \<Rightarrow> kstate fallible" where
  "page_init_step kend i s =
     (let s = upd_page i (\<lambda>pi. pi\<lparr>pp_link := None\<rparr>) s;
          add = (\<lambda>s. (upd_page i (\<lambda>pi. pi\<lparr>pp_link := page_free_list s, pp_ref := 0\<rparr>) s)
                        \<lparr>page_free_list := Some i\<rparr>)
      in if i = 0 then Inr s
         else if PGNUM MPENTRY_PADDR = i then Inr s
         else if PGNUM IOPHYSMEM \<le> i \<and> i < PGNUM EXTPHYSMEM then Inr s
         else if PGNUM EXTPHYSMEM \<le> i
         then andThen (boot_alloc kend 0 s) (\<lambda>(nf, s).
                andThen (PADDR nf) (\<lambda>pa. if i < PGNUM pa then Inr s else Inr (add s)))
         else Inr (add s))"

fun page_init_loop :: "u32 \<Rightarrow> nat \<Rightarrow> nat \<Rightarrow> kstate \<Rightarrow> kstate fallible" where
  "page_init_loop kend i 0 s = Inr s"
| "page_init_loop kend i (Suc n) s =
     andThen (page_init_step kend i s) (page_init_loop kend (Suc i) n)"

definition page_init :: "u32 \<Rightarrow> kstate \<Rightarrow> kstate fallible" where
  "page_init kend s = page_init_loop kend 0 (npages s) s"

definition ALLOC_ZERO :: u32 where [simp]: "ALLOC_ZERO = 1"

definition page_alloc :: "u32 \<Rightarrow> kstate \<Rightarrow> (nat option \<times> kstate) fallible" where
  "page_alloc alloc_flags s =
     (case page_free_list s of
        None \<Rightarrow> Inr (None, s)
      | Some free_page \<Rightarrow>
          let s = s\<lparr>page_free_list := pp_link (pages s free_page)\<rparr>;
              s = upd_page free_page (\<lambda>pi. pi\<lparr>pp_link := None\<rparr>) s
          in if alloc_flags AND ALLOC_ZERO \<noteq> 0
             then andThen (page2kva s free_page) (\<lambda>kva. Inr (Some free_page, zero_page kva s))
             else Inr (Some free_page, s))"

definition page_free :: "nat \<Rightarrow> kstate \<Rightarrow> kstate fallible" where
  "page_free pp s =
     (if pp_ref (pages s pp) \<noteq> 0 then Inl (KPanic ''page_free: pp_ref is nonzero'')
      else if pp_link (pages s pp) \<noteq> None then Inl (KPanic ''page_free: pp_link is not NULL'')
      else Inr ((upd_page pp (\<lambda>pi. pi\<lparr>pp_link := page_free_list s\<rparr>) s)\<lparr>page_free_list := Some pp\<rparr>))"

definition page_decref :: "nat \<Rightarrow> kstate \<Rightarrow> kstate fallible" where
  "page_decref pp s =
     (let s = upd_page pp (\<lambda>pi. pi\<lparr>pp_ref := pp_ref pi - 1\<rparr>) s
      in if pp_ref (pages s pp) = 0 then page_free pp s else Inr s)"

section \<open>The free list as a list\<close>

definition page_link :: "kstate \<Rightarrow> nat \<Rightarrow> nat option" where
  "page_link s p = pp_link (pages s p)"

interpretation pfl: free_list page_free_list page_link push_page pop_page
proof unfold_locales
  fix p q :: nat and s :: kstate
  show "page_free_list (push_page p s) = Some p"
    and "page_link (push_page p s) p = page_free_list s"
    by (simp_all add: push_page_def page_link_def upd_page_def)
  show "q \<noteq> p \<Longrightarrow> page_link (push_page p s) q = page_link s q"
    by (simp add: push_page_def page_link_def upd_page_def)
  show "page_free_list s = Some p \<Longrightarrow> page_free_list (pop_page s) = page_link s p"
    and "page_free_list s = Some p \<Longrightarrow> q \<noteq> p \<Longrightarrow> page_link (pop_page s) q = page_link s q"
    by (simp_all add: pop_page_def page_link_def upd_page_def)
qed

text \<open>
  The allocator's invariant: the free list visits exactly \<open>fl\<close>, its members are real,
  unreferenced pages, and no other page has a link.
\<close>

definition free_pages :: "kstate \<Rightarrow> nat list \<Rightarrow> bool" where
  "free_pages s fl \<longleftrightarrow> chain (page_link s) (page_free_list s) fl
     \<and> (\<forall>p\<in>set fl. p < npages s \<and> pp_ref (pages s p) = 0)
     \<and> (\<forall>p. p \<notin> set fl \<longrightarrow> page_link s p = None)"

lemma free_pages_distinct: "free_pages s fl \<Longrightarrow> distinct fl"
  by (auto simp: free_pages_def intro: chain_distinct)

lemma free_pages_unique: "free_pages s fl \<Longrightarrow> free_pages s fl' \<Longrightarrow> fl = fl'"
  by (auto simp: free_pages_def intro: chain_unique)

lemma free_pages_Nil: "free_pages s [] \<Longrightarrow> page_free_list s = None"
  by (simp add: free_pages_def)

lemma free_pages_Cons: "free_pages s (p # fl) \<Longrightarrow> page_free_list s = Some p \<and> p < npages s"
  by (simp add: free_pages_def)

text \<open>The invariant depends on the allocator's fields only.\<close>

lemma free_pages_cong:
  "pages s = pages t \<Longrightarrow> page_free_list s = page_free_list t \<Longrightarrow> npages s = npages t \<Longrightarrow>
   free_pages s fl = free_pages t fl"
proof -
  assume eq: "pages s = pages t" "page_free_list s = page_free_list t" "npages s = npages t"
  then have "page_link s = page_link t" by (auto simp: page_link_def fun_eq_iff)
  with eq show ?thesis by (simp add: free_pages_def)
qed

lemma page2pa_unat:
  assumes "pp < 1048576" shows "unat (page2pa pp) = 4096 * pp"
proof -
  have "unat (word_of_nat pp :: u32) = pp"
    using assms by (simp add: unat_of_nat)
  then show ?thesis
    using assms by (simp add: page2pa_def push_bit_eq_mult unat_word_ariths)
qed

lemma PGNUM_page2pa [simp]: "pp < 1048576 \<Longrightarrow> PGNUM (page2pa pp) = pp"
  by (simp add: PGNUM_div page2pa_unat)

text \<open>The machine has at most 256 MB of physical memory, as \<open>KERNBASE\<close> leaves room for.\<close>

definition mem_ok :: "kstate \<Rightarrow> bool" where
  "mem_ok s \<longleftrightarrow> npages s \<le> 65536"

lemma page2kva_ok: "mem_ok s \<Longrightarrow> p < npages s \<Longrightarrow> page2kva s p = Inr p"
  by (simp add: page2kva_def KADDR_def mem_ok_def)

lemma free_pages_pop:
  assumes "free_pages s (p # fl)"
  shows "free_pages (pop_page s) fl"
proof -
  have "chain (page_link (pop_page s)) (page_free_list (pop_page s)) fl"
    using assms by (intro pfl.chain_pop [of _ p]) (simp add: free_pages_def)
  moreover have "p \<notin> set fl" using free_pages_distinct [OF assms] by simp
  ultimately show ?thesis
    using assms by (auto simp: free_pages_def pop_page_def page_link_def)
qed

lemma free_pages_push:
  assumes "free_pages s fl" and "p \<notin> set fl" and "p < npages s" and "pp_ref (pages s p) = 0"
  shows "free_pages (push_page p s) (p # fl)"
proof -
  have "chain (page_link (push_page p s)) (page_free_list (push_page p s)) (p # fl)"
    using assms by (intro pfl.chain_push) (simp_all add: free_pages_def)
  then show ?thesis
    using assms by (auto simp: free_pages_def push_page_def page_link_def)
qed


section \<open>Functional behaviour of the operations\<close>

lemma page_alloc_empty: "free_pages s [] \<Longrightarrow> page_alloc flags s = Inr (None, s)"
  by (simp add: page_alloc_def free_pages_Nil)

lemma page_alloc_take:
  assumes "free_pages s (p # fl)" and "mem_ok s"
  shows "page_alloc flags s = Inr (Some p,
           if flags AND ALLOC_ZERO \<noteq> 0 then zero_page p (pop_page s) else pop_page s)"
  using assms free_pages_Cons [OF assms(1)]
  by (auto simp: page_alloc_def pop_page_def mem_ok_def page2kva_ok)

lemma page_free_push:
  "pp_ref (pages s p) = 0 \<Longrightarrow> page_link s p = None \<Longrightarrow> page_free p s = Inr (push_page p s)"
  by (simp add: page_free_def push_page_def page_link_def)

lemma page_free_cases:
  "page_free p s = Inr t \<longleftrightarrow>
     pp_ref (pages s p) = 0 \<and> page_link s p = None \<and> t = push_page p s"
  by (auto simp: page_free_def push_page_def page_link_def)

text \<open>
  Dropping a reference either just lowers the count, or, at the last one, returns the
  page to the free list; the count is a 16-bit counter, so 0 wraps to 65535.
\<close>

lemma page_decref_shared:
  "pp_ref (pages s p) \<noteq> 1 \<Longrightarrow>
   page_decref p s = Inr (upd_page p (\<lambda>pi. pi\<lparr>pp_ref := pp_ref pi - 1\<rparr>) s)"
  by (simp add: page_decref_def Let_def)

lemma page_decref_last:
  "pp_ref (pages s p) = 1 \<Longrightarrow> page_link s p = None \<Longrightarrow>
   page_decref p s = Inr (push_page p (upd_page p (\<lambda>pi. pi\<lparr>pp_ref := 0\<rparr>) s))"
  by (simp add: page_decref_def Let_def page_free_push page_link_def upd_page_def)

text \<open>Well-formedness: the list is some list.\<close>

definition pages_wf :: "kstate \<Rightarrow> bool" where
  "pages_wf s \<longleftrightarrow> mem_ok s \<and> (\<exists>fl. free_pages s fl)"

lemma page_alloc_wf:
  assumes "pages_wf s" and "page_alloc flags s = Inr (r, s')"
  shows "pages_wf s'"
proof -
  from assms(1) obtain fl where fl: "free_pages s fl" and ok: "mem_ok s" by (auto simp: pages_wf_def)
  show ?thesis
  proof (cases fl)
    case Nil
    with fl assms show ?thesis by (simp add: page_alloc_empty)
  next
    case (Cons p fl')
    with fl have "free_pages (pop_page s) fl'" by (simp add: free_pages_pop)
    then have "free_pages (zero_page p (pop_page s)) fl'"
      by (rule iffD1 [OF free_pages_cong, rotated -1]) simp_all
    moreover have "mem_ok (pop_page s)" "mem_ok (zero_page p (pop_page s))"
      using ok by (simp_all add: mem_ok_def pop_page_def split: option.split)
    ultimately show ?thesis
      using \<open>free_pages (pop_page s) fl'\<close> assms(2) page_alloc_take [OF fl [unfolded Cons] ok]
      by (auto simp: pages_wf_def split: if_splits)
  qed
qed

text \<open>What an allocation hands out: a page that was free, is no longer, and is zeroed on request.\<close>

lemma page_alloc_Some:
  assumes "free_pages s fl" and "mem_ok s" and "page_alloc flags s = Inr (Some p, s')"
  shows "\<exists>fl'. fl = p # fl' \<and> free_pages s' fl' \<and> p < npages s \<and> pp_ref (pages s' p) = 0
     \<and> page_link s' p = None
     \<and> (\<forall>i. rd s' p i = (if flags AND ALLOC_ZERO \<noteq> 0 then 0 else rd s p i))
     \<and> (\<forall>q i. q \<noteq> p \<longrightarrow> rd s' q i = rd s q i)
     \<and> (\<forall>q. q \<noteq> p \<longrightarrow> pages s' q = pages s q)"
proof -
  from assms obtain fl' where fl: "fl = p # fl'"
    by (cases fl) (auto simp: page_alloc_empty page_alloc_take)
  let ?t = "pop_page s"
  have s': "s' = (if flags AND ALLOC_ZERO \<noteq> 0 then zero_page p ?t else ?t)"
    using assms page_alloc_take [of s p fl' flags] by (simp add: fl)
  have free: "free_pages ?t fl'" using assms(1) by (simp add: fl free_pages_pop)
  have "free_pages (zero_page p ?t) fl'"
    by (rule iffD1 [OF free_pages_cong free]) simp_all
  moreover have "p < npages s" "page_free_list s = Some p" "pp_ref (pages s p) = 0"
    using assms(1) by (simp_all add: fl free_pages_def)
  ultimately show ?thesis
    using free by (auto simp: s' fl pop_page_def page_link_def)
qed


section \<open>page_init\<close>

lemma unat_page_kva:
  "K < 65536 \<Longrightarrow> unat (KERNBASE + page2pa K) = 0xF0000000 + 4096 * K"
  by (simp add: unat_word_ariths page2pa_unat)

lemma unat_ROUNDUP_page:
  assumes "unat a + 4095 < 4294967296"
  shows "unat (ROUNDUP a PGSIZE) = 4096 * ((unat a + 4095) div 4096)"
proof -
  have "a + PGSIZE - 1 = a + 4095" by simp
  moreover have "unat (a + 4095) = unat a + 4095"
    using assms by (simp add: unat_word_ariths)
  ultimately show ?thesis
    by (simp only: ROUNDUP_def ROUNDDOWN_page PGNUM_div)
qed

lemma ROUNDUP_aligned:
  assumes "unat a = 4096 * k" and "k < 1048576"
  shows "ROUNDUP a PGSIZE = a"
proof -
  have "unat a + 4095 < 4294967296" using assms by simp
  then have "unat (ROUNDUP a PGSIZE) = 4096 * ((unat a + 4095) div 4096)"
    by (rule unat_ROUNDUP_page)
  also have "(unat a + 4095) div 4096 = k" using assms by simp
  finally have "unat (ROUNDUP a PGSIZE) = unat a" by (simp only: assms(1))
  then show ?thesis by (simp only: word_unat_eq_iff)
qed

lemma kva_minus_KERNBASE: "KERNBASE + a - KERNBASE = a"
  by simp

lemma boot_alloc_zero:
  assumes "mem_ok s" and "nextfree s = KERNBASE + page2pa K" and "K < npages s"
  shows "boot_alloc kend 0 s = Inr (nextfree s, s)"
proof -
  have K: "K < 65536" using assms by (simp add: mem_ok_def)
  have u: "unat (nextfree s) = 0xF0000000 + 4096 * K" by (simp only: assms(2) unat_page_kva [OF K])
  then have "nextfree s \<noteq> 0" "\<not> nextfree s < KERNBASE"
    by (auto simp: word_less_nat_alt word_unat_eq_iff)
  moreover have "nextfree s - KERNBASE = page2pa K" by (simp only: assms(2) kva_minus_KERNBASE)
  moreover have "unat (PGSIZE * word_of_nat (npages s)) = 4096 * npages s"
    using assms(1) by (simp add: unat_word_ariths unat_of_nat mem_ok_def)
  then have "\<not> PGSIZE * word_of_nat (npages s) \<le> page2pa K"
    using assms(3) K by (simp add: word_le_nat_alt page2pa_unat)
  moreover have "ROUNDUP (nextfree s) PGSIZE = nextfree s"
    by (rule ROUNDUP_aligned [of _ "983040 + K"]) (use u K in simp_all)
  moreover have "page2pa K + KERNBASE = nextfree s" by (simp add: assms(2))
  ultimately show ?thesis
    using assms(3) K by (simp add: boot_alloc_def PADDR_def KADDR_def Let_def)
qed

text \<open>The pages the comment of \<open>page_init\<close> calls free, when the kernel ends below page \<open>K\<close>.\<close>

definition usable :: "nat \<Rightarrow> nat \<Rightarrow> bool" where
  "usable K i \<longleftrightarrow> i \<noteq> 0 \<and> i \<noteq> 7 \<and> \<not> (160 \<le> i \<and> i < 256) \<and> \<not> (256 \<le> i \<and> i < K)"

lemma page_init_step_cases:
  assumes "mem_ok s" and "nextfree s = KERNBASE + page2pa K" and "K < npages s"
  shows "page_init_step kend i s = Inr
    (if usable K i then push_page i (upd_page i (\<lambda>pi. pi\<lparr>pp_link := None, pp_ref := 0\<rparr>) s)
     else upd_page i (\<lambda>pi. pi\<lparr>pp_link := None\<rparr>) s)"
proof -
  let ?s = "upd_page i (\<lambda>pi. pi\<lparr>pp_link := None\<rparr>) s"
  have boot: "boot_alloc kend 0 ?s = Inr (nextfree s, ?s)"
    using boot_alloc_zero [of ?s K kend] assms by (simp add: mem_ok_def)
  have K: "K < 65536" using assms by (simp add: mem_ok_def)
  have "unat (nextfree s) = 0xF0000000 + 4096 * K" by (simp only: assms(2) unat_page_kva [OF K])
  then have "PADDR (nextfree s) = Inr (page2pa K)"
    by (simp add: PADDR_def word_less_nat_alt) (simp only: assms(2) kva_minus_KERNBASE KERNBASE_def add_diff_cancel_left')
  moreover have "(upd_page i (\<lambda>pi. pi\<lparr>pp_link := page_free_list s, pp_ref := 0\<rparr>) ?s)\<lparr>page_free_list := Some i\<rparr>
      = push_page i (upd_page i (\<lambda>pi. pi\<lparr>pp_link := None, pp_ref := 0\<rparr>) s)"
    by (cases "pages s i") (simp add: push_page_def upd_page_def)
  ultimately show ?thesis
    using K boot by (auto simp: page_init_step_def Let_def usable_def PGNUM_div page2pa_unat)
qed

lemma page_init_loop_correct:
  assumes "mem_ok s" and "nextfree s = KERNBASE + page2pa K" and "K < npages s"
    and "free_pages s (rev (filter (usable K) [0..<i]))" and "i + n = npages s"
  shows "\<exists>s'. page_init_loop kend i n s = Inr s' \<and> npages s' = npages s
     \<and> free_pages s' (rev (filter (usable K) [0..<npages s])) \<and> rd s' = rd s"
  using assms
proof (induction n arbitrary: i s)
  case 0
  then show ?case by simp
next
  case (Suc n)
  let ?u = "upd_page i (\<lambda>pi. pi\<lparr>pp_link := None, pp_ref := 0\<rparr>) s"
  let ?t = "if usable K i then push_page i ?u else upd_page i (\<lambda>pi. pi\<lparr>pp_link := None\<rparr>) s"
  let ?fl = "rev (filter (usable K) [0..<i])"
  have step: "page_init_step kend i s = Inr ?t"
    using Suc.prems by (intro page_init_step_cases) simp_all
  have i: "i \<notin> set ?fl" by simp
  have "page_link s i = None" using Suc.prems(4) i by (auto simp: free_pages_def)
  then have "page_link ?u = page_link s" "page_link (upd_page i (\<lambda>pi. pi\<lparr>pp_link := None\<rparr>) s) = page_link s"
    by (auto simp: page_link_def fun_eq_iff)
  then have u: "free_pages ?u ?fl" "free_pages (upd_page i (\<lambda>pi. pi\<lparr>pp_link := None\<rparr>) s) ?fl"
    using Suc.prems(4) i by (auto simp: free_pages_def)
  have "free_pages ?t (rev (filter (usable K) [0..<Suc i]))"
  proof (cases "usable K i")
    case True
    have "free_pages (push_page i ?u) (i # ?fl)"
      using u(1) i Suc.prems(5) by (intro free_pages_push) simp_all
    with True show ?thesis by simp
  next
    case False
    with u(2) show ?thesis by simp
  qed
  moreover have "npages ?t = npages s" "nextfree ?t = nextfree s" "rd ?t = rd s"
    by (auto simp: push_page_def)
  ultimately show ?case
    using Suc.prems Suc.IH [of ?t "Suc i"] by (simp add: step mem_ok_def)
qed

text \<open>
  \<open>page_init\<close> succeeds on freshly zeroed page structures and leaves a free list that
  holds exactly the pages its comment calls free (not page 0, not the AP entry page, not the
  I/O hole, not the kernel image and its boot-time data), highest page first.
\<close>

theorem page_init_correct:
  assumes "npages s \<le> 65536" and "nextfree s = KERNBASE + page2pa K" and "K < npages s"
    and "page_free_list s = None" and "\<forall>p. pages s p = \<lparr>pp_link = None, pp_ref = 0\<rparr>"
  shows "\<exists>s'. page_init kend s = Inr s'
    \<and> free_pages s' (rev (filter (usable K) [0..<npages s])) \<and> rd s' = rd s"
proof -
  have "free_pages s (rev (filter (usable K) [0..<0]))"
    using assms(4,5) by (simp add: free_pages_def page_link_def)
  then show ?thesis
    using page_init_loop_correct [of s K 0 "npages s" kend] assms by (auto simp: page_init_def mem_ok_def)
qed

text \<open>A machine with 4 MB of memory whose boot data ends at physical page 288.\<close>

definition boot_state :: kstate where
  "boot_state = \<lparr>npages = 1024, npages_basemem = 160, nextfree = 0xF0120000,
     pages = (\<lambda>_. \<lparr>pp_link = None, pp_ref = 0\<rparr>), page_free_list = None,
     phys = (\<lambda>_ _. 0), kern_pgdir = 279, mmio_base = MMIOBASE, user_mem_check_addr = 0,
     envs = (\<lambda>_. zero_env), env_free_list = None,
     cpus = (\<lambda>i. \<lparr>cpu_id = of_nat i, cpu_status = CPU_UNUSED, cpu_env = None\<rparr>), cpunum = 0,
     kernel_lock = None, cr3 = (\<lambda>_. 279), tlb = (\<lambda>_. Map.empty),
     stats = \<lparr>number_of_yields = 0, number_of_switches = 0, number_of_boosts = 0\<rparr>\<rparr>"

theorem page_init_correct_witness:
  "\<exists>s'. page_init 0xF011F000 boot_state = Inr s'
    \<and> free_pages s' (rev (filter (usable 288) [0..<1024])) \<and> rd s' = rd boot_state"
  using page_init_correct [of boot_state 288 "0xF011F000"]
  by (simp add: boot_state_def page2pa_def push_bit_eq_mult)

end
