(* ===== verification/PageTables.thy ===== *)
theory PageTables
  imports PhysPages
begin

text \<open>
  The two-level page tables of \<open>kern/pmap.c\<close>: walking, inserting, looking up and removing
  mappings, TLB invalidation, the static kernel mappings, the MMIO region and the check of
  user pointers. A pointer to a page-table entry is the pair of a page number and a word
  index; \<open>pgdir\<close> arguments are the page numbers of page directories.
\<close>

section \<open>Error codes (inc/error.h)\<close>

datatype kerror =
  E_UNSPECIFIED | E_BAD_ENV | E_INVAL | E_NO_MEM | E_NO_FREE_ENV | E_FAULT
| E_IPC_NOT_RECV | E_EOF

fun kerror_code :: "kerror \<Rightarrow> int" where
  "kerror_code E_UNSPECIFIED = 1"
| "kerror_code E_BAD_ENV = 2"
| "kerror_code E_INVAL = 3"
| "kerror_code E_NO_MEM = 4"
| "kerror_code E_NO_FREE_ENV = 5"
| "kerror_code E_FAULT = 6"
| "kerror_code E_IPC_NOT_RECV = 7"
| "kerror_code E_EOF = 8"

section \<open>The operations\<close>

definition pgdir_walk :: "nat \<Rightarrow> u32 \<Rightarrow> bool \<Rightarrow> kstate \<Rightarrow> ((nat \<times> nat) option \<times> kstate) fallible" where
  "pgdir_walk pgdir va create s =
     (let pdx = PDX va in
      andThen
        (if rd s pgdir pdx = 0 \<and> create
         then andThen (page_alloc ALLOC_ZERO s) (\<lambda>(page, s).
                case page of
                  None \<Rightarrow> Inr s
                | Some page \<Rightarrow>
                    let s = upd_page page (\<lambda>pi. pi\<lparr>pp_ref := pp_ref pi + 1\<rparr>) s
                    in Inr (wr pgdir pdx (page2pa page OR PTE_P OR PTE_W OR PTE_U) s))
         else Inr s)
        (\<lambda>s. if rd s pgdir pdx \<noteq> 0
             then andThen (KADDR s (PTE_ADDR (rd s pgdir pdx))) (\<lambda>kva.
                    Inr (Some (PGNUM (kva - KERNBASE), PTX va), s))
             else Inr (None, s)))"

text \<open>
  \<open>page_lookup\<close> returns the page and, on success only, the entry's address that it stores
  through \<open>pte_store\<close>. Its test is \<open>*pte && PTE_P\<close>, a logical conjunction: an entry counts
  as present when it is not zero.
\<close>

definition page_lookup :: "nat \<Rightarrow> u32 \<Rightarrow> kstate \<Rightarrow> (nat option \<times> (nat \<times> nat) option) fallible" where
  "page_lookup pgdir va s =
     andThen (pgdir_walk pgdir va False s) (\<lambda>(pte, _).
       case pte of
         None \<Rightarrow> Inr (None, None)
       | Some (pt, i) \<Rightarrow>
           if rd s pt i = 0 then Inr (None, None)
           else andThen (pa2page s (PTE_ADDR (rd s pt i))) (\<lambda>p. Inr (Some p, Some (pt, i))))"

definition tlb_invalidate :: "nat \<Rightarrow> u32 \<Rightarrow> kstate \<Rightarrow> kstate" where
  "tlb_invalidate pgdir va s =
     (case curenv s of
        None \<Rightarrow> invlpg va s
      | Some e \<Rightarrow> if env_pgdir (envs s e) = Some pgdir then invlpg va s else s)"

definition page_remove :: "nat \<Rightarrow> u32 \<Rightarrow> kstate \<Rightarrow> kstate fallible" where
  "page_remove pgdir va s =
     andThen (pgdir_walk pgdir va False s) (\<lambda>(pte, s).
     andThen (page_lookup pgdir va s) (\<lambda>(page_rmv, stored).
       let pte = (case stored of None \<Rightarrow> pte | Some a \<Rightarrow> Some a) in
       case pte of
         None \<Rightarrow> Inr s
       | Some (pt, i) \<Rightarrow>
           if rd s pt i = 0 then Inr s
           else case page_rmv of
                  None \<Rightarrow> Inl (KUndef ''page_decref(NULL)'')
                | Some p \<Rightarrow>
                    andThen (page_decref p s) (\<lambda>s. Inr (tlb_invalidate pgdir va (wr pt i 0 s)))))"

definition page_insert ::
  "nat \<Rightarrow> nat \<Rightarrow> u32 \<Rightarrow> u32 \<Rightarrow> kstate \<Rightarrow> ((kerror + unit) \<times> kstate) fallible" where
  "page_insert pgdir pp va perm s =
     andThen (pgdir_walk pgdir va True s) (\<lambda>(page_table, s).
       case page_table of
         None \<Rightarrow> Inr (Inl E_NO_MEM, s)
       | Some (pt, i) \<Rightarrow>
           let s = upd_page pp (\<lambda>pi. pi\<lparr>pp_ref := pp_ref pi + 1\<rparr>) s in
           andThen (page_remove pgdir va s) (\<lambda>s.
             Inr (Inr (), wr pt i (page2pa pp OR perm OR PTE_P) s)))"

text \<open>
  The loop of \<open>boot_map_region\<close> over the pages of the region (its counter does not wrap for
  the sizes up to 256 MB the kernel passes). A null entry pointer is dereferenced.
\<close>

fun boot_map_loop :: "nat \<Rightarrow> u32 \<Rightarrow> u32 \<Rightarrow> u32 \<Rightarrow> nat \<Rightarrow> kstate \<Rightarrow> kstate fallible" where
  "boot_map_loop pgdir va pa perm 0 s = Inr s"
| "boot_map_loop pgdir va pa perm (Suc n) s =
     andThen (pgdir_walk pgdir va True s) (\<lambda>(pte, s).
     andThen (page_remove pgdir va s) (\<lambda>s.
       case pte of
         None \<Rightarrow> Inl (KUndef ''boot_map_region: null pte'')
       | Some (pt, i) \<Rightarrow>
           boot_map_loop pgdir (va + PGSIZE) (pa + PGSIZE) perm n
             (wr pt i (pa OR perm OR PTE_P) s)))"

definition boot_map_region :: "nat \<Rightarrow> u32 \<Rightarrow> u32 \<Rightarrow> u32 \<Rightarrow> u32 \<Rightarrow> kstate \<Rightarrow> kstate fallible" where
  "boot_map_region pgdir va sz pa perm s =
     boot_map_loop pgdir va pa perm ((unat sz + 4095) div 4096) s"

definition mmio_map_region :: "u32 \<Rightarrow> u32 \<Rightarrow> kstate \<Rightarrow> (u32 \<times> kstate) fallible" where
  "mmio_map_region pa sz s =
     (let pa = ROUNDDOWN pa PGSIZE;
          sz = ROUNDUP sz PGSIZE;
          perm = PTE_W OR PTE_P OR PTE_PCD OR PTE_PWT
      in if MMIOLIM \<le> mmio_base s + sz
         then Inl (KPanic ''mmio_map_region: MMIOLIMIT overflow'')
         else andThen (boot_map_region (kern_pgdir s) (mmio_base s) sz pa perm s) (\<lambda>s.
                let s = s\<lparr>mmio_base := mmio_base s + sz\<rparr>
                in Inr (mmio_base s - sz, s)))"

text \<open>
  \<open>user_mem_check\<close>: the loop runs over page addresses from \<open>ROUNDDOWN(va, PGSIZE)\<close> while
  they stay below \<open>va_hi\<close>; both ends are page-aligned, so it makes as many steps as there
  are pages between them (none when the start is not below the end).
\<close>

fun user_mem_check_loop :: "nat \<Rightarrow> u32 \<Rightarrow> u32 \<Rightarrow> u32 \<Rightarrow> nat \<Rightarrow> kstate \<Rightarrow> ((kerror + unit) \<times> kstate) fallible" where
  "user_mem_check_loop pgdir perm va_lo va_act 0 s = Inr (Inr (), s)"
| "user_mem_check_loop pgdir perm va_lo va_act (Suc n) s =
     andThen (pgdir_walk pgdir va_act False s) (\<lambda>(pte, s).
       if (case pte of None \<Rightarrow> True
           | Some (pt, i) \<Rightarrow> rd s pt i AND (perm OR PTE_P) \<noteq> perm OR PTE_P)
       then Inr (Inl E_FAULT, s\<lparr>user_mem_check_addr := if va_lo < va_act then va_act else va_lo\<rparr>)
       else user_mem_check_loop pgdir perm va_lo (va_act + PGSIZE) n s)"

definition user_mem_check :: "nat \<Rightarrow> u32 \<Rightarrow> u32 \<Rightarrow> u32 \<Rightarrow> kstate \<Rightarrow> ((kerror + unit) \<times> kstate) fallible" where
  "user_mem_check pgdir va len perm s =
     (let va_lo = va; va_hi = ROUNDUP (va + len) PGSIZE in
      if UTOP < va_hi then Inr (Inl E_FAULT, s\<lparr>user_mem_check_addr := va_lo\<rparr>)
      else let start = ROUNDDOWN va_lo PGSIZE in
           user_mem_check_loop pgdir perm va_lo start ((unat va_hi - unat start) div 4096) s)"

definition check_va2pa :: "nat \<Rightarrow> u32 \<Rightarrow> kstate \<Rightarrow> u32 fallible" where
  "check_va2pa pgdir va s =
     (let pde = rd s pgdir (PDX va) in
      if pde AND PTE_P = 0 then Inr (NOT 0)
      else if pde AND PTE_PS \<noteq> 0 then Inr (PGADDR (PDX pde) (PTX va) (PGOFF va))
      else andThen (KADDR s (PTE_ADDR pde)) (\<lambda>kva.
             let pte = rd s (PGNUM (kva - KERNBASE)) (PTX va) in
             if pte AND PTE_P = 0 then Inr (NOT 0) else Inr (PTE_ADDR pte)))"

section \<open>Reading entries\<close>

text \<open>The entry that maps virtual page \<open>n\<close>, 0 when its table is missing.\<close>

definition pte_of :: "kstate \<Rightarrow> nat \<Rightarrow> nat \<Rightarrow> u32" where
  "pte_of s pd n =
     (let pde = rd s pd (n div 1024)
      in if pde = 0 then 0 else rd s (PGNUM pde) (n mod 1024))"

lemma PDX_PGNUM: "PDX va = PGNUM va div 1024" and PTX_PGNUM: "PTX va = PGNUM va mod 1024"
  by (simp_all add: PGNUM_split)

lemma pte_of_va:
  "pte_of s pd (PGNUM va) = (if rd s pd (PDX va) = 0 then 0 else rd s (PGNUM (rd s pd (PDX va))) (PTX va))"
  by (simp add: pte_of_def PDX_PGNUM PTX_PGNUM)

lemma drop12_PTE_ADDR: "drop_bit 12 (PTE_ADDR pte) = drop_bit 12 pte"
  by (rule bit_word_eqI)
     (auto simp: PTE_ADDR_def bit_drop_bit_eq bit_and_iff bit_not_iff mask_10_12 [symmetric]
       bit_mask_iff dest: bit_imp_le_length)

lemma PGNUM_PTE_ADDR [simp]: "PGNUM (PTE_ADDR pte) = PGNUM pte"
  by (simp only: PGNUM_def drop12_PTE_ADDR)

lemma drop12_small: "drop_bit 12 perm = 0 \<Longrightarrow> drop_bit 12 (a OR perm) = drop_bit 12 (a :: u32)"
  by (simp add: drop_bit_or)

lemma PGNUM_OR: "drop_bit 12 perm = 0 \<Longrightarrow> PGNUM (a OR perm) = PGNUM a"
  by (simp only: PGNUM_def drop12_small)

text \<open>Permission bits that fit below the page number.\<close>

definition perm_ok :: "u32 \<Rightarrow> bool" where
  "perm_ok perm \<longleftrightarrow> drop_bit 12 perm = 0"

lemma perm_ok_or [simp]: "perm_ok (a OR b) \<longleftrightarrow> perm_ok a \<and> perm_ok b"
  by (auto simp: perm_ok_def drop_bit_or or_eq_0_iff)

lemma perm_ok_flags [simp]: "perm_ok PTE_P" "perm_ok PTE_W" "perm_ok PTE_U" "perm_ok 1" "perm_ok 2" "perm_ok 4" "perm_ok 5" "perm_ok 6" "perm_ok 7"
  by (simp_all add: perm_ok_def)

lemma PGNUM_entry [simp]: "perm_ok perm \<Longrightarrow> p < 1048576 \<Longrightarrow> PGNUM (page2pa p OR perm) = p"
  by (simp add: PGNUM_OR perm_ok_def)

text \<open>A page address has no permission bits.\<close>

lemma page2pa_and_perm:
  assumes "perm_ok m" shows "page2pa p AND m = 0"
proof (rule bit_word_eqI)
  fix n
  have "\<not> bit m n" if "12 \<le> n"
  proof -
    have "bit (drop_bit 12 m) (n - 12) = bit m n" using that by (simp add: bit_drop_bit_eq)
    then show ?thesis using assms by (simp add: perm_ok_def)
  qed
  then show "bit (page2pa p AND m) n = bit (0 :: u32) n"
    by (auto simp: page2pa_def bit_and_iff bit_push_bit_iff)
qed

lemma or_P_nonzero: "x OR PTE_P \<noteq> 0"
  by (simp add: or_eq_0_iff)

lemma or_P_present: "(x OR PTE_P) AND PTE_P \<noteq> 0"
  by (simp add: bit.conj_disj_distrib2 or_eq_0_iff)


section \<open>Reference counts\<close>

text \<open>
  The places of user space that hold a reference to a page: the directory entries and
  the table entries below \<open>UTOP\<close> of the directories \<open>pds\<close>. \<open>slot\<close> reads one of them.
\<close>

datatype slot = PDE nat nat | PTE nat nat

definition NUDIR :: nat where [simp]: "NUDIR = 955"

lemma NUDIR_UTOP: "NUDIR = PDX UTOP"
  by (simp add: PDX_div)

fun slot_val :: "kstate \<Rightarrow> slot \<Rightarrow> u32" where
  "slot_val s (PDE pd i) = rd s pd i"
| "slot_val s (PTE pd n) = pte_of s pd n"

definition slots :: "nat set \<Rightarrow> slot set" where
  "slots pds = (\<lambda>(pd, i). PDE pd i) ` (pds \<times> {..<NUDIR})
     \<union> (\<lambda>(pd, n). PTE pd n) ` (pds \<times> {..<NUDIR * 1024})"

definition holders :: "kstate \<Rightarrow> nat set \<Rightarrow> nat \<Rightarrow> slot set" where
  "holders s pds p = {x \<in> slots pds. slot_val s x \<noteq> 0 \<and> PGNUM (slot_val s x) = p}"

lemma PDE_slots [simp]: "PDE pd i \<in> slots pds \<longleftrightarrow> pd \<in> pds \<and> i < 955"
  and PTE_slots [simp]: "PTE pd n \<in> slots pds \<longleftrightarrow> pd \<in> pds \<and> n < 977920"
  by (auto simp: slots_def)

lemma finite_slots: "finite pds \<Longrightarrow> finite (slots pds)"
  by (simp add: slots_def)

lemma finite_holders: "finite pds \<Longrightarrow> finite (holders s pds p)"
  by (simp add: holders_def finite_slots)

lemma holders_fill:
  assumes "x0 \<in> slots pds" and "slot_val s x0 = 0" and "e \<noteq> 0"
    and "\<And>x. x \<in> slots pds \<Longrightarrow> slot_val s' x = (if x = x0 then e else slot_val s x)"
  shows "holders s' pds q = (if q = PGNUM e then insert x0 (holders s pds q) else holders s pds q)"
    and "x0 \<notin> holders s pds q"
  using assms by (auto simp: holders_def split: if_splits)

lemma card_holders_fill:
  assumes "finite pds" and "x0 \<in> slots pds" and "slot_val s x0 = 0" and "e \<noteq> 0"
    and "\<And>x. x \<in> slots pds \<Longrightarrow> slot_val s' x = (if x = x0 then e else slot_val s x)"
  shows "card (holders s' pds q) = card (holders s pds q) + (if q = PGNUM e then 1 else 0)"
  using holders_fill [of x0 pds s e s' q] assms finite_holders [of pds s q] by auto

text \<open>
  The invariant of the reference counts. \<open>ext p\<close> counts the references the user mappings do
  not account for: the ones held by an environment on its directory, by the kernel's own
  directory, or by an operation that is under way. Page tables are referenced exactly once. The
  kernel's directory comes from the boot allocator: its counter says nothing, and it is neither
  free nor mapped below \<open>UTOP\<close>.
\<close>

definition ref_inv :: "kstate \<Rightarrow> nat set \<Rightarrow> nat list \<Rightarrow> (nat \<Rightarrow> nat) \<Rightarrow> bool" where
  "ref_inv s pds fl ext \<longleftrightarrow> mem_ok s \<and> free_pages s fl \<and> finite pds \<and> kern_pgdir s \<notin> set fl
     \<and> (\<forall>pd\<in>pds. pd < npages s \<and> 0 < ext pd)
     \<and> (\<forall>x\<in>slots pds. slot_val s x \<noteq> 0 \<longrightarrow>
          PGNUM (slot_val s x) < npages s \<and> PGNUM (slot_val s x) \<noteq> kern_pgdir s \<and> slot_val s x AND PTE_P \<noteq> 0)
     \<and> (\<forall>pd\<in>pds. \<forall>i<NUDIR. rd s pd i \<noteq> 0 \<longrightarrow> pp_ref (pages s (PGNUM (rd s pd i))) = 1)
     \<and> (\<forall>p<npages s. p \<noteq> kern_pgdir s \<longrightarrow> unat (pp_ref (pages s p)) = card (holders s pds p) + ext p)"

lemma ref_inv_count:
  "ref_inv s pds fl ext \<Longrightarrow> p < npages s \<Longrightarrow> p \<noteq> kern_pgdir s \<Longrightarrow>
     unat (pp_ref (pages s p)) = card (holders s pds p) + ext p"
  by (simp add: ref_inv_def)

lemma ref_inv_slot:
  "ref_inv s pds fl ext \<Longrightarrow> x \<in> slots pds \<Longrightarrow> slot_val s x \<noteq> 0 \<Longrightarrow> PGNUM (slot_val s x) < npages s"
  by (simp add: ref_inv_def)

lemma ref_inv_not_kern:
  "ref_inv s pds fl ext \<Longrightarrow> x \<in> slots pds \<Longrightarrow> slot_val s x \<noteq> 0 \<Longrightarrow> PGNUM (slot_val s x) \<noteq> kern_pgdir s"
  by (simp add: ref_inv_def)

lemma ref_inv_kern_used: "ref_inv s pds fl ext \<Longrightarrow> kern_pgdir s \<notin> set fl"
  by (simp add: ref_inv_def)

lemma ref_inv_present:
  "ref_inv s pds fl ext \<Longrightarrow> x \<in> slots pds \<Longrightarrow> slot_val s x \<noteq> 0 \<Longrightarrow> slot_val s x AND PTE_P \<noteq> 0"
  by (simp add: ref_inv_def)

lemma ref_inv_finite: "ref_inv s pds fl ext \<Longrightarrow> finite pds"
  by (simp add: ref_inv_def)

text \<open>A table is held by its directory entry and by nothing else.\<close>

lemma table_unique:
  assumes inv: "ref_inv s pds fl ext" and pd: "pd \<in> pds" "i < 955" and ne: "rd s pd i \<noteq> 0"
  defines "t \<equiv> PGNUM (rd s pd i)"
  shows "holders s pds t = {PDE pd i}" and "ext t = 0" and "t \<notin> pds" and "t < npages s"
    and "t \<notin> set fl"
proof -
  from ref_inv_slot [OF inv, of "PDE pd i"] pd ne show t: "t < npages s" by (simp add: t_def)
  from inv pd ne have one: "pp_ref (pages s t) = 1" by (simp add: ref_inv_def t_def)
  moreover have "t \<noteq> kern_pgdir s" using ref_inv_not_kern [OF inv, of "PDE pd i"] pd ne by (simp add: t_def)
  ultimately have sum: "card (holders s pds t) + ext t = 1" using ref_inv_count [OF inv t] by simp
  have mem: "PDE pd i \<in> holders s pds t" using pd ne by (simp add: holders_def t_def)
  moreover have fin: "finite (holders s pds t)" by (rule finite_holders [OF ref_inv_finite [OF inv]])
  ultimately have "0 < card (holders s pds t)" by (auto simp: card_gt_0_iff)
  with sum have card: "card (holders s pds t) = 1" and ext: "ext t = 0" by simp_all
  show "ext t = 0" by (rule ext)
  show "holders s pds t = {PDE pd i}" using card mem by (auto simp: card_1_singleton_iff)
  show "t \<notin> pds" using ext inv by (auto simp: ref_inv_def)
  show "t \<notin> set fl" using one inv by (auto simp: ref_inv_def free_pages_def)
qed

lemma held_not_table:
  assumes "ref_inv s pds fl ext" and "0 < ext p" and "pd \<in> pds" "i < 955" and "rd s pd i \<noteq> 0"
  shows "PGNUM (rd s pd i) \<noteq> p"
  using table_unique(2) [OF assms(1,3,4,5)] assms(2) by auto

lemma free_unheld:
  assumes "ref_inv s pds fl ext" and "p \<in> set fl"
  shows "holders s pds p = {}" and "ext p = 0" and "p \<notin> pds" and "p < npages s"
proof -
  have p: "p < npages s" "pp_ref (pages s p) = 0" using assms by (auto simp: ref_inv_def free_pages_def)
  moreover have "p \<noteq> kern_pgdir s" using ref_inv_kern_used [OF assms(1)] assms(2) by auto
  ultimately have *: "card (holders s pds p) = 0" "ext p = 0" using ref_inv_count [OF assms(1) p(1)] by simp_all
  with finite_holders [OF ref_inv_finite [OF assms(1)]] show "holders s pds p = {}" by simp
  show "ext p = 0" by (rule *)
  show "p < npages s" by (rule p)
  show "p \<notin> pds" using * assms(1) by (auto simp: ref_inv_def)
qed

text \<open>A write into the entry \<open>j\<close> of a table changes exactly one slot.\<close>

lemma slot_val_wr:
  assumes inv: "ref_inv s pds fl ext" and pd: "pd \<in> pds" "i < 955" and ne: "rd s pd i \<noteq> 0"
    and j: "j < 1024" and x: "x \<in> slots pds"
  shows "slot_val (wr (PGNUM (rd s pd i)) j v s) x
       = (if x = PTE pd (i * 1024 + j) then v else slot_val s x)"
proof (cases x)
  case (PDE pd' i')
  with table_unique(3) [OF inv pd ne] x show ?thesis by auto
next
  case (PTE pd' n')
  define t where "t = PGNUM (rd s pd i)"
  have pd': "pd' \<in> pds" "n' div 1024 < 955"
    using x PTE by (simp_all add: div_less_iff_less_mult)
  have same: "rd (wr t j v s) pd' (n' div 1024) = rd s pd' (n' div 1024)"
    using table_unique(3) [OF inv pd ne] pd' by (auto simp: t_def)
  have "PGNUM (rd s pd' (n' div 1024)) = t \<Longrightarrow> rd s pd' (n' div 1024) \<noteq> 0 \<Longrightarrow> pd' = pd \<and> n' div 1024 = i"
  proof -
    assume "PGNUM (rd s pd' (n' div 1024)) = t" "rd s pd' (n' div 1024) \<noteq> 0"
    with pd' have "PDE pd' (n' div 1024) \<in> holders s pds t" by (simp add: holders_def)
    then show "pd' = pd \<and> n' div 1024 = i"
      using table_unique(1) [OF inv pd ne] by (simp add: t_def)
  qed
  moreover have "n' div 1024 = i \<and> n' mod 1024 = j \<longleftrightarrow> n' = i * 1024 + j"
    using j by (auto simp: div_mult_mod_eq) 
  ultimately have "rd s pd' (n' div 1024) \<noteq> 0 \<and> PGNUM (rd s pd' (n' div 1024)) = t \<and> n' mod 1024 = j
      \<longleftrightarrow> pd' = pd \<and> n' = i * 1024 + j"
    using ne t_def by metis
  then have hit: "rd s pd' (n' div 1024) \<noteq> 0 \<Longrightarrow>
      PGNUM (rd s pd' (n' div 1024)) = t \<and> n' mod 1024 = j \<longleftrightarrow> PTE pd' n' = PTE pd (i * 1024 + j)"
    and miss: "rd s pd' (n' div 1024) = 0 \<Longrightarrow> PTE pd' n' \<noteq> PTE pd (i * 1024 + j)"
    by (auto simp only: slot.inject)
  have new: "pte_of (wr t j v s) pd' n' = (if rd s pd' (n' div 1024) = 0 then 0
      else if PGNUM (rd s pd' (n' div 1024)) = t \<and> n' mod 1024 = j then v
      else rd s (PGNUM (rd s pd' (n' div 1024))) (n' mod 1024))"
    unfolding pte_of_def Let_def same by simp
  show ?thesis
  proof (cases "rd s pd' (n' div 1024) = 0")
    case True
    show ?thesis unfolding PTE slot_val.simps t_def [symmetric] new unfolding pte_of_def Let_def
      by (simp only: True miss [OF True] if_True if_False simp_thms)
  next
    case False
    show ?thesis unfolding PTE slot_val.simps t_def [symmetric] new unfolding pte_of_def Let_def
      by (simp only: False hit [OF False] if_False simp_thms)
  qed
qed


lemma slot_val_cong: "rd s' = rd s \<Longrightarrow> slot_val s' = slot_val s"
proof (rule ext)
  fix x assume "rd s' = rd s"
  then show "slot_val s' x = slot_val s x" by (cases x) (simp_all add: pte_of_def Let_def)
qed

lemma pte_of_entry:
  "j < 1024 \<Longrightarrow> pte_of s pd (i * 1024 + j) = (if rd s pd i = 0 then 0 else rd s (PGNUM (rd s pd i)) j)"
  by (simp add: pte_of_def Let_def)

lemma upd_page_slots [simp]: "slot_val (upd_page p f s) = slot_val s"
  by (rule slot_val_cong) simp

lemma holders_cong:
  "(\<And>x. x \<in> slots pds \<Longrightarrow> slot_val s x = slot_val t x) \<Longrightarrow> holders s pds p = holders t pds p"
  by (auto simp: holders_def)

lemma ref_inv_same_refs:
  assumes inv: "ref_inv s pds fl ext" and rd: "rd s' = rd s" and n: "npages s' = npages s"
    and refs: "\<And>p. pp_ref (pages s' p) = pp_ref (pages s p)" and free: "free_pages s' fl'"
    and k: "kern_pgdir s' = kern_pgdir s" "kern_pgdir s \<notin> set fl'"
  shows "ref_inv s' pds fl' ext"
proof -
  have "slot_val s' = slot_val s" by (rule slot_val_cong [OF rd])
  moreover from this have "holders s' pds p = holders s pds p" for p by (simp add: holders_def)
  ultimately show ?thesis using inv free k by (simp add: ref_inv_def rd n refs mem_ok_def)
qed

text \<open>Taking a reference.\<close>

lemma unat_succ16: "unat (w :: u16) < 65535 \<Longrightarrow> unat (w + 1) = unat w + 1"
  by (simp add: unat_word_ariths)

lemma unat_pred16: "0 < unat (w :: u16) \<Longrightarrow> unat (w - 1) = unat w - 1"
  by (simp add: unat_gt_0 unat_sub word_le_nat_alt Suc_leI unat_minus_one)

lemma ref_inv_take:
  assumes inv: "ref_inv s pds fl ext" and p: "p < npages s" "p \<notin> set fl"
    and room: "unat (pp_ref (pages s p)) < 65535"
    and nt: "\<And>pd i. pd \<in> pds \<Longrightarrow> i < 955 \<Longrightarrow> rd s pd i \<noteq> 0 \<Longrightarrow> PGNUM (rd s pd i) \<noteq> p"
  shows "ref_inv (upd_page p (\<lambda>pi. pi\<lparr>pp_ref := pp_ref pi + 1\<rparr>) s) pds fl (ext(p := ext p + 1))"
proof -
  let ?s = "upd_page p (\<lambda>pi. pi\<lparr>pp_ref := pp_ref pi + 1\<rparr>) s"
  have "page_link ?s = page_link s" by (auto simp: page_link_def fun_eq_iff)
  then have "free_pages ?s fl"
    using inv p by (auto simp: ref_inv_def free_pages_def)
  moreover have "holders ?s pds q = holders s pds q" for q by (rule holders_cong) simp
  ultimately show ?thesis
    using inv nt room by (auto simp: ref_inv_def mem_ok_def unat_succ16)
qed

text \<open>Giving a reference back.\<close>

lemma ref_inv_drop:
  assumes inv: "ref_inv s pds fl ext" and p: "p < npages s" and ext: "0 < ext p"
    and pd: "p \<in> pds \<Longrightarrow> 1 < ext p" and pk: "p \<noteq> kern_pgdir s"
  shows "\<exists>s' fl'. page_decref p s = Inr s' \<and> ref_inv s' pds fl' (ext(p := ext p - 1))
     \<and> fl' = (if pp_ref (pages s p) = 1 then p # fl else fl)
     \<and> rd s' = rd s \<and> npages s' = npages s \<and> (\<forall>q. q \<noteq> p \<longrightarrow> pages s' q = pages s q)
     \<and> pp_ref (pages s' p) = pp_ref (pages s p) - 1
     \<and> envs s' = envs s \<and> cpus s' = cpus s \<and> cpunum s' = cpunum s"
proof -
  have count: "unat (pp_ref (pages s p)) = card (holders s pds p) + ext p"
    by (rule ref_inv_count [OF inv p pk])
  have notfl: "p \<notin> set fl" using free_unheld(2) [OF inv] ext by auto
  have link: "page_link s p = None" using inv notfl by (auto simp: ref_inv_def free_pages_def)
  have tabs: "PGNUM (rd s pd i) \<noteq> p" if "pd \<in> pds" "i < 955" "rd s pd i \<noteq> 0" for pd i
    by (rule held_not_table [OF inv ext that])
  let ?d = "upd_page p (\<lambda>pi. pi\<lparr>pp_ref := pp_ref pi - 1\<rparr>) s"
  have dec: "unat (pp_ref (pages s p) - 1) = card (holders s pds p) + (ext p - 1)"
    using count ext by (simp add: unat_pred16)
  have dlink: "page_link ?d = page_link s" by (auto simp: page_link_def fun_eq_iff)
  have hold: "holders ?d pds q = holders s pds q" for q by (rule holders_cong) simp
  have free_d: "free_pages ?d fl" using inv notfl dlink by (auto simp: ref_inv_def free_pages_def)
  have inv_d: "ref_inv ?d pds fl (ext(p := ext p - 1))"
    using inv free_d tabs dec pd hold by (auto simp: ref_inv_def mem_ok_def)
  show ?thesis
  proof (cases "pp_ref (pages s p) = 1")
    case False
    then show ?thesis using inv_d by (simp add: page_decref_shared)
  next
    case True
    let ?f = "push_page p ?d"
    have zero: "upd_page p (\<lambda>pi. pi\<lparr>pp_ref := 0\<rparr>) s = ?d"
      using True by (simp add: upd_page_def)
    have run: "page_decref p s = Inr ?f" using page_decref_last [OF True link] by (simp add: zero)
    have free_f: "free_pages ?f (p # fl)"
      using True p by (intro free_pages_push [OF free_d notfl]) simp_all
    have "ref_inv ?f pds (p # fl) (ext(p := ext p - 1))"
      by (rule ref_inv_same_refs [OF inv_d _ _ _ free_f])
        (use pk ref_inv_kern_used [OF inv] in \<open>simp_all add: push_page_def\<close>)
    with run True show ?thesis by (simp add: push_page_def)
  qed
qed

text \<open>Emptying and filling an entry moves a reference between the operation and the table.\<close>

lemma ref_inv_pages_cong:
  assumes "pages s' = pages s" "page_free_list s' = page_free_list s" "npages s' = npages s"
  shows "free_pages s' fl = free_pages s fl" "mem_ok s' = mem_ok s"
  using assms free_pages_cong [of s' s] by (simp_all add: mem_ok_def)

lemma ref_inv_clear:
  assumes inv: "ref_inv s pds fl ext" and pd: "pd \<in> pds" "i < 955" and ne: "rd s pd i \<noteq> 0"
    and j: "j < 1024" and e: "rd s (PGNUM (rd s pd i)) j \<noteq> 0"
  defines "p \<equiv> PGNUM (rd s (PGNUM (rd s pd i)) j)"
  shows "ref_inv (wr (PGNUM (rd s pd i)) j 0 s) pds fl (ext(p := ext p + 1))" and "p < npages s"
proof -
  let ?x = "PTE pd (i * 1024 + j)" and ?s = "wr (PGNUM (rd s pd i)) j 0 s"
  have x: "?x \<in> slots pds" using pd j by simp
  have val: "slot_val s ?x = rd s (PGNUM (rd s pd i)) j"
    using j ne by (simp add: pte_of_entry)
  from ref_inv_slot [OF inv x, unfolded val] e show p: "p < npages s" by (simp add: p_def)
  have upd: "slot_val ?s y = (if y = ?x then 0 else slot_val s y)" if "y \<in> slots pds" for y
    by (rule slot_val_wr [OF inv pd ne j that])
  have "slot_val ?s ?x = 0" using upd [OF x] by simp
  moreover have "slot_val s ?x \<noteq> 0" unfolding val by (rule e)
  moreover have "slot_val s y = (if y = ?x then slot_val s ?x else slot_val ?s y)" if "y \<in> slots pds" for y
    using upd [OF that] by simp
  ultimately have "card (holders s pds q) = card (holders ?s pds q) + (if q = PGNUM (slot_val s ?x) then 1 else 0)" for q
    by (rule card_holders_fill [OF ref_inv_finite [OF inv] x])
  then have "card (holders s pds q) = card (holders ?s pds q) + (if q = p then 1 else 0)" for q
    by (simp only: val p_def)
  moreover have "rd ?s pd' i' = rd s pd' i'" if "pd' \<in> pds" for pd' i'
    using table_unique(3) [OF inv pd ne] that by auto
  ultimately show "ref_inv ?s pds fl (ext(p := ext p + 1))"
    using inv upd ref_inv_pages_cong [of ?s s] by (auto simp: ref_inv_def split: if_splits)
qed

lemma ref_inv_fill:
  assumes inv: "ref_inv s pds fl ext" and pd: "pd \<in> pds" "i < 955" and ne: "rd s pd i \<noteq> 0"
    and j: "j < 1024" and old: "rd s (PGNUM (rd s pd i)) j = 0"
    and e: "e AND PTE_P \<noteq> 0" "PGNUM e = p" and p: "p < npages s" and ext: "0 < ext p"
    and own: "p \<in> pds \<Longrightarrow> 1 < ext p" and pk: "p \<noteq> kern_pgdir s"
  shows "ref_inv (wr (PGNUM (rd s pd i)) j e s) pds fl (ext(p := ext p - 1))"
proof -
  let ?x = "PTE pd (i * 1024 + j)" and ?s = "wr (PGNUM (rd s pd i)) j e s"
  have x: "?x \<in> slots pds" using pd j by simp
  have val: "slot_val s ?x = 0" using j ne old by (simp add: pte_of_entry)
  have e0: "e \<noteq> 0" using e by auto
  have upd: "slot_val ?s y = (if y = ?x then e else slot_val s y)" if "y \<in> slots pds" for y
    by (rule slot_val_wr [OF inv pd ne j that])
  have "card (holders ?s pds q) = card (holders s pds q) + (if q = p then 1 else 0)" for q
    using card_holders_fill [OF ref_inv_finite [OF inv] x val e0, of ?s q] upd e by auto
  moreover have "rd ?s pd' i' = rd s pd' i'" if "pd' \<in> pds" for pd' i'
    using table_unique(3) [OF inv pd ne] that by auto
  ultimately show ?thesis
    using inv upd e p ext own pk ref_inv_pages_cong [of ?s s] by (auto simp: ref_inv_def split: if_splits)
qed

end
