(* ===== verification/AddrSpace.thy ===== *)
theory AddrSpace
  imports PageTables
begin

text \<open>
  What the page-table operations of \<open>kern/pmap.c\<close> do to an address space, on states whose
  reference counts are exact: \<open>page_insert\<close> and \<open>page_remove\<close> change one virtual page of
  one directory, keep every count exact, and fail without a trace when a page table cannot
  be allocated.
\<close>

section \<open>What the operations leave alone\<close>

definition vm_frame :: "kstate \<Rightarrow> kstate \<Rightarrow> bool" where
  "vm_frame s s' \<longleftrightarrow> npages s' = npages s \<and> envs s' = envs s \<and> env_free_list s' = env_free_list s
     \<and> cpus s' = cpus s \<and> cpunum s' = cpunum s \<and> kern_pgdir s' = kern_pgdir s \<and> cr3 s' = cr3 s
     \<and> kernel_lock s' = kernel_lock s \<and> stats s' = stats s \<and> mmio_base s' = mmio_base s"

lemma vm_frame_refl [simp, intro]: "vm_frame s s"
  by (simp add: vm_frame_def)

lemma vm_frame_trans: "vm_frame s t \<Longrightarrow> vm_frame t u \<Longrightarrow> vm_frame s u"
  by (simp add: vm_frame_def)

lemma vm_frame_curenv: "vm_frame s s' \<Longrightarrow> curenv s' = curenv s"
  by (simp add: vm_frame_def curenv_def)

lemma vm_frame_prims [simp]:
  "vm_frame s (wr pg i v s)" "vm_frame s (upd_page p f s)" "vm_frame s (zero_page pg s)"
  "vm_frame s (push_page p s)" "vm_frame s (pop_page s)" "vm_frame s (invlpg va s)"
  "vm_frame s (tlb_invalidate pd va s)"
  by (simp_all add: vm_frame_def push_page_def pop_page_def tlb_invalidate_def split: option.split)

lemma page_free_frame: "page_free p s = Inr s' \<Longrightarrow> vm_frame s s' \<and> rd s' = rd s \<and> tlb s' = tlb s"
  by (auto simp: page_free_cases) (simp_all add: push_page_def)

lemma page_decref_frame: "page_decref p s = Inr s' \<Longrightarrow> vm_frame s s' \<and> rd s' = rd s \<and> tlb s' = tlb s"
  by (auto simp: page_decref_def Let_def vm_frame_def dest!: page_free_frame split: if_splits)

lemma tlb_invalidate_fields [simp]:
  "rd (tlb_invalidate pd va s) = rd s" "pages (tlb_invalidate pd va s) = pages s"
  "page_free_list (tlb_invalidate pd va s) = page_free_list s"
  "npages (tlb_invalidate pd va s) = npages s" "cpunum (tlb_invalidate pd va s) = cpunum s"
  "kern_pgdir (tlb_invalidate pd va s) = kern_pgdir s"
  by (simp_all add: tlb_invalidate_def split: option.split)

section \<open>Walking\<close>

lemma pgdir_walk_present:
  assumes "rd s pd (PDX va) \<noteq> 0" and "PGNUM (rd s pd (PDX va)) < npages s"
  shows "pgdir_walk pd va create s = Inr (Some (PGNUM (rd s pd (PDX va)), PTX va), s)"
  using assms by (simp add: pgdir_walk_def KADDR_def Let_def)

lemma pgdir_walk_absent:
  "rd s pd (PDX va) = 0 \<Longrightarrow> pgdir_walk pd va False s = Inr (None, s)"
  by (simp add: pgdir_walk_def)

lemma pgdir_walk_no_memory:
  "rd s pd (PDX va) = 0 \<Longrightarrow> free_pages s [] \<Longrightarrow> pgdir_walk pd va create s = Inr (None, s)"
  by (simp add: pgdir_walk_def page_alloc_empty Let_def)

text \<open>A walk that creates takes one free page, zeroes it and hangs it in the directory.\<close>

definition hang_table :: "nat \<Rightarrow> nat \<Rightarrow> nat \<Rightarrow> kstate \<Rightarrow> kstate" where
  "hang_table pd i t s = wr pd i (page2pa t OR PTE_P OR PTE_W OR PTE_U)
     (upd_page t (\<lambda>pi. pi\<lparr>pp_ref := pp_ref pi + 1\<rparr>) (zero_page t (pop_page s)))"

lemma table_entry:
  assumes "t < 65536"
  shows "PGNUM (page2pa t OR PTE_P OR PTE_W OR PTE_U) = t"
    and "page2pa t OR PTE_P OR PTE_W OR PTE_U \<noteq> 0"
    and "(page2pa t OR PTE_P OR PTE_W OR PTE_U) AND PTE_P \<noteq> 0"
  using assms by (simp_all add: or.assoc or_eq_0_iff bit.conj_disj_distrib2)

lemma rd_pop_page [simp]: "rd (pop_page s) = rd s"
  by (simp add: pop_page_def split: option.split)

lemma npages_pop_page [simp]: "npages (pop_page s) = npages s"
  by (simp add: pop_page_def split: option.split)

lemma hang_table_rd:
  "rd (hang_table pd i t s) q j = (if q = pd \<and> j = i then page2pa t OR PTE_P OR PTE_W OR PTE_U
     else if q = t then 0 else rd s q j)"
  by (simp add: hang_table_def)

lemma hang_table_frame [simp]: "vm_frame s (hang_table pd i t s)"
  by (simp add: hang_table_def vm_frame_def pop_page_def split: option.split)

lemma npages_hang_table [simp]: "npages (hang_table pd i t s) = npages s" "kern_pgdir (hang_table pd i t s) = kern_pgdir s"
  by (simp_all add: hang_table_def pop_page_def split: option.split)

lemma pgdir_walk_create:
  assumes zero: "rd s pd (PDX va) = 0" and free: "free_pages s (t # fl)" and ok: "mem_ok s"
  shows "pgdir_walk pd va True s = Inr (Some (t, PTX va), hang_table pd (PDX va) t s)"
proof -
  have t: "t < npages s" "t < 65536" using free_pages_Cons [OF free] ok by (simp_all add: mem_ok_def)
  then show ?thesis
    using zero page_alloc_take [OF free ok, of ALLOC_ZERO] table_entry [of t]
    by (simp add: pgdir_walk_def Let_def KADDR_def hang_table_def)
qed

text \<open>The new table keeps the counts exact and maps nothing.\<close>

lemma slot_val_hang_table:
  assumes inv: "ref_inv s pds (t # fl) ext" and pd: "pd \<in> pds" "i < 955" and zero: "rd s pd i = 0"
    and x: "x \<in> slots pds"
  shows "slot_val (hang_table pd i t s) x =
     (if x = PDE pd i then page2pa t OR PTE_P OR PTE_W OR PTE_U else slot_val s x)"
proof (cases x)
  case (PDE pd' i')
  with free_unheld(3) [OF inv, of t] x show ?thesis by (auto simp: hang_table_rd)
next
  case (PTE pd' n')
  have t: "t < 65536" using free_unheld(4) [OF inv, of t] inv by (simp add: ref_inv_def mem_ok_def)
  have x': "pd' \<in> pds" "n' div 1024 < 955" using x PTE by (simp_all add: div_less_iff_less_mult)
  have nt: "pd' \<noteq> t" using x' free_unheld(3) [OF inv, of t] by auto
  show ?thesis
  proof (cases "pd' = pd \<and> n' div 1024 = i")
    case True
    have "t \<noteq> pd" using pd free_unheld(3) [OF inv, of t] by auto
    with True PTE zero table_entry [OF t] show ?thesis
      by (auto simp: pte_of_def hang_table_rd Let_def)
  next
    case False
    then have pde: "rd (hang_table pd i t s) pd' (n' div 1024) = rd s pd' (n' div 1024)"
      using nt by (auto simp: hang_table_rd)
    show ?thesis
    proof (cases "rd s pd' (n' div 1024) = 0")
      case True
      with pde PTE show ?thesis by (simp add: pte_of_def Let_def)
    next
      case ne: False
      note u = table_unique [OF inv x' ne]
      have "PGNUM (rd s pd' (n' div 1024)) \<noteq> t" using u(5) by auto
      moreover have "PGNUM (rd s pd' (n' div 1024)) \<noteq> pd" using u(3) pd by auto
      ultimately show ?thesis using pde PTE ne
        by (simp add: pte_of_def hang_table_rd Let_def)
    qed
  qed
qed


lemma ref_inv_hang_table:
  assumes inv: "ref_inv s pds (t # fl) ext" and pd: "pd \<in> pds" "i < 955" and zero: "rd s pd i = 0"
  shows "ref_inv (hang_table pd i t s) pds fl ext"
proof -
  let ?s = "hang_table pd i t s" and ?e = "page2pa t OR PTE_P OR PTE_W OR PTE_U"
  have free: "free_pages s (t # fl)" and ok: "mem_ok s" using inv by (simp_all add: ref_inv_def)
  have t: "t < npages s" "t < 65536" using free_unheld(4) [OF inv, of t] ok by (simp_all add: mem_ok_def)
  have dist: "t \<notin> set fl" using free_pages_distinct [OF free] by simp
  note upd = slot_val_hang_table [OF inv pd zero]
  have card: "card (holders ?s pds q) = card (holders s pds q) + (if q = t then 1 else 0)" for q
    using card_holders_fill [OF ref_inv_finite [OF inv] _ _ table_entry(2) [OF t(2)], of "PDE pd i" s ?s q]
      pd zero upd table_entry(1) [OF t(2)] by simp
  have ref0: "pp_ref (pages s t) = 0" using free by (simp add: free_pages_def)
  have refs: "pp_ref (pages ?s q) = (if q = t then 1 else pp_ref (pages s q))" for q
    using ref0 free_pages_Cons [OF free] by (simp add: hang_table_def pop_page_def)
  have "free_pages (pop_page s) fl" by (rule free_pages_pop [OF free])
  then have "free_pages ?s fl"
    using dist by (auto simp: free_pages_def hang_table_def page_link_def [abs_def] elim!: chain_cong)
  moreover have "unat (pp_ref (pages ?s q)) = card (holders ?s pds q) + ext q" if "q < npages s" "q \<noteq> kern_pgdir s" for q
    using ref_inv_count [OF inv that] card ref0 by (auto simp: refs)
  moreover have k: "kern_pgdir s \<noteq> t" "kern_pgdir s \<notin> set fl" using ref_inv_kern_used [OF inv] by auto
  moreover have "PGNUM (slot_val ?s x) < npages s \<and> PGNUM (slot_val ?s x) \<noteq> kern_pgdir s \<and> slot_val ?s x AND PTE_P \<noteq> 0"
    if "x \<in> slots pds" "slot_val ?s x \<noteq> 0" for x
  proof (cases "x = PDE pd i")
    case True
    then show ?thesis using upd [OF that(1)] table_entry [OF t(2)] t k by simp
  next
    case False
    then show ?thesis
      using that upd [OF that(1)] ref_inv_slot [OF inv that(1)] ref_inv_present [OF inv that(1)]
        ref_inv_not_kern [OF inv that(1)] by simp
  qed
  moreover have "pp_ref (pages ?s (PGNUM (rd ?s pd' i'))) = 1"
    if "pd' \<in> pds" "i' < 955" "rd ?s pd' i' \<noteq> 0" for pd' i'
    using that upd [of "PDE pd' i'"] table_entry(1) [OF t(2)] inv by (auto simp: refs ref_inv_def split: if_splits)
  ultimately show ?thesis using inv ok by (simp add: ref_inv_def mem_ok_def)
qed

text \<open>The directory entries the kernel makes allow everything to everyone; the tables decide.\<close>

definition open_pde :: "u32 \<Rightarrow> bool" where
  "open_pde e \<longleftrightarrow> e AND PTE_P \<noteq> 0 \<and> e AND PTE_W \<noteq> 0 \<and> e AND PTE_U \<noteq> 0"

lemma open_pde_new: "open_pde (x OR PTE_P OR PTE_W OR PTE_U)"
  by (simp add: open_pde_def bit.conj_disj_distrib2 or_eq_0_iff)

text \<open>
  Walking with creation, summarised: either nothing happens and there is no table, or the
  entry's address is returned on a state that maps exactly the same pages.
\<close>

lemma pgdir_walk_create_cases:
  assumes inv: "ref_inv s pds fl ext" and pd: "pd \<in> pds" "PDX va < 955"
  obtains (none) "rd s pd (PDX va) = 0" "fl = []" "pgdir_walk pd va True s = Inr (None, s)"
  | (some) s1 fl1 where "pgdir_walk pd va True s = Inr (Some (PGNUM (rd s1 pd (PDX va)), PTX va), s1)"
      "ref_inv s1 pds fl1 ext" "rd s1 pd (PDX va) \<noteq> 0" "vm_frame s s1" "set fl1 \<subseteq> set fl"
      "\<And>q. q \<notin> set fl \<Longrightarrow> pp_ref (pages s1 q) = pp_ref (pages s q)"
      "\<And>pd' n. pd' \<in> pds \<Longrightarrow> n < 977920 \<Longrightarrow> pte_of s1 pd' n = pte_of s pd' n"
      "\<And>q j. q \<notin> set fl \<Longrightarrow> (q, j) \<noteq> (pd, PDX va) \<Longrightarrow> rd s1 q j = rd s q j" 
      "tlb s1 = tlb s"
      "\<And>q j. rd s q j \<noteq> 0 \<Longrightarrow> q \<notin> set fl \<Longrightarrow> rd s1 q j = rd s q j"
      "\<And>pd' i. pd' \<in> pds \<Longrightarrow> i < 955 \<Longrightarrow> rd s1 pd' i \<noteq> rd s pd' i \<Longrightarrow> PGNUM (rd s1 pd' i) \<in> set fl"
      "fl1 = (if rd s pd (PDX va) = 0 then tl fl else fl)"
      "rd s pd (PDX va) = 0 \<Longrightarrow> open_pde (rd s1 pd (PDX va))"
proof (cases "rd s pd (PDX va) = 0")
  case False
  have "PGNUM (rd s pd (PDX va)) < npages s" by (rule table_unique(4) [OF inv pd False])
  from pgdir_walk_present [OF False this] inv False show ?thesis by (intro some) auto
next
  case zero: True
  show ?thesis
  proof (cases fl)
    case Nil
    moreover have "pgdir_walk pd va True s = Inr (None, s)"
      by (rule pgdir_walk_no_memory [OF zero]) (use inv Nil in \<open>simp add: ref_inv_def\<close>)
    ultimately show ?thesis using zero by (rule none [rotated])
  next
    case (Cons t fl')
    let ?s = "hang_table pd (PDX va) t s"
    note inv' = inv [unfolded Cons]
    have ok: "free_pages s (t # fl')" "mem_ok s" using inv' by (simp_all add: ref_inv_def)
    have t: "t < 65536" using free_unheld(4) [OF inv', of t] ok by (simp add: mem_ok_def)
    have pde: "rd ?s pd (PDX va) = page2pa t OR PTE_P OR PTE_W OR PTE_U" by (simp add: hang_table_rd)
    show ?thesis
    proof (rule some [of ?s fl'])
      show "pgdir_walk pd va True s = Inr (Some (PGNUM (rd ?s pd (PDX va)), PTX va), ?s)"
        unfolding pde table_entry(1) [OF t] by (rule pgdir_walk_create [OF zero ok])
      show "ref_inv ?s pds fl' ext" by (rule ref_inv_hang_table [OF inv' pd zero])
      show "rd ?s pd (PDX va) \<noteq> 0" unfolding pde by (rule table_entry(2) [OF t])
      show "pp_ref (pages ?s q) = pp_ref (pages s q)" if "q \<notin> set fl" for q
        using that Cons free_pages_Cons [OF ok(1)] by (simp add: hang_table_def pop_page_def)
      show "pte_of ?s pd' n = pte_of s pd' n" if "pd' \<in> pds" "n < 977920" for pd' n
        using slot_val_hang_table [OF inv' pd zero, of "PTE pd' n"] that by simp
      show "rd ?s q j = rd s q j" if "q \<notin> set fl" "(q, j) \<noteq> (pd, PDX va)" for q j
        using that Cons by (auto simp: hang_table_rd)
      show "rd ?s q j = rd s q j" if "rd s q j \<noteq> 0" "q \<notin> set fl" for q j
        using that Cons zero by (auto simp: hang_table_rd)
      show "open_pde (rd ?s pd (PDX va))" unfolding pde by (rule open_pde_new)
      show "tlb ?s = tlb s" by (simp add: hang_table_def pop_page_def split: option.split)
      show "PGNUM (rd ?s pd' i) \<in> set fl" if "pd' \<in> pds" "i < 955" "rd ?s pd' i \<noteq> rd s pd' i" for pd' i
        using that slot_val_hang_table [OF inv' pd zero, of "PDE pd' i"] table_entry(1) [OF t] Cons
        by (simp split: if_splits)
    qed (use Cons zero in auto)
  qed
qed

section \<open>Unmapping\<close>

text \<open>Dropping the mapped page's reference and clearing the entry can be done in either order.\<close>

lemma page_decref_wr:
  "page_decref p (wr pt i v s) = andThen (page_decref p s) (\<lambda>s. Inr (wr pt i v s))"
  by (simp add: page_decref_def page_free_def Let_def upd_page_def wr_def)

lemma page_lookup_present:
  assumes "rd s pd (PDX va) \<noteq> 0" and "PGNUM (rd s pd (PDX va)) < npages s"
    and "rd s (PGNUM (rd s pd (PDX va))) (PTX va) \<noteq> 0"
    and "PGNUM (rd s (PGNUM (rd s pd (PDX va))) (PTX va)) < npages s"
  shows "page_lookup pd va s = Inr (Some (PGNUM (rd s (PGNUM (rd s pd (PDX va))) (PTX va))),
           Some (PGNUM (rd s pd (PDX va)), PTX va))"
  using assms by (simp add: page_lookup_def pgdir_walk_present pa2page_def)

lemma page_lookup_absent:
  "rd s pd (PDX va) = 0 \<Longrightarrow> page_lookup pd va s = Inr (None, None)"
  by (simp add: page_lookup_def pgdir_walk_absent)

lemma page_lookup_empty:
  assumes "rd s pd (PDX va) \<noteq> 0" and "PGNUM (rd s pd (PDX va)) < npages s"
    and "rd s (PGNUM (rd s pd (PDX va))) (PTX va) = 0"
  shows "page_lookup pd va s = Inr (None, None)"
  using assms by (simp add: page_lookup_def pgdir_walk_present)


lemma user_va: "va < UTOP \<Longrightarrow> PDX va < 955 \<and> PGNUM va < 977920"
  by (simp add: word_less_nat_alt PDX_div PGNUM_div div_less_iff_less_mult)

definition pte_at :: "kstate \<Rightarrow> nat \<Rightarrow> u32 \<Rightarrow> u32" where
  "pte_at s pd va = pte_of s pd (PGNUM va)"

lemma pte_at_rd:
  "pte_at s pd va = (if rd s pd (PDX va) = 0 then 0 else rd s (PGNUM (rd s pd (PDX va))) (PTX va))"
  by (simp add: pte_at_def pte_of_va)

lemma pte_at_upd_page [simp]: "pte_at (upd_page p f s) pd va = pte_at s pd va"
  by (metis pte_at_def slot_val.simps(2) upd_page_slots)

lemma page_remove_nothing:
  assumes inv: "ref_inv s pds fl ext" and pd: "pd \<in> pds" "va < UTOP" and none: "pte_at s pd va = 0"
  shows "page_remove pd va s = Inr s"
proof (cases "rd s pd (PDX va) = 0")
  case True
  then show ?thesis by (simp add: page_remove_def pgdir_walk_absent page_lookup_absent)
next
  case False
  have "PGNUM (rd s pd (PDX va)) < npages s"
    using table_unique(4) [OF inv pd(1) _ False] user_va [OF pd(2)] by simp
  with False none show ?thesis
    by (simp add: page_remove_def pgdir_walk_present page_lookup_empty pte_at_rd)
qed

lemma page_remove_mapped:
  assumes inv: "ref_inv s pds fl ext" and pd: "pd \<in> pds" "va < UTOP" and some: "pte_at s pd va \<noteq> 0"
  defines "t \<equiv> PGNUM (rd s pd (PDX va))" and "p \<equiv> PGNUM (pte_at s pd va)"
  shows "\<exists>d fl'. page_remove pd va s = Inr (tlb_invalidate pd va d) \<and> ref_inv d pds fl' ext
     \<and> fl' = (if pp_ref (pages s p) = 1 then p # fl else fl) \<and> vm_frame s d \<and> tlb d = tlb s
     \<and> (\<forall>q j. rd d q j = (if q = t \<and> j = PTX va then 0 else rd s q j))
     \<and> pp_ref (pages d p) = pp_ref (pages s p) - 1
     \<and> (\<forall>q. q \<noteq> p \<longrightarrow> pages d q = pages s q)"
proof -
  have u: "PDX va < 955" using user_va [OF pd(2)] by simp
  have ne: "rd s pd (PDX va) \<noteq> 0" and e: "rd s t (PTX va) \<noteq> 0"
    using some by (auto simp: pte_at_rd t_def split: if_splits)
  have p: "p = PGNUM (rd s t (PTX va))" using ne by (simp add: p_def pte_at_rd t_def)
  note tab = table_unique [OF inv pd(1) u ne]
  have clear: "ref_inv (wr t (PTX va) 0 s) pds fl (ext(p := ext p + 1))" and pn: "p < npages s"
    using ref_inv_clear [OF inv pd(1) u ne PTX_less] e by (simp_all add: p t_def)
  have own: "1 < (ext(p := ext p + 1)) p" if "p \<in> pds" using that inv by (simp add: ref_inv_def)
  have restore: "(ext(p := ext p + 1))(p := (ext(p := ext p + 1)) p - 1) = ext" by (simp add: fun_eq_iff)
  have pos: "0 < (ext(p := ext p + 1)) p" by simp
  have "p \<noteq> kern_pgdir s"
    using ref_inv_not_kern [OF inv, of "PTE pd (PGNUM va)"] pd(1) user_va [OF pd(2)] some by (simp add: p_def pte_at_def)
  with ref_inv_drop [OF clear _ pos own, unfolded restore] pn obtain d fl' where
    d: "page_decref p (wr t (PTX va) 0 s) = Inr d" "ref_inv d pds fl' ext"
      "fl' = (if pp_ref (pages s p) = 1 then p # fl else fl)"
      "rd d = rd (wr t (PTX va) 0 s)" "\<forall>q. q \<noteq> p \<longrightarrow> pages d q = pages s q"
      "pp_ref (pages d p) = pp_ref (pages s p) - 1"
    by (auto simp del: fun_upd_apply)
  have look: "page_lookup pd va s = Inr (Some p, Some (t, PTX va))"
    unfolding p t_def by (rule page_lookup_present [OF ne tab(4)])
      (use e pn in \<open>simp_all add: p t_def [symmetric]\<close>)
  have fr: "vm_frame s d" "tlb d = tlb s"
    using page_decref_frame [OF d(1)] vm_frame_trans [of s "wr t (PTX va) 0 s" d]
    by simp_all
  have "page_remove pd va s = andThen (page_decref p (wr t (PTX va) 0 s)) (\<lambda>s. Inr (tlb_invalidate pd va s))"
    using e look pgdir_walk_present [OF ne tab(4)]
    by (simp add: page_remove_def page_decref_wr andThen_assoc t_def)
  then have "page_remove pd va s = Inr (tlb_invalidate pd va d)" by (simp add: d(1))
  then show ?thesis using d(2-6) fr by auto
qed

lemma ref_inv_tlb_invalidate: "ref_inv s pds fl ext \<Longrightarrow> ref_inv (tlb_invalidate pd va s) pds fl ext"
  by (rule ref_inv_same_refs) (auto simp: ref_inv_def intro: iffD1 [OF free_pages_cong, rotated -1])

text \<open>Emptying an entry is visible at one virtual page only.\<close>

lemma pte_of_write:
  assumes inv: "ref_inv s pds fl ext" and pd: "pd \<in> pds" "va < UTOP" and ne: "rd s pd (PDX va) \<noteq> 0"
    and new: "\<And>q j. rd d q j = (if q = PGNUM (rd s pd (PDX va)) \<and> j = PTX va then v else rd s q j)"
    and x: "pd' \<in> pds" "n < 977920"
  shows "pte_of d pd' n = (if pd' = pd \<and> n = PGNUM va then v else pte_of s pd' n)"
proof -
  have "rd d = rd (wr (PGNUM (rd s pd (PDX va))) (PTX va) v s)" by (auto simp: fun_eq_iff new)
  from fun_cong [OF slot_val_cong [OF this], of "PTE pd' n"] show ?thesis
    using slot_val_wr [OF inv pd(1) _ ne PTX_less [of va], where x = "PTE pd' n" and v = v] user_va [OF pd(2)] x
    by (simp add: PGNUM_split [of va])
qed

text \<open>
  Unmapping a user page: never a fault, the entry is empty afterwards, every other mapping
  of every address space is as before, and all counts stay exact.
\<close>

lemma page_remove_effect:
  assumes inv: "ref_inv s pds fl ext" and pd: "pd \<in> pds" "va < UTOP"
  shows "\<exists>s' fl'. page_remove pd va s = Inr s' \<and> ref_inv s' pds fl' ext \<and> vm_frame s s'
     \<and> set fl' \<subseteq> insert (PGNUM (pte_at s pd va)) (set fl) \<and> length fl \<le> length fl'
     \<and> (\<forall>q j. rd s' q j = (if q = PGNUM (rd s pd (PDX va)) \<and> j = PTX va \<and> rd s pd (PDX va) \<noteq> 0 then 0 else rd s q j))
     \<and> (\<forall>pd'\<in>pds. \<forall>n<977920. pte_of s' pd' n = (if pd' = pd \<and> n = PGNUM va then 0 else pte_of s pd' n))"
proof (cases "pte_at s pd va = 0")
  case True
  then have "rd s pd (PDX va) \<noteq> 0 \<longrightarrow> rd s (PGNUM (rd s pd (PDX va))) (PTX va) = 0"
    by (auto simp: pte_at_rd split: if_splits)
  with True show ?thesis
    using page_remove_nothing [OF inv pd True] inv by (auto simp: pte_at_def)
next
  case False
  then have ne: "rd s pd (PDX va) \<noteq> 0" by (simp add: pte_at_rd split: if_splits)
  from page_remove_mapped [OF inv pd False] show ?thesis
  proof (elim exE conjE)
    fix d fl'
    assume run: "page_remove pd va s = Inr (tlb_invalidate pd va d)" and inv': "ref_inv d pds fl' ext"
      and fr: "vm_frame s d"
      and fl: "fl' = (if pp_ref (pages s (PGNUM (pte_at s pd va))) = 1 then PGNUM (pte_at s pd va) # fl else fl)"
      and mem: "\<forall>q j. rd d q j = (if q = PGNUM (rd s pd (PDX va)) \<and> j = PTX va then 0 else rd s q j)"
    have "slot_val (tlb_invalidate pd va d) = slot_val d" by (rule slot_val_cong) simp
    then have tlb: "pte_of (tlb_invalidate pd va d) = pte_of d"
      by (metis ext slot_val.simps(2))
    have "vm_frame s (tlb_invalidate pd va d)" by (rule vm_frame_trans [OF fr]) simp
    moreover have "pte_of (tlb_invalidate pd va d) pd' n = (if pd' = pd \<and> n = PGNUM va then 0 else pte_of s pd' n)"
      if "pd' \<in> pds" "n < 977920" for pd' n
      unfolding tlb by (rule pte_of_write [OF inv pd ne mem [rule_format] that])
    moreover have "set fl' \<subseteq> insert (PGNUM (pte_at s pd va)) (set fl)" "length fl \<le> length fl'" using fl by auto
    ultimately show ?thesis
      using run mem ref_inv_tlb_invalidate [OF inv'] ne
      by (intro exI [of _ "tlb_invalidate pd va d"] exI [of _ fl']) simp
  qed
qed


section \<open>Mapping\<close>

text \<open>The page to map: in use by the caller or already mapped, and not itself a page table.\<close>

definition mappable :: "kstate \<Rightarrow> nat set \<Rightarrow> nat list \<Rightarrow> nat \<Rightarrow> bool" where
  "mappable s pds fl pp \<longleftrightarrow> pp < npages s \<and> pp \<noteq> kern_pgdir s \<and> pp \<notin> set fl \<and> unat (pp_ref (pages s pp)) < 65535
     \<and> (\<forall>pd\<in>pds. \<forall>i<955. rd s pd i \<noteq> 0 \<longrightarrow> PGNUM (rd s pd i) \<noteq> pp)"

lemma mappable_held:
  assumes "ref_inv s pds fl ext" and "0 < ext p" and "p < npages s" "p \<noteq> kern_pgdir s" and "unat (pp_ref (pages s p)) < 65535"
  shows "mappable s pds fl p"
  using assms held_not_table [OF assms(1,2)] free_unheld(2) [OF assms(1)]
  by (fastforce simp: mappable_def)

lemma page_insert_steps:
  assumes inv: "ref_inv s pds fl ext" and pd: "pd \<in> pds" "va < UTOP" and pp: "mappable s pds fl pp"
    and perm: "perm_ok perm" and walk: "pgdir_walk pd va True s = Inr (Some (PGNUM (rd s pd (PDX va)), PTX va), s)"
    and ne: "rd s pd (PDX va) \<noteq> 0"
  shows "\<exists>s' fl'. page_insert pd pp va perm s = Inr (Inr (), s') \<and> ref_inv s' pds fl' ext \<and> vm_frame s s'
     \<and> set fl' \<subseteq> insert (PGNUM (pte_at s pd va)) (set fl) \<and> length fl \<le> length fl'
     \<and> (\<forall>q j. rd s' q j = (if q = PGNUM (rd s pd (PDX va)) \<and> j = PTX va then page2pa pp OR perm OR PTE_P else rd s q j))
     \<and> (\<forall>pd'\<in>pds. \<forall>n<977920. pte_of s' pd' n =
          (if pd' = pd \<and> n = PGNUM va then page2pa pp OR perm OR PTE_P else pte_of s pd' n))"
proof -
  let ?take = "upd_page pp (\<lambda>pi. pi\<lparr>pp_ref := pp_ref pi + 1\<rparr>) s" and ?e = "page2pa pp OR perm OR PTE_P"
  define t where "t = PGNUM (rd s pd (PDX va))"
  have u: "PDX va < 955" using user_va [OF pd(2)] by simp
  have take: "ref_inv ?take pds fl (ext(pp := ext pp + 1))"
    using pp by (intro ref_inv_take [OF inv]) (simp_all add: mappable_def)
  from page_remove_effect [OF take pd] obtain s2 fl' where
    s2: "page_remove pd va ?take = Inr s2" "ref_inv s2 pds fl' (ext(pp := ext pp + 1))" "vm_frame ?take s2"
      "set fl' \<subseteq> insert (PGNUM (pte_at ?take pd va)) (set fl)" "length fl \<le> length fl'"
      "\<forall>q j. rd s2 q j = (if q = PGNUM (rd ?take pd (PDX va)) \<and> j = PTX va \<and> rd ?take pd (PDX va) \<noteq> 0 then 0 else rd ?take q j)"
    by blast
  have n: "npages s2 = npages s" "kern_pgdir s2 = kern_pgdir s" using s2(3) by (simp_all add: vm_frame_def)
  have rd2: "rd s2 q j = (if q = t \<and> j = PTX va then 0 else rd s q j)" for q j
    using s2(6) ne by (simp add: t_def)
  have "t \<notin> pds" using table_unique(3) [OF inv pd(1) u ne] by (simp add: t_def)
  then have pde2: "rd s2 pd (PDX va) = rd s pd (PDX va)" using pd by (auto simp: rd2)
  have "pp < 1048576" using pp inv by (simp add: mappable_def ref_inv_def mem_ok_def)
  then have e: "?e AND PTE_P \<noteq> 0" "PGNUM ?e = pp"
    using perm PGNUM_entry [of "perm OR PTE_P" pp] or_P_present [of "page2pa pp OR perm"]
    by (simp_all add: or.assoc)
  have restore: "(ext(pp := ext pp + 1))(pp := (ext(pp := ext pp + 1)) pp - 1) = ext" by (simp add: fun_eq_iff)
  have "ref_inv (wr t (PTX va) ?e s2) pds fl' ext"
    using ref_inv_fill [OF s2(2) pd(1) u _ PTX_less _ e, of va, unfolded restore pde2] ne rd2 pp inv n
    by (simp add: t_def mappable_def ref_inv_def)
  moreover have "page_insert pd pp va perm s = Inr (Inr (), wr t (PTX va) ?e s2)"
    by (simp add: page_insert_def walk s2(1) t_def)
  moreover have "vm_frame s (wr t (PTX va) ?e s2)"
    using s2(3) by (simp add: vm_frame_def)
  moreover have mem: "rd (wr t (PTX va) ?e s2) q j = (if q = t \<and> j = PTX va then ?e else rd s q j)" for q j
    by (simp add: rd2)
  moreover have "pte_of (wr t (PTX va) ?e s2) pd' n = (if pd' = pd \<and> n = PGNUM va then ?e else pte_of s pd' n)"
    if "pd' \<in> pds" "n < 977920" for pd' n
    by (rule pte_of_write [OF inv pd ne mem [unfolded t_def] that, folded t_def])
  moreover have "set fl' \<subseteq> insert (PGNUM (pte_at s pd va)) (set fl)" using s2(4) by simp
  ultimately show ?thesis using s2(5) by (intro exI [of _ "wr t (PTX va) ?e s2"] exI [of _ fl']) (simp add: t_def)
qed


lemma page_insert_effect:
  assumes inv: "ref_inv s pds fl ext" and pd: "pd \<in> pds" "va < UTOP" and pp: "mappable s pds fl pp"
    and perm: "perm_ok perm" and room: "rd s pd (PDX va) \<noteq> 0 \<or> fl \<noteq> []"
  shows "\<exists>s' fl'. page_insert pd pp va perm s = Inr (Inr (), s') \<and> ref_inv s' pds fl' ext \<and> vm_frame s s'
     \<and> set fl' \<subseteq> insert (PGNUM (pte_at s pd va)) (set fl)
     \<and> length fl \<le> length fl' + (if rd s pd (PDX va) = 0 then 1 else 0)
     \<and> rd s' pd (PDX va) \<noteq> 0 \<and> (rd s pd (PDX va) \<noteq> 0 \<longrightarrow> rd s' pd (PDX va) = rd s pd (PDX va))
     \<and> (rd s pd (PDX va) = 0 \<longrightarrow> open_pde (rd s' pd (PDX va)))
     \<and> (\<forall>q j. q \<notin> set fl \<longrightarrow> (q, j) \<noteq> (pd, PDX va) \<longrightarrow>
           (rd s pd (PDX va) \<noteq> 0 \<longrightarrow> (q, j) \<noteq> (PGNUM (rd s pd (PDX va)), PTX va)) \<longrightarrow> rd s' q j = rd s q j)
     \<and> (\<forall>pd'\<in>pds. \<forall>n<977920. pte_of s' pd' n =
          (if pd' = pd \<and> n = PGNUM va then page2pa pp OR perm OR PTE_P else pte_of s pd' n))"
proof -
  have u: "PDX va < 955" using user_va [OF pd(2)] by simp
  show ?thesis
  proof (cases rule: pgdir_walk_create_cases [OF inv pd(1) u, case_names none some])
    case none
    with room show ?thesis by simp
  next
    case (some s1 fl1)
    have walk1: "pgdir_walk pd va True s1 = Inr (Some (PGNUM (rd s1 pd (PDX va)), PTX va), s1)"
      by (rule pgdir_walk_present [OF some(3)]) (rule table_unique(4) [OF some(2) pd(1) u some(3)])
    then have run: "page_insert pd pp va perm s = page_insert pd pp va perm s1"
      by (simp add: page_insert_def some(1))
    have "mappable s1 pds fl1 pp"
      unfolding mappable_def
    proof (intro conjI ballI allI impI)
      show "pp < npages s1" "pp \<noteq> kern_pgdir s1" "pp \<notin> set fl1" "unat (pp_ref (pages s1 pp)) < 65535"
        using pp some(4,5,6) by (auto simp: mappable_def vm_frame_def)
      fix pd' i assume i: "pd' \<in> pds" "i < 955" "rd s1 pd' i \<noteq> 0"
      show "PGNUM (rd s1 pd' i) \<noteq> pp"
        using some(11) [OF i(1,2)] i pp by (cases "rd s1 pd' i = rd s pd' i") (auto simp: mappable_def)
    qed
    from page_insert_steps [OF some(2) pd this perm walk1 some(3)] obtain s' fl' where
      s': "page_insert pd pp va perm s1 = Inr (Inr (), s')" "ref_inv s' pds fl' ext" "vm_frame s1 s'"
        "set fl' \<subseteq> insert (PGNUM (pte_at s1 pd va)) (set fl1)" "length fl1 \<le> length fl'"
        "\<forall>q j. rd s' q j = (if q = PGNUM (rd s1 pd (PDX va)) \<and> j = PTX va then page2pa pp OR perm OR PTE_P else rd s1 q j)"
        "\<forall>pd'\<in>pds. \<forall>n<977920. pte_of s' pd' n =
          (if pd' = pd \<and> n = PGNUM va then page2pa pp OR perm OR PTE_P else pte_of s1 pd' n)"
      by blast
    have at: "pte_at s1 pd va = pte_at s pd va"
      using some(7) pd user_va [OF pd(2)] by (simp add: pte_at_def)
    have keep: "rd s' q j = rd s q j" if "q \<notin> set fl" "(q, j) \<noteq> (pd, PDX va)"
        "rd s pd (PDX va) \<noteq> 0 \<longrightarrow> (q, j) \<noteq> (PGNUM (rd s pd (PDX va)), PTX va)" for q j
    proof -
      have "rd s1 pd (PDX va) = rd s pd (PDX va) \<and> rd s pd (PDX va) \<noteq> 0 \<or> PGNUM (rd s1 pd (PDX va)) \<in> set fl"
        using some(11) [OF pd(1) u] some(3) by auto
      then have "\<not> (q = PGNUM (rd s1 pd (PDX va)) \<and> j = PTX va)" using that by auto
      with s'(6) some(8) [OF that(1,2)] show ?thesis by metis
    qed
    have "set fl' \<subseteq> insert (PGNUM (pte_at s pd va)) (set fl)" using s'(4) some(5) by (auto simp: at)
    moreover have "length fl \<le> length fl' + (if rd s pd (PDX va) = 0 then 1 else 0)"
      using s'(5) some(12) by auto
    moreover have "pd \<noteq> PGNUM (rd s1 pd (PDX va))" using table_unique(3) [OF some(2) pd(1) u some(3)] pd(1) by auto
    then have pde: "rd s' pd (PDX va) = rd s1 pd (PDX va)" using s'(6) by auto
    moreover have "rd s1 pd (PDX va) = rd s pd (PDX va)" if "rd s pd (PDX va) \<noteq> 0"
      using some(10) [OF that] free_unheld(3) [OF inv] pd(1) by blast
    moreover have "open_pde (rd s1 pd (PDX va))" if "rd s pd (PDX va) = 0" using some(13) [OF that] .
    ultimately show ?thesis using s'(1-3,7) keep some(3)
      using vm_frame_trans [OF some(4) s'(3)] some(7) run
      by (intro exI [of _ s'] exI [of _ fl']) simp
  qed
qed

lemma page_insert_no_memory:
  assumes "rd s pd (PDX va) = 0" and "free_pages s []"
  shows "page_insert pd pp va perm s = Inr (Inl E_NO_MEM, s)"
  by (simp add: page_insert_def pgdir_walk_no_memory [OF assms])


section \<open>The interface of an address space\<close>

text \<open>
  The contract a client of the mapping operations relies on, over any key and value types:
  a lookup sees the last insertion, a removal empties one key, the other keys stay.
\<close>

locale page_map =
  fixes wf :: "'s \<Rightarrow> bool"
    and key :: "'k \<Rightarrow> bool"
    and look :: "'s \<Rightarrow> 'k \<Rightarrow> 'v"
    and empty :: 'v
    and rem :: "'k \<Rightarrow> 's \<Rightarrow> 'e + 's"
  assumes rem_total: "wf s \<Longrightarrow> key k \<Longrightarrow> \<exists>s'. rem k s = Inr s'"
    and rem_wf: "wf s \<Longrightarrow> key k \<Longrightarrow> rem k s = Inr s' \<Longrightarrow> wf s'"
    and look_rem: "wf s \<Longrightarrow> key k \<Longrightarrow> rem k s = Inr s' \<Longrightarrow> key k' \<Longrightarrow>
           look s' k' = (if k' = k then empty else look s k')"
begin

text \<open>Removing a list of keys never faults and empties exactly them, in any order.\<close>

fun rem_all :: "'k list \<Rightarrow> 's \<Rightarrow> 'e + 's" where
  "rem_all [] s = Inr s"
| "rem_all (k # ks) s = andThen (rem k s) (rem_all ks)"

lemma rem_all_total:
  "wf s \<Longrightarrow> \<forall>k\<in>set ks. key k \<Longrightarrow> \<exists>s'. rem_all ks s = Inr s' \<and> wf s'
     \<and> (\<forall>k'. key k' \<longrightarrow> look s' k' = (if k' \<in> set ks then empty else look s k'))"
proof (induction ks arbitrary: s)
  case (Cons k ks)
  from rem_total [of s k] Cons.prems obtain s1 where s1: "rem k s = Inr s1" by auto
  with rem_wf [of s k s1] Cons.prems have "wf s1" by simp
  from Cons.IH [OF this] Cons.prems obtain s2 where
    "rem_all ks s1 = Inr s2" "wf s2" "\<forall>k'. key k' \<longrightarrow> look s2 k' = (if k' \<in> set ks then empty else look s1 k')"
    by auto
  with s1 look_rem [of s k s1] Cons.prems show ?case by auto
qed simp

lemma rem_all_wf: "wf s \<Longrightarrow> \<forall>k\<in>set ks. key k \<Longrightarrow> rem_all ks s = Inr s' \<Longrightarrow> wf s'"
  using rem_all_total by fastforce

end

text \<open>The user part of one directory, keyed by page-aligned addresses below \<open>UTOP\<close>.\<close>

definition user_page :: "u32 \<Rightarrow> bool" where
  "user_page va \<longleftrightarrow> va < UTOP \<and> PGOFF va = 0"

lemma user_page_eq: "user_page a \<Longrightarrow> user_page b \<Longrightarrow> PGNUM a = PGNUM b \<longleftrightarrow> a = b"
proof -
  assume "user_page a" "user_page b"
  then have "unat a mod 4096 = 0" "unat b mod 4096 = 0"
    by (simp_all add: user_page_def PGOFF_def mask_10_12 [symmetric] take_bit_eq_mask [symmetric]
        take_bit_eq_mod unat_mod_distrib word_unat_eq_iff)
  then show ?thesis
    by (metis PGNUM_div div_mult_mod_eq word_unat_eq_iff)
qed

interpretation aspace: page_map "\<lambda>s. pd \<in> pds \<and> (\<exists>fl. ref_inv s pds fl ext)" user_page
    "\<lambda>s va. pte_at s pd va" 0 "page_remove pd" for pd pds ext
proof unfold_locales
  fix s k
  assume "pd \<in> pds \<and> (\<exists>fl. ref_inv s pds fl ext)" "user_page k"
  then obtain fl where a: "ref_inv s pds fl ext" "pd \<in> pds" "k < UTOP" by (auto simp: user_page_def)
  note eff = page_remove_effect [OF a]
  show "\<exists>s'. page_remove pd k s = Inr s'" using eff by blast
  fix s' assume run: "page_remove pd k s = Inr s'"
  then show "pd \<in> pds \<and> (\<exists>fl. ref_inv s' pds fl ext)" using eff a by auto
  fix k' assume k': "user_page k'"
  have "pte_of s' pd (PGNUM k') = (if PGNUM k' = PGNUM k then 0 else pte_of s pd (PGNUM k'))"
    using eff run a(2) user_va [of k'] k' by (auto simp: user_page_def)
  then show "pte_at s' pd k' = (if k' = k then 0 else pte_at s pd k')"
    using user_page_eq [OF k' \<open>user_page k\<close>] by (simp add: pte_at_def)
qed

end
