(* ===== verification/AddrSpaceProps.thy ===== *)
theory AddrSpaceProps
  imports AddrSpace
begin

text \<open>
  The properties of the page-table operations, each with an instance on a concrete machine
  state: a directory in page 5, one page held by its owner, two pages on the free list.
\<close>

definition vm_demo :: kstate where
  "vm_demo = boot_state\<lparr>npages := 16,
     pages := (\<lambda>p. \<lparr>pp_link = (if p = 6 then Some 7 else None), pp_ref = (if p = 4 \<or> p = 5 then 1 else 0)\<rparr>),
     page_free_list := Some 6\<rparr>"

definition vm_demo_ext :: "nat \<Rightarrow> nat" where
  "vm_demo_ext p = (if p = 4 \<or> p = 5 then 1 else 0)"

lemma vm_demo_rd [simp]: "rd vm_demo p i = 0"
  by (simp add: vm_demo_def boot_state_def rd_def)

lemma vm_demo_fields [simp]:
  "npages vm_demo = 16" "kern_pgdir vm_demo = 279" "pp_ref (pages vm_demo p) = (if p = 4 \<or> p = 5 then 1 else 0)"
  by (simp_all add: vm_demo_def boot_state_def)

lemma vm_demo_slot [simp]: "slot_val vm_demo x = 0"
  by (cases x) (simp_all add: pte_of_def)

lemma vm_demo_inv: "ref_inv vm_demo {5} [6, 7] vm_demo_ext"
proof -
  have "free_pages vm_demo [6, 7]"
    by (auto simp: free_pages_def page_link_def vm_demo_def)
  moreover have "holders vm_demo {5} p = {}" for p by (simp add: holders_def)
  ultimately show ?thesis
    by (auto simp: ref_inv_def mem_ok_def vm_demo_ext_def)
qed

text \<open>
  C4. page_insert: on a state with exact reference counts, mapping a page below UTOP either
  fails with E_NO_MEM and leaves the state untouched (exactly when a page table is missing
  and no page is free), or succeeds, after which that virtual page holds the new entry,
  every other virtual page of every address space is as before and every reference count is
  exact again. Re-inserting the page that is already mapped there is included.
\<close>

theorem page_insert_correct:
  assumes inv: "ref_inv s pds fl ext" and pd: "pd \<in> pds" "va < UTOP" and pp: "mappable s pds fl pp"
    and perm: "perm_ok perm"
  shows "if rd s pd (PDX va) = 0 \<and> fl = []
     then page_insert pd pp va perm s = Inr (Inl E_NO_MEM, s)
     else \<exists>s' fl'. page_insert pd pp va perm s = Inr (Inr (), s') \<and> ref_inv s' pds fl' ext \<and> vm_frame s s'
       \<and> (\<forall>pd'\<in>pds. \<forall>n<NUDIR * NPTENTRIES. pte_of s' pd' n =
            (if pd' = pd \<and> n = PGNUM va then page2pa pp OR perm OR PTE_P else pte_of s pd' n))"
proof (cases "rd s pd (PDX va) = 0 \<and> fl = []")
  case True
  with inv have "free_pages s []" by (simp add: ref_inv_def)
  with True page_insert_no_memory show ?thesis by simp
next
  case False
  then have "rd s pd (PDX va) \<noteq> 0 \<or> fl \<noteq> []" by blast
  from page_insert_effect [OF inv pd pp perm this] False show ?thesis by auto
qed

theorem page_insert_correct_witness:
  "\<exists>s' fl'. page_insert 5 4 UTEXT (PTE_U OR PTE_W) vm_demo = Inr (Inr (), s') \<and> ref_inv s' {5} fl' vm_demo_ext
     \<and> pte_of s' 5 (PGNUM UTEXT) = 0x4007"
proof -
  have "mappable vm_demo {5} [6, 7] 4" by (simp add: mappable_def)
  then have "\<exists>s' fl'. page_insert 5 4 UTEXT (PTE_U OR PTE_W) vm_demo = Inr (Inr (), s') \<and> ref_inv s' {5} fl' vm_demo_ext
     \<and> vm_frame vm_demo s' \<and> (\<forall>pd'\<in>{5}. \<forall>n<NUDIR * NPTENTRIES. pte_of s' pd' n =
            (if pd' = 5 \<and> n = PGNUM UTEXT then page2pa 4 OR (PTE_U OR PTE_W) OR PTE_P else pte_of vm_demo pd' n))"
    using page_insert_correct [OF vm_demo_inv, of 5 UTEXT 4 "PTE_U OR PTE_W"] by simp
  moreover have "PGNUM UTEXT < NUDIR * NPTENTRIES" by (simp add: PGNUM_div)
  moreover have "page2pa 4 OR (PTE_U OR PTE_W) OR PTE_P = 0x4007" by (simp add: page2pa_def)
  ultimately show ?thesis by (metis insertI1)
qed

text \<open>
  C8. page_remove: unmapping a user page never faults; afterwards the entry is empty, every
  other mapping of every address space is as before, and every reference count is exact: the
  page lost the reference of this mapping, and joined the free list if it was the last one.
\<close>

theorem page_remove_correct:
  assumes inv: "ref_inv s pds fl ext" and pd: "pd \<in> pds" "va < UTOP"
  shows "\<exists>s' fl'. page_remove pd va s = Inr s' \<and> ref_inv s' pds fl' ext \<and> vm_frame s s'
     \<and> (\<forall>pd'\<in>pds. \<forall>n<NUDIR * NPTENTRIES. pte_of s' pd' n = (if pd' = pd \<and> n = PGNUM va then 0 else pte_of s pd' n))
     \<and> fl' = (if pte_at s pd va \<noteq> 0 \<and> pp_ref (pages s (PGNUM (pte_at s pd va))) = 1
              then PGNUM (pte_at s pd va) # fl else fl)"
proof -
  from page_remove_effect [OF inv pd] obtain s' fl' where
    eff: "page_remove pd va s = Inr s'" "ref_inv s' pds fl' ext" "vm_frame s s'"
      "\<forall>pd'\<in>pds. \<forall>n<977920. pte_of s' pd' n = (if pd' = pd \<and> n = PGNUM va then 0 else pte_of s pd' n)"
    by blast
  define fl0 where "fl0 = (if pte_at s pd va \<noteq> 0 \<and> pp_ref (pages s (PGNUM (pte_at s pd va))) = 1
              then PGNUM (pte_at s pd va) # fl else fl)"
  have "ref_inv s' pds fl0 ext"
  proof (cases "pte_at s pd va = 0")
    case True
    with page_remove_nothing [OF inv pd True] eff(1) inv show ?thesis by (simp add: fl0_def)
  next
    case False
    from page_remove_mapped [OF inv pd False] obtain d where
      "page_remove pd va s = Inr (tlb_invalidate pd va d)" "ref_inv d pds fl0 ext"
      using False by (simp add: fl0_def) blast
    with eff(1) ref_inv_tlb_invalidate [of d pds fl0 ext pd va] show ?thesis by simp
  qed
  with eff show ?thesis by (intro exI [of _ s'] exI [of _ fl0]) (simp add: fl0_def)
qed

theorem page_remove_correct_witness:
  "\<exists>s' fl'. page_remove 5 UTEXT vm_demo = Inr s' \<and> ref_inv s' {5} fl' vm_demo_ext \<and> fl' = [6, 7]"
  using page_remove_correct [OF vm_demo_inv, of 5 UTEXT] by (auto simp: pte_at_rd)


section \<open>Checking user memory\<close>

definition pte_allows :: "u32 \<Rightarrow> u32 \<Rightarrow> bool" where
  "pte_allows perm pte \<longleftrightarrow> pte AND (perm OR PTE_P) = perm OR PTE_P"

lemma pte_allows_zero [simp]: "\<not> pte_allows perm 0"
  using or_P_nonzero [of perm] by (simp add: pte_allows_def)

lemma walk_reads_pte:
  assumes inv: "ref_inv s pds fl ext" and pd: "pd \<in> pds" "va < UTOP"
  shows "\<exists>r. pgdir_walk pd va False s = Inr (r, s)
     \<and> (case r of None \<Rightarrow> pte_at s pd va = 0 | Some (pt, i) \<Rightarrow> rd s pt i = pte_at s pd va)"
proof (cases "rd s pd (PDX va) = 0")
  case True
  then show ?thesis by (simp add: pgdir_walk_absent pte_at_rd)
next
  case False
  have "PGNUM (rd s pd (PDX va)) < npages s"
    using table_unique(4) [OF inv pd(1) _ False] user_va [OF pd(2)] by simp
  with False show ?thesis by (simp add: pgdir_walk_present pte_at_rd)
qed

lemma user_mem_check_step:
  assumes inv: "ref_inv s pds fl ext" and pd: "pd \<in> pds" "va < UTOP"
  shows "user_mem_check_loop pd perm lo va (Suc n) s =
     (if pte_allows perm (pte_at s pd va) then user_mem_check_loop pd perm lo (va + PGSIZE) n s
      else Inr (Inl E_FAULT, s\<lparr>user_mem_check_addr := if lo < va then va else lo\<rparr>))"
proof -
  from walk_reads_pte [OF inv pd] obtain r where
    r: "pgdir_walk pd va False s = Inr (r, s)"
      "case r of None \<Rightarrow> pte_at s pd va = 0 | Some (pt, i) \<Rightarrow> rd s pt i = pte_at s pd va"
    by blast
  show ?thesis
  proof (cases r)
    case None
    with r show ?thesis by simp
  next
    case (Some a)
    with r show ?thesis by (cases a) (simp add: pte_allows_def)
  qed
qed

lemma user_mem_check_loop_pages:
  assumes "ref_inv s pds fl ext" and "pd \<in> pds"
    and "unat va = 4096 * m" and "m + n \<le> 977920"
  shows "\<exists>r s'. user_mem_check_loop pd perm lo va n s = Inr (r, s')
     \<and> (r = Inr () \<longleftrightarrow> (\<forall>k. m \<le> k \<and> k < m + n \<longrightarrow> pte_allows perm (pte_of s pd k)))
     \<and> (r = Inr () \<longrightarrow> s' = s) \<and> (r \<noteq> Inr () \<longrightarrow> r = Inl E_FAULT)"
  using assms(3,4)
proof (induction n arbitrary: va m)
  case 0
  then show ?case by auto
next
  case (Suc n)
  have m: "m < 977920" using Suc.prems by simp
  have ut: "va < UTOP" using Suc.prems m by (simp add: word_less_nat_alt)
  have pn: "PGNUM va = m" using Suc.prems by (simp add: PGNUM_div)
  note step = user_mem_check_step [OF assms(1,2) ut, of perm lo n]
  show ?case
  proof (cases "pte_allows perm (pte_of s pd m)")
    case False
    then show ?thesis using step by (auto simp: pte_at_def pn)
  next
    case True
    have "unat (va + PGSIZE) = 4096 * Suc m"
      using Suc.prems m by (simp add: unat_word_ariths)
    from Suc.IH [OF this] Suc.prems obtain r s' where
      r: "user_mem_check_loop pd perm lo (va + PGSIZE) n s = Inr (r, s')"
        "r = Inr () \<longleftrightarrow> (\<forall>k. Suc m \<le> k \<and> k < Suc m + n \<longrightarrow> pte_allows perm (pte_of s pd k))"
        "r = Inr () \<longrightarrow> s' = s" "r \<noteq> Inr () \<longrightarrow> r = Inl E_FAULT"
      by auto
    have "(\<forall>k. m \<le> k \<and> k < m + Suc n \<longrightarrow> pte_allows perm (pte_of s pd k)) \<longleftrightarrow>
        (\<forall>k. Suc m \<le> k \<and> k < Suc m + n \<longrightarrow> pte_allows perm (pte_of s pd k))"
      using True by (metis Suc_leI add_Suc_shift le_eq_less_or_eq Suc_leD)
    with r True step show ?thesis by (simp add: pte_at_def pn)
  qed
qed



text \<open>
  A range that wraps around the address space passes the check whatever is mapped: the
  end is computed modulo 2^32, so the loop over the range is empty.
\<close>

theorem user_mem_check_wraps:
  "user_mem_check pd 0xFFFFF000 0x2000 perm s = Inr (Inr (), s)"
proof -
  have "ROUNDUP (0xFFFFF000 + 0x2000) PGSIZE = 0x1000" by (simp add: ROUNDUP_def ROUNDDOWN_def)
  then show ?thesis by (simp add: user_mem_check_def ROUNDDOWN_def)
qed

end
