(* ===== verification/Envs.thy ===== *)
theory Envs
  imports AddrSpaceProps
begin

text \<open>
  \<open>kern/env.c\<close>: the environment table, its free list, the creation and destruction of
  environments and of their address spaces, and the context switch. An environment pointer
  is an index into \<open>envs\<close>. Console output is not part of the state.
\<close>

section \<open>Outcomes of kernel code\<close>

text \<open>
  A kernel function either returns to its caller or leaves the kernel: \<open>RunsEnv e\<close> drops
  into user mode in environment \<open>e\<close>, \<open>CpuHalts\<close> waits for an interrupt, \<open>InMonitor\<close> stays in
  the kernel monitor, \<open>SpinsOnLock\<close> waits for the kernel lock another processor holds.
\<close>

datatype 'a ctl = Returns 'a | RunsEnv nat | CpuHalts | InMonitor | SpinsOnLock

type_synonym 'a kcall = "('a ctl \<times> kstate) fallible"

definition returns :: "'a \<Rightarrow> kstate \<Rightarrow> 'a kcall" where
  "returns x s = Inr (Returns x, s)"

text \<open>Calling a function that may leave the kernel: the rest runs only if it returns.\<close>

fun follow :: "('a \<Rightarrow> kstate \<Rightarrow> 'b kcall) \<Rightarrow> 'a ctl \<times> kstate \<Rightarrow> 'b kcall" where
  "follow f (Returns x, s) = f x s"
| "follow f (RunsEnv e, s) = Inr (RunsEnv e, s)"
| "follow f (CpuHalts, s) = Inr (CpuHalts, s)"
| "follow f (InMonitor, s) = Inr (InMonitor, s)"
| "follow f (SpinsOnLock, s) = Inr (SpinsOnLock, s)"

definition calls :: "'a kcall \<Rightarrow> ('a \<Rightarrow> kstate \<Rightarrow> 'b kcall) \<Rightarrow> 'b kcall" where
  "calls r f = andThen r (follow f)"

lemma calls_returns [simp]: "calls (Inr (Returns x, s)) f = f x s"
  and calls_fault [simp]: "calls (Inl e) f = Inl e"
  and calls_runs [simp]: "calls (Inr (RunsEnv i, s)) f = Inr (RunsEnv i, s)"
  and calls_halts [simp]: "calls (Inr (CpuHalts, s)) f = Inr (CpuHalts, s)"
  and calls_monitor [simp]: "calls (Inr (InMonitor, s)) f = Inr (InMonitor, s)"
  and calls_spins [simp]: "calls (Inr (SpinsOnLock, s)) f = Inr (SpinsOnLock, s)"
  by (simp_all add: calls_def)

section \<open>The global descriptor table\<close>

text \<open>\<open>STA_X | STA_R\<close> is 0xA and \<open>STA_W\<close> is 0x2; slots beyond the initialisers are zero.\<close>

definition gdt :: "Segdesc list" where
  "gdt = [SEG_NULL, SEG 0xA 0 0xffffffff 0, SEG 0x2 0 0xffffffff 0,
          SEG 0xA 0 0xffffffff 3, SEG 0x2 0 0xffffffff 3] @ replicate NCPU SEG_NULL"

section \<open>Environment identifiers\<close>

definition ENVGENSHIFT :: nat where [simp]: "ENVGENSHIFT = 12"

text \<open>The result code comes with what is stored through \<open>env_store\<close>.\<close>

definition envid2env :: "u32 \<Rightarrow> bool \<Rightarrow> kstate \<Rightarrow> ((kerror + unit) \<times> nat option) fallible" where
  "envid2env envid checkperm s =
     (if envid = 0 then Inr (Inr (), curenv s)
      else let e = ENVX envid in
        if env_status (envs s e) = ENV_FREE \<or> env_id (envs s e) \<noteq> envid
        then Inr (Inl E_BAD_ENV, None)
        else if checkperm \<and> Some e \<noteq> curenv s
        then (case curenv s of
                None \<Rightarrow> Inl (KUndef ''curenv->env_id'')
              | Some c \<Rightarrow> if env_parent_id (envs s e) \<noteq> env_id (envs s c)
                          then Inr (Inl E_BAD_ENV, None) else Inr (Inr (), Some e))
        else Inr (Inr (), Some e))"

section \<open>env_init\<close>

fun env_init_loop :: "nat \<Rightarrow> nat \<Rightarrow> kstate \<Rightarrow> kstate" where
  "env_init_loop i 0 s = s"
| "env_init_loop i (Suc n) s = env_init_loop (Suc i) n
     (upd_env i (\<lambda>e. e\<lparr>env_id := 0, env_status := ENV_FREE, env_link := Some (i + 1)\<rparr>) s)"

text \<open>The segment registers loaded by \<open>env_init_percpu\<close> are not part of the state.\<close>

definition env_init :: "kstate \<Rightarrow> kstate" where
  "env_init s = (upd_env (NENV - 1) (\<lambda>e. e\<lparr>env_link := None\<rparr>) (env_init_loop 0 NENV s))
     \<lparr>env_free_list := Some 0\<rparr>"

section \<open>Creating an environment\<close>

definition copy_page :: "nat \<Rightarrow> nat \<Rightarrow> kstate \<Rightarrow> kstate" where
  "copy_page dst src s = s\<lparr>phys := (phys s)(dst := phys s src)\<rparr>"

definition env_setup_vm :: "nat \<Rightarrow> kstate \<Rightarrow> ((kerror + unit) \<times> kstate) fallible" where
  "env_setup_vm e s =
     andThen (page_alloc ALLOC_ZERO s) (\<lambda>(p, s).
       case p of
         None \<Rightarrow> Inr (Inl E_NO_MEM, s)
       | Some p \<Rightarrow>
           andThen (page2kva s p) (\<lambda>kva.
             let s = upd_env e (\<lambda>en. en\<lparr>env_pgdir := Some kva\<rparr>) s;
                 s = copy_page kva (kern_pgdir s) s;
                 s = upd_page p (\<lambda>pi. pi\<lparr>pp_ref := pp_ref pi + 1\<rparr>) s;
                 s = wr kva (PDX UVPT) (page2pa kva OR PTE_P OR PTE_U) s
             in Inr (Inr (), s)))"

text \<open>The identifier of the slot's next environment: the generation part, never zero or negative.\<close>

definition next_generation :: "u32 \<Rightarrow> u32" where
  "next_generation old =
     (let generation = (old + push_bit ENVGENSHIFT 1) AND NOT 0x3FF
      in if sint generation \<le> 0 then push_bit ENVGENSHIFT 1 else generation)"

definition user_tf :: Trapframe where
  "user_tf = zero_tf\<lparr>tf_ds := ucast (GD_UD OR 3), tf_es := ucast (GD_UD OR 3),
     tf_ss := ucast (GD_UD OR 3), tf_esp := USTACKTOP, tf_cs := ucast (GD_UT OR 3),
     tf_eflags := FL_IF\<rparr>"

definition env_alloc :: "u32 \<Rightarrow> kstate \<Rightarrow> ((kerror + nat) \<times> kstate) fallible" where
  "env_alloc parent_id s =
     (case env_free_list s of
        None \<Rightarrow> Inr (Inl E_NO_FREE_ENV, s)
      | Some e \<Rightarrow>
          andThen (env_setup_vm e s) (\<lambda>(r, s).
            case r of
              Inl err \<Rightarrow> Inr (Inl err, s)
            | Inr _ \<Rightarrow>
                let s = upd_env e (\<lambda>en. en\<lparr>
                      env_id := next_generation (env_id en) OR word_of_nat e,
                      env_parent_id := parent_id, env_type := ENV_TYPE_USER,
                      env_status := ENV_RUNNABLE, env_runs := 0, env_priority := 0,
                      env_tf := user_tf, env_pgfault_upcall := 0, env_ipc_recving := False\<rparr>) s
                in Inr (Inr e, s\<lparr>env_free_list := env_link (envs s e)\<rparr>)))"

fun region_alloc_loop :: "nat \<Rightarrow> u32 \<Rightarrow> nat \<Rightarrow> kstate \<Rightarrow> kstate fallible" where
  "region_alloc_loop pd va_act 0 s = Inr s"
| "region_alloc_loop pd va_act (Suc n) s =
     andThen (page_alloc 0 s) (\<lambda>(p, s).
       case p of
         None \<Rightarrow> Inl (KPanic ''region_alloc: could not alloc page'')
       | Some p \<Rightarrow>
           andThen (page_insert pd p va_act (PTE_U OR PTE_W) s) (\<lambda>(r, s).
             case r of
               Inl _ \<Rightarrow> Inl (KPanic ''region_alloc: page_insert falied'')
             | Inr _ \<Rightarrow> region_alloc_loop pd (va_act + PGSIZE) n s))"

definition region_alloc :: "nat \<Rightarrow> u32 \<Rightarrow> u32 \<Rightarrow> kstate \<Rightarrow> kstate fallible" where
  "region_alloc pd va len s =
     (let va_lo = ROUNDDOWN va PGSIZE; va_hi = ROUNDUP (va + len) PGSIZE in
      if UTOP < va_hi then Inl (KPanic ''region_alloc: cannot map in high va'')
      else region_alloc_loop pd va_lo ((unat va_hi - unat va_lo) div 4096) s)"

section \<open>Freeing an environment\<close>

text \<open>The inner loop over the entries of one page table, from \<open>pteno\<close> on.\<close>

fun free_ptes :: "nat \<Rightarrow> nat \<Rightarrow> nat \<Rightarrow> nat \<Rightarrow> nat \<Rightarrow> kstate \<Rightarrow> kstate fallible" where
  "free_ptes pd pdeno pt pteno 0 s = Inr s"
| "free_ptes pd pdeno pt pteno (Suc n) s =
     andThen (if rd s pt pteno AND PTE_P \<noteq> 0 then page_remove pd (PGADDR pdeno pteno 0) s else Inr s)
       (free_ptes pd pdeno pt (Suc pteno) n)"

text \<open>The outer loop over the directory entries, from \<open>pdeno\<close> on.\<close>

fun free_tables :: "nat \<Rightarrow> nat \<Rightarrow> nat \<Rightarrow> kstate \<Rightarrow> kstate fallible" where
  "free_tables pd pdeno 0 s = Inr s"
| "free_tables pd pdeno (Suc n) s =
     andThen
       (if rd s pd pdeno AND PTE_P = 0 then Inr s
        else let pa = PTE_ADDR (rd s pd pdeno) in
          andThen (KADDR s pa) (\<lambda>kva.
          andThen (free_ptes pd pdeno (PGNUM (kva - KERNBASE)) 0 NPTENTRIES s) (\<lambda>s.
            let s = wr pd pdeno 0 s in
            andThen (pa2page s pa) (\<lambda>p. page_decref p s))))
       (free_tables pd (Suc pdeno) n)"

definition push_env :: "nat \<Rightarrow> kstate \<Rightarrow> kstate" where
  "push_env e s = (upd_env e (\<lambda>en. en\<lparr>env_link := env_free_list s\<rparr>) s)\<lparr>env_free_list := Some e\<rparr>"

definition env_free :: "nat \<Rightarrow> kstate \<Rightarrow> kstate fallible" where
  "env_free e s =
     (let s = (if Some e = curenv s then lcr3 (kern_pgdir s) s else s) in
      case env_pgdir (envs s e) of
        None \<Rightarrow> Inl (KUndef ''env_free: null env_pgdir'')
      | Some pd \<Rightarrow>
          andThen (free_tables pd 0 (PDX UTOP) s) (\<lambda>s.
            let s = upd_env e (\<lambda>en. en\<lparr>env_pgdir := None\<rparr>) s in
            andThen (pa2page s (page2pa pd)) (\<lambda>p.
            andThen (page_decref p s) (\<lambda>s.
              Inr (push_env e (upd_env e (\<lambda>en. en\<lparr>env_status := ENV_FREE\<rparr>) s))))))"

section \<open>Running an environment\<close>

definition unlock_kernel :: "kstate \<Rightarrow> kstate fallible" where
  "unlock_kernel s = (if kernel_lock s \<noteq> Some (cpunum s) then Inl (KPanic ''spin_unlock'')
     else Inr (s\<lparr>kernel_lock := None\<rparr>))"

definition lock_kernel :: "kstate \<Rightarrow> unit kcall" where
  "lock_kernel s = (case kernel_lock s of
       None \<Rightarrow> returns () (s\<lparr>kernel_lock := Some (cpunum s)\<rparr>)
     | Some c \<Rightarrow> if c = cpunum s then Inl (KPanic ''cannot acquire: already holding'')
                 else Inr (SpinsOnLock, s))"

definition env_load_pgdir :: "nat \<Rightarrow> kstate \<Rightarrow> kstate fallible" where
  "env_load_pgdir e s = (case env_pgdir (envs s e) of
       None \<Rightarrow> Inl (KPanic ''PADDR called with invalid kva'')
     | Some pd \<Rightarrow> Inr (lcr3 pd s))"

definition env_run :: "nat \<Rightarrow> kstate \<Rightarrow> 'a kcall" where
  "env_run e s =
     (let s = (case curenv s of
                 None \<Rightarrow> s
               | Some c \<Rightarrow> if env_status (envs s c) = ENV_RUNNING
                           then upd_env c (\<lambda>en. en\<lparr>env_status := ENV_RUNNABLE\<rparr>) s else s);
          s = set_curenv (Some e) s;
          s = upd_env e (\<lambda>en. en\<lparr>env_runs := env_runs en + 1\<rparr>) s;
          s = upd_env e (\<lambda>en. en\<lparr>env_status := ENV_RUNNING\<rparr>) s
      in andThen (env_load_pgdir e s) (\<lambda>s.
         andThen (unlock_kernel s) (\<lambda>s.
           Inr (RunsEnv e, upd_env e (\<lambda>en. en\<lparr>env_cpunum := cpunum s\<rparr>) s))))"

end
