(* ===== verification/DirLife.thy ===== *)
theory DirLife
  imports Envs
begin

text \<open>
  The life of a page directory: a zeroed page becomes one, its tables are emptied and taken
  down by the loops of \<open>env_free\<close>, and the directory itself is dropped. The reference
  counts stay exact at every stage.
\<close>

section \<open>Memory that is not page-table memory\<close>

text \<open>Slots do not depend on pages that are neither directories nor tables.\<close>

lemma slot_val_other_mem:
  assumes inv: "ref_inv s pds fl ext" and p: "p \<notin> pds"
    and nt: "\<And>pd i. pd \<in> pds \<Longrightarrow> i < 955 \<Longrightarrow> rd s pd i \<noteq> 0 \<Longrightarrow> PGNUM (rd s pd i) \<noteq> p"
    and same: "\<And>q j. q \<noteq> p \<Longrightarrow> rd s' q j = rd s q j" and x: "x \<in> slots pds"
  shows "slot_val s' x = slot_val s x"
proof (cases x)
  case (PDE pd i)
  with x p have "pd \<noteq> p" by auto
  with PDE same show ?thesis by simp
next
  case (PTE pd n)
  with x have pd: "pd \<in> pds" "n div 1024 < 955" by (simp_all add: div_less_iff_less_mult)
  then have "rd s' pd (n div 1024) = rd s pd (n div 1024)" using p same by (metis (no_types))
  moreover have "rd s' (PGNUM (rd s pd (n div 1024))) j = rd s (PGNUM (rd s pd (n div 1024))) j"
    if "rd s pd (n div 1024) \<noteq> 0" for j
    using nt [OF pd that] same by auto
  ultimately show ?thesis using PTE by (simp add: pte_of_def Let_def)
qed

lemma ref_inv_slots_cong:
  assumes inv: "ref_inv s pds fl ext" and slots: "\<And>x. x \<in> slots pds \<Longrightarrow> slot_val s' x = slot_val s x"
    and n: "npages s' = npages s" "kern_pgdir s' = kern_pgdir s" and refs: "\<And>p. pp_ref (pages s' p) = pp_ref (pages s p)"
    and free: "free_pages s' fl'" "kern_pgdir s \<notin> set fl'"
  shows "ref_inv s' pds fl' ext"
proof -
  have hold: "holders s' pds p = holders s pds p" for p by (rule holders_cong [OF slots])
  have pde: "rd s' pd i = rd s pd i" if "pd \<in> pds" "i < 955" for pd i
    using slots [of "PDE pd i"] that by simp
  show ?thesis using inv free slots pde by (simp add: ref_inv_def n refs hold mem_ok_def)
qed

lemma ref_inv_other_mem:
  assumes inv: "ref_inv s pds fl ext" and p: "p \<notin> pds"
    and nt: "\<And>pd i. pd \<in> pds \<Longrightarrow> i < 955 \<Longrightarrow> rd s pd i \<noteq> 0 \<Longrightarrow> PGNUM (rd s pd i) \<noteq> p"
    and same: "\<And>q j. q \<noteq> p \<Longrightarrow> rd s' q j = rd s q j"
    and rest: "pages s' = pages s" "page_free_list s' = page_free_list s" "npages s' = npages s"
      "kern_pgdir s' = kern_pgdir s"
  shows "ref_inv s' pds fl ext"
proof (rule ref_inv_slots_cong [OF inv slot_val_other_mem [OF inv p nt same]])
  show "free_pages s' fl" "kern_pgdir s \<notin> set fl"
    using inv ref_inv_pages_cong(1) [OF rest(1-3)] by (simp_all add: ref_inv_def)
qed (simp_all add: rest)

section \<open>Taking a page\<close>

lemma pop_page_fields [simp]:
  "page_free_list s = Some p \<Longrightarrow> pages (pop_page s) = (pages s)(p := (pages s p)\<lparr>pp_link := None\<rparr>)"
  "envs (pop_page s) = envs s" "cpus (pop_page s) = cpus s" "cpunum (pop_page s) = cpunum s"
  "kern_pgdir (pop_page s) = kern_pgdir s" "env_free_list (pop_page s) = env_free_list s"
  "tlb (pop_page s) = tlb s"
  by (simp_all add: pop_page_def split: option.split)

lemma ref_inv_pop:
  assumes inv: "ref_inv s pds (p # fl) ext"
  shows "ref_inv (pop_page s) pds fl ext"
proof (rule ref_inv_same_refs [OF inv])
  have free: "free_pages s (p # fl)" using inv by (simp add: ref_inv_def)
  then show "free_pages (pop_page s) fl" by (rule free_pages_pop)
  show "pp_ref (pages (pop_page s) q) = pp_ref (pages s q)" for q
    using free_pages_Cons [OF free] by simp
  show "kern_pgdir s \<notin> set fl" using ref_inv_kern_used [OF inv] by simp
qed simp_all

lemma fresh_not_table:
  assumes inv: "ref_inv s pds (p # fl) ext" and "pd \<in> pds" "i < 955" "rd s pd i \<noteq> 0"
  shows "PGNUM (rd s pd i) \<noteq> p"
  using table_unique(5) [OF assms] by auto

lemma ref_inv_alloc:
  assumes inv: "ref_inv s pds (p # fl) ext" and run: "page_alloc flags s = Inr (r, s')"
  shows "r = Some p \<and> ref_inv s' pds fl ext \<and> vm_frame s s'
     \<and> (\<forall>q j. rd s' q j = (if q = p \<and> flags AND ALLOC_ZERO \<noteq> 0 then 0 else rd s q j))
     \<and> mappable s' pds fl p \<and> pp_ref (pages s' p) = 0 \<and> tlb s' = tlb s"
proof -
  have free: "free_pages s (p # fl)" and ok: "mem_ok s" using inv by (simp_all add: ref_inv_def)
  note take = page_alloc_take [OF free ok, of flags]
  have dist: "p \<notin> set fl" using free_pages_distinct [OF free] by simp
  have p: "p < npages s" "page_free_list s = Some p" "pp_ref (pages s p) = 0" "p \<noteq> kern_pgdir s"
    using free ref_inv_kern_used [OF inv] by (auto simp: free_pages_def)
  have inv1: "ref_inv (pop_page s) pds fl ext" by (rule ref_inv_pop [OF inv])
  have inv2: "ref_inv (zero_page p (pop_page s)) pds fl ext"
    by (rule ref_inv_other_mem [OF inv1, of p])
       (use free_unheld(3) [OF inv, of p] fresh_not_table [OF inv] in auto)
  have "mappable (pop_page s) pds fl p" "mappable (zero_page p (pop_page s)) pds fl p"
    using p dist fresh_not_table [OF inv] free_unheld(3) [OF inv, of p] by (auto simp: mappable_def)
  moreover have "vm_frame s (pop_page s)" "vm_frame s (zero_page p (pop_page s))"
    using vm_frame_trans [of s "pop_page s" "zero_page p (pop_page s)"] by simp_all
  moreover have "tlb (zero_page p (pop_page s)) = tlb s" by (simp add: zero_page_def)
  moreover have "r = Some p" "s' = (if flags AND ALLOC_ZERO \<noteq> 0 then zero_page p (pop_page s) else pop_page s)"
    using run take by simp_all
  ultimately show ?thesis
    using inv1 inv2 p by simp
qed

section \<open>A page becomes a directory, and stops being one\<close>

lemma holders_dir:
  assumes "\<And>i. i < 955 \<Longrightarrow> rd s pd i = 0"
  shows "holders s (insert pd pds) p = holders s pds p"
proof -
  have "slot_val s x = 0" if "x \<in> slots (insert pd pds)" "x \<notin> slots pds" for x
    using that assms by (cases x) (auto simp: pte_of_def div_less_iff_less_mult)
  moreover have "slots pds \<subseteq> slots (insert pd pds)" by (auto simp: slots_def)
  ultimately show ?thesis by (auto simp: holders_def)
qed

lemma ref_inv_dir:
  assumes zero: "\<And>i. i < 955 \<Longrightarrow> rd s pd i = 0" and pd: "pd < npages s" "0 < ext pd"
  shows "ref_inv s (insert pd pds) fl ext \<longleftrightarrow> ref_inv s pds fl ext"
proof -
  have new: "slot_val s x = 0" if "x \<in> slots (insert pd pds)" "x \<notin> slots pds" for x
    using that zero by (cases x) (auto simp: pte_of_def div_less_iff_less_mult)
  have sub: "slots pds \<subseteq> slots (insert pd pds)" by (auto simp: slots_def)
  have "(\<forall>x\<in>slots (insert pd pds). slot_val s x \<noteq> 0 \<longrightarrow> P x) \<longleftrightarrow>
      (\<forall>x\<in>slots pds. slot_val s x \<noteq> 0 \<longrightarrow> P x)" for P
    using new sub by blast
  moreover have "holders s (insert pd pds) p = holders s pds p" for p by (rule holders_dir [OF zero])
  ultimately show ?thesis using zero pd by (simp add: ref_inv_def)
qed


section \<open>Taking a directory down\<close>

lemma unat_PGADDR:
  assumes "i < 1024" and "j < 1024"
  shows "unat (PGADDR i j 0) = i * 4194304 + j * 4096"
proof -
  have i: "unat (push_bit 22 (word_of_nat i :: u32)) = i * 4194304"
    using assms by (simp add: push_bit_eq_mult unat_word_ariths unat_of_nat)
  have j: "unat (push_bit 12 (word_of_nat j :: u32)) = j * 4096"
    using assms by (simp add: push_bit_eq_mult unat_word_ariths unat_of_nat)
  have disj: "push_bit 22 (word_of_nat i :: u32) AND push_bit 12 (word_of_nat j) = 0"
  proof (rule bit_word_eqI)
    fix n
    have "\<not> bit (word_of_nat j :: u32) (n - 12)" if "22 \<le> n"
    proof -
      have "(2 :: nat) ^ 10 \<le> 2 ^ (n - 12)" using that by (intro power_increasing) simp_all
      then have "j < 2 ^ (n - 12)" using assms by simp
      then have "\<not> bit j (n - 12)" by (simp add: bit_iff_odd)
      then show ?thesis by (simp add: bit_simps)
    qed
    then show "bit (push_bit 22 (word_of_nat i :: u32) AND push_bit 12 (word_of_nat j)) n = bit (0 :: u32) n"
      by (auto simp: bit_and_iff bit_push_bit_iff)
  qed
  have "PGADDR i j 0 = push_bit 22 (word_of_nat i) + push_bit 12 (word_of_nat j)"
    using disj by (simp add: PGADDR_def disjunctive_add_eq_or)
  then show ?thesis using assms i j by (simp add: unat_word_ariths)
qed

lemma PGADDR_split:
  assumes "i < 955" and "j < 1024"
  shows "PDX (PGADDR i j 0) = i" and "PTX (PGADDR i j 0) = j" and "PGADDR i j 0 < UTOP"
    and "PGNUM (PGADDR i j 0) = i * 1024 + j"
  using assms unat_PGADDR [of i j] by (simp_all add: PDX_div PTX_div PGNUM_div word_less_nat_alt)

text \<open>The inner loop empties the rest of one table and touches nothing else.\<close>

lemma free_ptes_effect:
  assumes "ref_inv s pds fl ext" and pd: "pd \<in> pds" "i < 955" and "rd s pd i \<noteq> 0"
    and "t = PGNUM (rd s pd i)" and "j + n = 1024"
  shows "\<exists>s' fl'. free_ptes pd i t j n s = Inr s' \<and> ref_inv s' pds fl' ext \<and> vm_frame s s'
     \<and> (\<forall>q k. rd s' q k = (if q = t \<and> j \<le> k \<and> k < 1024 then 0 else rd s q k))"
  using assms(1,4,5,6)
proof (induction n arbitrary: j s fl)
  case 0
  then show ?case by auto
next
  case (Suc n)
  note inv = Suc.prems(1) and ne = Suc.prems(2) and t = Suc.prems(3)
  have j: "j < 1024" "Suc j + n = 1024" using Suc.prems by simp_all
  note va = PGADDR_split [OF pd(2) j(1)]
  have tpd: "t \<noteq> pd" using table_unique(3) [OF inv pd ne] pd t by auto
  have step: "\<exists>s1 fl1. (if rd s t j AND PTE_P \<noteq> 0 then page_remove pd (PGADDR i j 0) s else Inr s) = Inr s1
     \<and> ref_inv s1 pds fl1 ext \<and> vm_frame s s1
     \<and> (\<forall>q k. rd s1 q k = (if q = t \<and> k = j then 0 else rd s q k))"
  proof (cases "rd s t j AND PTE_P = 0")
    case True
    have "rd s t j = 0"
      using ref_inv_present [OF inv, of "PTE pd (i * 1024 + j)"] True pd j ne t
      by (auto simp: pte_of_entry)
    with True inv show ?thesis by auto
  next
    case False
    from page_remove_effect [OF inv pd(1) va(3)] obtain s1 fl1 where
      "page_remove pd (PGADDR i j 0) s = Inr s1" "ref_inv s1 pds fl1 ext" "vm_frame s s1"
      "\<forall>q k. rd s1 q k = (if q = PGNUM (rd s pd (PDX (PGADDR i j 0))) \<and> k = PTX (PGADDR i j 0)
          \<and> rd s pd (PDX (PGADDR i j 0)) \<noteq> 0 then 0 else rd s q k)"
      by blast
    with False ne t va show ?thesis by auto
  qed
  then obtain s1 fl1 where
    s1: "(if rd s t j AND PTE_P \<noteq> 0 then page_remove pd (PGADDR i j 0) s else Inr s) = Inr s1"
      "ref_inv s1 pds fl1 ext" "vm_frame s s1"
    and rd1: "\<And>q k. rd s1 q k = (if q = t \<and> k = j then 0 else rd s q k)" by blast
  have same: "rd s1 pd i = rd s pd i" using tpd by (simp add: rd1)
  from Suc.IH [OF s1(2) _ _ j(2)] ne t obtain s2 fl2 where
    s2: "free_ptes pd i t (Suc j) n s1 = Inr s2" "ref_inv s2 pds fl2 ext" "vm_frame s1 s2"
      "\<forall>q k. rd s2 q k = (if q = t \<and> Suc j \<le> k \<and> k < 1024 then 0 else rd s1 q k)"
    by (auto simp: same)
  have "free_ptes pd i t j (Suc n) s = Inr s2" using s1(1) s2(1) by simp
  moreover have "rd s2 q k = (if q = t \<and> j \<le> k \<and> k < 1024 then 0 else rd s q k)" for q k
    using s2(4) rd1 j by (auto simp: Suc_le_eq le_less)
  ultimately show ?case using s2(2) vm_frame_trans [OF s1(3) s2(3)] by blast
qed

text \<open>Unhooking an empty table from its directory leaves it with the operation's reference.\<close>

lemma ref_inv_unhook:
  assumes inv: "ref_inv s pds fl ext" and pd: "pd \<in> pds" "i < 955" and ne: "rd s pd i \<noteq> 0"
    and empty: "\<And>j. j < 1024 \<Longrightarrow> rd s (PGNUM (rd s pd i)) j = 0"
  defines "t \<equiv> PGNUM (rd s pd i)"
  shows "ref_inv (wr pd i 0 s) pds fl (ext(t := 1))"
    and "\<And>x. x \<in> slots pds \<Longrightarrow> slot_val (wr pd i 0 s) x = (if x = PDE pd i then 0 else slot_val s x)"
proof -
  let ?s = "wr pd i 0 s" and ?x = "PDE pd i"
  show upd: "slot_val ?s x = (if x = ?x then 0 else slot_val s x)" if x: "x \<in> slots pds" for x
  proof (cases x)
    case (PTE pd' n')
    have x': "pd' \<in> pds" "n' div 1024 < 955" using x PTE by (simp_all add: div_less_iff_less_mult)
    show ?thesis
    proof (cases "pd' = pd \<and> n' div 1024 = i")
      case True
      then have "pte_of ?s pd' n' = 0" by (simp add: pte_of_def)
      moreover have "pte_of s pd' n' = 0" using True empty by (simp add: pte_of_def Let_def)
      ultimately show ?thesis using PTE by simp
    next
      case False
      then have pde: "rd ?s pd' (n' div 1024) = rd s pd' (n' div 1024)" by auto
      show ?thesis
      proof (cases "rd s pd' (n' div 1024) = 0")
        case True
        with pde PTE show ?thesis by (simp add: pte_of_def Let_def)
      next
        case ne': False
        have "PGNUM (rd s pd' (n' div 1024)) \<noteq> pd" using table_unique(3) [OF inv x' ne'] pd by auto
        with pde PTE show ?thesis by (simp add: pte_of_def Let_def)
      qed
    qed
  qed auto
  note tab = table_unique [OF inv pd ne, folded t_def]
  have x: "?x \<in> slots pds" using pd by simp
  have "slot_val s y = (if y = ?x then slot_val s ?x else slot_val ?s y)" if "y \<in> slots pds" for y
    using upd [OF that] by simp
  from card_holders_fill [OF ref_inv_finite [OF inv] x _ _ this] ne
  have card: "card (holders s pds q) = card (holders ?s pds q) + (if q = t then 1 else 0)" for q
    by (simp add: t_def)
  have ext: "ext t = 0" by (rule tab(2))
  have "unat (pp_ref (pages s q)) = card (holders ?s pds q) + (ext(t := 1)) q" if "q < npages s" "q \<noteq> kern_pgdir s" for q
    using ref_inv_count [OF inv that] card [of q] ext by (auto split: if_splits)
  then show "ref_inv ?s pds fl (ext(t := 1))"
    using inv upd ref_inv_pages_cong [of ?s s] by (auto simp: ref_inv_def split: if_splits)
qed


lemma KADDR_PTE:
  "PGNUM pde < npages s \<Longrightarrow> \<exists>kva. KADDR s (PTE_ADDR pde) = Inr kva \<and> PGNUM (kva - KERNBASE) = PGNUM pde"
  by (simp add: KADDR_def)

lemma pa2page_PTE: "PGNUM pde < npages s \<Longrightarrow> pa2page s (PTE_ADDR pde) = Inr (PGNUM pde)"
  by (simp add: pa2page_def)

text \<open>One turn of the outer loop: the table of one directory entry is emptied, unhooked and freed.\<close>

lemma free_table_step:
  assumes inv: "ref_inv s pds fl ext" and pd: "pd \<in> pds" "i < 955" and ne: "rd s pd i \<noteq> 0"
  shows "\<exists>s1 s2 fl2. free_ptes pd i (PGNUM (rd s pd i)) 0 NPTENTRIES s = Inr s1 \<and> npages s1 = npages s
     \<and> page_decref (PGNUM (rd s pd i)) (wr pd i 0 s1) = Inr s2 \<and> ref_inv s2 pds fl2 ext \<and> vm_frame s s2
     \<and> (\<forall>pd'\<in>pds. \<forall>k<955. rd s2 pd' k = (if pd' = pd \<and> k = i then 0 else rd s pd' k))
     \<and> (\<forall>pd'\<in>pds. pd' \<noteq> pd \<longrightarrow> (\<forall>n<977920. pte_of s2 pd' n = pte_of s pd' n))"
proof -
  define t where "t = PGNUM (rd s pd i)"
  note tab = table_unique [OF inv pd ne, folded t_def]
  from free_ptes_effect [OF inv pd ne, of t 0 1024] obtain s1 fl1 where
    s1: "free_ptes pd i t 0 1024 s = Inr s1" "ref_inv s1 pds fl1 ext" "vm_frame s s1"
    and rd1: "\<And>q k. rd s1 q k = (if q = t \<and> k < 1024 then 0 else rd s q k)"
    by (auto simp: t_def)
  have pde1: "rd s1 pd' k = rd s pd' k" if "pd' \<in> pds" for pd' k
    using tab(3) that by (auto simp: rd1)
  have n1: "npages s1 = npages s" using s1(3) by (simp add: vm_frame_def)
  let ?w = "wr pd i 0 s1"
  have pdei: "rd s1 pd i = rd s pd i" by (rule pde1 [OF pd(1)])
  have ne1: "rd s1 pd i \<noteq> 0" and zero1: "\<And>j. j < 1024 \<Longrightarrow> rd s1 (PGNUM (rd s1 pd i)) j = 0"
    and t1: "PGNUM (rd s1 pd i) = t"
    unfolding pdei using ne by (simp_all add: rd1 t_def)
  note unhook = ref_inv_unhook(1) [OF s1(2) pd ne1 zero1, unfolded t1]
    and upd = ref_inv_unhook(2) [OF s1(2) pd ne1 zero1]
  have restore: "(ext(t := 1))(t := (ext(t := 1)) t - 1) = ext" using tab(2) by (auto simp: fun_eq_iff)
  have "\<exists>s' fl'. page_decref t ?w = Inr s' \<and> ref_inv s' pds fl' ext \<and> rd s' = rd ?w"
    using ref_inv_drop [OF unhook, of t, unfolded restore] tab(3,4) n1
      ref_inv_not_kern [OF s1(2), of "PDE pd i"] pd ne1 t1 by auto
  then obtain s2 fl2 where s2: "page_decref t ?w = Inr s2" "ref_inv s2 pds fl2 ext" "rd s2 = rd ?w" by blast
  have "vm_frame ?w s2" using page_decref_frame [OF s2(1)] by simp
  then have fr: "vm_frame s s2" using s1(3) by (simp add: vm_frame_def)
  have pde2: "rd s2 pd' k = (if pd' = pd \<and> k = i then 0 else rd s pd' k)" if "pd' \<in> pds" for pd' k
    using that by (simp add: s2(3) pde1)
  have pte2: "pte_of s2 pd' n = pte_of s pd' n" if x: "pd' \<in> pds" "pd' \<noteq> pd" "n < 977920" for pd' n
  proof -
    have "slot_val s2 (PTE pd' n) = slot_val s1 (PTE pd' n)"
      using upd [of "PTE pd' n"] x fun_cong [OF slot_val_cong [OF s2(3)], of "PTE pd' n"] by simp
    moreover have "pte_of s1 pd' n = pte_of s pd' n"
    proof (cases "rd s pd' (n div 1024) = 0")
      case True
      then show ?thesis by (simp add: pte_of_def pde1 x)
    next
      case False
      have d: "n div 1024 < 955" using x by (simp add: div_less_iff_less_mult)
      have "PGNUM (rd s pd' (n div 1024)) \<noteq> t"
        using table_unique(1) [OF inv x(1) d False] tab(1) x(2) by force
      then show ?thesis unfolding pte_of_def Let_def pde1 [OF x(1)] by (simp add: rd1)
    qed
    ultimately show ?thesis by simp
  qed
  show ?thesis
    using s1(1) n1 s2(1,2) fr pde2 pte2 by (simp add: t_def) blast
qed

lemma free_tables_effect:
  assumes "ref_inv s pds fl ext" and pd: "pd \<in> pds" and "i + n \<le> 955"
  shows "\<exists>s' fl'. free_tables pd i n s = Inr s' \<and> ref_inv s' pds fl' ext \<and> vm_frame s s'
     \<and> (\<forall>pd'\<in>pds. \<forall>k<955. rd s' pd' k = (if pd' = pd \<and> i \<le> k \<and> k < i + n then 0 else rd s pd' k))
     \<and> (\<forall>pd'\<in>pds. pd' \<noteq> pd \<longrightarrow> (\<forall>m<977920. pte_of s' pd' m = pte_of s pd' m))"
  using assms(1,3)
proof (induction n arbitrary: i s fl)
  case 0
  then show ?case by auto
next
  case (Suc n)
  note inv = Suc.prems(1)
  have i: "i < 955" "Suc i + n \<le> 955" using Suc.prems by simp_all
  have step: "\<exists>s1 fl1. free_tables pd i (Suc n) s = free_tables pd (Suc i) n s1 \<and> ref_inv s1 pds fl1 ext
     \<and> vm_frame s s1
     \<and> (\<forall>pd'\<in>pds. \<forall>k<955. rd s1 pd' k = (if pd' = pd \<and> k = i then 0 else rd s pd' k))
     \<and> (\<forall>pd'\<in>pds. pd' \<noteq> pd \<longrightarrow> (\<forall>m<977920. pte_of s1 pd' m = pte_of s pd' m))"
  proof (cases "rd s pd i = 0")
    case True
    with inv show ?thesis by (intro exI [of _ s] exI [of _ fl]) auto
  next
    case False
    have P: "rd s pd i AND PTE_P \<noteq> 0" using ref_inv_present [OF inv, of "PDE pd i"] pd i False by simp
    have lt: "PGNUM (rd s pd i) < npages s" by (rule table_unique(4) [OF inv pd i(1) False])
    from free_table_step [OF inv pd i(1) False] obtain s1 s2 fl2 where
      s2: "free_ptes pd i (PGNUM (rd s pd i)) 0 NPTENTRIES s = Inr s1" "npages s1 = npages s"
        "page_decref (PGNUM (rd s pd i)) (wr pd i 0 s1) = Inr s2" "ref_inv s2 pds fl2 ext" "vm_frame s s2"
        "\<forall>pd'\<in>pds. \<forall>k<955. rd s2 pd' k = (if pd' = pd \<and> k = i then 0 else rd s pd' k)"
        "\<forall>pd'\<in>pds. pd' \<noteq> pd \<longrightarrow> (\<forall>n<977920. pte_of s2 pd' n = pte_of s pd' n)"
      by blast
    have "free_tables pd i (Suc n) s = free_tables pd (Suc i) n s2"
      using P lt s2(1,2,3) KADDR_PTE [OF lt] by (auto simp: pa2page_PTE Let_def)
    with s2 show ?thesis by blast
  qed
  then obtain s1 fl1 where
    s1: "free_tables pd i (Suc n) s = free_tables pd (Suc i) n s1" "ref_inv s1 pds fl1 ext" "vm_frame s s1"
      "\<forall>pd'\<in>pds. \<forall>k<955. rd s1 pd' k = (if pd' = pd \<and> k = i then 0 else rd s pd' k)"
      "\<forall>pd'\<in>pds. pd' \<noteq> pd \<longrightarrow> (\<forall>m<977920. pte_of s1 pd' m = pte_of s pd' m)"
    by blast
  from Suc.IH [OF s1(2) i(2)] obtain s2 fl2 where
    s2: "free_tables pd (Suc i) n s1 = Inr s2" "ref_inv s2 pds fl2 ext" "vm_frame s1 s2"
      "\<forall>pd'\<in>pds. \<forall>k<955. rd s2 pd' k = (if pd' = pd \<and> Suc i \<le> k \<and> k < Suc i + n then 0 else rd s1 pd' k)"
      "\<forall>pd'\<in>pds. pd' \<noteq> pd \<longrightarrow> (\<forall>m<977920. pte_of s2 pd' m = pte_of s1 pd' m)"
    by blast
  have "rd s2 pd' k = (if pd' = pd \<and> i \<le> k \<and> k < i + Suc n then 0 else rd s pd' k)"
    if "pd' \<in> pds" "k < 955" for pd' k
    using s2(4) s1(4) that by (auto simp: Suc_le_eq le_less)
  moreover have "pte_of s2 pd' m = pte_of s pd' m" if "pd' \<in> pds" "pd' \<noteq> pd" "m < 977920" for pd' m
    using s2(5) s1(5) that by simp
  ultimately show ?case
    using s1(1) s2(1,2) vm_frame_trans [OF s1(3) s2(3)] by (intro exI [of _ s2] exI [of _ fl2]) auto
qed

end
