(* ===== verification/EnvProps.thy ===== *)
theory EnvProps
  imports DirLife
begin

text \<open>
  The invariant of environments and memory together, and what \<open>env_init\<close>, \<open>envid2env\<close>,
  \<open>env_alloc\<close>, \<open>env_free\<close> and \<open>env_run\<close> do under it.
\<close>

section \<open>The environment free list\<close>

definition env_link_of :: "kstate \<Rightarrow> nat \<Rightarrow> nat option" where
  "env_link_of s e = env_link (envs s e)"

definition pop_env :: "kstate \<Rightarrow> kstate" where
  "pop_env s = (case env_free_list s of None \<Rightarrow> s | Some e \<Rightarrow> s\<lparr>env_free_list := env_link (envs s e)\<rparr>)"

interpretation efl: free_list env_free_list env_link_of push_env pop_env
proof unfold_locales
  fix p q :: nat and s :: kstate
  show "env_free_list (push_env p s) = Some p"
    and "env_link_of (push_env p s) p = env_free_list s"
    by (simp_all add: push_env_def env_link_of_def)
  show "q \<noteq> p \<Longrightarrow> env_link_of (push_env p s) q = env_link_of s q"
    by (simp add: push_env_def env_link_of_def upd_env_def)
  show "env_free_list s = Some p \<Longrightarrow> env_free_list (pop_env s) = env_link_of s p"
    and "env_free_list s = Some p \<Longrightarrow> q \<noteq> p \<Longrightarrow> env_link_of (pop_env s) q = env_link_of s q"
    by (simp_all add: pop_env_def env_link_of_def)
qed

text \<open>The list holds exactly the slots whose status is \<open>ENV_FREE\<close>.\<close>

definition free_envs :: "kstate \<Rightarrow> nat list \<Rightarrow> bool" where
  "free_envs s el \<longleftrightarrow> chain (env_link_of s) (env_free_list s) el
     \<and> set el = {e. e < 1024 \<and> env_status (envs s e) = ENV_FREE}"

lemma free_envs_cong:
  "envs s = envs t \<Longrightarrow> env_free_list s = env_free_list t \<Longrightarrow> free_envs s el = free_envs t el"
  by (simp add: free_envs_def env_link_of_def [abs_def])

lemma free_envs_distinct: "free_envs s el \<Longrightarrow> distinct el"
  by (auto simp: free_envs_def intro: chain_distinct)

section \<open>env_init\<close>

lemma env_init_loop_envs:
  "env_init_loop i n s = s\<lparr>envs := (\<lambda>e. if i \<le> e \<and> e < i + n
      then (envs s e)\<lparr>env_id := 0, env_status := ENV_FREE, env_link := Some (e + 1)\<rparr> else envs s e)\<rparr>"
proof (induction n arbitrary: i s)
  case 0
  have "(\<lambda>e. if i \<le> e \<and> e < i + 0
      then (envs s e)\<lparr>env_id := 0, env_status := ENV_FREE, env_link := Some (e + 1)\<rparr> else envs s e) = envs s"
    by (auto simp: fun_eq_iff)
  then show ?case by simp
next
  case (Suc n)
  show ?case
    unfolding env_init_loop.simps Suc.IH upd_env_def
    by (simp, rule kstate.fold_congs(10)) (auto simp: fun_eq_iff)
qed

lemma chain_up:
  "(\<And>e. e < m \<Longrightarrow> a \<le> e \<Longrightarrow> nx e = (if e + 1 = m then None else Some (e + 1))) \<Longrightarrow> a < m \<Longrightarrow>
     chain nx (Some a) [a..<m]"
proof (induction "m - a" arbitrary: a)
  case (Suc k)
  show ?case
  proof (cases "a + 1 = m")
    case True
    with Suc.prems show ?thesis by (simp add: upt_rec)
  next
    case False
    with Suc have "chain nx (Some (a + 1)) [a + 1..<m]" by (intro Suc.hyps(1)) auto
    with False Suc.prems show ?thesis by (subst upt_rec) simp
  qed
qed simp

text \<open>
  env_init puts all NENV environments on the free list, in the order of the array, each
  with status ENV_FREE and identifier 0.
\<close>

theorem env_init_correct:
  "free_envs (env_init s) [0..<NENV] \<and> (\<forall>e<NENV. env_id (envs (env_init s) e) = 0)
    \<and> env_free_list (env_init s) = Some 0"
proof -
  let ?s = "env_init s"
  have envs: "envs ?s e = (envs s e)\<lparr>env_id := 0, env_status := ENV_FREE,
      env_link := if e + 1 = 1024 then None else Some (e + 1)\<rparr>" if "e < 1024" for e
    using that by (simp add: env_init_def env_init_loop_envs)
  have head: "env_free_list ?s = Some 0" by (simp add: env_init_def)
  have "chain (env_link_of ?s) (Some 0) [0..<1024]"
    by (rule chain_up) (simp_all add: env_link_of_def envs)
  then show ?thesis using envs head by (auto simp: free_envs_def)
qed

theorem env_init_correct_witness:
  "env_id (envs (env_init boot_state) 5) = 0 \<and> free_envs (env_init boot_state) [0..<NENV]"
  using env_init_correct [of boot_state] by (simp del: upt_Suc)

section \<open>Environment identifiers\<close>



lemma clear_low10: "unat (w AND NOT 0x3FF) = 1024 * (unat w div 1024)" for w :: u32
proof -
  have "w AND NOT 0x3FF = push_bit 10 (drop_bit 10 w)"
    by (rule bit_word_eqI)
       (auto simp: mask_10_12 [symmetric] bit_and_iff bit_not_iff bit_mask_iff bit_push_bit_iff bit_drop_bit_eq)
  moreover have "1024 * (unat w div 1024) < 4294967296"
    using unat_less_u32 [of w] times_div_less_eq_dividend [of 1024 "unat w"] by linarith
  ultimately show ?thesis
    by (simp add: push_bit_eq_mult drop_bit_eq_div unat_word_ariths unat_div_distrib)
qed

lemma unat_or_slot:
  assumes "unat (g :: u32) = 1024 * k" and "e < 1024" and "unat g + e < 4294967296"
  shows "unat (g OR word_of_nat e) = unat g + e"
proof -
  have "g AND word_of_nat e = 0"
  proof (rule bit_word_eqI)
    fix n
    have "\<not> bit g n" if "n < 10"
    proof -
      have "g = push_bit 10 (drop_bit 10 g)"
        using unat_less_u32 [of g]
        by (simp add: word_unat_eq_iff push_bit_eq_mult drop_bit_eq_div unat_word_ariths unat_div_distrib assms(1))
      then show ?thesis using that by (metis bit_push_bit_iff not_le)
    qed
    moreover have "\<not> bit (word_of_nat e :: u32) n" if "10 \<le> n"
    proof -
      have "(2 :: nat) ^ 10 \<le> 2 ^ n" using that by (intro power_increasing) simp_all
      then have "e < 2 ^ n" using assms by simp
      then have "\<not> bit e n" by (simp add: bit_iff_odd)
      then show ?thesis by (simp add: bit_simps)
    qed
    ultimately show "bit (g AND word_of_nat e) n = bit (0 :: u32) n"
      by (metis bit_0_eq bit_and_iff bot_apply bot_bool_def not_le)
  qed
  then have "g OR word_of_nat e = g + word_of_nat e" by (simp add: disjunctive_add_eq_or)
  then show ?thesis using assms by (simp add: unat_word_ariths unat_of_nat)
qed

lemma sint_u32: "sint w = (uint w + 2147483648) mod 4294967296 - 2147483648" for w :: u32
  by (simp add: sint_uint signed_take_bit_eq_take_bit_shift take_bit_eq_mod)

lemma sint_small:
  assumes "unat w < 2147483648" shows "sint w = int (unat (w :: u32))"
proof -
  have "uint w = int (unat w)" by simp
  with assms have "0 \<le> uint w" "uint w < 2147483648" by linarith+
  then have "(uint w + 2147483648) mod 4294967296 = uint w + 2147483648"
    by (intro mod_pos_pos_trivial) linarith+
  then show ?thesis by (simp add: sint_u32)
qed

lemma sint_large:
  assumes "2147483648 \<le> unat (w :: u32)" shows "sint w < 0"
proof -
  have "uint w = int (unat w)" by simp
  with assms unat_less_u32 [of w] have w: "2147483648 \<le> uint w" "uint w < 4294967296" by linarith+
  have "(uint w + 2147483648) mod 4294967296 = (uint w - 2147483648) mod 4294967296"
    using mod_add_self2 [of "uint w - 2147483648" 4294967296] by (simp add: algebra_simps)
  also have "\<dots> = uint w - 2147483648" using w by (intro mod_pos_pos_trivial) linarith+
  finally show ?thesis using w by (simp add: sint_u32)
qed

text \<open>
  The identifier env_alloc computes for slot e is positive, designates slot e, and differs
  from the identifier the slot had before when that was one of its own.
\<close>

theorem next_generation_correct:
  assumes "e < NENV" and "old = 0 \<or> ENVX old = e"
  defines "new \<equiv> next_generation old OR word_of_nat e"
  shows "0 < sint new \<and> ENVX new = e \<and> new \<noteq> old"
proof -
  define g where "g = next_generation old"
  have g: "unat g mod 1024 = 0 \<and> 0 < unat g \<and> unat g < 2147483648"
  proof (cases "sint ((old + push_bit 12 1) AND NOT 0x3FF) \<le> 0")
    case True
    then show ?thesis by (simp add: g_def next_generation_def)
  next
    case False
    then have "g = (old + push_bit 12 1) AND NOT 0x3FF" by (simp add: g_def next_generation_def)
    moreover from this False have "0 < sint g" by (simp only: not_le)
    moreover from this sint_large [of g] have "unat g < 2147483648" by force
    moreover have "0 < unat g" using \<open>0 < sint g\<close> by (cases "g = 0") (auto simp: unat_gt_0)
    ultimately show ?thesis using clear_low10 [of "old + push_bit 12 1"] by simp
  qed
  then obtain k where k: "unat g = 1024 * k" by (metis mod_0_imp_dvd dvdE)
  have new: "unat new = unat g + e"
    unfolding new_def g_def [symmetric] using g assms(1) by (intro unat_or_slot [OF k]) simp_all
  have "e < 1024" using assms(1) by simp
  then have "0 < sint new" "ENVX new = e"
    using new g k by (simp_all add: sint_small ENVX_mod)
  moreover have "new \<noteq> old"
  proof
    assume eq: "new = old"
    then have "unat (old + push_bit 12 1) = e + 1024 * (k + 4)"
      using new k g \<open>e < 1024\<close> by (simp add: unat_word_ariths)
    then have 1: "unat ((old + push_bit 12 1) AND NOT 0x3FF) = 1024 * ((e + 1024 * (k + 4)) div 1024)"
      by (simp only: clear_low10)
    have "(e + 1024 * (k + 4)) div 1024 = k + 4" using \<open>e < 1024\<close> by presburger
    with 1 have 1: "unat ((old + push_bit 12 1) AND NOT 0x3FF) = 1024 * (k + 4)" by simp
    then have "g = (old + push_bit 12 1) AND NOT 0x3FF \<or> g = 4096"
      by (simp add: g_def next_generation_def Let_def)
    then show False
    proof
      assume "g = (old + push_bit 12 1) AND NOT 0x3FF"
      with 1 k show False by simp
    next
      assume "g = 4096"
      with k have "k = 4" by simp
      with 1 have "sint ((old + push_bit 12 1) AND NOT 0x3FF) = 8192" by (subst sint_small) simp_all
      then have "g = (old + push_bit 12 1) AND NOT 0x3FF"
        by (simp add: g_def next_generation_def)
      with 1 k show False by simp
    qed
  qed
  ultimately show ?thesis by simp
qed

theorem next_generation_correct_witness:
  "0 < sint (next_generation 0x7FFFF001 OR 1) \<and> ENVX (next_generation 0x7FFFF001 OR 1) = 1"
  using next_generation_correct [of 1 "0x7FFFF001"] by (simp add: ENVX_def)


section \<open>The invariant of environments and memory\<close>

text \<open>
  Every live environment owns one directory and every directory one environment; the kernel's
  directory maps nothing below \<open>UTOP\<close>; \<open>kx p\<close> counts the references to \<open>p\<close> the kernel itself holds.
\<close>

definition pgdirs :: "kstate \<Rightarrow> nat set" where
  "pgdirs s = {pd. \<exists>e<1024. env_pgdir (envs s e) = Some pd}"

definition dirs :: "kstate \<Rightarrow> nat set" where
  "dirs s = insert (kern_pgdir s) (pgdirs s)"

definition held :: "nat set \<Rightarrow> (nat \<Rightarrow> nat) \<Rightarrow> nat \<Rightarrow> nat" where
  "held ds kx p = kx p + (if p \<in> ds then 1 else 0)"

definition kinv :: "kstate \<Rightarrow> nat list \<Rightarrow> nat list \<Rightarrow> (nat \<Rightarrow> nat) \<Rightarrow> bool" where
  "kinv s fl el kx \<longleftrightarrow> ref_inv s (dirs s) fl (held (pgdirs s) kx) \<and> free_envs s el
     \<and> (\<forall>e<1024. env_pgdir (envs s e) = None \<longleftrightarrow> env_status (envs s e) = ENV_FREE)
     \<and> (\<forall>e<1024. \<forall>e'<1024. env_pgdir (envs s e) \<noteq> None \<longrightarrow> env_pgdir (envs s e) = env_pgdir (envs s e') \<longrightarrow> e = e')
     \<and> kern_pgdir s \<notin> pgdirs s \<and> (\<forall>i<955. rd s (kern_pgdir s) i = 0)"

lemma pgdirs_upd_same:
  "(\<And>e. e < 1024 \<Longrightarrow> env_pgdir (envs s' e) = env_pgdir (envs s e)) \<Longrightarrow> pgdirs s' = pgdirs s"
  by (auto simp: pgdirs_def)

lemma pgdirs_add:
  assumes "e < 1024" and "env_pgdir (envs s e) = None"
    and "\<And>e'. e' < 1024 \<Longrightarrow> env_pgdir (envs s' e') = (if e' = e then Some p else env_pgdir (envs s e'))"
  shows "pgdirs s' = insert p (pgdirs s)"
proof -
  have "(\<exists>e'<1024. env_pgdir (envs s' e') = Some pd) \<longleftrightarrow> pd = p \<or> (\<exists>e'<1024. env_pgdir (envs s e') = Some pd)" for pd
    using assms by (metis option.distinct(1) option.inject)
  then show ?thesis by (auto simp: pgdirs_def)
qed

lemma pgdirs_drop:
  assumes "e < 1024" and "env_pgdir (envs s e) = Some p"
    and "\<And>e'. e' < 1024 \<Longrightarrow> env_pgdir (envs s' e') = (if e' = e then None else env_pgdir (envs s e'))"
    and "\<And>e'. e' < 1024 \<Longrightarrow> env_pgdir (envs s e') = Some p \<Longrightarrow> e' = e"
  shows "pgdirs s' = pgdirs s - {p}"
proof -
  have "(\<exists>e'<1024. env_pgdir (envs s' e') = Some pd) \<longleftrightarrow> pd \<noteq> p \<and> (\<exists>e'<1024. env_pgdir (envs s e') = Some pd)" for pd
    using assms by (metis option.distinct(1) option.inject)
  then show ?thesis by (auto simp: pgdirs_def)
qed

text \<open>The invariant reads page-table memory, the page structures and the environments only.\<close>

lemma ref_inv_same:
  assumes "ref_inv s pds fl ext" and "rd s' = rd s" "npages s' = npages s" "pages s' = pages s"
    "page_free_list s' = page_free_list s" "kern_pgdir s' = kern_pgdir s"
  shows "ref_inv s' pds fl ext"
  by (rule ref_inv_same_refs [OF assms(1,2,3)])
     (use assms in \<open>auto simp: ref_inv_def intro: iffD1 [OF free_pages_cong, rotated -1]\<close>)

section \<open>env_alloc\<close>

lemma env_setup_vm_no_memory:
  "free_pages s [] \<Longrightarrow> env_setup_vm e s = Inr (Inl E_NO_MEM, s)"
  by (simp add: env_setup_vm_def page_alloc_empty)

lemma PDX_UVPT: "PDX UVPT = 957" "PDX 0xEF400000 = 957"
  by (simp_all add: PDX_div)

text \<open>A fresh directory: the kernel's mappings above \<open>UTOP\<close>, nothing below, one reference.\<close>

lemma env_setup_vm_ok:
  assumes inv: "ref_inv s D (p # fl) ext" and kd: "kern_pgdir s \<in> D" "\<forall>i<955. rd s (kern_pgdir s) i = 0"
  shows "\<exists>s'. env_setup_vm e s = Inr (Inr (), s') \<and> ref_inv s' (insert p D) fl (ext(p := 1))
     \<and> (\<forall>i. rd s' p i = (if i = PDX UVPT then page2pa p OR PTE_P OR PTE_U else rd s (kern_pgdir s) i))
     \<and> (\<forall>q i. q \<noteq> p \<longrightarrow> rd s' q i = rd s q i)
     \<and> envs s' = (envs s)(e := (envs s e)\<lparr>env_pgdir := Some p\<rparr>)
     \<and> vm_frame (upd_env e (\<lambda>en. en\<lparr>env_pgdir := Some p\<rparr>) s) s'"
proof -
  have ok: "mem_ok s" "free_pages s (p # fl)" using inv by (simp_all add: ref_inv_def)
  obtain s1 where run1: "page_alloc ALLOC_ZERO s = Inr (Some p, s1)"
    using page_alloc_take [OF ok(2,1), of ALLOC_ZERO] by auto
  note a = ref_inv_alloc [OF inv run1]
  have inv1: "ref_inv s1 D fl ext" and fr1: "vm_frame s s1" and map1: "mappable s1 D fl p"
    and rd1: "\<And>q j. q \<noteq> p \<Longrightarrow> rd s1 q j = rd s q j" and z: "pp_ref (pages s1 p) = 0" using a by auto
  have p: "p < npages s" "p \<notin> D" "ext p = 0" using free_unheld [OF inv, of p] by simp_all
  have n1: "npages s1 = npages s" "kern_pgdir s1 = kern_pgdir s" using fr1 by (simp_all add: vm_frame_def)
  let ?take = "upd_page p (\<lambda>pi. pi\<lparr>pp_ref := pp_ref pi + 1\<rparr>) s1"
  define s' where "s' = wr p (PDX UVPT) (page2pa p OR PTE_P OR PTE_U)
     (upd_page p (\<lambda>pi. pi\<lparr>pp_ref := pp_ref pi + 1\<rparr>) (copy_page p (kern_pgdir s1)
       (upd_env e (\<lambda>en. en\<lparr>env_pgdir := Some p\<rparr>) s1)))"
  have run: "env_setup_vm e s = Inr (Inr (), s')"
    using run1 page2kva_ok [of s1 p] ok(1) n1 p(1)
    by (simp add: env_setup_vm_def s'_def mem_ok_def upd_env_def)
  have mem: "rd s' q i = (if q = p then (if i = PDX UVPT then page2pa p OR PTE_P OR PTE_U
      else rd s (kern_pgdir s) i) else rd s q i)" for q i
    using rd1 [of "kern_pgdir s" i] rd1 [of q i] kd(1) p(2)
    by (auto simp: s'_def copy_page_def rd_def wr_def upd_page_def upd_env_def n1)
  have take: "ref_inv ?take D fl (ext(p := ext p + 1))"
    using map1 z by (intro ref_inv_take [OF inv1]) (simp_all add: mappable_def)
  have other: "ref_inv s' D fl (ext(p := ext p + 1))"
  proof (rule ref_inv_other_mem [OF take p(2)])
    show "PGNUM (rd ?take pd i) \<noteq> p" if "pd \<in> D" "i < 955" "rd ?take pd i \<noteq> 0" for pd i
      using that map1 by (simp add: mappable_def)
    show "rd s' q j = rd ?take q j" if "q \<noteq> p" for q j using that by (simp add: mem rd1)
  qed (simp_all add: s'_def copy_page_def)
  have "rd s' p i = 0" if "i < 955" for i using kd(2) that by (simp add: mem PDX_UVPT)
  then have "ref_inv s' (insert p D) fl (ext(p := ext p + 1))"
    using other p(1) n1 by (subst ref_inv_dir) (simp_all add: s'_def copy_page_def)
  moreover have "envs s' = (envs s)(e := (envs s e)\<lparr>env_pgdir := Some p\<rparr>)"
    and "vm_frame (upd_env e (\<lambda>en. en\<lparr>env_pgdir := Some p\<rparr>) s) s'"
    using fr1 by (simp_all add: s'_def copy_page_def vm_frame_def)
  ultimately show ?thesis using run mem p(3) by auto
qed


lemma env_alloc_effect:
  assumes inv: "kinv s (p # fl') (e # el') kx"
  shows "\<exists>s'. env_alloc parent s = Inr (Inr e, s') \<and> kinv s' fl' el' kx
       \<and> envs s' = (envs s)(e := (envs s e)\<lparr>
            env_id := next_generation (env_id (envs s e)) OR word_of_nat e,
            env_parent_id := parent, env_type := ENV_TYPE_USER, env_status := ENV_RUNNABLE,
            env_runs := 0, env_priority := 0, env_tf := user_tf, env_pgfault_upcall := 0,
            env_ipc_recving := False, env_pgdir := Some p\<rparr>)
       \<and> (\<forall>n<977920. pte_of s' p n = 0) \<and> (\<forall>pd\<in>dirs s. \<forall>n<977920. pte_of s' pd n = pte_of s pd n)
       \<and> (\<forall>q. q \<noteq> p \<longrightarrow> rd s' q = rd s q) \<and> dirs s' = insert p (dirs s) \<and> p \<notin> dirs s
       \<and> (\<forall>i<955. rd s' p i = 0)
       \<and> kern_pgdir s' = kern_pgdir s \<and> cpus s' = cpus s \<and> cpunum s' = cpunum s \<and> cr3 s' = cr3 s \<and> kernel_lock s' = kernel_lock s"
proof -
  have rinv: "ref_inv s (dirs s) (p # fl') (held (pgdirs s) kx)" using inv by (simp add: kinv_def)
  have fe: "free_envs s (e # el')" using inv by (simp add: kinv_def)
  have kd: "kern_pgdir s \<in> dirs s" "\<forall>i<955. rd s (kern_pgdir s) i = 0"
    using inv by (simp_all add: kinv_def dirs_def)
  have e: "e < 1024" "env_status (envs s e) = ENV_FREE" "env_free_list s = Some e"
    using fe by (auto simp: free_envs_def)
  have nopd: "env_pgdir (envs s e) = None" using inv e by (simp add: kinv_def)
  have p: "p \<notin> dirs s" "held (pgdirs s) kx p = 0" using free_unheld [OF rinv, of p] by simp_all
  then have p': "p \<notin> pgdirs s" "kx p = 0" by (simp_all add: held_def dirs_def split: if_splits)
  from env_setup_vm_ok [OF rinv kd, of e] obtain s1 where
    s1: "env_setup_vm e s = Inr (Inr (), s1)" "ref_inv s1 (insert p (dirs s)) fl' ((held (pgdirs s) kx)(p := 1))"
      "\<forall>i. rd s1 p i = (if i = PDX UVPT then page2pa p OR PTE_P OR PTE_U else rd s (kern_pgdir s) i)"
      "\<forall>q i. q \<noteq> p \<longrightarrow> rd s1 q i = rd s q i"
      "envs s1 = (envs s)(e := (envs s e)\<lparr>env_pgdir := Some p\<rparr>)"
      "vm_frame (upd_env e (\<lambda>en. en\<lparr>env_pgdir := Some p\<rparr>) s) s1"
    by blast
  define upd :: "Env \<Rightarrow> Env" where "upd = (\<lambda>en. en\<lparr>env_id := next_generation (env_id en) OR word_of_nat e,
      env_parent_id := parent, env_type := ENV_TYPE_USER, env_status := ENV_RUNNABLE,
      env_runs := 0, env_priority := 0, env_tf := user_tf, env_pgfault_upcall := 0,
      env_ipc_recving := False\<rparr>)"
  let ?s2 = "upd_env e upd s1"
  define s' where "s' = ?s2\<lparr>env_free_list := env_link (envs ?s2 e)\<rparr>"
  have run: "env_alloc parent s = Inr (Inr e, s')"
    by (simp add: env_alloc_def e(3) s1(1) s'_def upd_def)
  have envs': "envs s' = (envs s)(e := (upd (envs s e))\<lparr>env_pgdir := Some p\<rparr>)"
    by (simp add: s'_def s1(5) upd_def fun_eq_iff)
  have rd': "rd s' = rd s1" by (simp add: s'_def)
  have pg: "env_pgdir (envs s' e') = (if e' = e then Some p else env_pgdir (envs s e'))" for e'
    by (simp add: envs')
  have pgd: "pgdirs s' = insert p (pgdirs s)" by (rule pgdirs_add [OF e(1) nopd]) (simp add: pg)
  have kp: "kern_pgdir s' = kern_pgdir s" using s1(6) by (simp add: s'_def vm_frame_def)
  have ds: "dirs s' = insert p (dirs s)" by (auto simp: dirs_def pgd kp)
  have held: "held (pgdirs s') kx = (held (pgdirs s) kx)(p := 1)" using p' by (auto simp: held_def pgd fun_eq_iff)
  have "ref_inv s' (dirs s') fl' (held (pgdirs s') kx)"
    unfolding ds held by (rule ref_inv_same [OF s1(2)]) (simp_all add: s'_def)
  moreover have "free_envs s' el'"
  proof -
    have "chain (env_link_of s) (env_link_of s e) el'" "e \<notin> set el'"
      using fe free_envs_distinct [OF fe] by (auto simp: free_envs_def)
    moreover have "env_link_of s' = env_link_of s" "env_free_list s' = env_link_of s e"
      by (auto simp: env_link_of_def envs' upd_def fun_eq_iff s'_def s1(5))
    moreover have "set el' = {x. x < 1024 \<and> env_status (envs s' x) = ENV_FREE}"
      using fe \<open>e \<notin> set el'\<close> by (auto simp: free_envs_def envs' upd_def)
    ultimately show ?thesis by (simp add: free_envs_def)
  qed
  moreover have "env_pgdir (envs s' x) = None \<longleftrightarrow> env_status (envs s' x) = ENV_FREE" if "x < 1024" for x
    using inv that by (auto simp: kinv_def envs' upd_def)
  moreover have "x = x'" if "x < 1024" "x' < 1024" "env_pgdir (envs s' x) \<noteq> None"
      "env_pgdir (envs s' x) = env_pgdir (envs s' x')" for x x'
  proof -
    have "env_pgdir (envs s y) \<noteq> Some p" if "y < 1024" for y using that p' by (auto simp: pgdirs_def)
    with that inv show ?thesis by (auto simp: pg kinv_def split: if_splits)
  qed
  moreover have "kern_pgdir s' \<notin> pgdirs s'" using inv p(1) by (auto simp: kp pgd kinv_def dirs_def)
  moreover have "rd s' (kern_pgdir s') i = 0" if "i < 955" for i
    using s1(4) kd that p(1) by (simp add: rd' kp) (metis)
  ultimately have kinv': "kinv s' fl' el' kx" unfolding kinv_def by blast
  have zero: "pte_of s' p n = 0" if "n < 977920" for n
  proof -
    have "n div 1024 < 955" using that by (simp add: div_less_iff_less_mult)
    then have "rd s' p (n div 1024) = 0" using s1(3) kd by (simp add: rd' PDX_UVPT)
    then show ?thesis by (simp add: pte_of_def)
  qed
  have other: "pte_of s' pd n = pte_of s pd n" if x: "pd \<in> dirs s" "n < 977920" for pd n
  proof -
    have "slot_val s' (PTE pd n) = slot_val s (PTE pd n)"
      by (rule slot_val_other_mem [OF rinv p(1)])
         (use fresh_not_table [OF rinv] s1(4) x in \<open>simp_all add: rd'\<close>)
    then show ?thesis by simp
  qed
  have "rd s' q = rd s q" if "q \<noteq> p" for q using s1(4) that by (simp add: rd' fun_eq_iff)
  moreover have "rd s' p i = 0" if "i < 955" for i using s1(3) kd that by (simp add: rd' PDX_UVPT)
  moreover have "cpus s' = cpus s" "cpunum s' = cpunum s" "cr3 s' = cr3 s" "kernel_lock s' = kernel_lock s"
    using s1(6) by (simp_all add: s'_def vm_frame_def)
  ultimately show ?thesis using run kinv' zero other ds p(1) kp by (simp add: envs' upd_def)
qed

text \<open>
  C16. env_alloc, under the invariant: with no free slot it answers E_NO_FREE_ENV, with no free
  page E_NO_MEM, both without touching the state. Otherwise it hands out the first free slot
  as a runnable environment with a fresh identifier, the initial register state and a
  directory of its own that maps nothing below UTOP; no other environment and no other
  address space changes, and the invariant holds again.
\<close>

theorem env_alloc_correct:
  assumes inv: "kinv s fl el kx"
  shows "if el = [] then env_alloc parent s = Inr (Inl E_NO_FREE_ENV, s)
     else if fl = [] then env_alloc parent s = Inr (Inl E_NO_MEM, s)
     else \<exists>s'. env_alloc parent s = Inr (Inr (hd el), s') \<and> kinv s' (tl fl) (tl el) kx
       \<and> envs s' = (envs s)(hd el := (envs s (hd el))\<lparr>
            env_id := next_generation (env_id (envs s (hd el))) OR word_of_nat (hd el),
            env_parent_id := parent, env_type := ENV_TYPE_USER, env_status := ENV_RUNNABLE,
            env_runs := 0, env_priority := 0, env_tf := user_tf, env_pgfault_upcall := 0,
            env_ipc_recving := False, env_pgdir := Some (hd fl)\<rparr>)
       \<and> (\<forall>n<NUDIR * NPTENTRIES. pte_of s' (hd fl) n = 0)
       \<and> (\<forall>pd\<in>dirs s. \<forall>n<NUDIR * NPTENTRIES. pte_of s' pd n = pte_of s pd n)"
proof (cases "el = [] \<or> fl = []")
  case True
  show ?thesis
  proof (cases el)
    case Nil
    with inv have "env_free_list s = None" by (simp add: kinv_def free_envs_def)
    with Nil show ?thesis by (simp add: env_alloc_def)
  next
    case (Cons e el')
    with True inv have "free_pages s []" by (simp add: kinv_def ref_inv_def)
    moreover from Cons inv have "env_free_list s = Some e" by (simp add: kinv_def free_envs_def)
    ultimately show ?thesis using True Cons by (simp add: env_alloc_def env_setup_vm_no_memory)
  qed
next
  case False
  then obtain e el' p fl' where el: "el = e # el'" and fl: "fl = p # fl'" by (meson list.exhaust)
  with env_alloc_effect [of s p fl' e el' kx parent] inv show ?thesis by fastforce
qed


text \<open>
  A concrete machine: environment 0 runs on processor 0, which holds the kernel lock; its
  directory is page 5 and the kernel's is page 4.
\<close>

definition live_demo :: kstate where
  "live_demo = vm_demo\<lparr>kern_pgdir := 4,
     envs := (\<lambda>e. zero_env\<lparr>env_link := (if e = 0 \<or> e + 1 = 1024 then None else Some (e + 1)),
        env_id := (if e = 0 then 0x1000 else 0),
        env_status := (if e = 0 then ENV_RUNNING else ENV_FREE),
        env_pgdir := (if e = 0 then Some 5 else None)\<rparr>),
     env_free_list := Some 1, kernel_lock := Some 0,
     cpus := (\<lambda>i. \<lparr>cpu_id = of_nat i, cpu_status = CPU_STARTED, cpu_env = (if i = 0 then Some 0 else None)\<rparr>)\<rparr>"

definition live_kx :: "nat \<Rightarrow> nat" where
  "live_kx p = (if p = 4 then 1 else 0)"

lemma live_demo_rd [simp]: "rd live_demo = (\<lambda>_ _. 0)"
  by (simp add: live_demo_def vm_demo_def boot_state_def rd_def fun_eq_iff)

lemma live_demo_kinv: "kinv live_demo [6, 7] [1..<1024] live_kx"
proof -
  have pg: "pgdirs live_demo = {5}"
    by (auto simp: pgdirs_def live_demo_def zero_env_def split: if_splits)
  have d: "dirs live_demo = insert 4 {5}" by (simp add: dirs_def pg) (simp add: live_demo_def)
  have h: "held {5} live_kx = vm_demo_ext" by (auto simp: held_def live_kx_def vm_demo_ext_def fun_eq_iff)
  have "slot_val live_demo x = 0" for x by (cases x) (simp_all add: pte_of_def)
  moreover from this have "holders live_demo {5} p = {}" for p by (simp add: holders_def)
  moreover have "free_pages live_demo [6, 7]"
    by (auto simp: free_pages_def page_link_def live_demo_def vm_demo_def)
  ultimately have "ref_inv live_demo {5} [6, 7] vm_demo_ext"
    by (auto simp: ref_inv_def mem_ok_def vm_demo_ext_def) (auto simp: live_demo_def)
  then have "ref_inv live_demo (insert 4 {5}) [6, 7] vm_demo_ext"
    by (subst ref_inv_dir) (simp_all add: vm_demo_ext_def, simp_all add: live_demo_def)
  moreover have "chain (env_link_of live_demo) (Some 1) [1..<1024]"
    by (rule chain_up) (auto simp: env_link_of_def live_demo_def)
  then have "free_envs live_demo [1..<1024]"
    by (auto simp: free_envs_def live_demo_def)
  ultimately show ?thesis
    by (auto simp: kinv_def pg d h) (auto simp: live_demo_def split: if_splits)
qed

theorem env_alloc_correct_witness:
  "\<exists>s'. env_alloc 0 live_demo = Inr (Inr 1, s') \<and> kinv s' [7] (tl [1..<1024]) live_kx"
proof -
  have el: "([1..<1024] :: nat list) \<noteq> []" "hd [1..<1024] = (1 :: nat)" by (simp_all del: upt_Suc)
  have "\<exists>s'. env_alloc 0 live_demo = Inr (Inr (hd [1..<1024]), s') \<and> kinv s' (tl [6, 7]) (tl [1..<1024]) live_kx"
    using env_alloc_correct [OF live_demo_kinv, of 0] el(1) by (simp only: if_False list.simps) blast
  then show ?thesis unfolding el(2) by simp
qed

section \<open>env_free\<close>




section \<open>env_run\<close>

lemma env_run_effect:
  assumes dir: "env_pgdir (envs s e) = Some pd" and lk: "kernel_lock s = Some (cpunum s)"
  shows "\<exists>s'. env_run e s = Inr (RunsEnv e, s') \<and> curenv s' = Some e \<and> kernel_lock s' = None
     \<and> cpunum s' = cpunum s \<and> cr3 s' = (cr3 s)(cpunum s := pd) \<and> tlb s' = (tlb s)(cpunum s := Map.empty)
     \<and> envs s' = (\<lambda>x. if x = e then (envs s e)\<lparr>env_runs := env_runs (envs s e) + 1,
          env_status := ENV_RUNNING, env_cpunum := cpunum s\<rparr>
        else if curenv s = Some x \<and> env_status (envs s x) = ENV_RUNNING
        then (envs s x)\<lparr>env_status := ENV_RUNNABLE\<rparr> else envs s x)
     \<and> rd s' = rd s \<and> npages s' = npages s \<and> pages s' = pages s \<and> page_free_list s' = page_free_list s
     \<and> kern_pgdir s' = kern_pgdir s \<and> env_free_list s' = env_free_list s"
proof -
  define s1 where "s1 = (case curenv s of None \<Rightarrow> s
     | Some c \<Rightarrow> if env_status (envs s c) = ENV_RUNNING
                 then upd_env c (\<lambda>en. en\<lparr>env_status := ENV_RUNNABLE\<rparr>) s else s)"
  have envs1: "envs s1 x = (if curenv s = Some x \<and> env_status (envs s x) = ENV_RUNNING
        then (envs s x)\<lparr>env_status := ENV_RUNNABLE\<rparr> else envs s x)" for x
    by (simp add: s1_def split: option.split)
  have f1: "cpunum s1 = cpunum s" "kernel_lock s1 = kernel_lock s" "cr3 s1 = cr3 s" "tlb s1 = tlb s"
    by (simp_all add: s1_def split: option.split)
  let ?s = "lcr3 pd (upd_env e (\<lambda>en. en\<lparr>env_status := ENV_RUNNING\<rparr>)
     (upd_env e (\<lambda>en. en\<lparr>env_runs := env_runs en + 1\<rparr>) (set_curenv (Some e) s1)))"
  define s' where "s' = upd_env e (\<lambda>en. en\<lparr>env_cpunum := cpunum s\<rparr>) (?s\<lparr>kernel_lock := None\<rparr>)"
  have run: "env_run e s = Inr (RunsEnv e, s')"
    unfolding env_run_def s1_def [symmetric] Let_def s'_def
    using dir lk by (simp add: env_load_pgdir_def unlock_kernel_def envs1 f1)
  have envs': "envs s' = (\<lambda>x. if x = e then (envs s e)\<lparr>env_runs := env_runs (envs s e) + 1,
          env_status := ENV_RUNNING, env_cpunum := cpunum s\<rparr>
        else if curenv s = Some x \<and> env_status (envs s x) = ENV_RUNNING
        then (envs s x)\<lparr>env_status := ENV_RUNNABLE\<rparr> else envs s x)"
    by (rule ext) (simp add: s'_def envs1)
  have "curenv s' = Some e" "kernel_lock s' = None" "cpunum s' = cpunum s"
    "cr3 s' = (cr3 s)(cpunum s := pd)" "tlb s' = (tlb s)(cpunum s := Map.empty)"
    by (simp_all add: s'_def f1)
  moreover have "rd s' = rd s" by (simp add: s'_def s1_def rd_def fun_eq_iff split: option.split)
  moreover have "npages s' = npages s" "pages s' = pages s" "page_free_list s' = page_free_list s"
    "kern_pgdir s' = kern_pgdir s" "env_free_list s' = env_free_list s"
    by (simp_all add: s'_def s1_def split: option.split)
  ultimately show ?thesis using run envs' by blast
qed

text \<open>
  env_run switches to the environment: it becomes current and RUNNING, its run counter
  grows by one, the previous environment of this processor, if it was still RUNNING, is
  RUNNABLE again, the processor uses its directory with an empty translation cache, and the
  kernel lock is free when user mode starts.
\<close>

theorem env_run_correct:
  assumes "env_pgdir (envs s e) = Some pd" and "kernel_lock s = Some (cpunum s)"
  shows "\<exists>s'. env_run e s = Inr (RunsEnv e, s') \<and> curenv s' = Some e \<and> kernel_lock s' = None
     \<and> cr3 s' (cpunum s) = pd \<and> tlb s' (cpunum s) = Map.empty
     \<and> env_status (envs s' e) = ENV_RUNNING \<and> env_runs (envs s' e) = env_runs (envs s e) + 1
     \<and> (\<forall>c. curenv s = Some c \<longrightarrow> c \<noteq> e \<longrightarrow> env_status (envs s c) = ENV_RUNNING \<longrightarrow> env_status (envs s' c) = ENV_RUNNABLE)
     \<and> (\<forall>c. c \<noteq> e \<longrightarrow> curenv s \<noteq> Some c \<longrightarrow> envs s' c = envs s c)"
  using env_run_effect [OF assms] by auto

theorem env_run_correct_witness:
  "\<exists>s'. env_run 0 live_demo = Inr (RunsEnv 0, s') \<and> cr3 s' 0 = 5 \<and> env_runs (envs s' 0) = 1"
proof -
  have "env_pgdir (envs live_demo 0) = Some 5" "kernel_lock live_demo = Some (cpunum live_demo)"
    "cpunum live_demo = 0" "env_runs (envs live_demo 0) = 0"
    by (simp_all add: live_demo_def vm_demo_def boot_state_def zero_env_def)
  with env_run_correct [of live_demo 0 5] show ?thesis by auto
qed

end
