(* ===== verification/Sched.thy ===== *)
theory Sched
  imports EnvProps
begin

text \<open>
  \<open>kern/sched.c\<close>: the round-robin and the priority scheduler, the common tail of
  \<open>sched_yield\<close>, and \<open>sched_halt\<close>; and the two operations that end in the scheduler,
  \<open>env_destroy\<close> and \<open>user_mem_assert\<close>. The build chooses the scheduler with
  \<open>SCHED_ROUND_ROBIN\<close> or \<open>SCHED_PRIORITIES\<close>; here it is an argument.
\<close>

section \<open>Choosing an environment\<close>

datatype sched_build = SCHED_ROUND_ROBIN | SCHED_PRIORITIES

definition MIN_PRIORITY :: int where [simp]: "MIN_PRIORITY = 0x100"

text \<open>\<open>curenv ? ENVX(curenv->env_id) + 1 : 0\<close>: one past the last slot when the last slot is current.\<close>

definition sched_start :: "kstate \<Rightarrow> nat" where
  "sched_start s = (case curenv s of None \<Rightarrow> 0 | Some c \<Rightarrow> ENVX (env_id (envs s c)) + 1)"

text \<open>
  The do-while loops, with the loop variables as arguments. An iteration reads \<open>envs[i]\<close>,
  past the end of the array when \<open>i\<close> is NENV. The fuel bounds the number of iterations.
\<close>

fun rr_loop :: "nat \<Rightarrow> kstate \<Rightarrow> nat \<Rightarrow> nat \<Rightarrow> nat option \<Rightarrow> nat option fallible" where
  "rr_loop 0 s start i next = Inl (KUndef ''rr_loop: out of fuel'')"
| "rr_loop (Suc fuel) s start i next =
     (if NENV \<le> i then Inl (KUndef ''envs[NENV]'')
      else let next = (if env_status (envs s i) = ENV_RUNNABLE then Some i else next);
               i = (i + 1) mod NENV
           in if i \<noteq> start \<and> next = None then rr_loop fuel s start i next else Inr next)"

fun prio_loop :: "nat \<Rightarrow> kstate \<Rightarrow> nat \<Rightarrow> nat \<Rightarrow> int \<Rightarrow> nat option \<Rightarrow> nat option fallible" where
  "prio_loop 0 s start i min_priority next = Inl (KUndef ''prio_loop: out of fuel'')"
| "prio_loop (Suc fuel) s start i min_priority next =
     (if NENV \<le> i then Inl (KUndef ''envs[NENV]'')
      else let hit = env_status (envs s i) = ENV_RUNNABLE \<and> env_priority (envs s i) < min_priority;
               min_priority = (if hit then env_priority (envs s i) else min_priority);
               next = (if hit then Some i else next);
               i = (i + 1) mod NENV
           in if i \<noteq> start \<and> next = None then prio_loop fuel s start i min_priority next else Inr next)"

fun boost_loop :: "nat \<Rightarrow> nat \<Rightarrow> kstate \<Rightarrow> kstate" where
  "boost_loop i 0 s = s"
| "boost_loop i (Suc n) s = boost_loop (Suc i) n
     (if env_status (envs s i) = ENV_RUNNABLE then upd_env i (\<lambda>e. e\<lparr>env_priority := 0\<rparr>) s else s)"

definition boost :: "kstate \<Rightarrow> kstate" where
  "boost s = (if number_of_switches (stats s) mod 10 = 0
     then boost_loop 0 NENV (s\<lparr>stats := (stats s)\<lparr>number_of_boosts := number_of_boosts (stats s) + 1\<rparr>\<rparr>)
     else s)"

text \<open>The current environment is made less urgent when another one was found.\<close>

definition demote :: "nat option \<Rightarrow> kstate \<Rightarrow> kstate" where
  "demote next s = (case (curenv s, next) of
       (Some c, Some _) \<Rightarrow>
          if env_priority (envs s c) < MIN_PRIORITY - 1
          then upd_env c (\<lambda>e. e\<lparr>env_priority := env_priority e + 1\<rparr>) s else s
     | _ \<Rightarrow> s)"

definition sched_pick :: "sched_build \<Rightarrow> kstate \<Rightarrow> (nat option \<times> kstate) fallible" where
  "sched_pick b s = (case b of
       SCHED_ROUND_ROBIN \<Rightarrow>
         andThen (rr_loop NENV s (sched_start s) (sched_start s) None) (\<lambda>next. Inr (next, s))
     | SCHED_PRIORITIES \<Rightarrow>
         let s = boost s in
         andThen (prio_loop NENV s (sched_start s) (sched_start s) MIN_PRIORITY None) (\<lambda>next.
           Inr (next, demote next s)))"

section \<open>sched_halt and sched_yield\<close>

definition busy :: "env_status \<Rightarrow> bool" where
  "busy st \<longleftrightarrow> st = ENV_RUNNABLE \<or> st = ENV_RUNNING \<or> st = ENV_DYING"

text \<open>
  \<open>sched_halt\<close>: with nothing left to run it stays in the kernel monitor; otherwise the
  processor gives up its environment and its lock and halts. The statistics it prints on
  the way to the monitor are console output.
\<close>

definition sched_halt :: "kstate \<Rightarrow> unit kcall" where
  "sched_halt s =
     (case first_from (\<lambda>i. busy (env_status (envs s i))) 0 NENV of
        None \<Rightarrow> Inr (InMonitor, s)
      | Some _ \<Rightarrow>
          let s = set_curenv None s;
              s = lcr3 (kern_pgdir s) s;
              s = s\<lparr>cpus := (cpus s)(cpunum s := (cpus s (cpunum s))\<lparr>cpu_status := CPU_HALTED\<rparr>)\<rparr>
          in andThen (unlock_kernel s) (\<lambda>s. Inr (CpuHalts, s)))"

definition sched_finish :: "nat option \<Rightarrow> kstate \<Rightarrow> unit kcall" where
  "sched_finish next s = (case next of
       Some e \<Rightarrow> env_run e (s\<lparr>stats := (stats s)\<lparr>number_of_switches := number_of_switches (stats s) + 1\<rparr>\<rparr>)
     | None \<Rightarrow> (case curenv s of
           Some c \<Rightarrow> if env_status (envs s c) = ENV_RUNNING \<and> env_cpunum (envs s c) = cpunum s
                     then env_run c s else sched_halt s
         | None \<Rightarrow> sched_halt s))"

definition sched_yield :: "sched_build \<Rightarrow> kstate \<Rightarrow> unit kcall" where
  "sched_yield b s =
     (let s = s\<lparr>stats := (stats s)\<lparr>number_of_yields := number_of_yields (stats s) + 1\<rparr>\<rparr> in
      andThen (sched_pick b s) (\<lambda>(next, s). sched_finish next s))"

section \<open>Operations that may end in the scheduler\<close>

definition env_destroy :: "sched_build \<Rightarrow> nat \<Rightarrow> kstate \<Rightarrow> unit kcall" where
  "env_destroy b e s =
     (if env_status (envs s e) = ENV_RUNNING \<and> curenv s \<noteq> Some e
      then returns () (upd_env e (\<lambda>en. en\<lparr>env_status := ENV_DYING\<rparr>) s)
      else andThen (env_free e s) (\<lambda>s.
             if curenv s = Some e then sched_yield b (set_curenv None s) else returns () s))"

definition user_mem_assert :: "sched_build \<Rightarrow> nat \<Rightarrow> u32 \<Rightarrow> u32 \<Rightarrow> u32 \<Rightarrow> kstate \<Rightarrow> unit kcall" where
  "user_mem_assert b e va len perm s =
     (case env_pgdir (envs s e) of
        None \<Rightarrow> Inl (KUndef ''user_mem_check: null env_pgdir'')
      | Some pd \<Rightarrow>
          andThen (user_mem_check pd va len (perm OR PTE_U) s) (\<lambda>(r, s).
            case r of Inl _ \<Rightarrow> env_destroy b e s | Inr _ \<Rightarrow> returns () s))"

section \<open>The scan order\<close>

lemma sched_start_le: "sched_start s \<le> 1024"
  using ENVX_less by (auto simp: sched_start_def Suc_le_eq split: option.split)

text \<open>
  Both loops look at the slots in circular order from the start and stop at the first that
  qualifies: \<open>scan_order\<close> lists the slots, \<open>List.find\<close> picks.
\<close>

definition scan_order :: "nat \<Rightarrow> nat list" where
  "scan_order start = map (\<lambda>k. (start + k) mod 1024) [0..<1024]"

lemma rr_loop_find:
  assumes "start < 1024" and "k < 1024"
  shows "rr_loop (1024 - k) s start ((start + k) mod 1024) None =
     Inr (find (\<lambda>i. env_status (envs s i) = ENV_RUNNABLE) (map (\<lambda>k. (start + k) mod 1024) [k..<1024]))"
  using assms(2)
proof (induction "1023 - k" arbitrary: k)
  case 0
  then have "k = 1023" by simp
  moreover have "((start + 1023) mod 1024 + 1) mod 1024 = start"
    using assms(1) by (simp add: mod_simps)
  ultimately show ?case using assms by (simp add: not_le)
next
  case (Suc d)
  then have k: "k < 1023" "1024 - k = Suc (1024 - Suc k)" "[k..<1024] = k # [Suc k..<1024]"
    by (simp_all add: upt_conv_Cons)
  have "((start + k) mod 1024 + 1) mod 1024 = (start + Suc k) mod 1024" by (simp add: mod_simps)
  moreover have "(start + Suc k) mod 1024 \<noteq> start"
    using k(1) assms(1) by (auto simp: mod_if)
  ultimately show ?case
    using Suc(1) [of "Suc k"] Suc(2) k by (simp del: upt_Suc)
qed

lemma prio_loop_find:
  assumes "start < 1024" and "k < 1024"
  shows "prio_loop (1024 - k) s start ((start + k) mod 1024) m None =
     Inr (find (\<lambda>i. env_status (envs s i) = ENV_RUNNABLE \<and> env_priority (envs s i) < m)
            (map (\<lambda>k. (start + k) mod 1024) [k..<1024]))"
  using assms(2)
proof (induction "1023 - k" arbitrary: k)
  case 0
  then have "k = 1023" by simp
  moreover have "((start + 1023) mod 1024 + 1) mod 1024 = start"
    using assms(1) by (simp add: mod_simps)
  ultimately show ?case using assms by (simp add: not_le)
next
  case (Suc d)
  then have k: "k < 1023" "1024 - k = Suc (1024 - Suc k)" "[k..<1024] = k # [Suc k..<1024]"
    by (simp_all add: upt_conv_Cons)
  have "((start + k) mod 1024 + 1) mod 1024 = (start + Suc k) mod 1024" by (simp add: mod_simps)
  moreover have "(start + Suc k) mod 1024 \<noteq> start"
    using k(1) assms(1) by (auto simp: mod_if)
  ultimately show ?case
    using Suc(1) [of "Suc k"] Suc(2) k by (simp del: upt_Suc add: Let_def not_le)
qed


lemma rr_pick_find:
  assumes "sched_start s < 1024"
  shows "sched_pick SCHED_ROUND_ROBIN s =
     Inr (find (\<lambda>i. env_status (envs s i) = ENV_RUNNABLE) (scan_order (sched_start s)), s)"
  using rr_loop_find [OF assms, of 0 s] assms by (simp add: sched_pick_def scan_order_def del: upt_Suc)

lemma boost_loop_envs:
  "boost_loop i n s = s\<lparr>envs := (\<lambda>e. if i \<le> e \<and> e < i + n \<and> env_status (envs s e) = ENV_RUNNABLE
      then (envs s e)\<lparr>env_priority := 0\<rparr> else envs s e)\<rparr>"
proof (induction n arbitrary: i s)
  case 0
  have "(\<lambda>e. if i \<le> e \<and> e < i + 0 \<and> env_status (envs s e) = ENV_RUNNABLE
      then (envs s e)\<lparr>env_priority := 0\<rparr> else envs s e) = envs s" by (auto simp: fun_eq_iff)
  then show ?case by simp
next
  case (Suc n)
  show ?case
    unfolding boost_loop.simps Suc.IH upd_env_def
    by (simp, intro conjI impI) (rule kstate.fold_congs(10), auto simp: fun_eq_iff Suc_le_eq le_less)+
qed

text \<open>What a boost may change: the priorities of runnable environments, and the statistics.\<close>

lemma boost_envs:
  "envs (boost s) e = (if number_of_switches (stats s) mod 10 = 0 \<and> e < 1024 \<and> env_status (envs s e) = ENV_RUNNABLE
     then (envs s e)\<lparr>env_priority := 0\<rparr> else envs s e)"
  by (simp add: boost_def boost_loop_envs)

lemma boost_fields [simp]:
  "curenv (boost s) = curenv s" "kernel_lock (boost s) = kernel_lock s" "cpunum (boost s) = cpunum s"
  "cpus (boost s) = cpus s"
  by (simp_all add: boost_def boost_loop_envs curenv_def)

lemma sched_start_boost [simp]: "sched_start (boost s) = sched_start s"
  by (simp add: sched_start_def boost_envs split: option.split)

lemma prio_pick_find:
  assumes "sched_start s < 1024"
  shows "sched_pick SCHED_PRIORITIES s =
     (let next = find (\<lambda>i. env_status (envs (boost s) i) = ENV_RUNNABLE \<and> env_priority (envs (boost s) i) < MIN_PRIORITY)
                   (scan_order (sched_start s))
      in Inr (next, demote next (boost s)))"
  using prio_loop_find [of "sched_start s" 0 "boost s" 256] assms
  by (simp add: sched_pick_def scan_order_def Let_def del: upt_Suc)

section \<open>The policy interface\<close>

text \<open>
  What the tail of \<open>sched_yield\<close> relies on: the policy only picks live slots that are
  runnable, and it leaves alone everything but priorities and statistics.
\<close>

definition sched_frame :: "kstate \<Rightarrow> kstate \<Rightarrow> bool" where
  "sched_frame s s' \<longleftrightarrow> (\<forall>e. env_status (envs s' e) = env_status (envs s e)
       \<and> env_pgdir (envs s' e) = env_pgdir (envs s e) \<and> env_cpunum (envs s' e) = env_cpunum (envs s e)
       \<and> env_id (envs s' e) = env_id (envs s e))
     \<and> curenv s' = curenv s \<and> kernel_lock s' = kernel_lock s \<and> cpunum s' = cpunum s"

locale sched_policy =
  fixes pick :: "kstate \<Rightarrow> (nat option \<times> kstate) fallible"
  assumes pick_total: "sched_start s < 1024 \<Longrightarrow> \<exists>r s'. pick s = Inr (r, s')"
    and pick_runnable: "sched_start s < 1024 \<Longrightarrow> pick s = Inr (Some e, s') \<Longrightarrow>
          e < 1024 \<and> env_status (envs s e) = ENV_RUNNABLE"
    and pick_frame: "pick s = Inr (r, s') \<Longrightarrow> sched_frame s s'"
begin

definition yields :: "kstate \<Rightarrow> unit kcall" where
  "yields s = andThen (pick s) (\<lambda>(next, s). sched_finish next s)"

text \<open>The scheduler always leaves the kernel, and runs only what may run.\<close>

lemma yields_outcome:
  assumes start: "sched_start s < 1024" and lock: "kernel_lock s = Some (cpunum s)"
    and dirs: "\<And>e. env_status (envs s e) = ENV_RUNNABLE \<or> env_status (envs s e) = ENV_RUNNING \<Longrightarrow> env_pgdir (envs s e) \<noteq> None"
  shows "\<exists>s'. (\<exists>e. yields s = Inr (RunsEnv e, s') \<and> curenv s' = Some e \<and> env_status (envs s' e) = ENV_RUNNING
        \<and> env_pgdir (envs s' e) = Some (cr3 s' (cpunum s')) \<and> kernel_lock s' = None
        \<and> (env_status (envs s e) = ENV_RUNNABLE \<or> curenv s = Some e))
     \<or> yields s = Inr (CpuHalts, s') \<and> curenv s' = None \<and> kernel_lock s' = None
     \<or> yields s = Inr (InMonitor, s') \<and> (\<forall>e<1024. \<not> busy (env_status (envs s e)))"
proof -
  have runs: "\<exists>t'. env_run e t = Inr (RunsEnv e, t') \<and> curenv t' = Some e \<and> env_status (envs t' e) = ENV_RUNNING
        \<and> env_pgdir (envs t' e) = Some (cr3 t' (cpunum t')) \<and> kernel_lock t' = None"
    if dir: "env_pgdir (envs t e) \<noteq> None" and lk: "kernel_lock t = Some (cpunum t)" for t e
    using env_run_effect [OF _ lk] dir by fastforce
  from pick_total [OF start] obtain r t where pk: "pick s = Inr (r, t)" by blast
  have fr: "sched_frame s t" by (rule pick_frame [OF pk])
  note f = fr [unfolded sched_frame_def]
  have halts: "\<exists>s'. sched_halt t = Inr (CpuHalts, s') \<and> curenv s' = None \<and> kernel_lock s' = None
     \<or> sched_halt t = Inr (InMonitor, s') \<and> (\<forall>e<1024. \<not> busy (env_status (envs s e)))"
  proof (cases "first_from (\<lambda>i. busy (env_status (envs t i))) 0 1024")
    case None
    then have "sched_halt t = Inr (InMonitor, t)" by (simp add: sched_halt_def)
    moreover have "\<forall>e<1024. \<not> busy (env_status (envs s e))"
      using None f by (simp add: first_from_None)
    ultimately show ?thesis by blast
  next
    case (Some i)
    then show ?thesis using f lock
      by (simp add: sched_halt_def unlock_kernel_def Let_def set_curenv_def curenv_def lcr3_def)
  qed
  show ?thesis
  proof (cases r)
    case (Some e)
    let ?t = "t\<lparr>stats := (stats t)\<lparr>number_of_switches := number_of_switches (stats t) + 1\<rparr>\<rparr>"
    have e: "env_status (envs s e) = ENV_RUNNABLE" using pick_runnable [OF start] pk Some by blast
    then have "env_pgdir (envs t e) \<noteq> None" using f dirs by metis
    moreover have "yields s = env_run e ?t" by (simp add: yields_def pk Some sched_finish_def)
    ultimately show ?thesis using runs [of ?t e] e lock f by auto
  next
    case None
    then have y: "yields s = sched_finish None t" by (simp add: yields_def pk)
    show ?thesis
    proof (cases "\<exists>c. curenv t = Some c \<and> env_status (envs t c) = ENV_RUNNING \<and> env_cpunum (envs t c) = cpunum t")
      case True
      then obtain c where c: "curenv t = Some c" "env_status (envs t c) = ENV_RUNNING" "env_cpunum (envs t c) = cpunum t"
        by blast
      have "env_pgdir (envs t c) \<noteq> None" using f dirs c(2) by metis
      with runs [of t c] y c f lock show ?thesis by (auto simp: sched_finish_def)
    next
      case False
      then have "yields s = sched_halt t" using y by (auto simp: sched_finish_def split: option.split)
      with halts show ?thesis by auto
    qed
  qed
qed

end


lemma scan_order_bound: "i \<in> set (scan_order start) \<Longrightarrow> i < 1024"
  by (auto simp: scan_order_def)

lemma scan_order_all: "start < 1024 \<Longrightarrow> j < 1024 \<Longrightarrow> j \<in> set (scan_order start)"
proof -
  assume "start < 1024" "j < 1024"
  then have j: "j = (start + (j + 1024 - start) mod 1024) mod 1024" by (simp add: mod_simps)
  have "(start + (j + 1024 - start) mod 1024) mod 1024 \<in> set (scan_order start)"
    unfolding scan_order_def set_map by (rule imageI) simp
  with j show ?thesis by simp
qed

lemma scan_order_length [simp]: "length (scan_order start) = 1024"
  by (simp add: scan_order_def del: upt_Suc)

lemma scan_order_nth: "j < 1024 \<Longrightarrow> scan_order start ! j = (start + j) mod 1024"
  by (simp add: scan_order_def del: upt_Suc)

lemma demote_frame: "sched_frame s s' \<Longrightarrow> sched_frame s (demote next s')"
  by (simp add: sched_frame_def demote_def split: option.split)

lemma boost_frame: "sched_frame s (boost s)"
  by (simp add: sched_frame_def boost_envs)

interpretation pol: sched_policy "sched_pick b" for b
proof unfold_locales
  fix s s' :: kstate and e r
  show "\<exists>r s'. sched_pick b s = Inr (r, s')" if "sched_start s < 1024"
    using that by (cases b) (simp_all add: rr_pick_find prio_pick_find Let_def)
  show "e < 1024 \<and> env_status (envs s e) = ENV_RUNNABLE"
    if start: "sched_start s < 1024" and pk: "sched_pick b s = Inr (Some e, s')"
  proof (cases b)
    case SCHED_ROUND_ROBIN
    with start pk show ?thesis by (auto simp: rr_pick_find find_Some_iff2 intro: scan_order_bound)
       (auto simp: find_Some_iff scan_order_def)
  next
    case SCHED_PRIORITIES
    with start pk have "find (\<lambda>i. env_status (envs (boost s) i) = ENV_RUNNABLE \<and> env_priority (envs (boost s) i) < MIN_PRIORITY)
                   (scan_order (sched_start s)) = Some e"
      by (simp add: prio_pick_find Let_def)
    then have "e \<in> set (scan_order (sched_start s))" "env_status (envs (boost s) e) = ENV_RUNNABLE"
      by (auto simp: find_Some_iff)
    then show ?thesis using boost_frame by (auto intro: scan_order_bound simp: sched_frame_def)
  qed
  show "sched_frame s s'" if pk: "sched_pick b s = Inr (r, s')"
  proof (cases b)
    case SCHED_ROUND_ROBIN
    with pk show ?thesis by (auto simp: sched_pick_def andThen_eq_Inr sched_frame_def)
  next
    case SCHED_PRIORITIES
    with pk show ?thesis
      by (auto simp: sched_pick_def andThen_eq_Inr Let_def intro: demote_frame boost_frame)
  qed
qed

section \<open>Properties of the schedulers\<close>

text \<open>
  C18. Round robin: from a current environment that is not in the last slot, the scan looks
  once at every slot, in circular order from the next one, and picks the first runnable one;
  it picks none only if none is runnable, and changes nothing.
\<close>

theorem round_robin_correct:
  assumes "sched_start s < NENV"
  shows "\<exists>next. sched_pick SCHED_ROUND_ROBIN s = Inr (next, s)
     \<and> (case next of
          None \<Rightarrow> \<forall>j<NENV. env_status (envs s j) \<noteq> ENV_RUNNABLE
        | Some e \<Rightarrow> e < NENV \<and> env_status (envs s e) = ENV_RUNNABLE
            \<and> (\<exists>k<NENV. e = (sched_start s + k) mod NENV
                 \<and> (\<forall>j<k. env_status (envs s ((sched_start s + j) mod NENV)) \<noteq> ENV_RUNNABLE)))"
proof -
  have start: "sched_start s < 1024" using assms by simp
  let ?f = "find (\<lambda>i. env_status (envs s i) = ENV_RUNNABLE) (scan_order (sched_start s))"
  show ?thesis
  proof (cases ?f)
    case None
    then have "env_status (envs s j) \<noteq> ENV_RUNNABLE" if "j < 1024" for j
      using scan_order_all [OF start that] by (auto simp: find_None_iff)
    then show ?thesis using None by (simp add: rr_pick_find [OF start])
  next
    case (Some e)
    then obtain k where k: "k < length (scan_order (sched_start s))" "env_status (envs s (scan_order (sched_start s) ! k)) = ENV_RUNNABLE"
        "e = scan_order (sched_start s) ! k"
        "\<forall>j<k. env_status (envs s (scan_order (sched_start s) ! j)) \<noteq> ENV_RUNNABLE"
      by (auto simp: find_Some_iff)
    note nth = scan_order_nth
    have "k < 1024" using k(1) by simp
    moreover have "\<forall>j<k. env_status (envs s ((sched_start s + j) mod 1024)) \<noteq> ENV_RUNNABLE"
      using k(4) nth \<open>k < 1024\<close> by auto
    ultimately show ?thesis using Some k(2,3) nth [OF \<open>k < 1024\<close>]
      by (auto simp: rr_pick_find [OF start])
  qed
qed

definition sched_demo :: kstate where
  "sched_demo = upd_env 3 (\<lambda>e. e\<lparr>env_status := ENV_RUNNABLE, env_pgdir := Some 8\<rparr>) live_demo"

lemma sched_demo_start: "sched_start sched_demo = 1"
  by (simp add: sched_demo_def live_demo_def sched_start_def curenv_def vm_demo_def boot_state_def ENVX_def zero_env_def)

lemma sched_demo_status: "env_status (envs sched_demo e) = (if e = 0 then ENV_RUNNING else if e = 3 then ENV_RUNNABLE else ENV_FREE)"
  by (simp add: sched_demo_def live_demo_def)

theorem round_robin_correct_witness:
  "sched_pick SCHED_ROUND_ROBIN sched_demo = Inr (Some 3, sched_demo)"
proof -
  from round_robin_correct [of sched_demo] obtain r where
    r: "sched_pick SCHED_ROUND_ROBIN sched_demo = Inr (r, sched_demo)"
      "case r of None \<Rightarrow> \<forall>j<NENV. env_status (envs sched_demo j) \<noteq> ENV_RUNNABLE
        | Some e \<Rightarrow> e < NENV \<and> env_status (envs sched_demo e) = ENV_RUNNABLE
            \<and> (\<exists>k<NENV. e = (sched_start sched_demo + k) mod NENV
                 \<and> (\<forall>j<k. env_status (envs sched_demo ((sched_start sched_demo + j) mod NENV)) \<noteq> ENV_RUNNABLE))"
    unfolding sched_demo_start by auto
  have "\<not> (\<forall>j<NENV. env_status (envs sched_demo j) \<noteq> ENV_RUNNABLE)"
    by (auto simp: sched_demo_status intro!: exI [of _ 3])
  with r(2) obtain e where "r = Some e" "env_status (envs sched_demo e) = ENV_RUNNABLE"
    by (cases r) auto
  then have "r = Some 3" by (simp add: sched_demo_status split: if_splits)
  with r(1) show ?thesis by simp
qed

definition scan_distance :: "nat \<Rightarrow> nat \<Rightarrow> nat" where
  "scan_distance start j = (j + NENV - start) mod NENV"






text \<open>
  When the current environment sits in the last slot of the table, both schedulers begin
  their scan one past its end: sched_yield reads envs[NENV].
\<close>

theorem sched_yield_last_slot:
  assumes "curenv s = Some c" and "ENVX (env_id (envs s c)) = NENV - 1"
  shows "sched_yield b s = Inl (KUndef ''envs[NENV]'')"
proof -
  let ?s = "s\<lparr>stats := (stats s)\<lparr>number_of_yields := number_of_yields (stats s) + 1\<rparr>\<rparr>"
  have st: "sched_start ?s = 1024" using assms by (simp add: sched_start_def)
  have "rr_loop 1024 t 1024 1024 None = Inl (KUndef ''envs[NENV]'')"
    and "prio_loop 1024 t 1024 1024 256 None = Inl (KUndef ''envs[NENV]'')" for t
    by (simp_all add: numeral_eq_Suc)
  with st show ?thesis by (cases b) (simp_all add: sched_yield_def sched_pick_def Let_def)
qed

theorem sched_yield_last_slot_witness:
  "sched_yield SCHED_ROUND_ROBIN (upd_env 0 (\<lambda>e. e\<lparr>env_id := 0x13FF\<rparr>) live_demo) = Inl (KUndef ''envs[NENV]'')"
  by (rule sched_yield_last_slot [of _ 0])
     (simp_all add: live_demo_def curenv_def vm_demo_def boot_state_def ENVX_def)

text \<open>
  The priority scheduler does not compare priorities: as its loop stops at the first
  runnable environment whose priority is below MIN_PRIORITY, it picks the same environment
  as round robin whenever all runnable environments have such a priority.
\<close>

theorem priorities_pick_like_round_robin:
  assumes start: "sched_start s < NENV"
    and prio: "\<forall>e<NENV. env_status (envs s e) = ENV_RUNNABLE \<longrightarrow> env_priority (envs s e) < MIN_PRIORITY"
  shows "\<exists>r s'. sched_pick SCHED_PRIORITIES s = Inr (r, s') \<and> sched_pick SCHED_ROUND_ROBIN s = Inr (r, s)"
proof -
  have st: "sched_start s < 1024" using start by simp
  have "find (\<lambda>i. env_status (envs (boost s) i) = ENV_RUNNABLE \<and> env_priority (envs (boost s) i) < MIN_PRIORITY)
          (scan_order (sched_start s)) =
        find (\<lambda>i. env_status (envs s i) = ENV_RUNNABLE) (scan_order (sched_start s))"
    using prio by (intro find_cong) (auto simp: boost_envs dest: scan_order_bound)
  then show ?thesis by (simp add: prio_pick_find [OF st] rr_pick_find [OF st] Let_def)
qed

theorem priorities_pick_like_round_robin_witness:
  "\<exists>r s'. sched_pick SCHED_PRIORITIES sched_demo = Inr (r, s')
     \<and> sched_pick SCHED_ROUND_ROBIN sched_demo = Inr (r, sched_demo)"
proof (rule priorities_pick_like_round_robin)
  show "sched_start sched_demo < NENV" by (simp add: sched_demo_start)
  show "\<forall>e<NENV. env_status (envs sched_demo e) = ENV_RUNNABLE \<longrightarrow> env_priority (envs sched_demo e) < MIN_PRIORITY"
    by (simp add: sched_demo_def live_demo_def zero_env_def)
qed

text \<open>
  An environment whose priority is at or above MIN_PRIORITY is never picked between two
  boosts, whatever else is runnable.
\<close>

theorem high_priority_not_picked:
  assumes start: "sched_start s < NENV" and "number_of_switches (stats s) mod 10 \<noteq> 0"
    and "MIN_PRIORITY \<le> env_priority (envs s e)"
  shows "\<forall>s'. sched_pick SCHED_PRIORITIES s \<noteq> Inr (Some e, s')"
proof -
  have st: "sched_start s < 1024" using start by simp
  have "boost s = s" using assms by (simp add: boost_def)
  then show ?thesis using assms by (auto simp: prio_pick_find [OF st] Let_def find_Some_iff)
qed

theorem high_priority_not_picked_witness:
  "\<forall>s'. sched_pick SCHED_PRIORITIES (upd_env 3 (\<lambda>e. e\<lparr>env_priority := 300\<rparr>) sched_demo
      \<lparr>stats := \<lparr>number_of_yields = 1, number_of_switches = 1, number_of_boosts = 1\<rparr>\<rparr>) \<noteq> Inr (Some 3, s')"
  by (rule high_priority_not_picked)
     (simp_all add: sched_start_def sched_demo_def live_demo_def curenv_def vm_demo_def boot_state_def ENVX_def zero_env_def)

end
