(* ===== verification/UserMem.thy ===== *)
theory UserMem
  imports Sched
begin

text \<open>
  Accesses of the kernel to user memory through the page tables, byte by byte, and the two
  operations of \<open>kern/env.c\<close> that build a program in a new address space with them:
  \<open>load_icode\<close> and \<open>env_create\<close>.
\<close>

section \<open>Virtual memory\<close>

text \<open>
  The processor's translation of an address by the two-level table of \<open>inc/mmu.h\<close>: both
  entries must be present, and writable for a store (the kernel runs with \<open>CR0_WP\<close> set). The
  result is the physical page and the byte offset in it.
\<close>

definition translate :: "kstate \<Rightarrow> nat \<Rightarrow> bool \<Rightarrow> u32 \<Rightarrow> (nat \<times> nat) option" where
  "translate s pd write va =
     (let pde = rd s pd (PDX va); pte = rd s (PGNUM pde) (PTX va) in
      if pde AND PTE_P = 0 \<or> pte AND PTE_P = 0 then None
      else if write \<and> (pde AND PTE_W = 0 \<or> pte AND PTE_W = 0) then None
      else Some (PGNUM pte, unat (PGOFF va)))"

definition get_byte :: "u32 \<Rightarrow> nat \<Rightarrow> u8" where
  "get_byte w k = ucast (drop_bit (8 * k) w)"

definition set_byte :: "u32 \<Rightarrow> nat \<Rightarrow> u8 \<Rightarrow> u32" where
  "set_byte w k b = (w AND NOT (push_bit (8 * k) 0xFF)) OR push_bit (8 * k) (ucast b)"

text \<open>An access the tables do not allow is a page fault in kernel mode, which panics.\<close>

definition store8 :: "u32 \<Rightarrow> u8 \<Rightarrow> kstate \<Rightarrow> kstate fallible" where
  "store8 va b s =
     (case translate s (cr3 s (cpunum s)) True va of
        None \<Rightarrow> Inl (KPanic ''page fault in kernel mode'')
      | Some (pg, off) \<Rightarrow> Inr (wr pg (off div 4) (set_byte (rd s pg (off div 4)) (off mod 4) b) s))"

definition load8 :: "u32 \<Rightarrow> kstate \<Rightarrow> u8 fallible" where
  "load8 va s =
     (case translate s (cr3 s (cpunum s)) False va of
        None \<Rightarrow> Inl (KPanic ''page fault in kernel mode'')
      | Some (pg, off) \<Rightarrow> Inr (get_byte (rd s pg (off div 4)) (off mod 4)))"

fun store_bytes :: "u32 \<Rightarrow> u8 list \<Rightarrow> kstate \<Rightarrow> kstate fallible" where
  "store_bytes va [] s = Inr s"
| "store_bytes va (b # bs) s = andThen (store8 va b s) (store_bytes (va + 1) bs)"

definition bytes_of :: "u32 \<Rightarrow> u8 list" where
  "bytes_of w = map (get_byte w) [0, 1, 2, 3]"

definition store32 :: "u32 \<Rightarrow> u32 \<Rightarrow> kstate \<Rightarrow> kstate fallible" where
  "store32 va w = store_bytes va (bytes_of w)"

lemma mask_8: "(0xFF :: u32) = mask 8"
  by (simp add: mask_eq_exp_minus_1)

lemma get_set_byte_same: "k < 4 \<Longrightarrow> get_byte (set_byte w k b) k = b"
proof (rule bit_word_eqI)
  fix n assume "k < 4" "n < LENGTH(8)"
  then show "bit (get_byte (set_byte w k b) k) n = bit b n"
    unfolding get_byte_def set_byte_def mask_8
    by (auto simp: bit_ucast_iff bit_drop_bit_eq bit_or_iff bit_and_iff bit_not_iff bit_push_bit_iff bit_mask_iff)
qed

lemma get_set_byte_other:
  assumes "k < 4" and "j < 4" and "j \<noteq> k" shows "get_byte (set_byte w k b) j = get_byte w j"
proof (rule bit_word_eqI)
  fix n assume n: "n < LENGTH(8)"
  have "\<not> (8 * k \<le> 8 * j + n \<and> 8 * j + n - 8 * k < 8)" using assms n by auto
  moreover have "\<not> bit b m" if "8 \<le> m" for m using that bit_imp_le_length [of b m] by auto
  ultimately show "bit (get_byte (set_byte w k b) j) n = bit (get_byte w j) n"
    using assms n unfolding get_byte_def set_byte_def mask_8
    by (auto simp: bit_ucast_iff bit_drop_bit_eq bit_or_iff bit_and_iff bit_not_iff bit_push_bit_iff bit_mask_iff not_less)
qed

section \<open>Loading a program\<close>

text \<open>An ELF image is read as bytes at offsets; the fields are those of \<open>inc/elf.h\<close>.\<close>

type_synonym image = "nat \<Rightarrow> u8"

definition img16 :: "image \<Rightarrow> nat \<Rightarrow> u16" where
  "img16 b i = ucast (b i) OR push_bit 8 (ucast (b (i + 1)))"

definition img32 :: "image \<Rightarrow> nat \<Rightarrow> u32" where
  "img32 b i = ucast (b i) OR push_bit 8 (ucast (b (i + 1)))
     OR push_bit 16 (ucast (b (i + 2))) OR push_bit 24 (ucast (b (i + 3)))"

record Proghdr =
  p_type :: u32
  p_offset :: u32
  p_va :: u32
  p_filesz :: u32
  p_memsz :: u32

definition ELF_MAGIC :: u32 where [simp]: "ELF_MAGIC = 0x464C457F"

definition ELF_PROG_LOAD :: u32 where [simp]: "ELF_PROG_LOAD = 1"

definition proghdr :: "image \<Rightarrow> nat \<Rightarrow> Proghdr" where
  "proghdr b i = \<lparr>p_type = img32 b i, p_offset = img32 b (i + 4), p_va = img32 b (i + 8),
     p_filesz = img32 b (i + 16), p_memsz = img32 b (i + 20)\<rparr>"

definition load_segment :: "nat \<Rightarrow> image \<Rightarrow> Proghdr \<Rightarrow> kstate \<Rightarrow> kstate fallible" where
  "load_segment pd b ph s =
     andThen (region_alloc pd (p_va ph) (p_memsz ph) s) (\<lambda>s.
     andThen (store_bytes (p_va ph) (replicate (unat (p_memsz ph)) 0) s) (\<lambda>s.
       store_bytes (p_va ph) (map (\<lambda>k. b (unat (p_offset ph) + k)) [0..<unat (p_filesz ph)]) s))"

fun load_segments :: "nat \<Rightarrow> image \<Rightarrow> nat \<Rightarrow> nat \<Rightarrow> kstate \<Rightarrow> kstate fallible" where
  "load_segments pd b off 0 s = Inr s"
| "load_segments pd b off (Suc n) s =
     andThen (if p_type (proghdr b off) = ELF_PROG_LOAD then load_segment pd b (proghdr b off) s else Inr s)
       (load_segments pd b (off + 32) n)"

definition load_icode :: "nat \<Rightarrow> image \<Rightarrow> kstate \<Rightarrow> kstate fallible" where
  "load_icode e b s =
     (if img32 b 0 \<noteq> ELF_MAGIC then Inl (KPanic ''load_icode: not an elf file'')
      else case env_pgdir (envs s e) of
        None \<Rightarrow> Inl (KPanic ''PADDR called with invalid kva'')
      | Some pd \<Rightarrow>
          andThen (load_segments pd b (unat (img32 b 28)) (unat (img16 b 44)) (lcr3 pd s)) (\<lambda>s.
          andThen (region_alloc pd (USTACKTOP - PGSIZE) PGSIZE s) (\<lambda>s.
            let s = upd_env e (\<lambda>en. en\<lparr>env_tf := (env_tf en)\<lparr>tf_eip := img32 b 24\<rparr>\<rparr>) s
            in Inr (lcr3 (kern_pgdir s) s))))"

definition env_create :: "image \<Rightarrow> env_type \<Rightarrow> kstate \<Rightarrow> kstate fallible" where
  "env_create b type s =
     andThen (env_alloc 0 s) (\<lambda>(r, s).
       case r of
         Inl _ \<Rightarrow> Inl (KPanic ''env_create: %e'')
       | Inr env \<Rightarrow> andThen (load_icode env b s) (\<lambda>s.
           Inr (upd_env env (\<lambda>en. en\<lparr>env_type := type\<rparr>) s)))"

end
