(* ===== verification/Syscall.thy ===== *)
theory Syscall
  imports UserMem
begin

text \<open>
  \<open>kern/syscall.c\<close>: the system calls and their dispatcher. A call yields the 32-bit value
  that ends up in the caller's \<open>%eax\<close>, errors as negated codes of \<open>inc/error.h\<close>; calls that
  reach the scheduler leave the kernel instead of returning.
\<close>

section \<open>Return values\<close>

definition err :: "kerror \<Rightarrow> u32" where
  "err e = word_of_int (- kerror_code e)"

lemma err_numeral [simp]:
  "err E_BAD_ENV = 0xFFFFFFFE" "err E_INVAL = 0xFFFFFFFD" "err E_NO_MEM = 0xFFFFFFFC"
  "err E_NO_FREE_ENV = 0xFFFFFFFB" "err E_FAULT = 0xFFFFFFFA" "err E_IPC_NOT_RECV = 0xFFFFFFF9"
  by (simp_all add: err_def)

definition ret_of :: "(kerror + unit) \<times> kstate \<Rightarrow> u32 kcall" where
  "ret_of rs = (case rs of (Inl e, s) \<Rightarrow> returns (err e) s | (Inr _, s) \<Rightarrow> returns 0 s)"

text \<open>\<open>if ((r = envid2env(...))) return r;\<close> and then the environment pointer is used.\<close>

definition with_env :: "u32 \<Rightarrow> bool \<Rightarrow> kstate \<Rightarrow> (nat \<Rightarrow> 'a kcall) \<Rightarrow> (kerror \<Rightarrow> 'a kcall) \<Rightarrow> 'a kcall" where
  "with_env envid checkperm s use fail =
     andThen (envid2env envid checkperm s) (\<lambda>(r, env).
       case r of
         Inl e \<Rightarrow> fail e
       | Inr _ \<Rightarrow> (case env of None \<Rightarrow> Inl (KUndef ''null environment'') | Some e \<Rightarrow> use e))"

text \<open>A dereference of \<open>curenv\<close>, and of an environment's directory pointer.\<close>

definition with_cur :: "kstate \<Rightarrow> (nat \<Rightarrow> 'a kcall) \<Rightarrow> 'a kcall" where
  "with_cur s use = (case curenv s of None \<Rightarrow> Inl (KUndef ''null curenv'') | Some c \<Rightarrow> use c)"

definition dir_of :: "kstate \<Rightarrow> nat \<Rightarrow> nat fallible" where
  "dir_of s e = (case env_pgdir (envs s e) of None \<Rightarrow> Inl (KUndef ''null env_pgdir'') | Some pd \<Rightarrow> Inr pd)"

section \<open>Permissions and pages\<close>

definition check_perm :: "u32 \<Rightarrow> u32 option \<Rightarrow> kerror + unit" where
  "check_perm perm pte =
     (if perm AND NOT PTE_SYSCALL \<noteq> 0 then Inl E_INVAL
      else if perm AND PTE_P = 0 \<or> perm AND PTE_U = 0 then Inl E_INVAL
      else case pte of
        None \<Rightarrow> Inr ()
      | Some p \<Rightarrow>
          if p \<noteq> 0 \<and> p AND PTE_P = 0 then Inl E_INVAL
          else if perm AND PTE_W \<noteq> 0 \<and> p AND PTE_W = 0 then Inl E_INVAL
          else Inr ())"

definition env_page_alloc :: "nat \<Rightarrow> u32 \<Rightarrow> u32 \<Rightarrow> kstate \<Rightarrow> ((kerror + unit) \<times> kstate) fallible" where
  "env_page_alloc env va perm s =
     (case check_perm perm None of
        Inl e \<Rightarrow> Inr (Inl e, s)
      | Inr _ \<Rightarrow>
          andThen (page_alloc ALLOC_ZERO s) (\<lambda>(p, s).
            case p of
              None \<Rightarrow> Inr (Inl E_NO_MEM, s)
            | Some p \<Rightarrow> andThen (dir_of s env) (\<lambda>pd. page_insert pd p va perm s)))"

definition env_page_map :: "nat \<Rightarrow> u32 \<Rightarrow> nat \<Rightarrow> u32 \<Rightarrow> u32 \<Rightarrow> kstate \<Rightarrow> ((kerror + unit) \<times> kstate) fallible" where
  "env_page_map srcenv srcva dstenv dstva perm s =
     andThen (dir_of s srcenv) (\<lambda>src.
     andThen (page_lookup src srcva s) (\<lambda>(page, srcpte).
       case (page, srcpte) of
         (Some page, Some (pt, i)) \<Rightarrow>
           if (perm AND PTE_W) AND NOT (PTE_W AND rd s pt i) \<noteq> 0 then Inr (Inl E_INVAL, s)
           else andThen (dir_of s dstenv) (\<lambda>dst. page_insert dst page dstva perm s)
       | _ \<Rightarrow> Inr (Inl E_INVAL, s)))"

section \<open>The system calls\<close>

text \<open>The string itself goes to the console.\<close>

definition sys_cputs :: "sched_build \<Rightarrow> u32 \<Rightarrow> u32 \<Rightarrow> kstate \<Rightarrow> unit kcall" where
  "sys_cputs b str len s =
     with_cur s (\<lambda>c. user_mem_assert b c str len (PTE_P OR PTE_W OR PTE_U) s)"

definition sys_getenvid :: "kstate \<Rightarrow> u32 kcall" where
  "sys_getenvid s = with_cur s (\<lambda>c. returns (env_id (envs s c)) s)"

definition sys_env_destroy :: "sched_build \<Rightarrow> u32 \<Rightarrow> kstate \<Rightarrow> u32 kcall" where
  "sys_env_destroy b envid s =
     with_env envid True s
       (\<lambda>e. calls (env_destroy b e s) (\<lambda>_ s. returns 0 s))
       (\<lambda>r. returns (err r) s)"

definition sys_yield :: "sched_build \<Rightarrow> kstate \<Rightarrow> unit kcall" where
  "sys_yield b s = sched_yield b s"

definition sys_exofork :: "kstate \<Rightarrow> u32 kcall" where
  "sys_exofork s =
     with_cur s (\<lambda>c.
       andThen (env_alloc (env_id (envs s c)) s) (\<lambda>(r, s).
         case r of
           Inl e \<Rightarrow> returns (err e) s
         | Inr newenv \<Rightarrow>
             let s = upd_env newenv (\<lambda>en. en\<lparr>env_status := ENV_NOT_RUNNABLE\<rparr>) s;
                 s = upd_env newenv (\<lambda>en. en\<lparr>env_tf := env_tf (envs s c)\<rparr>) s;
                 s = upd_env newenv (\<lambda>en. en\<lparr>env_tf := (env_tf en)
                       \<lparr>tf_regs := (tf_regs (env_tf en))\<lparr>reg_eax := 0\<rparr>\<rparr>\<rparr>) s
             in returns (env_id (envs s newenv)) s))"

definition sys_env_set_status :: "u32 \<Rightarrow> u32 \<Rightarrow> kstate \<Rightarrow> u32 kcall" where
  "sys_env_set_status envid status s =
     (if status \<noteq> env_status_code ENV_RUNNABLE \<and> status \<noteq> env_status_code ENV_NOT_RUNNABLE
      then returns (err E_INVAL) s
      else with_env envid True s
        (\<lambda>e. returns 0 (upd_env e (\<lambda>en. en\<lparr>env_status :=
                 if status = env_status_code ENV_RUNNABLE then ENV_RUNNABLE else ENV_NOT_RUNNABLE\<rparr>) s))
        (\<lambda>r. returns (err r) s))"

definition sys_env_set_pgfault_upcall :: "sched_build \<Rightarrow> u32 \<Rightarrow> u32 \<Rightarrow> kstate \<Rightarrow> u32 kcall" where
  "sys_env_set_pgfault_upcall b envid func s =
     with_env envid True s
       (\<lambda>e. calls (user_mem_assert b e func PGSIZE (PTE_P OR PTE_U) s) (\<lambda>_ s.
              returns 0 (upd_env e (\<lambda>en. en\<lparr>env_pgfault_upcall := func\<rparr>) s)))
       (\<lambda>r. returns (err r) s)"

definition bad_va :: "u32 \<Rightarrow> bool" where
  "bad_va va \<longleftrightarrow> UTOP \<le> va \<or> va mod PGSIZE \<noteq> 0"

definition sys_page_alloc :: "u32 \<Rightarrow> u32 \<Rightarrow> u32 \<Rightarrow> kstate \<Rightarrow> u32 kcall" where
  "sys_page_alloc envid va perm s =
     (if bad_va va then returns (err E_INVAL) s
      else with_env envid True s
        (\<lambda>e. andThen (env_page_alloc e va (perm OR PTE_U OR PTE_P) s) ret_of)
        (\<lambda>r. returns (err r) s))"

definition sys_page_map :: "u32 \<Rightarrow> u32 \<Rightarrow> u32 \<Rightarrow> u32 \<Rightarrow> u32 \<Rightarrow> kstate \<Rightarrow> u32 kcall" where
  "sys_page_map srcenvid srcva dstenvid dstva perm s =
     (if bad_va srcva then returns (err E_INVAL) s
      else if bad_va dstva then returns (err E_INVAL) s
      else with_env srcenvid True s
        (\<lambda>srcenv. with_env dstenvid True s
           (\<lambda>dstenv. andThen (env_page_map srcenv srcva dstenv dstva (PTE_P OR PTE_U OR perm) s) ret_of)
           (\<lambda>r. returns (err r) s))
        (\<lambda>r. returns (err r) s))"

definition sys_page_unmap :: "u32 \<Rightarrow> u32 \<Rightarrow> kstate \<Rightarrow> u32 kcall" where
  "sys_page_unmap envid va s =
     (if bad_va va then returns (err E_INVAL) s
      else with_env envid True s
        (\<lambda>e. andThen (dir_of s e) (\<lambda>pd. andThen (page_remove pd va s) (returns 0)))
        (\<lambda>r. returns (err r) s))"

section \<open>Inter-process communication\<close>

text \<open>The common end of a successful send (\<open>bail\<close>).\<close>

definition ipc_deliver :: "nat \<Rightarrow> nat \<Rightarrow> u32 \<Rightarrow> kstate \<Rightarrow> u32 kcall" where
  "ipc_deliver c dstenv value s =
     returns 0 (upd_env dstenv (\<lambda>en. en\<lparr>env_ipc_from := env_id (envs s c), env_ipc_recving := False,
       env_ipc_value := value,
       env_tf := (env_tf en)\<lparr>tf_regs := (tf_regs (env_tf en))\<lparr>reg_eax := 0\<rparr>\<rparr>,
       env_status := ENV_RUNNABLE\<rparr>) s)"

text \<open>
  When the page is not mapped \<open>page_lookup\<close> stores nothing through \<open>&srcpte\<close>, and the next
  line dereferences the uninitialised pointer.
\<close>

definition sys_ipc_try_send :: "u32 \<Rightarrow> u32 \<Rightarrow> u32 \<Rightarrow> u32 \<Rightarrow> kstate \<Rightarrow> u32 kcall" where
  "sys_ipc_try_send envid value srcva perm s =
     with_env envid False s
       (\<lambda>dstenv. with_cur s (\<lambda>c.
          if \<not> env_ipc_recving (envs s dstenv) then returns (err E_IPC_NOT_RECV) s
          else if UTOP \<le> srcva
          then ipc_deliver c dstenv value (upd_env dstenv (\<lambda>en. en\<lparr>env_ipc_perm := 0\<rparr>) s)
          else if srcva mod PGSIZE \<noteq> 0 then returns (err E_INVAL) s
          else andThen (dir_of s c) (\<lambda>pd.
               andThen (page_lookup pd srcva s) (\<lambda>(_, stored).
                 case stored of
                   None \<Rightarrow> Inl (KUndef ''uninitialised srcpte'')
                 | Some (pt, i) \<Rightarrow>
                     let pte = rd s pt i in
                     if pte \<noteq> 0 \<and> pte AND PTE_P = 0 then returns (err E_INVAL) s
                     else if perm AND PTE_W \<noteq> 0 \<and> pte AND PTE_W = 0 then returns (err E_INVAL) s
                     else let perm = perm OR (PTE_U OR PTE_P); va = env_ipc_dstva (envs s dstenv) in
                       if va = 0 then ipc_deliver c dstenv value s
                       else andThen (env_page_alloc dstenv va perm s) (\<lambda>(r, s).
                         case r of
                           Inl e \<Rightarrow> returns (err e) s
                         | Inr _ \<Rightarrow>
                             andThen (env_page_map c srcva dstenv va perm s) (\<lambda>(r, s).
                               case r of
                                 Inl e \<Rightarrow> returns (err e) s
                               | Inr _ \<Rightarrow> ipc_deliver c dstenv value
                                   (upd_env dstenv (\<lambda>en. en\<lparr>env_ipc_perm := perm\<rparr>) s)))))))
       (\<lambda>r. returns (err r) s)"

definition sys_ipc_recv :: "sched_build \<Rightarrow> u32 \<Rightarrow> kstate \<Rightarrow> u32 kcall" where
  "sys_ipc_recv b dstva s =
     with_cur s (\<lambda>c.
       let s = upd_env c (\<lambda>en. en\<lparr>env_ipc_recving := True\<rparr>) s in
       if bad_va dstva then returns (err E_INVAL) s
       else let s = upd_env c (\<lambda>en. en\<lparr>env_ipc_dstva := dstva\<rparr>) s;
                s = upd_env c (\<lambda>en. en\<lparr>env_status := ENV_NOT_RUNNABLE\<rparr>) s
            in calls (sys_yield b s) (\<lambda>_ s. Inl (KPanic ''sys_ipc_recv should not return!'')))"

section \<open>Priorities\<close>

definition sys_env_get_priority :: "u32 \<Rightarrow> kstate \<Rightarrow> u32 kcall" where
  "sys_env_get_priority envid s =
     with_cur s (\<lambda>c.
       if envid = 0 \<or> envid = env_id (envs s c)
       then returns (word_of_int (env_priority (envs s c))) s
       else with_env envid False s
         (\<lambda>e. returns (word_of_int (env_priority (envs s e))) s)
         (\<lambda>_. returns (err E_BAD_ENV) s))"

definition sys_env_set_priority :: "u32 \<Rightarrow> u32 \<Rightarrow> kstate \<Rightarrow> u32 kcall" where
  "sys_env_set_priority envid priority s =
     with_cur s (\<lambda>c.
       if (envid = 0 \<or> envid = env_id (envs s c)) \<and> sint priority < env_priority (envs s c)
       then returns (err E_INVAL) s
       else with_env envid False s
         (\<lambda>e. returns 0 (upd_env e (\<lambda>en. en\<lparr>env_priority := sint priority\<rparr>) s))
         (\<lambda>_. returns (err E_BAD_ENV) s))"

section \<open>The dispatcher\<close>

text \<open>\<open>getc\<close> is the value \<open>cons_getc\<close> has for this call.\<close>

definition syscall :: "sched_build \<Rightarrow> u32 \<Rightarrow> u32 \<Rightarrow> u32 \<Rightarrow> u32 \<Rightarrow> u32 \<Rightarrow> u32 \<Rightarrow> u32 \<Rightarrow> kstate \<Rightarrow> u32 kcall" where
  "syscall b getc syscallno a1 a2 a3 a4 a5 s =
     (if syscallno = 0 then calls (sys_cputs b a1 a2 s) (\<lambda>_ s. returns 0 s)
      else if syscallno = 2 then sys_getenvid s
      else if syscallno = 3 then sys_env_destroy b a1 s
      else if syscallno = 1 then returns getc s
      else if syscallno = 7 then sys_exofork s
      else if syscallno = 8 then sys_env_set_status a1 a2 s
      else if syscallno = 4 then sys_page_alloc a1 a2 a3 s
      else if syscallno = 5 then sys_page_map a1 a2 a3 a4 a5 s
      else if syscallno = 6 then sys_page_unmap a1 a2 s
      else if syscallno = 12 then sys_ipc_recv b a1 s
      else if syscallno = 11 then sys_ipc_try_send a1 a2 a3 a4 s
      else if syscallno = 9 then sys_env_set_pgfault_upcall b a1 a2 s
      else if syscallno = 13 then sys_env_get_priority a1 s
      else if syscallno = 14 then sys_env_set_priority a1 a2 s
      else if syscallno = 10 then calls (sys_yield b s) (\<lambda>_ s. returns (err E_INVAL) s)
      else returns (err E_INVAL) s)"

end
