(* ===== verification/Trap.thy ===== *)
theory Trap
  imports Syscall
begin

text \<open>
  \<open>kern/trap.c\<close>: the names of traps, the interrupt descriptor table, the per-processor
  task-state setup, the dispatcher, the page-fault handler that pushes a frame on the user
  exception stack, and \<open>trap\<close> itself.
\<close>

section \<open>Trap numbers and names\<close>

definition T_BRKPT :: u32 where [simp]: "T_BRKPT = 3"

definition T_PGFLT :: u32 where [simp]: "T_PGFLT = 14"

definition T_SYSCALL :: u32 where [simp]: "T_SYSCALL = 48"

definition IRQ_OFFSET :: u32 where [simp]: "IRQ_OFFSET = 32"

definition IRQ_TIMER :: u32 where [simp]: "IRQ_TIMER = 0"

definition IRQ_SPURIOUS :: u32 where [simp]: "IRQ_SPURIOUS = 7"

definition excnames :: "string list" where
  "excnames = [''Divide error'', ''Debug'', ''Non-Maskable Interrupt'', ''Breakpoint'', ''Overflow'',
     ''BOUND Range Exceeded'', ''Invalid Opcode'', ''Device Not Available'', ''Double Fault'',
     ''Coprocessor Segment Overrun'', ''Invalid TSS'', ''Segment Not Present'', ''Stack Fault'',
     ''General Protection'', ''Page Fault'', ''(unknown trap)'', ''x87 FPU Floating-Point Error'',
     ''Alignment Check'', ''Machine-Check'', ''SIMD Floating-Point Exception'']"

text \<open>The comparison with the unsigned array size makes a negative number large.\<close>

definition trapname :: "u32 \<Rightarrow> string" where
  "trapname trapno =
     (if unat trapno < 20 then excnames ! unat trapno
      else if trapno = T_SYSCALL then ''System call''
      else if 0 \<le> sint trapno - 32 \<and> sint trapno < 48 then ''Hardware Interrupt''
      else ''(unknown trap)'')"

section \<open>The interrupt descriptor table\<close>

text \<open>
  The vectors with a gate, the privilege needed to raise them by software, and \<open>entry\<close>, the
  address of the assembly stub of a vector (\<open>trap0\<close>, \<open>trap1\<close>, ...).
\<close>

definition idt_vectors :: "(nat \<times> 2 word) list" where
  "idt_vectors = [(0, 0), (1, 0), (2, 0), (3, 3), (4, 0), (5, 0), (6, 0), (7, 0), (8, 0), (10, 0),
     (11, 0), (12, 0), (13, 0), (14, 0), (16, 0), (17, 0), (18, 0), (19, 0), (48, 3), (32, 0)]"

definition trap_init :: "(nat \<Rightarrow> u32) \<Rightarrow> (nat \<Rightarrow> Gatedesc) \<Rightarrow> nat \<Rightarrow> Gatedesc" where
  "trap_init entry idt =
     fold (\<lambda>(v, dpl) t. t(v := SETGATE False GD_KT (entry v) dpl)) idt_vectors idt"

text \<open>The fields of the task state that \<open>trap_init_percpu\<close> sets; \<open>sizeof(struct Taskstate)\<close> is 104.\<close>

record Taskstate =
  ts_esp0 :: u32
  ts_ss0 :: u16
  ts_iomb :: u16

definition trap_init_percpu :: "u8 \<Rightarrow> u32 \<Rightarrow> Segdesc list \<Rightarrow> Taskstate \<times> Segdesc list" where
  "trap_init_percpu thisid thists table =
     (\<lparr>ts_esp0 = KSTACKTOP - ucast thisid * (KSTKGAP + KSTKSIZE), ts_ss0 = ucast GD_KD, ts_iomb = 104\<rparr>,
      table[5 + unat thisid := (SEG16 0x9 thists 103 0)\<lparr>sd_s := 0\<rparr>])"

section \<open>The page-fault handler\<close>

text \<open>The frame, in the order of its fields in memory.\<close>

definition utf_words :: "UTrapframe \<Rightarrow> u32 list" where
  "utf_words u = [utf_fault_va u, utf_err u, reg_edi (utf_regs u), reg_esi (utf_regs u),
     reg_ebp (utf_regs u), reg_oesp (utf_regs u), reg_ebx (utf_regs u), reg_edx (utf_regs u),
     reg_ecx (utf_regs u), reg_eax (utf_regs u), utf_eip u, utf_eflags u, utf_esp u]"

definition UTF_SIZE :: u32 where [simp]: "UTF_SIZE = 52"

definition make_utf :: "u32 \<Rightarrow> Trapframe \<Rightarrow> UTrapframe" where
  "make_utf fault_va tf = \<lparr>utf_fault_va = fault_va, utf_err = tf_err tf, utf_regs = tf_regs tf,
     utf_eip = tf_eip tf, utf_eflags = tf_eflags tf, utf_esp = tf_esp tf\<rparr>"

definition exstk :: u32 where [simp]: "exstk = UXSTACKTOP - PGSIZE"

definition exstk_top :: u32 where [simp]: "exstk_top = UXSTACKTOP - 1"

text \<open>Where the frame goes, and the scratch word that is cleared first on a nested fault.\<close>

definition push_utf :: "UTrapframe \<Rightarrow> kstate \<Rightarrow> (u32 \<times> kstate) fallible" where
  "push_utf utf s =
     andThen
       (if utf_esp utf < exstk \<or> exstk_top < utf_esp utf
        then Inr (exstk_top - UTF_SIZE, s)
        else let tmp = utf_esp utf - 4 in
             andThen (store32 tmp 0 s) (\<lambda>s. Inr (tmp - UTF_SIZE, s)))
       (\<lambda>(tmp, s).
         andThen (store_bytes tmp (concat (map bytes_of (utf_words utf))) s) (\<lambda>s.
           if tmp < exstk \<or> exstk_top < tmp
           then Inl (KPanic ''page_fault_handler: exception stack overflow'')
           else Inr (tmp, s)))"

text \<open>The trap frame is on the kernel stack or, after a trap from user mode, in the environment.\<close>

datatype tf_place = OnStack Trapframe | InEnv nat

definition the_tf :: "kstate \<Rightarrow> tf_place \<Rightarrow> Trapframe" where
  "the_tf s p = (case p of OnStack tf \<Rightarrow> tf | InEnv e \<Rightarrow> env_tf (envs s e))"

definition put_tf :: "tf_place \<Rightarrow> (Trapframe \<Rightarrow> Trapframe) \<Rightarrow> kstate \<Rightarrow> kstate" where
  "put_tf p f s = (case p of OnStack _ \<Rightarrow> s | InEnv e \<Rightarrow> upd_env e (\<lambda>en. en\<lparr>env_tf := f (env_tf en)\<rparr>) s)"

definition page_fault_handler :: "sched_build \<Rightarrow> u32 \<Rightarrow> tf_place \<Rightarrow> kstate \<Rightarrow> unit kcall" where
  "page_fault_handler b fault_va p s =
     (let tf = the_tf s p in
      if tf_cs tf AND 3 = 0 then Inl (KPanic ''page fault in kernel mode'')
      else with_cur s (\<lambda>c.
        if env_pgfault_upcall (envs s c) \<noteq> 0
        then calls (user_mem_assert b c exstk PGSIZE (PTE_U OR PTE_W) s) (\<lambda>_ s.
             andThen (push_utf (make_utf fault_va tf) s) (\<lambda>(tmp, s).
               let s = put_tf p (\<lambda>tf. tf\<lparr>tf_esp := tmp\<rparr>) s;
                   s = put_tf p (\<lambda>tf. tf\<lparr>tf_eip := env_pgfault_upcall (envs s c)\<rparr>) s
               in with_cur s (\<lambda>c. env_run c s)))
        else env_destroy b c s))"

section \<open>Dispatch\<close>

text \<open>
  What the devices supply to one trap: the fault address in \<open>%cr2\<close>, the console character,
  and whether the user of the kernel monitor leaves it (\<open>monitor\<close> then returns).
\<close>

record devices =
  dev_cr2 :: u32
  dev_getc :: u32
  dev_leaves_monitor :: bool

definition trap_dispatch :: "sched_build \<Rightarrow> devices \<Rightarrow> tf_place \<Rightarrow> kstate \<Rightarrow> unit kcall" where
  "trap_dispatch b d p s =
     (let tf = the_tf s p; r = tf_regs tf in
      if tf_trapno tf = T_BRKPT
      then (if dev_leaves_monitor d then returns () s else Inr (InMonitor, s))
      else if tf_trapno tf = T_PGFLT then page_fault_handler b (dev_cr2 d) p s
      else if tf_trapno tf = T_SYSCALL
      then calls (syscall b (dev_getc d) (reg_eax r) (reg_edx r) (reg_ecx r) (reg_ebx r) (reg_edi r) (reg_esi r) s)
             (\<lambda>v s. returns () (put_tf p (\<lambda>tf. tf\<lparr>tf_regs := (tf_regs tf)\<lparr>reg_eax := v\<rparr>\<rparr>) s))
      else if tf_trapno tf = IRQ_OFFSET + IRQ_SPURIOUS then returns () s
      else if tf_trapno tf - IRQ_OFFSET = IRQ_TIMER then sched_yield b s
      else if tf_cs tf = ucast GD_KT then Inl (KPanic ''unhandled trap in kernel'')
      else with_cur s (\<lambda>c. env_destroy b c s))"

text \<open>The last step of \<open>trap\<close>: back to the current environment, or to another one.\<close>

definition trap_return :: "sched_build \<Rightarrow> kstate \<Rightarrow> unit kcall" where
  "trap_return b s = (case curenv s of
       Some c \<Rightarrow> if env_status (envs s c) = ENV_RUNNING then env_run c s else sched_yield b s
     | None \<Rightarrow> sched_yield b s)"

definition trap_user :: "sched_build \<Rightarrow> devices \<Rightarrow> Trapframe \<Rightarrow> kstate \<Rightarrow> unit kcall" where
  "trap_user b d tf s =
     (case curenv s of
        None \<Rightarrow> Inl (KPanic ''assertion failed: curenv'')
      | Some c \<Rightarrow>
          calls
            (if env_status (envs s c) = ENV_DYING
             then andThen (env_free c s) (\<lambda>s. sched_yield b (set_curenv None s))
             else returns () s)
            (\<lambda>_ s. let s = upd_env c (\<lambda>en. en\<lparr>env_tf := tf\<rparr>) s in
                   calls (trap_dispatch b d (InEnv c) s) (\<lambda>_ s. trap_return b s)))"

definition trap :: "sched_build \<Rightarrow> devices \<Rightarrow> Trapframe \<Rightarrow> kstate \<Rightarrow> unit kcall" where
  "trap b d tf s =
     (let old = cpu_status (cpus s (cpunum s));
          s = s\<lparr>cpus := (cpus s)(cpunum s := (cpus s (cpunum s))\<lparr>cpu_status := CPU_STARTED\<rparr>)\<rparr>
      in calls (if old = CPU_HALTED then lock_kernel s else returns () s) (\<lambda>_ s.
           if tf_cs tf AND 3 = 3
           then calls (lock_kernel s) (\<lambda>_ s. trap_user b d tf s)
           else calls (trap_dispatch b d (OnStack tf) s) (\<lambda>_ s. trap_return b s)))"

end
