(* ===== verification/SyscallProps.thy ===== *)
theory SyscallProps
  imports Trap
begin

text \<open>
  What the system calls do under the invariant of environments and memory: the page calls
  keep it and change one mapping of one address space; calls on environments the caller
  does not control are refused without effect.
\<close>

section \<open>The invariant under a change of one address space\<close>

lemma kinv_vm:
  assumes inv: "kinv s fl el kx" and new: "ref_inv s' (dirs s) fl' (held (pgdirs s) kx)"
    and fr: "vm_frame s s'" and kern: "\<And>i. i < 955 \<Longrightarrow> rd s' (kern_pgdir s) i = rd s (kern_pgdir s) i"
  shows "kinv s' fl' el kx"
proof -
  have e: "envs s' = envs s" "env_free_list s' = env_free_list s" "kern_pgdir s' = kern_pgdir s"
    using fr by (simp_all add: vm_frame_def)
  have p: "pgdirs s' = pgdirs s" by (rule pgdirs_upd_same) (simp add: e)
  then have d: "dirs s' = dirs s" by (simp add: dirs_def e)
  have "free_envs s' el" using inv free_envs_cong [of s' s el] e by (simp add: kinv_def)
  moreover have "\<forall>i<955. rd s' (kern_pgdir s) i = 0" using inv kern by (simp add: kinv_def)
  ultimately show ?thesis using inv new unfolding kinv_def e p d by blast
qed

text \<open>The invariant does not depend on the fields that IPC, priorities and the loader write.\<close>

lemma kinv_cong:
  assumes inv: "kinv s fl el kx" and mem: "rd s' = rd s" "npages s' = npages s" "pages s' = pages s"
      "page_free_list s' = page_free_list s" "kern_pgdir s' = kern_pgdir s"
    and env: "env_free_list s' = env_free_list s" "\<And>x. env_link (envs s' x) = env_link (envs s x)"
      "\<And>x. env_status (envs s' x) = ENV_FREE \<longleftrightarrow> env_status (envs s x) = ENV_FREE"
      "\<And>x. env_pgdir (envs s' x) = env_pgdir (envs s x)"
  shows "kinv s' fl el kx" and "dirs s' = dirs s"
proof -
  have p: "pgdirs s' = pgdirs s" by (rule pgdirs_upd_same) (rule env)
  then show d: "dirs s' = dirs s" by (simp add: dirs_def mem)
  have "ref_inv s' (dirs s) fl (held (pgdirs s) kx)"
    by (rule ref_inv_same [OF _ mem]) (use inv in \<open>simp add: kinv_def\<close>)
  moreover have "env_link_of s' = env_link_of s" by (simp only: env_link_of_def env fun_eq_iff) simp
  then have "free_envs s' el" using inv unfolding kinv_def free_envs_def env by simp
  ultimately show "kinv s' fl el kx" using inv unfolding kinv_def env p d mem by metis
qed

lemma kinv_upd_env:
  assumes "kinv s fl el kx" and f: "\<And>en. env_link (f en) = env_link en"
    "\<And>en. env_status (f en) = env_status en" "\<And>en. env_pgdir (f en) = env_pgdir en"
  shows "kinv (upd_env e f s) fl el kx"
  by (rule kinv_cong(1) [OF assms(1)]) (simp_all add: f)

lemma vm_frame_envs: "vm_frame s s' \<Longrightarrow> envs s' = envs s"
  by (simp add: vm_frame_def)

lemma kinv_ref: "kinv s fl el kx \<Longrightarrow> ref_inv s (dirs s) fl (held (pgdirs s) kx)"
  by (simp add: kinv_def)

lemma kinv_dir: "env_pgdir (envs s e) = Some pd \<Longrightarrow> e < 1024 \<Longrightarrow> pd \<in> dirs s"
  by (auto simp: dirs_def pgdirs_def)

lemma kern_dir_untouched:
  assumes inv: "kinv s fl el kx" and pd: "env_pgdir (envs s e) = Some pd" "e < 1024"
  shows "kern_pgdir s \<notin> set fl" and "kern_pgdir s \<noteq> pd"
    and "PDX va < 955 \<Longrightarrow> rd s pd (PDX va) \<noteq> 0 \<Longrightarrow> kern_pgdir s \<noteq> PGNUM (rd s pd (PDX va))"
proof -
  have k: "kern_pgdir s \<in> dirs s" by (simp add: dirs_def)
  show "kern_pgdir s \<notin> set fl" using free_unheld(3) [OF kinv_ref [OF inv]] k by blast
  show "kern_pgdir s \<noteq> pd" using inv pd by (auto simp: kinv_def pgdirs_def)
  show "kern_pgdir s \<noteq> PGNUM (rd s pd (PDX va))" if "PDX va < 955" "rd s pd (PDX va) \<noteq> 0"
    using table_unique(3) [OF kinv_ref [OF inv] kinv_dir [OF pd] that] k by auto
qed

lemma live_env_dir:
  assumes "kinv s fl el kx" and "e < 1024" and "env_status (envs s e) \<noteq> ENV_FREE"
  shows "\<exists>pd. env_pgdir (envs s e) = Some pd"
  using assms by (auto simp: kinv_def)

lemma PTE_SYSCALL_val: "PTE_SYSCALL = 0xE07"
  by (simp add: PTE_SYSCALL_def)

lemma syscall_perm_ok:
  assumes "perm AND NOT PTE_SYSCALL = 0" shows "perm_ok perm"
  unfolding perm_ok_def
proof (rule bit_word_eqI)
  fix n
  have "\<not> bit perm (12 + n)"
  proof
    assume b: "bit perm (12 + n)"
    then have l: "12 + n < LENGTH(32)" by (rule bit_imp_le_length)
    have "(0xE07 :: u32) = 0xE07 AND mask 12" by (simp add: mask_eq_exp_minus_1)
    then have "\<not> bit (0xE07 :: u32) (12 + n)" by (metis bit_and_iff bit_mask_iff not_add_less1)
    then have "bit (perm AND NOT 0xE07) (12 + n)" using b l by (simp only: bit_and_iff bit_not_iff_eq) simp
    then show False using assms by (simp add: PTE_SYSCALL_val)
  qed
  then show "bit (drop_bit 12 perm) n = bit (0 :: u32) n" by (simp add: bit_drop_bit_eq)
qed

section \<open>page_insert and page_remove at the level of an environment\<close>

text \<open>
  \<open>plain\<close> pages are neither free nor directories nor tables: they hold programs and data, which a
  change of mappings leaves alone. \<open>remaps\<close> collects what such a change of one entry of \<open>pd\<close>
  keeps: all data, all directory entries except a missing one it fills, and the free pages
  except the one a missing table costs.
\<close>

definition plain :: "kstate \<Rightarrow> nat list \<Rightarrow> nat \<Rightarrow> bool" where
  "plain s fl q \<longleftrightarrow> q \<notin> set fl \<and> q \<notin> dirs s
     \<and> (\<forall>pd\<in>dirs s. \<forall>i<955. rd s pd i \<noteq> 0 \<longrightarrow> PGNUM (rd s pd i) \<noteq> q)"

definition remaps :: "kstate \<Rightarrow> nat list \<Rightarrow> nat \<Rightarrow> u32 \<Rightarrow> kstate \<Rightarrow> nat list \<Rightarrow> bool" where
  "remaps s fl pd va s' fl' \<longleftrightarrow> vm_frame s s' \<and> (\<forall>q. plain s fl q \<longrightarrow> rd s' q = rd s q)
     \<and> (\<forall>pd'\<in>dirs s. \<forall>i. (pd', i) \<noteq> (pd, PDX va) \<or> rd s pd (PDX va) \<noteq> 0 \<longrightarrow> rd s' pd' i = rd s pd' i)
     \<and> rd s' pd (PDX va) \<noteq> 0 \<and> (rd s pd (PDX va) = 0 \<longrightarrow> open_pde (rd s' pd (PDX va)))
     \<and> length fl \<le> length fl' + (if rd s pd (PDX va) = 0 then 1 else 0)"

lemma remapsI:
  assumes inv: "kinv s fl el kx" and pd: "pd \<in> dirs s" "PDX va < 955" and fr: "vm_frame s s'"
    and len: "length fl \<le> length fl' + (if rd s pd (PDX va) = 0 then 1 else 0)"
    and pde: "rd s' pd (PDX va) \<noteq> 0 \<and> (rd s pd (PDX va) \<noteq> 0 \<longrightarrow> rd s' pd (PDX va) = rd s pd (PDX va))
      \<and> (rd s pd (PDX va) = 0 \<longrightarrow> open_pde (rd s' pd (PDX va)))"
    and mem: "\<And>q j. q \<notin> set fl \<Longrightarrow> (q, j) \<noteq> (pd, PDX va) \<Longrightarrow>
           (rd s pd (PDX va) \<noteq> 0 \<longrightarrow> (q, j) \<noteq> (PGNUM (rd s pd (PDX va)), PTX va)) \<Longrightarrow> rd s' q j = rd s q j"
  shows "remaps s fl pd va s' fl'"
proof -
  have "rd s' q j = rd s q j" if "plain s fl q" for q j
    using mem [of q j] that pd by (auto simp: plain_def)
  moreover have "rd s' pd' i = rd s pd' i"
    if x: "pd' \<in> dirs s" "(pd', i) \<noteq> (pd, PDX va) \<or> rd s pd (PDX va) \<noteq> 0" for pd' i
  proof (cases "(pd', i) = (pd, PDX va)")
    case True
    then show ?thesis using x pde by auto
  next
    case False
    have "pd' \<notin> set fl" using free_unheld(3) [OF kinv_ref [OF inv]] x by blast
    moreover have "PGNUM (rd s pd (PDX va)) \<noteq> pd'" if "rd s pd (PDX va) \<noteq> 0"
      using table_unique(3) [OF kinv_ref [OF inv] pd that] x by auto
    ultimately show ?thesis using False by (intro mem) auto
  qed
  ultimately show ?thesis using fr len pde by (simp add: remaps_def fun_eq_iff)
qed

lemma remaps_frame: "remaps s fl pd va s' fl' \<Longrightarrow> vm_frame s s'"
  by (simp add: remaps_def)

lemma env_insert:
  assumes inv: "kinv s fl el kx" and e: "e < 1024" "env_pgdir (envs s e) = Some pd"
    and va: "va < UTOP" and pp: "mappable s (dirs s) fl pp" and perm: "perm_ok perm"
    and room: "rd s pd (PDX va) \<noteq> 0 \<or> fl \<noteq> []"
  shows "\<exists>s' fl'. page_insert pd pp va perm s = Inr (Inr (), s') \<and> kinv s' fl' el kx \<and> vm_frame s s'
     \<and> (\<forall>pd'\<in>dirs s. \<forall>n<977920. pte_of s' pd' n =
          (if pd' = pd \<and> n = PGNUM va then page2pa pp OR perm OR PTE_P else pte_of s pd' n))
     \<and> remaps s fl pd va s' fl'"
proof -
  have u: "PDX va < 955" using user_va [OF va] by simp
  from page_insert_effect [OF kinv_ref [OF inv] kinv_dir [OF e(2,1)] va pp perm room] obtain s' fl' where
    s': "page_insert pd pp va perm s = Inr (Inr (), s')" "ref_inv s' (dirs s) fl' (held (pgdirs s) kx)"
      "vm_frame s s'"
      "\<forall>q j. q \<notin> set fl \<longrightarrow> (q, j) \<noteq> (pd, PDX va) \<longrightarrow>
           (rd s pd (PDX va) \<noteq> 0 \<longrightarrow> (q, j) \<noteq> (PGNUM (rd s pd (PDX va)), PTX va)) \<longrightarrow> rd s' q j = rd s q j"
      "\<forall>pd'\<in>dirs s. \<forall>n<977920. pte_of s' pd' n =
          (if pd' = pd \<and> n = PGNUM va then page2pa pp OR perm OR PTE_P else pte_of s pd' n)"
      "length fl \<le> length fl' + (if rd s pd (PDX va) = 0 then 1 else 0)"
      "rd s' pd (PDX va) \<noteq> 0 \<and> (rd s pd (PDX va) \<noteq> 0 \<longrightarrow> rd s' pd (PDX va) = rd s pd (PDX va))
      \<and> (rd s pd (PDX va) = 0 \<longrightarrow> open_pde (rd s' pd (PDX va)))"
    by blast
  note k = kern_dir_untouched [OF inv e(2,1)]
  have kern: "rd s' (kern_pgdir s) i = rd s (kern_pgdir s) i" if "i < 955" for i
    using s'(4) k u by auto
  have "remaps s fl pd va s' fl'"
    by (rule remapsI [OF inv kinv_dir [OF e(2,1)] u s'(3,6,7)]) (use s'(4) in blast)
  then show ?thesis
    using s'(1,3,5) kinv_vm [OF inv s'(2,3) kern] by blast
qed


lemma env_remove:
  assumes inv: "kinv s fl el kx" and e: "e < 1024" "env_pgdir (envs s e) = Some pd" and va: "va < UTOP"
  shows "\<exists>s' fl'. page_remove pd va s = Inr s' \<and> kinv s' fl' el kx \<and> vm_frame s s'
     \<and> (\<forall>pd'\<in>dirs s. \<forall>n<977920. pte_of s' pd' n = (if pd' = pd \<and> n = PGNUM va then 0 else pte_of s pd' n))
     \<and> (\<forall>q. plain s fl q \<longrightarrow> rd s' q = rd s q) \<and> (\<forall>pd'\<in>dirs s. rd s' pd' = rd s pd') \<and> length fl \<le> length fl'"
proof -
  have u: "PDX va < 955" using user_va [OF va] by simp
  from page_remove_effect [OF kinv_ref [OF inv] kinv_dir [OF e(2,1)] va] obtain s' fl' where
    s': "page_remove pd va s = Inr s'" "ref_inv s' (dirs s) fl' (held (pgdirs s) kx)" "vm_frame s s'"
      "\<forall>q j. rd s' q j = (if q = PGNUM (rd s pd (PDX va)) \<and> j = PTX va \<and> rd s pd (PDX va) \<noteq> 0 then 0 else rd s q j)"
      "\<forall>pd'\<in>dirs s. \<forall>n<977920. pte_of s' pd' n = (if pd' = pd \<and> n = PGNUM va then 0 else pte_of s pd' n)"
      "length fl \<le> length fl'"
    by blast
  have pd: "pd \<in> dirs s" by (rule kinv_dir [OF e(2,1)])
  have "PGNUM (rd s pd (PDX va)) \<noteq> pd'" if "rd s pd (PDX va) \<noteq> 0" "pd' \<in> dirs s" for pd'
    using table_unique(3) [OF kinv_ref [OF inv] pd u that(1)] that(2) by auto
  then have ds: "rd s' pd' = rd s pd'" if "pd' \<in> dirs s" for pd'
    using s'(4) that by (auto simp: fun_eq_iff)
  then have kern: "rd s' (kern_pgdir s) i = rd s (kern_pgdir s) i" for i by (simp add: dirs_def)
  have "rd s' q = rd s q" if "plain s fl q" for q
    using s'(4) that pd u by (auto simp: fun_eq_iff plain_def)
  then show ?thesis using s'(1,3,5,6) ds kinv_vm [OF inv s'(2,3) kern] by blast
qed

section \<open>Refusals\<close>

text \<open>The caller controls an environment that is its own or its child.\<close>

definition controls :: "kstate \<Rightarrow> nat \<Rightarrow> u32 \<Rightarrow> bool" where
  "controls s c envid \<longleftrightarrow> envid = 0 \<or>
     env_status (envs s (ENVX envid)) \<noteq> ENV_FREE \<and> env_id (envs s (ENVX envid)) = envid
     \<and> (ENVX envid = c \<or> env_parent_id (envs s (ENVX envid)) = env_id (envs s c))"

definition target :: "nat \<Rightarrow> u32 \<Rightarrow> nat" where
  "target c envid = (if envid = 0 then c else ENVX envid)"

lemma with_env_checked:
  assumes "curenv s = Some c"
  shows "with_env envid True s use fail =
     (if controls s c envid then use (target c envid) else fail E_BAD_ENV)"
  using assms by (auto simp: with_env_def envid2env_def controls_def target_def Let_def)

lemma with_env_unchecked:
  assumes "curenv s = Some c"
  shows "with_env envid False s use fail =
     (if envid = 0 then use c
      else if env_status (envs s (ENVX envid)) = ENV_FREE \<or> env_id (envs s (ENVX envid)) \<noteq> envid
      then fail E_BAD_ENV else use (ENVX envid))"
  using assms by (auto simp: with_env_def envid2env_def Let_def)




section \<open>The page calls\<close>

text \<open>The caller is a live environment that asks for a mapping it may change.\<close>

definition may_manage :: "kstate \<Rightarrow> nat \<Rightarrow> u32 \<Rightarrow> bool" where
  "may_manage s c envid \<longleftrightarrow> curenv s = Some c \<and> c < NENV \<and> env_status (envs s c) \<noteq> ENV_FREE \<and> controls s c envid"

lemma may_manage_target:
  assumes "kinv s fl el kx" and "may_manage s c envid"
  shows "target c envid < 1024" and "\<exists>pd. env_pgdir (envs s (target c envid)) = Some pd"
proof -
  show "target c envid < 1024" using assms(2) by (simp add: may_manage_def target_def)
  then show "\<exists>pd. env_pgdir (envs s (target c envid)) = Some pd"
    using assms(2) by (intro live_env_dir [OF assms(1)]) (auto simp: may_manage_def target_def controls_def split: if_splits)
qed

lemma kinv_take:
  assumes inv: "kinv s (p # fl) el kx"
  shows "\<exists>s1. page_alloc flags s = Inr (Some p, s1) \<and> kinv s1 fl el kx \<and> vm_frame s s1 \<and> dirs s1 = dirs s
     \<and> p \<notin> dirs s \<and> mappable s1 (dirs s) fl p
     \<and> (\<forall>q j. rd s1 q j = (if q = p \<and> flags AND ALLOC_ZERO \<noteq> 0 then 0 else rd s q j))
     \<and> (\<forall>pd\<in>dirs s. \<forall>n<977920. pte_of s1 pd n = pte_of s pd n)"
proof -
  note rinv = kinv_ref [OF inv]
  have ok: "free_pages s (p # fl)" "mem_ok s" using rinv by (simp_all add: ref_inv_def)
  obtain s1 where run1: "page_alloc flags s = Inr (Some p, s1)"
    using page_alloc_take [OF ok, of flags] by auto
  note a = ref_inv_alloc [OF rinv run1]
  have nd: "p \<notin> dirs s" using free_unheld(3) [OF rinv, of p] by simp
  then have "kern_pgdir s \<noteq> p" by (auto simp: dirs_def)
  then have k1: "kinv s1 fl el kx" using kinv_vm [OF inv, of s1 fl] a by simp
  have f: "envs s1 = envs s" "kern_pgdir s1 = kern_pgdir s" using a by (simp_all add: vm_frame_def)
  have "pgdirs s1 = pgdirs s" by (rule pgdirs_upd_same) (simp add: f)
  then have "dirs s1 = dirs s" by (simp add: dirs_def f)
  moreover have "pte_of s1 pd n = pte_of s pd n" if x: "pd \<in> dirs s" "n < 977920" for pd n
  proof -
    have "slot_val s1 (PTE pd n) = slot_val s (PTE pd n)"
      by (rule slot_val_other_mem [OF rinv nd])
         (use fresh_not_table [OF rinv] a x in \<open>simp_all\<close>)
    then show ?thesis by simp
  qed
  ultimately show ?thesis using run1 k1 a nd by blast
qed

text \<open>A free page put at an address of a live environment, the two calls one after the other.\<close>

lemma alloc_insert:
  assumes inv: "kinv s (p # fl) el kx" and e: "e < 1024" "env_pgdir (envs s e) = Some pd"
    and va: "va < UTOP" and perm: "perm_ok perm" and room: "rd s pd (PDX va) \<noteq> 0 \<or> fl \<noteq> []"
  shows "\<exists>s1 s' fl'. page_alloc flags s = Inr (Some p, s1) \<and> page_insert pd p va perm s1 = Inr (Inr (), s')
       \<and> kinv s' fl' el kx \<and> vm_frame s s'
       \<and> (\<forall>pd'\<in>dirs s. \<forall>n<977920. pte_of s' pd' n =
            (if pd' = pd \<and> n = PGNUM va then page2pa p OR perm OR PTE_P else pte_of s pd' n))
       \<and> (\<forall>j. rd s' p j = (if flags AND ALLOC_ZERO \<noteq> 0 then 0 else rd s p j))
       \<and> (\<forall>q. plain s (p # fl) q \<longrightarrow> rd s' q = rd s q)
       \<and> (\<forall>pd'\<in>dirs s. \<forall>i. (pd', i) \<noteq> (pd, PDX va) \<or> rd s pd (PDX va) \<noteq> 0 \<longrightarrow> rd s' pd' i = rd s pd' i)
       \<and> rd s' pd (PDX va) \<noteq> 0 \<and> (rd s pd (PDX va) = 0 \<longrightarrow> open_pde (rd s' pd (PDX va)))
       \<and> length fl \<le> length fl' + (if rd s pd (PDX va) = 0 then 1 else 0)"
proof -
  from kinv_take [OF inv, of flags] obtain s1 where
    run1: "page_alloc flags s = Inr (Some p, s1)" and k1: "kinv s1 fl el kx" and fr1: "vm_frame s s1"
    and ds: "dirs s1 = dirs s" and nd: "p \<notin> dirs s" and map1: "mappable s1 (dirs s) fl p"
    and rd1: "\<And>q j. rd s1 q j = (if q = p \<and> flags AND ALLOC_ZERO \<noteq> 0 then 0 else rd s q j)"
    and pte1: "\<And>pd n. pd \<in> dirs s \<Longrightarrow> n < 977920 \<Longrightarrow> pte_of s1 pd n = pte_of s pd n" by blast
  have pdd: "pd \<in> dirs s" by (rule kinv_dir [OF e(2,1)])
  have e1: "env_pgdir (envs s1 e) = Some pd" using e fr1 by (simp add: vm_frame_def)
  have same: "rd s1 pd' = rd s pd'" if "pd' \<in> dirs s" for pd' using that nd by (auto simp: rd1 fun_eq_iff)
  have room1: "rd s1 pd (PDX va) \<noteq> 0 \<or> fl \<noteq> []" using room by (simp add: same pdd)
  from env_insert [OF k1 e(1) e1 va map1 [folded ds] perm room1] obtain s' fl2 where
    s': "page_insert pd p va perm s1 = Inr (Inr (), s')" "kinv s' fl2 el kx" "vm_frame s1 s'"
      "\<forall>pd'\<in>dirs s1. \<forall>n<977920. pte_of s' pd' n =
        (if pd' = pd \<and> n = PGNUM va then page2pa p OR perm OR PTE_P else pte_of s1 pd' n)"
      "remaps s1 fl pd va s' fl2"
    by blast
  note keep = s'(5) [unfolded remaps_def ds]
  have "plain s1 fl p" using map1 nd by (simp add: plain_def ds mappable_def)
  moreover have "plain s1 fl q" if "plain s (p # fl) q" for q
    using that by (simp add: plain_def ds same)
  ultimately have plain: "plain s1 fl q" if "plain s (p # fl) q \<or> q = p" for q using that by blast
  have data: "rd s' q = rd s q" if "plain s (p # fl) q" for q
    using keep plain [of q] that by (auto simp: plain_def rd1 fun_eq_iff)
  have pdes: "rd s' pd' i = rd s pd' i"
    if "pd' \<in> dirs s" "(pd', i) \<noteq> (pd, PDX va) \<or> rd s pd (PDX va) \<noteq> 0" for pd' i
    using keep that by (auto simp: same pdd)
  have "rd s' p j = (if flags AND ALLOC_ZERO \<noteq> 0 then 0 else rd s p j)" for j
    using keep plain [of p] by (auto simp: rd1)
  moreover have "vm_frame s s'" by (rule vm_frame_trans [OF fr1 s'(3)])
  ultimately show ?thesis
    using run1 s'(1,2,4) pte1 data pdes keep by (intro exI [of _ s1] exI [of _ s'] exI [of _ fl2]) (auto simp: ds same pdd)
qed

lemma env_page_alloc_cases:
  assumes inv: "kinv s fl el kx" and e: "e < 1024" "env_pgdir (envs s e) = Some pd" and va: "va < UTOP"
    and perm: "check_perm perm None = Inr ()"
  shows "if fl = [] then env_page_alloc e va perm s = Inr (Inl E_NO_MEM, s)
     else if tl fl = [] \<and> rd s pd (PDX va) = 0
     then \<exists>s'. env_page_alloc e va perm s = Inr (Inl E_NO_MEM, s') \<and> kinv s' [] el kx
     else \<exists>s' fl'. env_page_alloc e va perm s = Inr (Inr (), s') \<and> kinv s' fl' el kx \<and> vm_frame s s' \<and> envs s' = envs s
       \<and> (\<forall>pd'\<in>dirs s. \<forall>n<977920. pte_of s' pd' n =
            (if pd' = pd \<and> n = PGNUM va then page2pa (hd fl) OR perm OR PTE_P else pte_of s pd' n))
       \<and> (\<forall>j. rd s' (hd fl) j = 0)
       \<and> (\<forall>q. plain s fl q \<longrightarrow> rd s' q = rd s q)
       \<and> (\<forall>pd'\<in>dirs s. \<forall>i. (pd', i) \<noteq> (pd, PDX va) \<or> rd s pd (PDX va) \<noteq> 0 \<longrightarrow> rd s' pd' i = rd s pd' i)
       \<and> rd s' pd (PDX va) \<noteq> 0 \<and> (rd s pd (PDX va) = 0 \<longrightarrow> open_pde (rd s' pd (PDX va)))
       \<and> length fl \<le> length fl' + (if rd s pd (PDX va) = 0 then 2 else 1)"
proof (cases fl)
  case Nil
  with inv have "free_pages s []" by (simp add: kinv_def ref_inv_def)
  with Nil perm show ?thesis by (simp add: env_page_alloc_def page_alloc_empty)
next
  case (Cons p fl')
  have inv': "kinv s (p # fl') el kx" using inv Cons by simp
  have pok: "perm_ok perm" using perm by (intro syscall_perm_ok) (auto simp: check_perm_def split: if_splits)
  show ?thesis
  proof (cases "fl' = [] \<and> rd s pd (PDX va) = 0")
    case True
    from kinv_take [OF inv', of ALLOC_ZERO] obtain s1 where
      s1: "page_alloc ALLOC_ZERO s = Inr (Some p, s1)" "kinv s1 fl' el kx" "vm_frame s s1" "p \<notin> dirs s"
        "\<forall>q j. rd s1 q j = (if q = p \<and> ALLOC_ZERO AND ALLOC_ZERO \<noteq> 0 then 0 else rd s q j)"
      by blast
    have "rd s1 pd (PDX va) = 0" using True s1(4,5) kinv_dir [OF e(2,1)] by auto
    moreover have "free_pages s1 []" using s1(2) True by (simp add: kinv_def ref_inv_def)
    ultimately have "page_insert pd p va perm s1 = Inr (Inl E_NO_MEM, s1)"
      using page_insert_no_memory [of s1 pd va p perm] by simp
    then show ?thesis using s1 e True Cons perm by (simp add: env_page_alloc_def dir_of_def vm_frame_envs)
  next
    case False
    then have room: "rd s pd (PDX va) \<noteq> 0 \<or> fl' \<noteq> []" by blast
    from alloc_insert [OF inv' e va pok room, of ALLOC_ZERO] obtain s1 s' fl2 where
      s': "page_alloc ALLOC_ZERO s = Inr (Some p, s1)" "page_insert pd p va perm s1 = Inr (Inr (), s')"
        "kinv s' fl2 el kx" "vm_frame s s'"
        "\<forall>pd'\<in>dirs s. \<forall>n<977920. pte_of s' pd' n =
            (if pd' = pd \<and> n = PGNUM va then page2pa p OR perm OR PTE_P else pte_of s pd' n)"
        "\<forall>j. rd s' p j = (if ALLOC_ZERO AND ALLOC_ZERO \<noteq> 0 then 0 else rd s p j)"
        "\<forall>q. plain s (p # fl') q \<longrightarrow> rd s' q = rd s q"
        "\<forall>pd'\<in>dirs s. \<forall>i. (pd', i) \<noteq> (pd, PDX va) \<or> rd s pd (PDX va) \<noteq> 0 \<longrightarrow> rd s' pd' i = rd s pd' i"
        "rd s' pd (PDX va) \<noteq> 0 \<and> (rd s pd (PDX va) = 0 \<longrightarrow> open_pde (rd s' pd (PDX va)))"
        "length fl' \<le> length fl2 + (if rd s pd (PDX va) = 0 then 1 else 0)"
      by blast
    from kinv_take [OF inv', of ALLOC_ZERO] s'(1) have "vm_frame s s1" by auto
    then have run: "env_page_alloc e va perm s = Inr (Inr (), s')"
      using perm s'(1,2) e by (simp add: env_page_alloc_def dir_of_def vm_frame_envs)
    have "length fl \<le> length fl2 + (if rd s pd (PDX va) = 0 then 2 else 1)" using s'(10) Cons by (auto split: if_splits)
    with False Cons run s'(3-9) vm_frame_envs [OF s'(4)] show ?thesis by (auto simp del: not_all)
  qed
qed

lemma not_bad_va: "\<not> bad_va va \<Longrightarrow> va < UTOP"
  by (simp add: bad_va_def not_le)

lemma sys_page_alloc_cases:
  fixes perm :: u32
  assumes inv: "kinv s fl el kx" and may: "may_manage s c envid" and va: "\<not> bad_va va"
    and pd: "env_pgdir (envs s (target c envid)) = Some pd"
  defines "pm \<equiv> perm OR PTE_U OR PTE_P"
  shows "if pm AND NOT PTE_SYSCALL \<noteq> 0 then sys_page_alloc envid va perm s = Inr (Returns (err E_INVAL), s)
     else if fl = [] then sys_page_alloc envid va perm s = Inr (Returns (err E_NO_MEM), s)
     else if tl fl = [] \<and> rd s pd (PDX va) = 0
     then \<exists>s'. sys_page_alloc envid va perm s = Inr (Returns (err E_NO_MEM), s') \<and> kinv s' [] el kx
     else \<exists>s' fl'. sys_page_alloc envid va perm s = Inr (Returns 0, s') \<and> kinv s' fl' el kx \<and> envs s' = envs s
       \<and> (\<forall>pd'\<in>dirs s. \<forall>n<NUDIR * NPTENTRIES. pte_of s' pd' n =
            (if pd' = pd \<and> n = PGNUM va then page2pa (hd fl) OR pm OR PTE_P else pte_of s pd' n))
       \<and> (\<forall>j. rd s' (hd fl) j = 0) \<and> vm_frame s s'
       \<and> (\<forall>q. plain s fl q \<longrightarrow> rd s' q = rd s q)
       \<and> (\<forall>pd'\<in>dirs s. \<forall>i. (pd', i) \<noteq> (pd, PDX va) \<or> rd s pd (PDX va) \<noteq> 0 \<longrightarrow> rd s' pd' i = rd s pd' i)
       \<and> rd s' pd (PDX va) \<noteq> 0 \<and> (rd s pd (PDX va) = 0 \<longrightarrow> open_pde (rd s' pd (PDX va)))
       \<and> length fl \<le> length fl' + (if rd s pd (PDX va) = 0 then 2 else 1)"
proof -
  have cur: "curenv s = Some c" and con: "controls s c envid" using may by (simp_all add: may_manage_def)
  note t = may_manage_target(1) [OF inv may]
  have run: "sys_page_alloc envid va perm s = andThen (env_page_alloc (target c envid) va pm s) ret_of"
    using va con by (simp add: sys_page_alloc_def with_env_checked [OF cur] pm_def)
  show ?thesis
  proof (cases "pm AND NOT PTE_SYSCALL = 0")
    case False
    then have "env_page_alloc (target c envid) va pm s = Inr (Inl E_INVAL, s)"
      by (simp add: env_page_alloc_def check_perm_def)
    then show ?thesis using False by (simp add: run ret_of_def returns_def)
  next
    case True
    have "pm AND PTE_P \<noteq> 0" unfolding pm_def by (metis or.assoc or_P_present)
    moreover have "pm AND PTE_U \<noteq> 0"
      by (simp add: pm_def bit.conj_disj_distrib2 or_eq_0_iff)
    ultimately have "check_perm pm None = Inr ()" using True by (simp add: check_perm_def)
    note c = env_page_alloc_cases [OF inv t pd not_bad_va [OF va] this]
    show ?thesis
    proof (cases "fl = [] \<or> tl fl = [] \<and> rd s pd (PDX va) = 0")
      case True
      then show ?thesis using c \<open>pm AND NOT PTE_SYSCALL = 0\<close>
        by (auto simp: run ret_of_def returns_def simp del: err_numeral)
    next
      case False
      then have ne: "fl \<noteq> []" "\<not> (tl fl = [] \<and> rd s pd (PDX va) = 0)" by blast+
      from c [unfolded if_not_P [OF ne(1)] if_not_P [OF ne(2)]] obtain s' fl' where
        e: "env_page_alloc (target c envid) va pm s = Inr (Inr (), s')" and
        r: "kinv s' fl' el kx" "vm_frame s s'" "envs s' = envs s"
          "\<forall>pd'\<in>dirs s. \<forall>n<977920. pte_of s' pd' n =
            (if pd' = pd \<and> n = PGNUM va then page2pa (hd fl) OR pm OR PTE_P else pte_of s pd' n)"
          "\<forall>j. rd s' (hd fl) j = 0" "\<forall>q. plain s fl q \<longrightarrow> rd s' q = rd s q"
          "\<forall>pd'\<in>dirs s. \<forall>i. (pd', i) \<noteq> (pd, PDX va) \<or> rd s pd (PDX va) \<noteq> 0 \<longrightarrow> rd s' pd' i = rd s pd' i"
          "rd s' pd (PDX va) \<noteq> 0" "rd s pd (PDX va) = 0 \<longrightarrow> open_pde (rd s' pd (PDX va))"
          "length fl \<le> length fl' + (if rd s pd (PDX va) = 0 then 2 else 1)"
        by blast
      have "sys_page_alloc envid va perm s = Inr (Returns 0, s')" by (simp add: run e ret_of_def returns_def)
      moreover have "\<not> pm AND NOT PTE_SYSCALL \<noteq> 0" using True by simp
      ultimately show ?thesis
        unfolding if_not_P [OF ne(1)] if_not_P [OF ne(2)] using r by (simp only: if_False) auto
    qed
  qed
qed



lemma live_demo_cur: "curenv live_demo = Some 0"
  by (simp add: live_demo_def curenv_def vm_demo_def boot_state_def)

lemma live_demo_manage: "may_manage live_demo 0 0"
  by (simp add: may_manage_def live_demo_cur controls_def) (simp add: live_demo_def)

lemma live_demo_pgdir: "env_pgdir (envs live_demo 0) = Some 5"
  by (simp add: live_demo_def)


lemma sys_page_unmap_cases:
  assumes inv: "kinv s fl el kx" and may: "may_manage s c envid" and va: "\<not> bad_va va"
    and pd: "env_pgdir (envs s (target c envid)) = Some pd"
  shows "\<exists>s' fl'. sys_page_unmap envid va s = Inr (Returns 0, s') \<and> kinv s' fl' el kx \<and> envs s' = envs s
       \<and> (\<forall>pd'\<in>dirs s. \<forall>n<NUDIR * NPTENTRIES. pte_of s' pd' n = (if pd' = pd \<and> n = PGNUM va then 0 else pte_of s pd' n))
       \<and> vm_frame s s' \<and> (\<forall>q. plain s fl q \<longrightarrow> rd s' q = rd s q) \<and> (\<forall>pd'\<in>dirs s. rd s' pd' = rd s pd') \<and> length fl \<le> length fl'"
proof -
  have cur: "curenv s = Some c" and con: "controls s c envid" using may by (simp_all add: may_manage_def)
  from env_remove [OF inv may_manage_target(1) [OF inv may] pd not_bad_va [OF va]] obtain s' fl' where
    "page_remove pd va s = Inr s'" "kinv s' fl' el kx" "vm_frame s s'"
    "\<forall>pd'\<in>dirs s. \<forall>n<977920. pte_of s' pd' n = (if pd' = pd \<and> n = PGNUM va then 0 else pte_of s pd' n)"
    "\<forall>q. plain s fl q \<longrightarrow> rd s' q = rd s q" "\<forall>pd'\<in>dirs s. rd s' pd' = rd s pd'" "length fl \<le> length fl'"
    by blast
  then show ?thesis
    using va con pd by (auto simp: sys_page_unmap_def with_env_checked [OF cur] dir_of_def returns_def vm_frame_def)
qed

text \<open>
  sys_page_unmap on an environment the caller controls, at an aligned address below UTOP,
  always returns 0; that virtual page is empty afterwards, no other mapping and no environment
  changes, and the kernel invariant holds.
\<close>

theorem sys_page_unmap_correct:
  assumes inv: "kinv s fl el kx" and may: "may_manage s c envid" and va: "\<not> bad_va va"
    and pd: "env_pgdir (envs s (target c envid)) = Some pd"
  shows "\<exists>s' fl'. sys_page_unmap envid va s = Inr (Returns 0, s') \<and> kinv s' fl' el kx \<and> envs s' = envs s
       \<and> (\<forall>pd'\<in>dirs s. \<forall>n<NUDIR * NPTENTRIES. pte_of s' pd' n = (if pd' = pd \<and> n = PGNUM va then 0 else pte_of s pd' n))"
  using sys_page_unmap_cases [OF assms] by blast

theorem sys_page_unmap_correct_witness:
  "\<exists>s' fl'. sys_page_unmap 0 UTEXT live_demo = Inr (Returns 0, s') \<and> kinv s' fl' [1..<1024] live_kx"
proof -
  have "\<not> bad_va UTEXT" by (simp add: bad_va_def)
  from sys_page_unmap_correct [OF live_demo_kinv live_demo_manage this, of 5] live_demo_pgdir
  show ?thesis by (auto simp: target_def simp del: upt_Suc)
qed


section \<open>Sharing pages\<close>

lemma bit_two: "bit (2 :: u32) n \<longleftrightarrow> n = 1"
  using bit_push_bit_iff [of 1 "1 :: u32" n] by (auto simp: bit_1_iff push_bit_eq_mult)

lemma and_W: "x AND PTE_W = 0 \<longleftrightarrow> \<not> bit x 1" for x :: u32
proof -
  have "bit (x AND 2) 1 = bit x 1" by (simp add: bit_and_iff bit_two)
  moreover have "x AND 2 = 0" if "\<not> bit x 1"
    by (rule bit_word_eqI) (use that in \<open>simp only: bit_and_iff bit_two, auto\<close>)
  ultimately show ?thesis by auto
qed

lemma write_ok: "(perm AND PTE_W) AND NOT (PTE_W AND pte) = 0 \<longleftrightarrow> perm AND PTE_W = 0 \<or> pte AND PTE_W \<noteq> (0 :: u32)"
proof -
  have "(perm AND 2) AND NOT (2 AND pte) = (perm AND NOT pte) AND 2"
    by (rule bit_word_eqI) (simp only: bit_and_iff bit_not_iff bit_two, auto)
  then show ?thesis using and_W [of "perm AND NOT pte"] and_W [of perm] and_W [of pte]
    by (simp add: bit_and_iff bit_not_iff)
qed

lemma page_lookup_value:
  assumes inv: "ref_inv s pds fl ext" and pd: "pd \<in> pds" "va < UTOP"
  shows "page_lookup pd va s = Inr (if pte_at s pd va = 0 then (None, None)
       else (Some (PGNUM (pte_at s pd va)), Some (PGNUM (rd s pd (PDX va)), PTX va)))"
    and "pte_at s pd va \<noteq> 0 \<Longrightarrow> rd s (PGNUM (rd s pd (PDX va))) (PTX va) = pte_at s pd va"
    and "pte_at s pd va \<noteq> 0 \<Longrightarrow> PGNUM (pte_at s pd va) < npages s"
proof -
  have u: "PDX va < 955" "PGNUM va < 977920" using user_va [OF pd(2)] by simp_all
  show "page_lookup pd va s = Inr (if pte_at s pd va = 0 then (None, None)
       else (Some (PGNUM (pte_at s pd va)), Some (PGNUM (rd s pd (PDX va)), PTX va)))"
  proof (cases "rd s pd (PDX va) = 0")
    case True
    then show ?thesis by (simp add: page_lookup_absent pte_at_rd)
  next
    case False
    note t = table_unique(4) [OF inv pd(1) u(1) False]
    show ?thesis
    proof (cases "rd s (PGNUM (rd s pd (PDX va))) (PTX va) = 0")
      case True
      then show ?thesis using page_lookup_empty [OF False t True] False by (simp add: pte_at_rd)
    next
      case ne: False
      have "PGNUM (rd s (PGNUM (rd s pd (PDX va))) (PTX va)) < npages s"
        using ref_inv_slot [OF inv, of "PTE pd (PGNUM va)"] pd u ne False by (simp add: pte_of_va)
      then show ?thesis using page_lookup_present [OF False t ne] False ne by (simp add: pte_at_rd)
    qed
  qed
  show "rd s (PGNUM (rd s pd (PDX va))) (PTX va) = pte_at s pd va" if "pte_at s pd va \<noteq> 0"
    using that by (simp add: pte_at_rd split: if_splits)
  show "PGNUM (pte_at s pd va) < npages s" if "pte_at s pd va \<noteq> 0"
    using ref_inv_slot [OF inv, of "PTE pd (PGNUM va)"] pd u that by (simp add: pte_at_def)
qed

lemma mapped_mappable:
  assumes inv: "ref_inv s pds fl ext" and pd: "pd \<in> pds" "va < UTOP" and some: "pte_at s pd va \<noteq> 0"
    and room: "unat (pp_ref (pages s (PGNUM (pte_at s pd va)))) < 65535"
  shows "mappable s pds fl (PGNUM (pte_at s pd va))"
proof -
  let ?p = "PGNUM (pte_at s pd va)"
  have mem: "PTE pd (PGNUM va) \<in> holders s pds ?p"
    using pd some user_va [OF pd(2)] by (simp add: holders_def pte_at_def)
  have "?p \<notin> set fl" using free_unheld(1) [OF inv, of ?p] mem by auto
  moreover have "?p \<noteq> kern_pgdir s"
    using ref_inv_not_kern [OF inv, of "PTE pd (PGNUM va)"] pd some user_va [OF pd(2)] by (simp add: pte_at_def)
  moreover have "PGNUM (rd s pd' i) \<noteq> ?p" if "pd' \<in> pds" "i < 955" "rd s pd' i \<noteq> 0" for pd' i
  proof
    assume "PGNUM (rd s pd' i) = ?p"
    with table_unique(1) [OF inv that] mem have "PTE pd (PGNUM va) \<in> {PDE pd' i}" by metis
    then show False by simp
  qed
  ultimately show ?thesis using page_lookup_value(3) [OF inv pd some] room by (auto simp: mappable_def)
qed

lemma sys_page_map_cases:
  fixes perm :: u32
  assumes inv: "kinv s fl el kx" and may: "may_manage s c srcid" "may_manage s c dstid"
    and va: "\<not> bad_va srcva" "\<not> bad_va dstva" and perm: "perm_ok perm"
    and pd: "env_pgdir (envs s (target c srcid)) = Some src" "env_pgdir (envs s (target c dstid)) = Some dst"
    and few: "unat (pp_ref (pages s (PGNUM (pte_at s src srcva)))) < 65535"
  defines "pte \<equiv> pte_at s src srcva" and "pm \<equiv> PTE_P OR PTE_U OR perm"
  shows "if pte = 0 \<or> perm AND PTE_W \<noteq> 0 \<and> pte AND PTE_W = 0
     then sys_page_map srcid srcva dstid dstva perm s = Inr (Returns (err E_INVAL), s)
     else if rd s dst (PDX dstva) = 0 \<and> fl = []
     then sys_page_map srcid srcva dstid dstva perm s = Inr (Returns (err E_NO_MEM), s)
     else \<exists>s' fl'. sys_page_map srcid srcva dstid dstva perm s = Inr (Returns 0, s') \<and> kinv s' fl' el kx
       \<and> envs s' = envs s \<and> (\<forall>pd'\<in>dirs s. \<forall>n<NUDIR * NPTENTRIES. pte_of s' pd' n =
            (if pd' = dst \<and> n = PGNUM dstva then page2pa (PGNUM pte) OR pm OR PTE_P else pte_of s pd' n))
       \<and> remaps s fl dst dstva s' fl'"
proof -
  have cur: "curenv s = Some c" and con: "controls s c srcid" "controls s c dstid"
    using may by (simp_all add: may_manage_def)
  note t = may_manage_target(1) [OF inv may(1)] may_manage_target(1) [OF inv may(2)]
  note ut = not_bad_va [OF va(1)] not_bad_va [OF va(2)]
  have sd: "src \<in> dirs s" by (rule kinv_dir [OF pd(1) t(1)])
  note look = page_lookup_value [OF kinv_ref [OF inv] sd ut(1), folded pte_def]
  have run: "sys_page_map srcid srcva dstid dstva perm s =
      andThen (env_page_map (target c srcid) srcva (target c dstid) dstva pm s) ret_of"
    using va con by (simp add: sys_page_map_def with_env_checked [OF cur] pm_def)
  have wr: "(pm AND PTE_W) AND NOT (PTE_W AND pte) = 0 \<longleftrightarrow> perm AND PTE_W = 0 \<or> pte AND PTE_W \<noteq> 0"
  proof -
    have "pm AND PTE_W = perm AND PTE_W" by (simp add: pm_def bit.conj_disj_distrib2)
    then show ?thesis using write_ok [of pm pte] by simp
  qed
  show ?thesis
  proof (cases "pte = 0")
    case True
    then show ?thesis
      using look(1) pd by (simp add: run env_page_map_def dir_of_def ret_of_def returns_def)
  next
    case some: False
    have map: "env_page_map (target c srcid) srcva (target c dstid) dstva pm s =
        (if perm AND PTE_W \<noteq> 0 \<and> pte AND PTE_W = 0 then Inr (Inl E_INVAL, s)
         else page_insert dst (PGNUM pte) dstva pm s)"
      using look(1,2) some pd wr by (simp add: env_page_map_def dir_of_def)
    show ?thesis
    proof (cases "perm AND PTE_W \<noteq> 0 \<and> pte AND PTE_W = 0")
      case True
      then show ?thesis by (simp add: run map ret_of_def returns_def)
    next
      case ok: False
      then have map: "env_page_map (target c srcid) srcva (target c dstid) dstva pm s =
         page_insert dst (PGNUM pte) dstva pm s" using map by auto
      show ?thesis
      proof (cases "rd s dst (PDX dstva) = 0 \<and> fl = []")
        case True
        then have "free_pages s []" using inv by (simp add: kinv_def ref_inv_def)
        then have "page_insert dst (PGNUM pte) dstva pm s = Inr (Inl E_NO_MEM, s)"
          using page_insert_no_memory True by simp
        then show ?thesis using True some ok by (auto simp: run map ret_of_def returns_def)
      next
        case False
        then have room: "rd s dst (PDX dstva) \<noteq> 0 \<or> fl \<noteq> []" by blast
        have mp: "mappable s (dirs s) fl (PGNUM pte)"
          using mapped_mappable [OF kinv_ref [OF inv] sd ut(1)] some few by (simp add: pte_def)
        have "perm_ok pm" using perm by (simp add: pm_def)
        from env_insert [OF inv t(2) pd(2) ut(2) mp this room] obtain s' fl' where
          r: "page_insert dst (PGNUM pte) dstva pm s = Inr (Inr (), s')" "kinv s' fl' el kx" "vm_frame s s'"
            "\<forall>pd'\<in>dirs s. \<forall>n<977920. pte_of s' pd' n =
               (if pd' = dst \<and> n = PGNUM dstva then page2pa (PGNUM pte) OR pm OR PTE_P else pte_of s pd' n)"
            "remaps s fl dst dstva s' fl'" by blast
        have "sys_page_map srcid srcva dstid dstva perm s = Inr (Returns 0, s')"
          by (simp add: run map r(1) ret_of_def returns_def)
        moreover have no: "\<not> (pte = 0 \<or> perm AND PTE_W \<noteq> 0 \<and> pte AND PTE_W = 0)"
            "\<not> (rd s dst (PDX dstva) = 0 \<and> fl = [])" using some ok False by blast+
        ultimately show ?thesis
          unfolding if_not_P [OF no(1)] if_not_P [OF no(2)] using r vm_frame_envs [OF r(3)] by auto
      qed
    qed
  qed
qed



text \<open>A machine on which environment 0 has one page mapped: page 6, at \<open>UTEXT\<close>.\<close>

lemma one_page_mapped:
  "\<exists>s fl. kinv s fl [1..<1024] live_kx \<and> may_manage s 0 0 \<and> env_pgdir (envs s 0) = Some 5
     \<and> pte_at s 5 UTEXT = 0x6007 \<and> (\<forall>n<977920. n \<noteq> 2048 \<longrightarrow> pte_of s 5 n = 0) \<and> unat (pp_ref (pages s 6)) = 1"
proof -
  have "check_perm 7 None = Inr ()" by (simp add: check_perm_def PTE_SYSCALL_val)
  from env_page_alloc_cases [OF live_demo_kinv _ live_demo_pgdir _ this, of UTEXT] obtain s fl where
    s: "kinv s fl [1..<1024] live_kx" "vm_frame live_demo s"
      "\<forall>pd'\<in>dirs live_demo. \<forall>n<977920. pte_of s pd' n =
            (if pd' = 5 \<and> n = PGNUM UTEXT then page2pa 6 OR 7 OR PTE_P else pte_of live_demo pd' n)"
    by (auto simp del: upt_Suc)
  have d: "dirs live_demo = {4, 5}"
    by (auto simp: dirs_def pgdirs_def live_demo_def zero_env_def split: if_splits)
  have z: "pte_of live_demo pd n = 0" for pd n by (simp add: pte_of_def)
  have e: "envs s = envs live_demo" "kern_pgdir s = kern_pgdir live_demo" "curenv s = curenv live_demo"
    using s(2) by (simp_all add: vm_frame_def vm_frame_curenv [OF s(2)])
  have ds: "dirs s = {4, 5}" using d by (simp add: dirs_def pgdirs_def e)
  have pn: "PGNUM UTEXT = 2048" by (simp add: PGNUM_div)
  have entry: "page2pa 6 OR 7 OR PTE_P = 0x6007" by (simp add: page2pa_def)
  have pte: "pte_of s pd n = (if pd = 5 \<and> n = 2048 then 0x6007 else 0)" if "pd \<in> {4, 5}" "n < 977920" for pd n
    using s(3) that unfolding d entry pn z by blast
  have inv: "ref_inv s {4, 5} fl (held (pgdirs s) live_kx)" using kinv_ref [OF s(1)] by (simp add: ds)
  have six: "PGNUM 0x6007 = 6" by (simp add: PGNUM_div)
  have mem: "PTE 5 2048 \<in> holders s {4, 5} 6" by (simp add: holders_def pte six)
  have "holders s {4, 5} 6 \<subseteq> {PTE 5 2048}"
  proof
    fix x assume x: "x \<in> holders s {4, 5} 6"
    show "x \<in> {PTE 5 2048}"
    proof (cases x)
      case (PDE pd i)
      with x have i: "pd \<in> {4, 5}" "i < 955" "rd s pd i \<noteq> 0" "PGNUM (rd s pd i) = 6"
        by (auto simp: holders_def)
      from table_unique(1) [OF inv i(1-3)] i(4) mem show ?thesis by auto
    next
      case (PTE pd n)
      with x have "pd \<in> {4, 5}" "n < 977920" "pte_of s pd n \<noteq> 0" by (auto simp: holders_def)
      with pte PTE show ?thesis by (auto split: if_splits)
    qed
  qed
  with mem have "holders s {4, 5} 6 = {PTE 5 2048}" by blast
  moreover have "6 < npages s" using ref_inv_slot [OF inv, of "PTE 5 2048"] by (simp add: pte six)
  moreover have "held (pgdirs s) live_kx 6 = 0"
  proof -
    have "pgdirs s \<subseteq> {4, 5}" using ds unfolding dirs_def by blast
    then have "6 \<notin> pgdirs s" by auto
    then show ?thesis by (simp add: held_def live_kx_def)
  qed
  moreover have "6 \<noteq> kern_pgdir s" using ref_inv_not_kern [OF inv, of "PTE 5 2048"] by (simp add: pte six)
  ultimately have "unat (pp_ref (pages s 6)) = 1" using ref_inv_count [OF inv, of 6] by simp
  moreover have "may_manage s 0 0" using live_demo_manage by (simp add: may_manage_def e controls_def)
  ultimately show ?thesis using s(1) pte live_demo_pgdir e
    by (intro exI [of _ s] exI [of _ fl]) (simp add: pte_at_def pn [simplified])
qed


end
