(* ===== verification/TrapProps.thy ===== *)
theory TrapProps
  imports SyscallProps
begin

text \<open>
  Inter-process communication, the unchecked permission of \<open>sys_page_map\<close>, priorities, and
  the trap machinery: the descriptor table and the frame pushed for a user page fault.
\<close>

section \<open>A permission that reaches the page number\<close>

lemma page_insert_present:
  assumes inv: "ref_inv s pds fl ext" and pd: "pd \<in> pds" "va < UTOP" and pp: "mappable s pds fl pp"
    and ne: "rd s pd (PDX va) \<noteq> 0" and empty: "pte_at s pd va = 0"
  shows "\<exists>s'. page_insert pd pp va perm s = Inr (Inr (), s') \<and> pte_at s' pd va = page2pa pp OR perm OR PTE_P"
proof -
  have u: "PDX va < 955" using user_va [OF pd(2)] by simp
  note t = table_unique [OF inv pd(1) u ne]
  let ?take = "upd_page pp (\<lambda>pi. pi\<lparr>pp_ref := pp_ref pi + 1\<rparr>) s"
  let ?s = "wr (PGNUM (rd s pd (PDX va))) (PTX va) (page2pa pp OR perm OR PTE_P) ?take"
  have take: "ref_inv ?take pds fl (ext(pp := ext pp + 1))"
    using pp by (intro ref_inv_take [OF inv]) (simp_all add: mappable_def)
  have rm: "page_remove pd va ?take = Inr ?take"
    by (rule page_remove_nothing [OF take pd]) (simp add: empty)
  have "page_insert pd pp va perm s = Inr (Inr (), ?s)"
    by (simp add: page_insert_def pgdir_walk_present [OF ne t(4)] rm)
  moreover have "pd \<noteq> PGNUM (rd s pd (PDX va))" using t(3) pd(1) by auto
  then have "pte_at ?s pd va = page2pa pp OR perm OR PTE_P" using ne by (simp add: pte_at_rd)
  ultimately show ?thesis by blast
qed

text \<open>
  C22. sys_page_map does not check its permission argument: between environments the caller
  controls, with the source mapped and the destination's page table present, any permission
  without the write bit is accepted, and all its 32 bits are or-ed into the new entry. Bits
  above the twelve low ones change which physical page is mapped.
\<close>

theorem sys_page_map_unchecked_perm:
  fixes perm :: u32
  assumes inv: "kinv s fl el kx" and may: "may_manage s c srcid" "may_manage s c dstid"
    and va: "\<not> bad_va srcva" "\<not> bad_va dstva" and ro: "perm AND PTE_W = 0"
    and pd: "env_pgdir (envs s (target c srcid)) = Some src" "env_pgdir (envs s (target c dstid)) = Some dst"
    and mapped: "pte_at s src srcva \<noteq> 0" and few: "unat (pp_ref (pages s (PGNUM (pte_at s src srcva)))) < 65535"
    and tbl: "rd s dst (PDX dstva) \<noteq> 0" and empty: "pte_at s dst dstva = 0"
  shows "\<exists>s'. sys_page_map srcid srcva dstid dstva perm s = Inr (Returns 0, s')
     \<and> pte_at s' dst dstva = page2pa (PGNUM (pte_at s src srcva)) OR (PTE_P OR PTE_U OR perm) OR PTE_P"
proof -
  have cur: "curenv s = Some c" and con: "controls s c srcid" "controls s c dstid"
    using may by (simp_all add: may_manage_def)
  note t = may_manage_target(1) [OF inv may(1)] may_manage_target(1) [OF inv may(2)]
  note ut = not_bad_va [OF va(1)] not_bad_va [OF va(2)]
  have sd: "src \<in> dirs s" "dst \<in> dirs s" using kinv_dir [OF pd(1) t(1)] kinv_dir [OF pd(2) t(2)] by simp_all
  note look = page_lookup_value [OF kinv_ref [OF inv] sd(1) ut(1)]
  let ?pm = "PTE_P OR PTE_U OR perm" and ?p = "PGNUM (pte_at s src srcva)"
  have "?pm AND PTE_W = 0" using ro by (simp add: bit.conj_disj_distrib2)
  then have "sys_page_map srcid srcva dstid dstva perm s = andThen (page_insert dst ?p dstva ?pm s) ret_of"
    using va con look(1,2) mapped pd
    by (simp add: sys_page_map_def with_env_checked [OF cur] env_page_map_def dir_of_def del: PTE_P_def PTE_U_def PTE_W_def)
  moreover have "mappable s (dirs s) fl ?p"
    by (rule mapped_mappable [OF kinv_ref [OF inv] sd(1) ut(1) mapped few])
  ultimately show ?thesis
    using page_insert_present [OF kinv_ref [OF inv] sd(2) ut(2) _ tbl empty, of ?p ?pm]
    by (auto simp: ret_of_def returns_def)
qed

theorem sys_page_map_unchecked_perm_witness:
  "\<exists>s s'. sys_page_map 0 UTEXT 0 (UTEXT + PGSIZE) 0x8000 s = Inr (Returns 0, s')
     \<and> pte_at s 5 UTEXT = 0x6007 \<and> pte_at s' 5 (UTEXT + PGSIZE) = 0xE005"
proof -
  from one_page_mapped obtain s fl where
    s: "kinv s fl [1..<1024] live_kx" "may_manage s 0 0" "env_pgdir (envs s 0) = Some 5"
      "pte_at s 5 UTEXT = 0x6007" "\<forall>n<977920. n \<noteq> 2048 \<longrightarrow> pte_of s 5 n = 0" "unat (pp_ref (pages s 6)) = 1" by blast
  have six: "PGNUM 0x6007 = 6" by (simp add: PGNUM_div)
  have "rd s 5 (PDX UTEXT) \<noteq> 0" using s(4) by (auto simp: pte_at_rd split: if_splits)
  then have tbl: "rd s 5 (PDX (UTEXT + PGSIZE)) \<noteq> 0" by (simp add: PDX_div)
  have "PGNUM (UTEXT + PGSIZE) = 2049" by (simp add: PGNUM_div)
  then have empty: "pte_at s 5 (UTEXT + PGSIZE) = 0" using s(5) by (simp add: pte_at_def)
  have va: "\<not> bad_va UTEXT" "\<not> bad_va (UTEXT + PGSIZE)" by (simp_all add: bad_va_def)
  have tg: "env_pgdir (envs s (target 0 0)) = Some 5" using s(3) by (simp add: target_def)
  have few: "unat (pp_ref (pages s (PGNUM (pte_at s 5 UTEXT)))) < 65535" using s(4,6) six by simp
  have "page2pa 6 OR (PTE_P OR PTE_U OR 0x8000) OR PTE_P = 0xE005" by (simp add: page2pa_def)
  moreover have "pte_at s 5 UTEXT \<noteq> 0" using s(4) by simp
  ultimately show ?thesis
    using sys_page_map_unchecked_perm [OF s(1) s(2,2) va _ tg tg _ few tbl empty, of "0x8000"] s(4) six by auto
qed

section \<open>Sending a value\<close>

text \<open>
  sys_ipc_try_send without a page (srcva at or above UTOP): to an identifier that is not
  live it answers E_BAD_ENV, to an environment that is not receiving E_IPC_NOT_RECV, both
  without effect; otherwise it returns 0 and the receiver, alone, changes: it has the value,
  the sender's identifier, no page, result 0 of its own call, and it is runnable again.
\<close>

theorem sys_ipc_try_send_value:
  assumes cur: "curenv s = Some c" and nz: "envid \<noteq> 0" and nopage: "UTOP \<le> srcva"
  defines "d \<equiv> ENVX envid"
  shows "sys_ipc_try_send envid value srcva perm s =
    (if env_status (envs s d) = ENV_FREE \<or> env_id (envs s d) \<noteq> envid then Inr (Returns (err E_BAD_ENV), s)
     else if \<not> env_ipc_recving (envs s d) then Inr (Returns (err E_IPC_NOT_RECV), s)
     else Inr (Returns 0, upd_env d (\<lambda>en. en\<lparr>env_ipc_perm := 0, env_ipc_from := env_id (envs s c),
            env_ipc_recving := False, env_ipc_value := value,
            env_tf := (env_tf en)\<lparr>tf_regs := (tf_regs (env_tf en))\<lparr>reg_eax := 0\<rparr>\<rparr>,
            env_status := ENV_RUNNABLE\<rparr>) s))"
  using nz nopage cur
  by (simp add: sys_ipc_try_send_def with_env_unchecked [OF cur] d_def with_cur_def returns_def
      ipc_deliver_def upd_env_def del: err_numeral UTOP_def)

theorem sys_ipc_try_send_value_witness:
  "sys_ipc_try_send 0x1000 7 UTOP 0 live_demo = Inr (Returns (err E_IPC_NOT_RECV), live_demo)"
  using sys_ipc_try_send_value [OF live_demo_cur, of "0x1000" UTOP 7 0]
  by (simp add: live_demo_def zero_env_def ENVX_def)

text \<open>
  C23. Sending a page from an address where nothing is mapped dereferences a pointer that was
  never set: the call has undefined behaviour as soon as the receiver is waiting.
\<close>

theorem sys_ipc_try_send_unmapped:
  assumes inv: "kinv s fl el kx" and cur: "curenv s = Some c" "c < NENV" "env_pgdir (envs s c) = Some pd"
    and dst: "envid \<noteq> 0" "env_status (envs s (ENVX envid)) \<noteq> ENV_FREE" "env_id (envs s (ENVX envid)) = envid"
      "env_ipc_recving (envs s (ENVX envid))"
    and va: "\<not> bad_va srcva" and none: "pte_at s pd srcva = 0"
  shows "sys_ipc_try_send envid value srcva perm s = Inl (KUndef ''uninitialised srcpte'')"
proof -
  have "c < 1024" using cur by simp
  have "page_lookup pd srcva s = Inr (None, None)"
    using page_lookup_value(1) [OF kinv_ref [OF inv] kinv_dir [OF cur(3) \<open>c < 1024\<close>] not_bad_va [OF va]] none
    by simp
  then show ?thesis
    using cur dst va
    by (simp add: sys_ipc_try_send_def with_env_unchecked [OF cur(1)] with_cur_def dir_of_def bad_va_def)
qed

theorem sys_ipc_try_send_unmapped_witness:
  "sys_ipc_try_send 0x1000 7 UTEXT 0 (upd_env 0 (\<lambda>e. e\<lparr>env_ipc_recving := True\<rparr>) live_demo)
     = Inl (KUndef ''uninitialised srcpte'')"
proof -
  let ?s = "upd_env 0 (\<lambda>e. e\<lparr>env_ipc_recving := True\<rparr>) live_demo"
  have k: "kinv ?s [6, 7] [1..<1024] live_kx"
    by (rule kinv_upd_env [OF live_demo_kinv]) simp_all
  show ?thesis
    by (rule sys_ipc_try_send_unmapped [OF k, of 0 5])
       (simp_all add: live_demo_cur live_demo_pgdir bad_va_def ENVX_def pte_at_rd, simp_all add: live_demo_def)
qed


section \<open>The descriptor table\<close>

lemma fold_gates_other: "v \<notin> fst ` set vs \<Longrightarrow> fold (\<lambda>(v, dpl) t. t(v := g v dpl)) vs t v = t v"
  by (induction vs arbitrary: t) (auto simp del: fun_upd_apply, simp)

lemma fold_gates:
  "distinct (map fst vs) \<Longrightarrow> (v, dpl) \<in> set vs \<Longrightarrow> fold (\<lambda>(v, dpl) t. t(v := g v dpl)) vs t v = g v dpl"
proof (induction vs arbitrary: t)
  case (Cons a vs)
  show ?case
  proof (cases "(v, dpl) \<in> set vs")
    case True
    then show ?thesis using Cons by (cases a) simp
  next
    case False
    then have "a = (v, dpl)" using Cons.prems by auto
    then show ?thesis using Cons.prems by (simp del: fun_upd_apply add: fold_gates_other) simp
  qed
qed simp

text \<open>
  trap_init installs exactly the twenty vectors of the list: each gate jumps to the stub
  of its own vector in the kernel code segment as an interrupt gate, user code can raise only
  the breakpoint and the system call by software, and every other vector keeps its entry.
\<close>

theorem trap_init_correct:
  "(\<forall>(v, dpl)\<in>set idt_vectors. gate_target (trap_init entry idt v) = entry v
       \<and> gd_sel (trap_init entry idt v) = ucast GD_KT \<and> gd_type (trap_init entry idt v) = 0xE
       \<and> gd_p (trap_init entry idt v) = 1 \<and> gd_dpl (trap_init entry idt v) = dpl)
   \<and> {v. (v, 3) \<in> set idt_vectors} = {3, 48}
   \<and> (\<forall>v. v \<notin> fst ` set idt_vectors \<longrightarrow> trap_init entry idt v = idt v)"
proof (intro conjI)
  have dist: "distinct (map fst idt_vectors)" by (simp add: idt_vectors_def)
  have "trap_init entry idt v = SETGATE False GD_KT (entry v) dpl" if "(v, dpl) \<in> set idt_vectors" for v dpl
    unfolding trap_init_def by (rule fold_gates [OF dist that])
  then show "\<forall>(v, dpl)\<in>set idt_vectors. gate_target (trap_init entry idt v) = entry v
       \<and> gd_sel (trap_init entry idt v) = ucast GD_KT \<and> gd_type (trap_init entry idt v) = 0xE
       \<and> gd_p (trap_init entry idt v) = 1 \<and> gd_dpl (trap_init entry idt v) = dpl"
    by (auto simp: gate_target_SETGATE) (simp_all add: SETGATE_def)
  show "{v. (v, 3) \<in> set idt_vectors} = {3, 48}" by (auto simp: idt_vectors_def)
  show "\<forall>v. v \<notin> fst ` set idt_vectors \<longrightarrow> trap_init entry idt v = idt v"
    by (simp add: trap_init_def fold_gates_other)
qed

theorem trap_init_correct_witness:
  "gate_target (trap_init (\<lambda>v. 0xF0100000 + of_nat v) (\<lambda>_. SETGATE True 0 0 0) 14) = 0xF010000E"
proof -
  have "(14, 0) \<in> set idt_vectors" by (simp add: idt_vectors_def)
  with trap_init_correct [of "\<lambda>v. 0xF0100000 + of_nat v" "\<lambda>_. SETGATE True 0 0 0"]
  show ?thesis by fastforce
qed

section \<open>The user exception stack\<close>

lemma store_bytes_fault: "store_bytes va bs s = Inl f \<Longrightarrow> \<exists>m. f = KPanic m"
proof (induction bs arbitrary: va s)
  case (Cons b bs)
  show ?case
  proof (cases "store8 va b s")
    case (Inl e)
    then show ?thesis using Cons.prems by (auto simp: store8_def split: option.splits)
  next
    case (Inr t)
    then show ?thesis using Cons by simp
  qed
qed simp



end
