(* ===== verification/UserLib.thy ===== *)
theory UserLib
  imports TrapProps
begin

text \<open>
  The library of user programs over the kernel model: the system-call stubs of
  \<open>lib/syscall.c\<close>, the page-fault handler of \<open>lib/pgfault.c\<close>, copy-on-write \<open>fork\<close> of
  \<open>lib/fork.c\<close>, the message routines of \<open>lib/ipc.c\<close> and the start of a program in
  \<open>lib/libmain.c\<close>. The program runs as the current environment: it reads and writes memory
  through its own page tables, and a stub enters the kernel's dispatcher. A call after which the
  kernel runs something else is the outcome of the whole routine. A page fault inside these
  routines is a fault of the model.
\<close>

section \<open>Memory as a program sees it\<close>

definition user_translate :: "kstate \<Rightarrow> nat \<Rightarrow> bool \<Rightarrow> u32 \<Rightarrow> (nat \<times> nat) option" where
  "user_translate s pd write va =
     (let pde = rd s pd (PDX va); pte = rd s (PGNUM pde) (PTX va) in
      if pde AND PTE_P = 0 \<or> pde AND PTE_U = 0 \<or> pte AND PTE_P = 0 \<or> pte AND PTE_U = 0 then None
      else if write \<and> (pde AND PTE_W = 0 \<or> pte AND PTE_W = 0) then None
      else Some (PGNUM pte, unat (PGOFF va) div 4))"

text \<open>Aligned words.\<close>

definition uload :: "u32 \<Rightarrow> kstate \<Rightarrow> u32 fallible" where
  "uload va s =
     (case user_translate s (cr3 s (cpunum s)) False va of
        None \<Rightarrow> Inl (KUndef ''page fault'')
      | Some (pg, i) \<Rightarrow> Inr (rd s pg i))"

definition ustore :: "u32 \<Rightarrow> u32 \<Rightarrow> kstate \<Rightarrow> kstate fallible" where
  "ustore va w s =
     (case user_translate s (cr3 s (cpunum s)) True va of
        None \<Rightarrow> Inl (KUndef ''page fault'')
      | Some (pg, i) \<Rightarrow> Inr (wr pg i w s))"

text \<open>\<open>memmove\<close> of \<open>n\<close> words between aligned areas that do not overlap: \<open>rep movsl\<close>.\<close>

fun move_words :: "u32 \<Rightarrow> u32 \<Rightarrow> nat \<Rightarrow> kstate \<Rightarrow> kstate fallible" where
  "move_words dst src 0 s = Inr s"
| "move_words dst src (Suc n) s =
     andThen (uload src s) (\<lambda>w. andThen (ustore dst w s) (move_words (dst + 4) (src + 4) n))"

text \<open>The page tables, mapped at \<open>UVPT\<close> through the directory's entry for itself.\<close>

definition uvpt :: "nat \<Rightarrow> kstate \<Rightarrow> u32 fallible" where
  "uvpt n = uload (UVPT + 4 * word_of_nat n)"

definition uvpd :: "nat \<Rightarrow> kstate \<Rightarrow> u32 fallible" where
  "uvpd i = uload (UVPT + drop_bit 12 UVPT * 4 + 4 * word_of_nat i)"

section \<open>System-call stubs\<close>

definition user_syscall :: "sched_build \<Rightarrow> u32 \<Rightarrow> u32 \<Rightarrow> bool \<Rightarrow> u32 \<Rightarrow> u32 \<Rightarrow> u32 \<Rightarrow> u32 \<Rightarrow> u32 \<Rightarrow> kstate \<Rightarrow> u32 kcall" where
  "user_syscall b getc num check a1 a2 a3 a4 a5 s =
     calls (syscall b getc num a1 a2 a3 a4 a5 s) (\<lambda>r s.
       if check \<and> 0 < sint r then Inl (KPanic ''syscall %d returned %d (> 0)'') else returns r s)"

definition lib_cputs :: "sched_build \<Rightarrow> u32 \<Rightarrow> u32 \<Rightarrow> kstate \<Rightarrow> u32 kcall" where
  "lib_cputs b str len = user_syscall b 0 0 False str len 0 0 0"

definition lib_cgetc :: "sched_build \<Rightarrow> u32 \<Rightarrow> kstate \<Rightarrow> u32 kcall" where
  "lib_cgetc b getc = user_syscall b getc 1 False 0 0 0 0 0"

definition lib_getenvid :: "sched_build \<Rightarrow> kstate \<Rightarrow> u32 kcall" where
  "lib_getenvid b = user_syscall b 0 2 False 0 0 0 0 0"

definition lib_env_destroy :: "sched_build \<Rightarrow> u32 \<Rightarrow> kstate \<Rightarrow> u32 kcall" where
  "lib_env_destroy b envid = user_syscall b 0 3 True envid 0 0 0 0"

definition lib_yield :: "sched_build \<Rightarrow> kstate \<Rightarrow> u32 kcall" where
  "lib_yield b = user_syscall b 0 10 False 0 0 0 0 0"

definition lib_page_alloc :: "sched_build \<Rightarrow> u32 \<Rightarrow> u32 \<Rightarrow> u32 \<Rightarrow> kstate \<Rightarrow> u32 kcall" where
  "lib_page_alloc b envid va perm = user_syscall b 0 4 True envid va perm 0 0"

definition lib_page_map :: "sched_build \<Rightarrow> u32 \<Rightarrow> u32 \<Rightarrow> u32 \<Rightarrow> u32 \<Rightarrow> u32 \<Rightarrow> kstate \<Rightarrow> u32 kcall" where
  "lib_page_map b srcenv srcva dstenv dstva perm = user_syscall b 0 5 True srcenv srcva dstenv dstva perm"

definition lib_page_unmap :: "sched_build \<Rightarrow> u32 \<Rightarrow> u32 \<Rightarrow> kstate \<Rightarrow> u32 kcall" where
  "lib_page_unmap b envid va = user_syscall b 0 6 True envid va 0 0 0"

definition lib_exofork :: "sched_build \<Rightarrow> kstate \<Rightarrow> u32 kcall" where
  "lib_exofork b = user_syscall b 0 7 False 0 0 0 0 0"

definition lib_env_set_status :: "sched_build \<Rightarrow> u32 \<Rightarrow> u32 \<Rightarrow> kstate \<Rightarrow> u32 kcall" where
  "lib_env_set_status b envid status = user_syscall b 0 8 True envid status 0 0 0"

definition lib_env_set_pgfault_upcall :: "sched_build \<Rightarrow> u32 \<Rightarrow> u32 \<Rightarrow> kstate \<Rightarrow> u32 kcall" where
  "lib_env_set_pgfault_upcall b envid upcall = user_syscall b 0 9 True envid upcall 0 0 0"

definition lib_env_get_priority :: "sched_build \<Rightarrow> u32 \<Rightarrow> kstate \<Rightarrow> u32 kcall" where
  "lib_env_get_priority b envid = user_syscall b 0 13 False envid 0 0 0 0"

definition lib_env_set_priority :: "sched_build \<Rightarrow> u32 \<Rightarrow> u32 \<Rightarrow> kstate \<Rightarrow> u32 kcall" where
  "lib_env_set_priority b envid priority = user_syscall b 0 14 True envid priority 0 0 0"

definition lib_ipc_try_send :: "sched_build \<Rightarrow> u32 \<Rightarrow> u32 \<Rightarrow> u32 \<Rightarrow> u32 \<Rightarrow> kstate \<Rightarrow> u32 kcall" where
  "lib_ipc_try_send b envid value srcva perm = user_syscall b 0 11 False envid value srcva perm 0"

definition lib_ipc_recv :: "sched_build \<Rightarrow> u32 \<Rightarrow> kstate \<Rightarrow> u32 kcall" where
  "lib_ipc_recv b dstva = user_syscall b 0 12 True dstva 0 0 0 0"

definition lib_exit :: "sched_build \<Rightarrow> kstate \<Rightarrow> u32 kcall" where
  "lib_exit b = lib_env_destroy b 0"

text \<open>\<open>if ((r = call) < 0) panic(msg);\<close>\<close>

definition or_panic :: "string \<Rightarrow> u32 kcall \<Rightarrow> (u32 \<Rightarrow> kstate \<Rightarrow> 'a kcall) \<Rightarrow> 'a kcall" where
  "or_panic msg call f = calls call (\<lambda>r s. if sint r < 0 then Inl (KPanic msg) else f r s)"

section \<open>Copy on write\<close>

definition PTE_COW :: u32 where [simp]: "PTE_COW = 0x800"

text \<open>\<open>!x\<close> is 0 or 1, and \<open>err & FEC_WR\<close> is 0 or 2.\<close>

definition pgfault :: "sched_build \<Rightarrow> UTrapframe \<Rightarrow> kstate \<Rightarrow> unit kcall" where
  "pgfault b utf s =
     (let addr = utf_fault_va utf; err = utf_err utf in
      andThen (uvpt (PGNUM addr) s) (\<lambda>fault_pte.
        if (err AND FEC_WR) AND (if fault_pte AND PTE_COW = 0 then 1 else 0) \<noteq> 0
        then Inl (KPanic ''pgfault: write fault on a non COW page'')
        else let perm = PTE_P OR PTE_U OR PTE_W in
          or_panic ''pgfault: sys_page_alloc: %e'' (lib_page_alloc b 0 PFTEMP perm s) (\<lambda>_ s.
          let addr = ROUNDDOWN addr PGSIZE in
          andThen (move_words PFTEMP addr 1024 s) (\<lambda>s.
          or_panic ''pgfault: sys_page_map: %e'' (lib_page_map b 0 PFTEMP 0 addr perm s) (\<lambda>_ s.
          or_panic ''pgfault: sys_page_unmap: %e'' (lib_page_unmap b 0 PFTEMP s) (\<lambda>_.
            returns ()))))))"

definition page_addr :: "nat \<Rightarrow> u32" where
  "page_addr pn = push_bit 12 (word_of_nat pn)"

definition duppage :: "sched_build \<Rightarrow> u32 \<Rightarrow> nat \<Rightarrow> kstate \<Rightarrow> unit kcall" where
  "duppage b envid pn s =
     andThen (uvpt pn s) (\<lambda>pte.
       if pte AND PTE_P = 0 \<or> pte AND PTE_U = 0
       then Inl (KPanic ''duppage: copy a non-present or non-user page'')
       else let addr = page_addr pn; perm = PTE_U OR PTE_P;
                perm = (if pte AND (PTE_PCD OR PTE_PWT) \<noteq> 0 then perm OR (PTE_PCD OR PTE_PWT) else perm)
            in if pte AND PTE_W \<noteq> 0 \<or> pte AND PTE_COW \<noteq> 0
               then or_panic ''duppage: sys_page_map on childern COW: %e''
                      (lib_page_map b 0 addr envid addr (perm OR PTE_COW) s) (\<lambda>_ s.
                    or_panic ''duppage: sys_page_map on parent COW: %e''
                      (lib_page_map b 0 addr 0 addr (perm OR PTE_COW) s) (\<lambda>_. returns ()))
               else or_panic ''duppage: sys_page_map on childern RO: %e''
                      (lib_page_map b 0 addr envid addr perm s) (\<lambda>_. returns ()))"

definition dup_or_share :: "sched_build \<Rightarrow> u32 \<Rightarrow> nat \<Rightarrow> u32 \<Rightarrow> kstate \<Rightarrow> unit kcall" where
  "dup_or_share b envid pnum perm s =
     andThen (uvpt pnum s) (\<lambda>pte.
       if pte AND PTE_P = 0 then returns () s
       else let addr = page_addr pnum;
                perm = (perm AND (pte AND PTE_W)) AND PTE_SYSCALL;
                perm = (if pte AND (PTE_PCD OR PTE_PWT) \<noteq> 0 then perm OR (PTE_PCD OR PTE_PWT) else perm)
            in if pte AND PTE_W = 0 \<or> pte AND (PTE_PCD OR PTE_PWT) \<noteq> 0
               then or_panic ''dup_or_share: sys_page_map: %e''
                      (lib_page_map b 0 addr envid addr perm s) (\<lambda>_. returns ())
               else or_panic ''dup_or_share: sys_page_alloc: %e'' (lib_page_alloc b envid addr perm s) (\<lambda>_ s.
                    or_panic ''dup_or_share: sys_page_map: %e'' (lib_page_map b envid addr 0 UTEMP perm s) (\<lambda>_ s.
                    andThen (move_words UTEMP addr 1024 s) (\<lambda>s.
                    or_panic ''sys_page_unmap: %e'' (lib_page_unmap b 0 UTEMP s) (\<lambda>_. returns ())))))"

section \<open>Fork\<close>

text \<open>The library's variables: the registered handler (0 when none) and \<open>thisenv\<close>.\<close>

record ulib =
  pgfault_handler :: u32
  thisenv :: nat

text \<open>\<open>upcall\<close> is the address of the assembly routine \<open>_pgfault_upcall\<close>.\<close>

definition set_pgfault_handler :: "sched_build \<Rightarrow> u32 \<Rightarrow> u32 \<Rightarrow> ulib \<Rightarrow> kstate \<Rightarrow> ulib kcall" where
  "set_pgfault_handler b upcall handler l s =
     (if pgfault_handler l = 0
      then calls (lib_page_alloc b 0 (UXSTACKTOP - PGSIZE) (PTE_U OR PTE_P OR PTE_W) s) (\<lambda>r s.
           if sint r < 0 then returns l s
           else calls (lib_env_set_pgfault_upcall b 0 upcall s) (\<lambda>r s.
             if sint r < 0 then returns l s else returns (l\<lparr>pgfault_handler := handler\<rparr>) s))
      else returns (l\<lparr>pgfault_handler := handler\<rparr>) s)"

text \<open>The bodies of the two loops over the pages below \<open>UTOP\<close>, and the loops: \<open>n\<close> pages from \<open>pnum\<close>.\<close>

definition fork_page :: "sched_build \<Rightarrow> u32 \<Rightarrow> nat \<Rightarrow> kstate \<Rightarrow> unit kcall" where
  "fork_page b envid pnum s =
     (if pnum = PGNUM UXSTACKTOP - 1 then returns () s
      else andThen (uvpd (pnum div 1024) s) (\<lambda>pde.
        if pde AND PTE_P = 0 \<or> pde AND PTE_U = 0 then returns () s
        else andThen (uvpt pnum s) (\<lambda>pte.
          if pte AND PTE_P = 0 \<or> pte AND PTE_U = 0 then returns () s
          else duppage b envid pnum s)))"

definition share_page :: "sched_build \<Rightarrow> u32 \<Rightarrow> u32 \<Rightarrow> nat \<Rightarrow> kstate \<Rightarrow> unit kcall" where
  "share_page b envid perm pnum s =
     andThen (uvpd (pnum div 1024) s) (\<lambda>pde.
       if pde AND PTE_P = 0 \<or> pde AND PTE_U = 0 then returns () s
       else dup_or_share b envid pnum perm s)"

fun each_page :: "(nat \<Rightarrow> kstate \<Rightarrow> unit kcall) \<Rightarrow> nat \<Rightarrow> nat \<Rightarrow> kstate \<Rightarrow> unit kcall" where
  "each_page body pnum 0 s = returns () s"
| "each_page body pnum (Suc n) s = calls (body pnum s) (\<lambda>_. each_page body (pnum + 1) n)"

text \<open>What the child does when it first runs: \<open>sys_exofork\<close> returned 0 to it.\<close>

definition fork_child :: "sched_build \<Rightarrow> ulib \<Rightarrow> kstate \<Rightarrow> (u32 \<times> ulib) kcall" where
  "fork_child b l s = calls (lib_getenvid b s) (\<lambda>id. returns (0, l\<lparr>thisenv := ENVX id\<rparr>))"

definition fork_v0 :: "sched_build \<Rightarrow> ulib \<Rightarrow> kstate \<Rightarrow> (u32 \<times> ulib) kcall" where
  "fork_v0 b l s =
     calls (lib_exofork b s) (\<lambda>envid s.
       if sint envid < 0 then Inl (KPanic ''sys_exofork: %e'')
       else if envid = 0 then fork_child b l s
       else calls (each_page (share_page b envid (PTE_P OR PTE_U OR PTE_W)) 0 (PGNUM UTOP) s) (\<lambda>_ s.
         or_panic ''sys_env_set_status: %e'' (lib_env_set_status b envid (env_status_code ENV_RUNNABLE) s) (\<lambda>_.
           returns (envid, l))))"

definition fork_parent :: "sched_build \<Rightarrow> u32 \<Rightarrow> ulib \<Rightarrow> kstate \<Rightarrow> (u32 \<times> ulib) kcall" where
  "fork_parent b envid l s =
     calls (each_page (fork_page b envid) 0 (PGNUM UTOP) s) (\<lambda>_ s.
     or_panic ''fork: sys_page_alloc of exception stk: %e''
       (lib_page_alloc b envid (UXSTACKTOP - PGSIZE) (PTE_U OR PTE_P OR PTE_W) s) (\<lambda>_ s.
     or_panic ''fork: sys_env_set_pgfault_upcall on childern: %e''
       (lib_env_set_pgfault_upcall b envid (env_pgfault_upcall (envs s (thisenv l))) s) (\<lambda>_ s.
     or_panic ''sys_env_set_status: %e'' (lib_env_set_status b envid (env_status_code ENV_RUNNABLE) s) (\<lambda>_.
       returns (envid, l)))))"

definition fork :: "sched_build \<Rightarrow> u32 \<Rightarrow> u32 \<Rightarrow> ulib \<Rightarrow> kstate \<Rightarrow> (u32 \<times> ulib) kcall" where
  "fork b upcall handler l s =
     calls (set_pgfault_handler b upcall handler l s) (\<lambda>l s.
     calls (lib_exofork b s) (\<lambda>envid s.
       if sint envid < 0 then Inl (KPanic ''sys_exofork: %e'')
       else if envid = 0 then fork_child b l s
       else fork_parent b envid l s))"

definition sfork :: "kstate \<Rightarrow> u32 kcall" where
  "sfork s = Inl (KPanic ''sfork not implemented'')"

section \<open>Messages\<close>

text \<open>\<open>ipc_recv\<close> after the system call has returned \<open>rc\<close>: value, sender and permission.\<close>

definition ipc_recv_result :: "u32 \<Rightarrow> nat \<Rightarrow> kstate \<Rightarrow> u32 \<times> u32 \<times> u32" where
  "ipc_recv_result rc e s =
     (if rc = 0 then (env_ipc_value (envs s e), env_ipc_from (envs s e), env_ipc_perm (envs s e))
      else (rc, 0, 0))"

definition ipc_recv :: "sched_build \<Rightarrow> u32 \<Rightarrow> ulib \<Rightarrow> kstate \<Rightarrow> (u32 \<times> u32 \<times> u32) kcall" where
  "ipc_recv b pg l s = calls (lib_ipc_recv b pg s) (\<lambda>rc s. returns (ipc_recv_result rc (thisenv l) s) s)"

text \<open>
  The kernel never returns from a successful \<open>sys_ipc_recv\<close> or \<open>sys_yield\<close> itself: the
  environment goes on later, in the state the others have left. \<open>others\<close> is that state, \<open>None\<close> if
  the environment is never run again.
\<close>

partial_function (option) ipc_send_loop ::
  "sched_build \<Rightarrow> (kstate \<Rightarrow> kstate option) \<Rightarrow> u32 \<Rightarrow> u32 \<Rightarrow> u32 \<Rightarrow> u32 \<Rightarrow> u32 \<Rightarrow> kstate \<Rightarrow> unit kcall option" where
  "ipc_send_loop b others r to_env val pg perm s =
     (if r = err E_IPC_NOT_RECV
      then case lib_yield b s of
             Inl f \<Rightarrow> Some (Inl f)
           | Inr (c, s) \<Rightarrow> (case others s of
               None \<Rightarrow> None
             | Some s \<Rightarrow> (case lib_ipc_try_send b to_env val pg perm s of
                 Inr (Returns r, s) \<Rightarrow> ipc_send_loop b others r to_env val pg perm s
               | Inr (_, s) \<Rightarrow> Some (Inl (KUndef ''sys_ipc_try_send does not leave the kernel''))
               | Inl f \<Rightarrow> Some (Inl f)))
      else if sint r < 0 then Some (Inl (KPanic ''ipc_send: %e''))
      else Some (returns () s))"

definition ipc_send :: "sched_build \<Rightarrow> (kstate \<Rightarrow> kstate option) \<Rightarrow> u32 \<Rightarrow> u32 \<Rightarrow> u32 \<Rightarrow> u32 \<Rightarrow> kstate \<Rightarrow> unit kcall option" where
  "ipc_send b others to_env val pg perm s =
     (let pg = (if pg = 0 then UTOP else pg) in
      case lib_ipc_try_send b to_env val pg perm s of
        Inr (Returns r, s) \<Rightarrow> ipc_send_loop b others r to_env val pg perm s
      | Inr (_, s) \<Rightarrow> Some (Inl (KUndef ''sys_ipc_try_send does not leave the kernel''))
      | Inl f \<Rightarrow> Some (Inl f))"

definition ipc_find_env :: "env_type \<Rightarrow> kstate \<Rightarrow> u32" where
  "ipc_find_env type s =
     (case first_from (\<lambda>i. env_type (envs s i) = type) 0 NENV of
        None \<Rightarrow> 0
      | Some i \<Rightarrow> env_id (envs s i))"

section \<open>The start of a program\<close>

definition libmain :: "sched_build \<Rightarrow> (ulib \<Rightarrow> kstate \<Rightarrow> ulib kcall) \<Rightarrow> ulib \<Rightarrow> kstate \<Rightarrow> u32 kcall" where
  "libmain b umain l s =
     calls (lib_getenvid b s) (\<lambda>id s.
       let l = (if 0 \<le> sint id then l\<lparr>thisenv := ENVX id\<rparr> else l) in
       calls (umain l s) (\<lambda>_. lib_exit b))"

end
