(* ===== verification/UserLibProps.thy ===== *)
theory UserLibProps
  imports UserLib
begin

text \<open>
  Copy on write: what \<open>duppage\<close> and the page loop of \<open>fork\<close> do to the two address spaces, and
  what the fault handler does to a page.
\<close>

section \<open>The running environment\<close>

text \<open>
  The environment \<open>c\<close> runs in its own directory, whose entry for \<open>UVPT\<close> is the directory itself, and
  the kernel has only made open directory entries.
\<close>

definition runs_in :: "kstate \<Rightarrow> nat \<Rightarrow> nat \<Rightarrow> bool" where
  "runs_in s c pd \<longleftrightarrow> may_manage s c 0 \<and> env_pgdir (envs s c) = Some pd \<and> cr3 s (cpunum s) = pd
     \<and> rd s pd 957 = page2pa pd OR PTE_P OR PTE_U \<and> (\<forall>pd\<in>dirs s. \<forall>i<955. rd s pd i \<noteq> 0 \<longrightarrow> open_pde (rd s pd i))"

lemma dirs_cong: "vm_frame s s' \<Longrightarrow> dirs s' = dirs s"
  by (simp add: vm_frame_def dirs_def pgdirs_def)

lemma may_manage_cong: "vm_frame s s' \<Longrightarrow> may_manage s' c envid = may_manage s c envid"
  by (simp add: vm_frame_curenv may_manage_def controls_def) (simp add: vm_frame_def)

lemma runs_in_dir: "runs_in s c pd \<Longrightarrow> pd \<in> dirs s"
  by (auto simp: runs_in_def may_manage_def intro: kinv_dir)

lemma runs_in_keep:
  assumes run: "runs_in s c pd" and fr: "vm_frame s s'"
    and pde: "\<And>pd' i. pd' \<in> dirs s \<Longrightarrow> rd s' pd' i = rd s pd' i \<or> i < 955 \<and> open_pde (rd s' pd' i)"
  shows "runs_in s' c pd"
proof -
  have f: "envs s' = envs s" "cr3 s' = cr3 s" "cpunum s' = cpunum s" using fr by (simp_all add: vm_frame_def)
  have "rd s' pd 957 = rd s pd 957" using pde [OF runs_in_dir [OF run], of 957] by simp
  moreover have "open_pde (rd s' pd' i)" if "pd' \<in> dirs s" "i < 955" "rd s' pd' i \<noteq> 0" for pd' i
    using pde [OF that(1), of i] that run by (auto simp: runs_in_def)
  ultimately show ?thesis using run may_manage_cong [OF fr] dirs_cong [OF fr] by (simp add: runs_in_def f)
qed

lemma runs_in_remaps:
  assumes run: "runs_in s c pd" and re: "remaps s fl pd' va s' fl'" and va: "va < UTOP"
  shows "runs_in s' c pd"
proof (rule runs_in_keep [OF run remaps_frame [OF re]])
  fix d i assume "d \<in> dirs s"
  with re show "rd s' d i = rd s d i \<or> i < 955 \<and> open_pde (rd s' d i)"
    using user_va [OF va] by (cases "(d, i) = (pd', PDX va)") (auto simp: remaps_def)
qed

section \<open>Reading the page tables\<close>

lemma self_entry:
  assumes "pd < 1048576"
  shows "PGNUM (page2pa pd OR PTE_P OR PTE_U) = pd" and "(page2pa pd OR PTE_P OR PTE_U) AND PTE_P \<noteq> 0"
    and "(page2pa pd OR PTE_P OR PTE_U) AND PTE_U \<noteq> 0"
  using assms PGNUM_entry [of "PTE_P OR PTE_U" pd]
  by (simp_all add: bit.conj_disj_distrib2 or_eq_0_iff)

lemma dir_small: "kinv s fl el kx \<Longrightarrow> pd \<in> dirs s \<Longrightarrow> pd < 65536"
  using kinv_ref [of s fl el kx] by (auto simp: ref_inv_def mem_ok_def)

lemma PGOFF_mod: "unat (PGOFF la) = unat la mod 4096"
  by (simp add: PGOFF_def mask_10_12 [symmetric] take_bit_eq_mask [symmetric] take_bit_eq_mod unat_mod)

lemma uvpt_address:
  fixes va :: u32
  assumes n: "n < 1048576" and va: "va = UVPT + 4 * word_of_nat n"
  shows "PDX va = 957" and "PTX va = n div 1024" and "unat (PGOFF va) div 4 = n mod 1024"
proof -
  have u: "unat va = 4013948928 + 4 * n" using n by (simp add: va unat_word_ariths unat_of_nat)
  have "(4013948928 + 4 * n) div 4194304 = 957" using n by (simp add: div_nat_eqI)
  then show "PDX va = 957" by (simp add: PDX_div u)
  have "(4013948928 + 4 * n) div 4096 = (4 * (1003487232 + n)) div (4 * 1024)" by simp
  also have "\<dots> = (979968 * 1024 + n) div 1024" by (subst div_mult_mult1) simp_all
  also have "\<dots> = 979968 + n div 1024" by (simp del: mult_numeral_left_semiring_numeral add: div_mult_self3)
  finally have "(4013948928 + 4 * n) div 4096 = 979968 + n div 1024" .
  moreover have "n div 1024 < 1024" using n by (simp add: div_less_iff_less_mult)
  then have "(957 * 1024 + n div 1024) mod 1024 = n div 1024" by (simp only: mod_mult_self3 mod_less)
  ultimately show "PTX va = n div 1024" by (simp add: PTX_div u)
  have "(4013948928 + 4 * n) mod 4096 = (4 * (1003487232 + n)) mod (4 * 1024)" by simp
  also have "\<dots> = 4 * ((979968 * 1024 + n) mod 1024)" by (subst mult_mod_right [symmetric]) simp
  also have "\<dots> = 4 * (n mod 1024)" by (simp only: mod_mult_self3)
  finally have "(4013948928 + 4 * n) mod 4096 div 4 = n mod 1024" by simp
  then show "unat (PGOFF va) div 4 = n mod 1024" by (simp add: PGOFF_mod u)
qed

lemma uvpt_reads:
  assumes inv: "kinv s fl el kx" and run: "runs_in s c pd" and n: "n < 977920"
    and pde: "rd s pd (n div 1024) AND PTE_P \<noteq> 0" "rd s pd (n div 1024) AND PTE_U \<noteq> 0"
  shows "uvpt n s = Inr (pte_of s pd n)"
proof -
  have pd: "pd < 1048576" using dir_small [OF inv runs_in_dir [OF run]] by simp
  note a = uvpt_address [of n, OF _ refl]
  have "rd s pd (n div 1024) \<noteq> 0" using pde by auto
  then show ?thesis
    using a n run pde self_entry [OF pd]
    by (simp add: uvpt_def uload_def user_translate_def runs_in_def pte_of_def Let_def)
qed

lemma uvpd_reads:
  assumes inv: "kinv s fl el kx" and run: "runs_in s c pd" and i: "i < 1024"
  shows "uvpd i s = Inr (rd s pd i)"
proof -
  have pd: "pd < 1048576" using dir_small [OF inv runs_in_dir [OF run]] by simp
  have "UVPT + drop_bit 12 UVPT * 4 + 4 * word_of_nat i = UVPT + 4 * word_of_nat (979968 + i)"
    by (simp add: drop_bit_eq_div)
  then have "uvpd i s = uload (UVPT + 4 * word_of_nat (979968 + i)) s" by (simp add: uvpd_def)
  moreover have "(979968 + i) div 1024 = 957" "(979968 + i) mod 1024 = i" using i by (simp_all add: div_nat_eqI mod_nat_eqI)
  ultimately show ?thesis
    using uvpt_address [of "979968 + i", OF _ refl] i run self_entry [OF pd]
    by (simp add: uload_def user_translate_def runs_in_def Let_def)
qed

lemma page_addr_props:
  assumes "n < 977920"
  shows "unat (page_addr n) = 4096 * n" and "PGNUM (page_addr n) = n" and "\<not> bad_va (page_addr n)" and "page_addr n < UTOP"
proof -
  show u: "unat (page_addr n) = 4096 * n"
    using assms by (simp add: page_addr_def push_bit_eq_mult unat_word_ariths unat_of_nat)
  show "PGNUM (page_addr n) = n" by (simp add: PGNUM_div u)
  show "page_addr n < UTOP" using assms by (simp add: word_less_nat_alt u)
  moreover have "page_addr n mod PGSIZE = 0"
    by (rule word_unat_eq_iff [THEN iffD2]) (simp add: unat_mod u)
  ultimately show "\<not> bad_va (page_addr n)" by (simp add: bad_va_def not_le)
qed

section \<open>Stubs\<close>

lemma stub_returns:
  assumes "syscall b getc num a1 a2 a3 a4 a5 s = Inr (Returns r, s')" and "sint r \<le> 0"
  shows "user_syscall b getc num check a1 a2 a3 a4 a5 s = Inr (Returns r, s')"
  using assms by (simp add: user_syscall_def returns_def)

lemma lib_page_map_returns:
  "sys_page_map srcid srcva dstid dstva perm s = Inr (Returns r, s') \<Longrightarrow> sint r \<le> 0
     \<Longrightarrow> lib_page_map b srcid srcva dstid dstva perm s = Inr (Returns r, s')"
  unfolding lib_page_map_def by (rule stub_returns) (simp_all add: syscall_def)

lemma lib_page_alloc_returns:
  "sys_page_alloc envid va perm s = Inr (Returns r, s') \<Longrightarrow> sint r \<le> 0
     \<Longrightarrow> lib_page_alloc b envid va perm s = Inr (Returns r, s')"
  unfolding lib_page_alloc_def by (rule stub_returns) (simp_all add: syscall_def)

lemma lib_page_unmap_returns:
  "sys_page_unmap envid va s = Inr (Returns r, s') \<Longrightarrow> sint r \<le> 0
     \<Longrightarrow> lib_page_unmap b envid va s = Inr (Returns r, s')"
  unfolding lib_page_unmap_def by (rule stub_returns) (simp_all add: syscall_def)

lemma or_panic_ok: "call = Inr (Returns 0, s') \<Longrightarrow> or_panic msg call f = f 0 s'"
  by (simp add: or_panic_def)

section \<open>Reference counts of mapped pages\<close>

text \<open>The entries that map a page, and the bound they put on its count.\<close>

definition mappers :: "kstate \<Rightarrow> nat \<Rightarrow> (nat \<times> nat) set" where
  "mappers s q = {(pd, n). pd \<in> dirs s \<and> n < 977920 \<and> pte_of s pd n \<noteq> 0 \<and> PGNUM (pte_of s pd n) = q}"

lemma finite_mappers: "kinv s fl el kx \<Longrightarrow> finite (mappers s q)"
proof -
  assume "kinv s fl el kx"
  then have "finite (dirs s \<times> {..<977920 :: nat})" using ref_inv_finite [OF kinv_ref] by blast
  then show ?thesis by (rule rev_finite_subset) (auto simp: mappers_def)
qed

lemma refs_mappers:
  assumes inv: "kinv s fl el kx" and x: "x \<in> mappers s q"
  shows "unat (pp_ref (pages s q)) = card (mappers s q) + held (pgdirs s) kx q" and "q < npages s"
    and "q \<notin> set fl" and "\<forall>pd\<in>dirs s. \<forall>i<955. rd s pd i \<noteq> 0 \<longrightarrow> PGNUM (rd s pd i) \<noteq> q"
proof -
  note r = kinv_ref [OF inv]
  obtain pd n where x': "x = (pd, n)" "pd \<in> dirs s" "n < 977920" "pte_of s pd n \<noteq> 0" "PGNUM (pte_of s pd n) = q"
    using x by (auto simp: mappers_def)
  then have h: "PTE pd n \<in> holders s (dirs s) q" by (simp add: holders_def)
  show tab: "\<forall>pd\<in>dirs s. \<forall>i<955. rd s pd i \<noteq> 0 \<longrightarrow> PGNUM (rd s pd i) \<noteq> q"
  proof (intro ballI allI impI notI)
    fix pd' i assume "pd' \<in> dirs s" "i < 955" "rd s pd' i \<noteq> 0" "PGNUM (rd s pd' i) = q"
    with table_unique(1) [OF r this(1-3)] h show False by auto
  qed
  have "holders s (dirs s) q = (\<lambda>(pd, n). PTE pd n) ` mappers s q"
  proof (intro equalityI subsetI)
    fix y assume y: "y \<in> holders s (dirs s) q"
    show "y \<in> (\<lambda>(pd, n). PTE pd n) ` mappers s q"
    proof (cases y)
      case (PDE pd' i)
      with y tab show ?thesis by (auto simp: holders_def)
    next
      case (PTE pd' n')
      with y show ?thesis by (auto simp: holders_def mappers_def image_iff)
    qed
  qed (auto simp: holders_def mappers_def)
  moreover have "inj_on (\<lambda>(pd, n). PTE pd n) (mappers s q)" by (auto simp: inj_on_def)
  ultimately have "card (holders s (dirs s) q) = card (mappers s q)" by (simp add: card_image)
  moreover show "q < npages s" using ref_inv_slot [OF r, of "PTE pd n"] x' by simp
  moreover have "q \<noteq> kern_pgdir s" using ref_inv_not_kern [OF r, of "PTE pd n"] x' by simp
  ultimately show "unat (pp_ref (pages s q)) = card (mappers s q) + held (pgdirs s) kx q"
    using ref_inv_count [OF r] by simp
  show "q \<notin> set fl" using free_unheld(1) [OF r, of q] h by auto
qed

lemma mapped_plain:
  assumes "kinv s fl el kx" and "(pd, n) \<in> mappers s q" and "q \<notin> dirs s"
  shows "plain s fl q"
  using refs_mappers(3,4) [OF assms(1,2)] assms(3) by (simp add: plain_def)

section \<open>duppage\<close>

text \<open>Permissions of the shared page, and the two entries afterwards.\<close>

definition cow_page :: "u32 \<Rightarrow> bool" where
  "cow_page pte \<longleftrightarrow> pte AND PTE_W \<noteq> 0 \<or> pte AND PTE_COW \<noteq> 0"

definition share_perm :: "u32 \<Rightarrow> u32" where
  "share_perm pte =
     (let perm = PTE_U OR PTE_P;
          perm = (if pte AND (PTE_PCD OR PTE_PWT) \<noteq> 0 then perm OR (PTE_PCD OR PTE_PWT) else perm)
      in if cow_page pte then perm OR PTE_COW else perm)"

definition child_entry :: "u32 \<Rightarrow> u32" where
  "child_entry pte = page2pa (PGNUM pte) OR share_perm pte"

definition parent_entry :: "u32 \<Rightarrow> u32" where
  "parent_entry pte = (if cow_page pte then child_entry pte else pte)"

lemma share_perm_ok: "perm_ok (share_perm pte)"
  by (simp add: share_perm_def perm_ok_def)

lemma share_perm_bits: "share_perm pte AND PTE_W = 0" "PTE_P OR PTE_U OR share_perm pte = share_perm pte"
    "share_perm pte OR PTE_P = share_perm pte" "cow_page pte \<Longrightarrow> share_perm pte AND PTE_COW \<noteq> 0"
  by (auto simp: share_perm_def Let_def)

lemma entry_PGNUM: "p < 1048576 \<Longrightarrow> perm_ok perm \<Longrightarrow> PGNUM (page2pa p OR perm) = p"
  by (rule PGNUM_entry)

lemma page2pa_low: "page2pa p AND PTE_W = 0" "page2pa p AND PTE_COW = 0"
  by (rule page2pa_and_perm, simp add: perm_ok_def)+

text \<open>The parent \<open>c\<close> with directory \<open>pd\<close> makes the child \<open>envid\<close> with directory \<open>cd\<close>.\<close>

definition family :: "kstate \<Rightarrow> nat \<Rightarrow> nat \<Rightarrow> u32 \<Rightarrow> nat \<Rightarrow> bool" where
  "family s c pd envid cd \<longleftrightarrow> runs_in s c pd \<and> may_manage s c envid
     \<and> env_pgdir (envs s (target c envid)) = Some cd \<and> cd \<noteq> pd"

lemma family_remaps:
  assumes "family s c pd envid cd" and re: "remaps s fl pd' va s' fl'" and "va < UTOP"
  shows "family s' c pd envid cd"
  using assms runs_in_remaps [OF _ re] may_manage_cong [OF remaps_frame [OF re]] vm_frame_envs [OF remaps_frame [OF re]]
  by (simp add: family_def)

lemma family_dirs: "kinv s fl el kx \<Longrightarrow> family s c pd envid cd \<Longrightarrow> pd \<in> dirs s \<and> cd \<in> dirs s"
  using may_manage_target(1) [of s fl el kx c envid]
  by (auto simp: family_def intro: runs_in_dir kinv_dir)

text \<open>One \<open>sys_page_map\<close> of a page onto its own address, in the parent or the child.\<close>

lemma remap_same_page:
  assumes inv: "kinv s fl el kx" and fam: "family s c pd envid cd" and n: "n < 977920"
    and eid: "(eid, dst) = (envid, cd) \<or> (eid, dst) = (0, pd)"
    and some: "pte_of s pd n \<noteq> 0" and perm: "perm = share_perm pte"
    and room: "rd s dst (n div 1024) \<noteq> 0 \<or> fl \<noteq> []"
    and few: "unat (pp_ref (pages s (PGNUM (pte_of s pd n)))) < 65535"
  shows "\<exists>s' fl'. lib_page_map b 0 (page_addr n) eid (page_addr n) perm s = Inr (Returns 0, s') \<and> kinv s' fl' el kx
     \<and> remaps s fl dst (page_addr n) s' fl'
     \<and> (\<forall>pd'\<in>dirs s. \<forall>m<977920. pte_of s' pd' m =
          (if pd' = dst \<and> m = n then page2pa (PGNUM (pte_of s pd n)) OR perm else pte_of s pd' m))"
proof -
  note a = page_addr_props [OF n]
  have dir: "PDX (page_addr n) = n div 1024" by (simp add: PDX_PGNUM a)
  have run: "runs_in s c pd" using fam by (simp add: family_def)
  have m0: "may_manage s c 0" and p0: "env_pgdir (envs s (target c 0)) = Some pd"
    using run by (simp_all add: runs_in_def target_def)
  have m1: "may_manage s c eid" and p1: "env_pgdir (envs s (target c eid)) = Some dst"
    using eid fam m0 p0 by (auto simp: family_def)
  have ok: "perm_ok perm" unfolding perm by (rule share_perm_ok)
  have entry: "page2pa q OR (PTE_P OR PTE_U OR perm) OR PTE_P = page2pa q OR perm" for q
    unfolding perm or.assoc using share_perm_bits(2,3) by (simp only: or.assoc)
  note c = sys_page_map_cases [OF inv m0 m1 a(3,3) ok p0 p1, unfolded pte_at_def a(2) dir entry, OF few]
  have no: "\<not> (pte_of s pd n = 0 \<or> perm AND PTE_W \<noteq> 0 \<and> pte_of s pd n AND PTE_W = 0)"
      "\<not> (rd s dst (n div 1024) = 0 \<and> fl = [])"
    using some room share_perm_bits(1) perm by blast+
  from c [unfolded if_not_P [OF no(1)] if_not_P [OF no(2)]] show ?thesis
    using lib_page_map_returns by fastforce
qed

lemma duppage_calls:
  assumes inv: "kinv s fl el kx" and run: "runs_in s c pd" and n: "n < 977920"
    and user: "pte_of s pd n AND PTE_P \<noteq> 0" "pte_of s pd n AND PTE_U \<noteq> 0"
  shows "duppage b envid n s =
     (let p = share_perm (pte_of s pd n); a = page_addr n in
      if cow_page (pte_of s pd n)
      then or_panic ''duppage: sys_page_map on childern COW: %e'' (lib_page_map b 0 a envid a p s) (\<lambda>_ s.
           or_panic ''duppage: sys_page_map on parent COW: %e'' (lib_page_map b 0 a 0 a p s) (\<lambda>_. returns ()))
      else or_panic ''duppage: sys_page_map on childern RO: %e'' (lib_page_map b 0 a envid a p s) (\<lambda>_. returns ()))"
proof -
  have "rd s pd (n div 1024) \<noteq> 0" using user by (auto simp: pte_of_def Let_def split: if_splits)
  moreover have "n div 1024 < 955" using n by (simp add: div_less_iff_less_mult)
  ultimately have "open_pde (rd s pd (n div 1024))" using run runs_in_dir [OF run] by (simp add: runs_in_def)
  then have "uvpt n s = Inr (pte_of s pd n)" by (intro uvpt_reads [OF inv run n]) (simp_all add: open_pde_def)
  then show ?thesis
    using user unfolding duppage_def share_perm_def cow_page_def Let_def by (simp only: andThen_Inr) auto
qed

text \<open>What a copy of one page leaves alone: the parent's data and the directories.\<close>

definition copied :: "kstate \<Rightarrow> nat list \<Rightarrow> nat \<Rightarrow> nat \<Rightarrow> nat \<Rightarrow> kstate \<Rightarrow> nat list \<Rightarrow> bool" where
  "copied s fl pd cd n s' fl' \<longleftrightarrow> vm_frame s s'
     \<and> (\<forall>m<977920. pte_of s pd m \<noteq> 0 \<longrightarrow> PGNUM (pte_of s pd m) \<notin> dirs s
          \<longrightarrow> rd s' (PGNUM (pte_of s pd m)) = rd s (PGNUM (pte_of s pd m)))
     \<and> rd s' pd = rd s pd \<and> (\<forall>i. i \<noteq> n div 1024 \<or> rd s cd i \<noteq> 0 \<longrightarrow> rd s' cd i = rd s cd i)
     \<and> rd s' cd (n div 1024) \<noteq> 0 \<and> length fl \<le> length fl' + (if rd s cd (n div 1024) = 0 then 1 else 0)"

lemma child_PGNUM: "kinv s fl el kx \<Longrightarrow> (pd, n) \<in> mappers s (PGNUM pte) \<Longrightarrow> PGNUM (child_entry pte) = PGNUM pte"
proof -
  assume inv: "kinv s fl el kx" and x: "(pd, n) \<in> mappers s (PGNUM pte)"
  have "npages s \<le> 65536" using kinv_ref [OF inv] by (simp add: ref_inv_def mem_ok_def)
  then have "PGNUM pte < 1048576" using refs_mappers(2) [OF inv x] by simp
  then show "PGNUM (child_entry pte) = PGNUM pte" unfolding child_entry_def by (rule entry_PGNUM) (rule share_perm_ok)
qed

lemma child_nonzero: "child_entry pte \<noteq> 0"
  unfolding child_entry_def using share_perm_bits(3) [of pte] or_P_nonzero [of "page2pa (PGNUM pte) OR share_perm pte"]
  by (simp add: or.assoc)

lemma copied_remaps:
  assumes inv: "kinv s fl el kx" and re: "remaps s fl dst (page_addr n) s' fl'" and n: "n < 977920"
    and dst: "dst = cd \<or> dst = pd" and cd: "cd \<noteq> pd" "cd \<in> dirs s" "pd \<in> dirs s" and pde: "rd s pd (n div 1024) \<noteq> 0"
    and room: "dst = pd \<longrightarrow> rd s cd (n div 1024) \<noteq> 0"
  shows "copied s fl pd cd n s' fl'"
proof -
  have dir: "PDX (page_addr n) = n div 1024" by (simp add: PDX_PGNUM page_addr_props [OF n])
  note re = re [unfolded remaps_def dir]
  have "rd s' (PGNUM (pte_of s pd m)) = rd s (PGNUM (pte_of s pd m))"
    if "m < 977920" "pte_of s pd m \<noteq> 0" "PGNUM (pte_of s pd m) \<notin> dirs s" for m
    using re mapped_plain [OF inv _ that(3), of pd m] that cd by (auto simp: mappers_def)
  moreover have "rd s' pd = rd s pd" using re cd pde dst by (auto simp: fun_eq_iff)
  moreover have "rd s' cd i = rd s cd i" if "i \<noteq> n div 1024 \<or> rd s cd i \<noteq> 0" for i
    using re cd that dst by (cases "i = n div 1024") auto
  moreover have "rd s' cd (n div 1024) \<noteq> 0" using re dst room cd by auto
  moreover have "length fl \<le> length fl' + (if rd s cd (n div 1024) = 0 then 1 else 0)"
    using re dst room pde by (auto split: if_splits)
  ultimately show ?thesis using re unfolding copied_def by blast
qed

lemma copied_trans:
  assumes c1: "copied s fl pd cd n s1 fl1" and c2: "copied s1 fl1 pd cd n s2 fl2" and d: "dirs s1 = dirs s"
    and p: "\<And>m. m < 977920 \<Longrightarrow> PGNUM (pte_of s1 pd m) = PGNUM (pte_of s pd m)"
      "\<And>m. m < 977920 \<Longrightarrow> pte_of s1 pd m = 0 \<longleftrightarrow> pte_of s pd m = 0"
  shows "copied s fl pd cd n s2 fl2"
  using c1 c2 vm_frame_trans [of s s1 s2] unfolding copied_def d by (auto simp: p split: if_splits)

lemma duppage_effect:
  assumes inv: "kinv s fl el kx" and fam: "family s c pd envid cd" and n: "n < 977920"
    and user: "pte_of s pd n AND PTE_P \<noteq> 0" "pte_of s pd n AND PTE_U \<noteq> 0"
    and room: "rd s cd (n div 1024) \<noteq> 0 \<or> fl \<noteq> []"
    and few: "unat (pp_ref (pages s (PGNUM (pte_of s pd n)))) < 65534"
  shows "\<exists>s' fl'. duppage b envid n s = returns () s' \<and> kinv s' fl' el kx \<and> family s' c pd envid cd
     \<and> copied s fl pd cd n s' fl'
     \<and> (\<forall>pd'\<in>dirs s. \<forall>m<977920. pte_of s' pd' m =
          (if m = n \<and> pd' = cd then child_entry (pte_of s pd n)
           else if m = n \<and> pd' = pd then parent_entry (pte_of s pd n) else pte_of s pd' m))"
proof -
  define pte where "pte = pte_of s pd n"
  define q where "q = PGNUM pte"
  have run: "runs_in s c pd" and ne: "cd \<noteq> pd" using fam by (simp_all add: family_def)
  note ds = family_dirs [OF inv fam]
  have some: "pte_of s pd n \<noteq> 0" using user by auto
  have pde: "rd s pd (n div 1024) \<noteq> 0" using some by (auto simp: pte_of_def Let_def split: if_splits)
  have mem: "(pd, n) \<in> mappers s q" using some ds n by (auto simp: mappers_def q_def pte_def)
  have few': "unat (pp_ref (pages s (PGNUM (pte_of s pd n)))) < 65535" using few by simp
  from remap_same_page [OF inv fam n disjI1 [OF refl] some refl room few', of b] obtain s1 fl1 where
    s1: "lib_page_map b 0 (page_addr n) envid (page_addr n) (share_perm pte) s = Inr (Returns 0, s1)"
      "kinv s1 fl1 el kx" "remaps s fl cd (page_addr n) s1 fl1"
      "\<And>pd' m. pd' \<in> dirs s \<Longrightarrow> m < 977920 \<Longrightarrow>
         pte_of s1 pd' m = (if pd' = cd \<and> m = n then child_entry pte else pte_of s pd' m)"
    unfolding pte_def child_entry_def by blast
  have fam1: "family s1 c pd envid cd" by (rule family_remaps [OF fam s1(3) page_addr_props(4) [OF n]])
  have c1: "copied s fl pd cd n s1 fl1"
    by (rule copied_remaps [OF inv s1(3) n _ ne _ _ pde]) (use ds ne in auto)
  note calls = duppage_calls [OF inv run n user, folded pte_def, of b envid]
  show ?thesis
  proof (cases "cow_page pte")
    case False
    then have "duppage b envid n s = returns () s1" by (simp add: calls Let_def or_panic_ok [OF s1(1)])
    moreover have "parent_entry pte = pte" using False by (simp add: parent_entry_def)
    ultimately show ?thesis using s1(2,4) fam1 c1 ne unfolding pte_def [symmetric]
      by (intro exI [of _ s1] exI [of _ fl1]) (auto simp: pte_def)
  next
    case True
    have fr: "dirs s1 = dirs s" "pgdirs s1 = pgdirs s"
      using dirs_cong [OF remaps_frame [OF s1(3)]] remaps_frame [OF s1(3)] by (simp_all add: vm_frame_def pgdirs_def)
    have same: "pte_of s1 pd n = pte" using s1(4) [of pd n] ds ne n by (simp add: pte_def)
    have mem1: "(pd, n) \<in> mappers s1 q" using same some ds n by (auto simp: mappers_def q_def pte_def fr)
    have "mappers s1 q \<subseteq> insert (cd, n) (mappers s q)"
      using s1(4) by (auto simp: mappers_def fr split: if_splits)
    then have "card (mappers s1 q) \<le> card (insert (cd, n) (mappers s q))"
      by (intro card_mono) (simp add: finite_mappers [OF inv])
    also have "\<dots> \<le> Suc (card (mappers s q))" by (simp add: card_insert_if finite_mappers [OF inv])
    finally have "card (mappers s1 q) \<le> Suc (card (mappers s q))" .
    then have few1: "unat (pp_ref (pages s1 (PGNUM (pte_of s1 pd n)))) < 65535"
      using refs_mappers(1) [OF s1(2) mem1] refs_mappers(1) [OF inv mem] few by (simp add: same q_def pte_def fr)
    have some1: "pte_of s1 pd n \<noteq> 0" using same some by (simp add: pte_def)
    have pde1: "rd s1 pd (n div 1024) \<noteq> 0" using c1 pde by (simp add: copied_def)
    from remap_same_page [OF s1(2) fam1 n disjI2 [OF refl] some1 refl _ few1, of b, unfolded same] pde1 obtain s2 fl2 where
      s2: "lib_page_map b 0 (page_addr n) 0 (page_addr n) (share_perm pte) s1 = Inr (Returns 0, s2)"
        "kinv s2 fl2 el kx" "remaps s1 fl1 pd (page_addr n) s2 fl2"
        "\<And>pd' m. pd' \<in> dirs s \<Longrightarrow> m < 977920 \<Longrightarrow>
           pte_of s2 pd' m = (if pd' = pd \<and> m = n then child_entry pte else pte_of s1 pd' m)"
      unfolding child_entry_def fr by blast
    have ds1: "pd \<in> dirs s1" "cd \<in> dirs s1" using ds fr by simp_all
    have "copied s1 fl1 pd cd n s2 fl2"
      by (rule copied_remaps [OF s1(2) s2(3) n _ ne ds1(2,1) pde1]) (use c1 in \<open>simp_all add: copied_def\<close>)
    moreover have "PGNUM (pte_of s1 pd m) = PGNUM (pte_of s pd m)" "pte_of s1 pd m = 0 \<longleftrightarrow> pte_of s pd m = 0"
      if "m < 977920" for m using s1(4) [of pd m] ds ne that by simp_all
    ultimately have "copied s fl pd cd n s2 fl2" by (rule copied_trans [OF c1 _ fr(1)])
    moreover have "family s2 c pd envid cd" by (rule family_remaps [OF fam1 s2(3) page_addr_props(4) [OF n]])
    moreover have "duppage b envid n s = returns () s2"
      using True by (simp add: calls Let_def or_panic_ok [OF s1(1)] or_panic_ok [OF s2(1)])
    moreover have "parent_entry pte = child_entry pte" using True by (simp add: parent_entry_def)
    then have "pte_of s2 pd' m = (if m = n \<and> pd' = cd then child_entry pte
        else if m = n \<and> pd' = pd then parent_entry pte else pte_of s pd' m)"
      if "pd' \<in> dirs s" "m < 977920" for pd' m
      using s2(4) [OF that] s1(4) [OF that] ne by auto
    ultimately show ?thesis using s2(2) unfolding pte_def [symmetric] by blast
  qed
qed


section \<open>The page loop of fork\<close>

definition copyable :: "kstate \<Rightarrow> nat \<Rightarrow> nat \<Rightarrow> bool" where
  "copyable s pd m \<longleftrightarrow> m \<noteq> PGNUM UXSTACKTOP - 1 \<and> pte_of s pd m AND PTE_P \<noteq> 0 \<and> pte_of s pd m AND PTE_U \<noteq> 0"

lemma fork_page_calls:
  assumes inv: "kinv s fl el kx" and run: "runs_in s c pd" and n: "n < 977920"
  shows "fork_page b envid n s = (if copyable s pd n then duppage b envid n s else returns () s)"
proof (cases "rd s pd (n div 1024) = 0")
  case True
  have "uvpd (n div 1024) s = Inr (rd s pd (n div 1024))"
    using n by (intro uvpd_reads [OF inv run]) (simp add: div_less_iff_less_mult)
  then show ?thesis using True by (simp add: fork_page_def copyable_def pte_of_def)
next
  case False
  have i: "n div 1024 < 955" using n by (simp add: div_less_iff_less_mult)
  then have o: "open_pde (rd s pd (n div 1024))" using False run runs_in_dir [OF run] by (simp add: runs_in_def)
  have "uvpd (n div 1024) s = Inr (rd s pd (n div 1024))" using i by (intro uvpd_reads [OF inv run]) simp
  moreover have "uvpt n s = Inr (pte_of s pd n)" using o by (intro uvpt_reads [OF inv run n]) (simp_all add: open_pde_def)
  ultimately show ?thesis using o unfolding fork_page_def copyable_def open_pde_def by (simp only: andThen_Inr) auto
qed

text \<open>After the first \<open>k\<close> pages. \<open>missing\<close>: the tables of the parent that the child does not have yet.\<close>

definition missing :: "kstate \<Rightarrow> nat \<Rightarrow> nat \<Rightarrow> nat set" where
  "missing s pd cd = {i. i < 955 \<and> rd s pd i \<noteq> 0 \<and> rd s cd i = 0}"

definition forked_entry :: "kstate \<Rightarrow> nat \<Rightarrow> nat \<Rightarrow> nat \<Rightarrow> nat \<Rightarrow> nat \<Rightarrow> u32" where
  "forked_entry s pd cd k d m =
     (if m < k \<and> copyable s pd m \<and> d = cd then child_entry (pte_of s pd m)
      else if m < k \<and> copyable s pd m \<and> d = pd then parent_entry (pte_of s pd m)
      else pte_of s d m)"

definition forked :: "kstate \<Rightarrow> nat list \<Rightarrow> nat \<Rightarrow> nat \<Rightarrow> nat \<Rightarrow> kstate \<Rightarrow> nat list \<Rightarrow> bool" where
  "forked s fl pd cd k s' fl' \<longleftrightarrow> vm_frame s s'
     \<and> (\<forall>m<977920. pte_of s pd m \<noteq> 0 \<longrightarrow> PGNUM (pte_of s pd m) \<notin> dirs s
          \<longrightarrow> rd s' (PGNUM (pte_of s pd m)) = rd s (PGNUM (pte_of s pd m)))
     \<and> (\<forall>d\<in>dirs s. \<forall>m<977920. pte_of s' d m = forked_entry s pd cd k d m)
     \<and> length fl + card (missing s' pd cd) \<le> length fl' + card (missing s pd cd)"

lemma forked_PGNUM:
  assumes inv: "kinv s fl el kx" and pd: "pd \<in> dirs s" and m: "m < 977920"
  shows "pte_of s pd m \<noteq> 0 \<Longrightarrow> PGNUM (forked_entry s pd cd k pd m) = PGNUM (pte_of s pd m)"
    and "forked_entry s pd cd k pd m = 0 \<longleftrightarrow> pte_of s pd m = 0"
proof -
  have "PGNUM (child_entry (pte_of s pd m)) = PGNUM (pte_of s pd m)" if "pte_of s pd m \<noteq> 0"
    by (rule child_PGNUM [OF inv, of pd m]) (use that pd m in \<open>simp add: mappers_def\<close>)
  then show "pte_of s pd m \<noteq> 0 \<Longrightarrow> PGNUM (forked_entry s pd cd k pd m) = PGNUM (pte_of s pd m)"
    by (auto simp: forked_entry_def parent_entry_def)
  show "forked_entry s pd cd k pd m = 0 \<longleftrightarrow> pte_of s pd m = 0"
    using child_nonzero by (auto simp: forked_entry_def parent_entry_def copyable_def)
qed

text \<open>The counts at most double.\<close>

lemma forked_refs:
  assumes inv: "kinv s fl el kx" and pd: "pd \<in> dirs s" "cd \<in> dirs s" "cd \<noteq> pd"
    and inv': "kinv s' fl' el kx" and f: "forked s fl pd cd k s' fl'" and m: "k < 977920" "pte_of s pd k \<noteq> 0"
  shows "unat (pp_ref (pages s' (PGNUM (pte_of s pd k)))) \<le> 2 * unat (pp_ref (pages s (PGNUM (pte_of s pd k))))"
proof -
  define q where "q = PGNUM (pte_of s pd k)"
  have d: "dirs s' = dirs s" "pgdirs s' = pgdirs s"
    using dirs_cong [of s s'] f unfolding forked_def by (simp, simp add: vm_frame_def pgdirs_def)
  have e: "pte_of s' x n = forked_entry s pd cd k x n" if "x \<in> dirs s" "n < 977920" for x n
    using f that unfolding forked_def by blast
  have "mappers s' q \<subseteq> mappers s q \<union> Pair cd ` snd ` mappers s q"
  proof
    fix x assume "x \<in> mappers s' q"
    then obtain y n where x: "x = (y, n)" "y \<in> dirs s" "n < 977920"
        "forked_entry s pd cd k y n \<noteq> 0" "PGNUM (forked_entry s pd cd k y n) = q"
      by (auto simp: mappers_def d e)
    show "x \<in> mappers s q \<union> Pair cd ` snd ` mappers s q"
    proof (cases "n < k \<and> copyable s pd n \<and> (y = cd \<or> y = pd)")
      case True
      then have nz: "pte_of s pd n \<noteq> 0" by (auto simp: copyable_def)
      have "PGNUM (forked_entry s pd cd k y n) = PGNUM (pte_of s pd n)"
        using True forked_PGNUM(1) [OF inv pd(1) x(3) nz, of cd k] child_PGNUM [OF inv, of pd n "pte_of s pd n"] nz pd x
        by (auto simp: forked_entry_def mappers_def)
      then have "(pd, n) \<in> mappers s q" using x nz pd by (simp add: mappers_def)
      then have "n \<in> snd ` mappers s q" by (metis image_eqI snd_conv)
      then show ?thesis using True x(1) \<open>(pd, n) \<in> mappers s q\<close> by auto
    next
      case False
      then have "forked_entry s pd cd k y n = pte_of s y n" by (auto simp: forked_entry_def)
      then show ?thesis using x by (auto simp: mappers_def)
    qed
  qed
  then have "card (mappers s' q) \<le> card (mappers s q \<union> Pair cd ` snd ` mappers s q)"
    by (intro card_mono) (simp_all add: finite_mappers [OF inv])
  also have "\<dots> \<le> card (mappers s q) + card (Pair cd ` snd ` mappers s q)" by (rule card_Un_le)
  also have "\<dots> \<le> 2 * card (mappers s q)"
    using card_image_le [of "mappers s q" "\<lambda>x. (cd, snd x)"] finite_mappers [OF inv] by (simp add: image_image)
  finally have card: "card (mappers s' q) \<le> 2 * card (mappers s q)" .
  have "(pd, k) \<in> mappers s q" using m pd by (simp add: mappers_def q_def)
  moreover have "pte_of s' pd k = pte_of s pd k" using e [OF pd(1) m(1)] by (simp add: forked_entry_def)
  then have "(pd, k) \<in> mappers s' q" using m pd by (simp add: mappers_def q_def d)
  ultimately show ?thesis
    using refs_mappers(1) [OF inv] refs_mappers(1) [OF inv'] card unfolding q_def [symmetric] by (fastforce simp: d)
qed


lemma missing_step:
  assumes c: "copied s fl pd cd n s' fl'" and n: "n < 977920" and pde: "rd s pd (n div 1024) \<noteq> 0"
  shows "missing s' pd cd = missing s pd cd - {n div 1024}" and "finite (missing s pd cd)"
    and "length fl + card (missing s' pd cd) \<le> length fl' + card (missing s pd cd)"
proof -
  have i: "n div 1024 < 955" using n by (simp add: div_less_iff_less_mult)
  show m: "missing s' pd cd = missing s pd cd - {n div 1024}"
  proof (intro set_eqI)
    fix x
    have "rd s' cd x = rd s cd x" if "x \<noteq> n div 1024" using c that unfolding copied_def by blast
    moreover have "rd s' cd (n div 1024) \<noteq> 0" "rd s' pd = rd s pd" using c by (simp_all add: copied_def)
    ultimately show "x \<in> missing s' pd cd \<longleftrightarrow> x \<in> missing s pd cd - {n div 1024}"
      by (cases "x = n div 1024") (simp_all add: missing_def)
  qed
  show fin: "finite (missing s pd cd)" by (simp add: missing_def)
  show "length fl + card (missing s' pd cd) \<le> length fl' + card (missing s pd cd)"
  proof (cases "n div 1024 \<in> missing s pd cd")
    case True
    then have "card (missing s pd cd) = Suc (card (missing s' pd cd))" unfolding m by (rule card.remove [OF fin])
    then show ?thesis using c True by (simp add: copied_def missing_def)
  next
    case False
    then show ?thesis using c i pde by (auto simp: m copied_def missing_def split: if_splits)
  qed
qed

lemma forked_step:
  assumes inv: "kinv s fl el kx" and pd: "pd \<in> dirs s" "cd \<in> dirs s" "cd \<noteq> pd"
    and f: "forked s fl pd cd k s1 fl1" and k: "k < 977920" "copyable s pd k"
    and c: "copied s1 fl1 pd cd k s2 fl2"
    and e: "\<forall>d\<in>dirs s1. \<forall>m<977920. pte_of s2 d m =
          (if m = k \<and> d = cd then child_entry (pte_of s1 pd k)
           else if m = k \<and> d = pd then parent_entry (pte_of s1 pd k) else pte_of s1 d m)"
  shows "forked s fl pd cd (Suc k) s2 fl2"
proof -
  have fr: "vm_frame s s1" using f by (simp add: forked_def)
  note d = dirs_cong [OF fr]
  have e1: "pte_of s1 x m = forked_entry s pd cd k x m" if "x \<in> dirs s" "m < 977920" for x m
    using f that unfolding forked_def by blast
  have k1: "pte_of s1 pd k = pte_of s pd k" using e1 [OF pd(1) k(1)] by (simp add: forked_entry_def)
  have pde: "rd s1 pd (k div 1024) \<noteq> 0"
    using k(2) k1 by (auto simp: copyable_def pte_of_def Let_def split: if_splits)
  have "pte_of s2 x m = forked_entry s pd cd (Suc k) x m" if "x \<in> dirs s" "m < 977920" for x m
    using e [rule_format, of x m] e1 [OF that] that k k1 pd
    by (auto simp: d forked_entry_def less_Suc_eq)
  moreover have "rd s2 (PGNUM (pte_of s pd m)) = rd s (PGNUM (pte_of s pd m))"
    if m: "m < 977920" "pte_of s pd m \<noteq> 0" "PGNUM (pte_of s pd m) \<notin> dirs s" for m
  proof -
    have "PGNUM (pte_of s1 pd m) = PGNUM (pte_of s pd m)" "pte_of s1 pd m \<noteq> 0"
      using forked_PGNUM [OF inv pd(1) m(1), of cd k] m e1 [OF pd(1) m(1)] by simp_all
    then have "rd s2 (PGNUM (pte_of s pd m)) = rd s1 (PGNUM (pte_of s pd m))"
      using c m by (auto simp: copied_def d)
    also have "\<dots> = rd s (PGNUM (pte_of s pd m))" using f m unfolding forked_def by blast
    finally show ?thesis .
  qed
  moreover have "vm_frame s s2" using vm_frame_trans [OF fr] c by (simp add: copied_def)
  moreover have "length fl + card (missing s2 pd cd) \<le> length fl2 + card (missing s pd cd)"
    using missing_step(3) [OF c k(1) pde] f by (simp add: forked_def)
  ultimately show ?thesis unfolding forked_def by blast
qed

lemma forked_skip:
  assumes "forked s fl pd cd k s1 fl1" and "\<not> copyable s pd k"
  shows "forked s fl pd cd (Suc k) s1 fl1"
proof -
  have "forked_entry s pd cd (Suc k) d m = forked_entry s pd cd k d m" for d m
    using assms(2) by (auto simp: forked_entry_def less_Suc_eq)
  then show ?thesis using assms(1) by (simp add: forked_def)
qed

lemma fork_loop:
  assumes inv: "kinv s fl el kx" and pd: "pd \<in> dirs s" "cd \<in> dirs s" "cd \<noteq> pd"
    and few: "\<And>m. m < 977920 \<Longrightarrow> pte_of s pd m \<noteq> 0 \<Longrightarrow> unat (pp_ref (pages s (PGNUM (pte_of s pd m)))) < 32767"
    and room: "card (missing s pd cd) \<le> length fl"
    and k: "k + n = 977920" and inv1: "kinv s1 fl1 el kx" and fam: "family s1 c pd envid cd"
    and f: "forked s fl pd cd k s1 fl1"
  shows "\<exists>s' fl'. each_page (fork_page b envid) k n s1 = returns () s' \<and> kinv s' fl' el kx
     \<and> family s' c pd envid cd \<and> forked s fl pd cd 977920 s' fl'"
  using k inv1 fam f
proof (induction n arbitrary: k s1 fl1)
  case 0
  then show ?case by auto
next
  case (Suc n)
  have kn: "k < 977920" using Suc.prems(1) by simp
  have run: "runs_in s1 c pd" using Suc.prems(3) by (simp add: family_def)
  have fr: "dirs s1 = dirs s" using Suc.prems(4) dirs_cong unfolding forked_def by blast
  have same: "pte_of s1 pd k = pte_of s pd k"
    using Suc.prems(4) pd(1) kn unfolding forked_def by (auto simp: forked_entry_def)
  then have cp: "copyable s1 pd k = copyable s pd k" by (simp add: copyable_def)
  note body = fork_page_calls [OF Suc.prems(2) run kn, of b envid]
  show ?case
  proof (cases "copyable s pd k")
    case False
    from Suc.IH [OF _ Suc.prems(2,3) forked_skip [OF Suc.prems(4) False]] Suc.prems(1) show ?thesis
      by (simp add: body cp False returns_def)
  next
    case True
    then have some: "pte_of s pd k \<noteq> 0" by (auto simp: copyable_def)
    have "k div 1024 < 955" using kn by (simp add: div_less_iff_less_mult)
    moreover have "rd s1 pd (k div 1024) \<noteq> 0"
      using some same by (auto simp: pte_of_def Let_def split: if_splits)
    ultimately have "card (missing s1 pd cd) \<noteq> 0" if "rd s1 cd (k div 1024) = 0" using that by (auto simp: missing_def)
    moreover have "length fl + card (missing s1 pd cd) \<le> length fl1 + card (missing s pd cd)"
      using Suc.prems(4) by (simp add: forked_def)
    ultimately have room1: "rd s1 cd (k div 1024) \<noteq> 0 \<or> fl1 \<noteq> []" using room by auto
    have few1: "unat (pp_ref (pages s1 (PGNUM (pte_of s1 pd k)))) < 65534"
      using forked_refs [OF inv pd Suc.prems(2,4) kn some] few [OF kn some] by (simp add: same)
    have user: "pte_of s1 pd k AND PTE_P \<noteq> 0" "pte_of s1 pd k AND PTE_U \<noteq> 0"
      using True by (simp_all add: same copyable_def)
    from duppage_effect [OF Suc.prems(2,3) kn user room1 few1, of b] obtain s2 fl2 where
      s2: "duppage b envid k s1 = returns () s2" "kinv s2 fl2 el kx" "family s2 c pd envid cd"
        "copied s1 fl1 pd cd k s2 fl2"
        "\<forall>d\<in>dirs s1. \<forall>m<977920. pte_of s2 d m =
          (if m = k \<and> d = cd then child_entry (pte_of s1 pd k)
           else if m = k \<and> d = pd then parent_entry (pte_of s1 pd k) else pte_of s1 d m)" by blast
    from Suc.IH [OF _ s2(2,3) forked_step [OF inv pd Suc.prems(4) kn True s2(4,5)]] Suc.prems(1) show ?thesis
      by (simp add: body cp True s2(1)) (simp add: returns_def)
  qed
qed


text \<open>
  C7. Copy on write. The page loop of \<open>fork\<close>, run by an environment for a child it controls, with a free
  page for every table of the parent that the child lacks and no page mapped more than 32766 times, returns
  normally. Every user page of the parent below \<open>UTOP\<close>, except the exception stack, is then mapped
  in the child at the same address and by the same physical page; a page that was writable or
  copy-on-write is writable in neither and marked copy-on-write in both; a read-only page is
  read-only in the child and untouched in the parent. All other entries of all address spaces and
  the contents of the parent's pages are unchanged, and the kernel invariant holds.
\<close>

theorem fork_shares_pages:
  assumes inv: "kinv s fl el kx" and fam: "family s c pd envid cd"
    and few: "\<forall>m<NUDIR * NPTENTRIES. pte_of s pd m \<noteq> 0 \<longrightarrow> unat (pp_ref (pages s (PGNUM (pte_of s pd m)))) < 32767"
    and room: "card (missing s pd cd) \<le> length fl"
  shows "\<exists>s' fl'. each_page (fork_page b envid) 0 (PGNUM UTOP) s = returns () s' \<and> kinv s' fl' el kx \<and> envs s' = envs s
     \<and> (\<forall>m<NUDIR * NPTENTRIES. let pte = pte_of s pd m; child = pte_of s' cd m; parent = pte_of s' pd m in
          if copyable s pd m
          then PGNUM child = PGNUM pte \<and> PGNUM parent = PGNUM pte \<and> child AND PTE_W = 0
             \<and> (if cow_page pte then parent AND PTE_W = 0 \<and> parent AND PTE_COW \<noteq> 0 \<and> child AND PTE_COW \<noteq> 0
                else parent = pte)
          else parent = pte \<and> child = pte_of s cd m)
     \<and> (\<forall>d\<in>dirs s - {pd, cd}. \<forall>m<NUDIR * NPTENTRIES. pte_of s' d m = pte_of s d m)
     \<and> (\<forall>m<NUDIR * NPTENTRIES. pte_of s pd m \<noteq> 0 \<longrightarrow> PGNUM (pte_of s pd m) \<notin> dirs s
          \<longrightarrow> rd s' (PGNUM (pte_of s pd m)) = rd s (PGNUM (pte_of s pd m)))"
proof -
  note ds = family_dirs [OF inv fam]
  have ne: "cd \<noteq> pd" using fam by (simp add: family_def)
  have "forked s fl pd cd 0 s fl" by (simp add: forked_def forked_entry_def)
  from fork_loop [OF inv _ _ ne _ room _ inv fam this, of 977920 b] ds few obtain s' fl' where
    s': "each_page (fork_page b envid) 0 977920 s = returns () s'" "kinv s' fl' el kx" "forked s fl pd cd 977920 s' fl'"
    by auto
  have e: "pte_of s' d m = forked_entry s pd cd 977920 d m" if "d \<in> dirs s" "m < 977920" for d m
    using s'(3) that unfolding forked_def by blast
  have low: "child_entry pte AND PTE_W = 0" "cow_page pte \<Longrightarrow> child_entry pte AND PTE_COW \<noteq> 0" for pte
    using page2pa_low share_perm_bits(1,4) by (simp_all add: child_entry_def bit.conj_disj_distrib2 or_eq_0_iff)
  have entries: "let pte = pte_of s pd m; child = pte_of s' cd m; parent = pte_of s' pd m in
          if copyable s pd m
          then PGNUM child = PGNUM pte \<and> PGNUM parent = PGNUM pte \<and> child AND PTE_W = 0
             \<and> (if cow_page pte then parent AND PTE_W = 0 \<and> parent AND PTE_COW \<noteq> 0 \<and> child AND PTE_COW \<noteq> 0
                else parent = pte)
          else parent = pte \<and> child = pte_of s cd m" if m: "m < 977920" for m
  proof (cases "copyable s pd m")
    case False
    then show ?thesis using e [of pd m] e [of cd m] ds m by (simp add: forked_entry_def)
  next
    case True
    then have "(pd, m) \<in> mappers s (PGNUM (pte_of s pd m))" using ds m by (auto simp: mappers_def copyable_def)
    then have "PGNUM (child_entry (pte_of s pd m)) = PGNUM (pte_of s pd m)" by (rule child_PGNUM [OF inv])
    then show ?thesis using True e [of pd m] e [of cd m] ds m ne low [of "pte_of s pd m"]
      unfolding Let_def by (simp add: forked_entry_def parent_entry_def)
  qed
  have "pte_of s' d m = pte_of s d m" if "d \<in> dirs s - {pd, cd}" "m < 977920" for d m
    using e [of d m] that by (simp add: forked_entry_def)
  moreover have "PGNUM UTOP = 977920" by (simp add: PGNUM_div)
  moreover have "envs s' = envs s" using s'(3) by (simp add: forked_def vm_frame_def)
  ultimately show ?thesis using s' entries unfolding forked_def by (intro exI [of _ s'] exI [of _ fl']) auto
qed

text \<open>
  Environment 0, in directory 5, has one writable page at \<open>UTEXT\<close>: page 8, through table 7.
  Environment 1 is its child, with the empty directory 6; pages 9 to 11 are free.
\<close>

definition fork_demo :: kstate where
  "fork_demo = boot_state\<lparr>npages := 16,
     pages := (\<lambda>p. \<lparr>pp_link = (if p = 9 then Some 10 else if p = 10 then Some 11 else None),
        pp_ref = (if 4 \<le> p \<and> p \<le> 8 then 1 else 0)\<rparr>),
     page_free_list := Some 9, kern_pgdir := 4,
     phys := (\<lambda>p i. if p = 5 \<and> i = 2 then 0x7007 else if p = 5 \<and> i = 957 then 0x5005
        else if p = 6 \<and> i = 957 then 0x6005 else if p = 7 \<and> i = 0 then 0x8007
        else if p = 8 \<and> i = 0 then 42 else 0),
     envs := (\<lambda>e. zero_env\<lparr>env_link := (if e < 2 \<or> e + 1 = 1024 then None else Some (e + 1)),
        env_id := (if e = 0 then 0x1000 else if e = 1 then 0x1001 else 0),
        env_parent_id := (if e = 1 then 0x1000 else 0),
        env_status := (if e = 0 then ENV_RUNNING else if e = 1 then ENV_NOT_RUNNABLE else ENV_FREE),
        env_pgdir := (if e = 0 then Some 5 else if e = 1 then Some 6 else None)\<rparr>),
     env_free_list := Some 2, kernel_lock := Some 0, cr3 := (\<lambda>_. 5),
     cpus := (\<lambda>i. \<lparr>cpu_id = of_nat i, cpu_status = CPU_STARTED, cpu_env = (if i = 0 then Some 0 else None)\<rparr>)\<rparr>"

lemma fork_demo_rd: "rd fork_demo p i =
     (if p = 5 \<and> i = 2 then 0x7007 else if p = 5 \<and> i = 957 then 0x5005
      else if p = 6 \<and> i = 957 then 0x6005 else if p = 7 \<and> i = 0 then 0x8007
      else if p = 8 \<and> i = 0 then 42 else 0)"
  by (simp add: fork_demo_def rd_def)

lemma fork_demo_dirs: "dirs fork_demo = {4, 5, 6}" "pgdirs fork_demo = {5, 6}"
  by (auto simp: dirs_def pgdirs_def fork_demo_def zero_env_def split: if_splits)

lemma fork_demo_pte: "n < 977920 \<Longrightarrow> pd \<in> {4, 5, 6} \<Longrightarrow> pte_of fork_demo pd n = (if pd = 5 \<and> n = 2048 then 0x8007 else 0)"
proof -
  assume n: "n < 977920" "pd \<in> {4, 5, 6}"
  then have i: "n div 1024 < 955" by (simp add: div_less_iff_less_mult)
  have "n div 1024 = 2 \<and> n mod 1024 = 0 \<longleftrightarrow> n = 2048" using div_mult_mod_eq [of n 1024] by auto
  moreover have "PGNUM 0x7007 = 7" by (simp add: PGNUM_div)
  ultimately show ?thesis using i n by (auto simp: pte_of_def fork_demo_rd Let_def)
qed

lemma fork_demo_slots:
  "x \<in> slots {4, 5, 6} \<Longrightarrow> slot_val fork_demo x = (if x = PDE 5 2 then 0x7007 else if x = PTE 5 2048 then 0x8007 else 0)"
  by (cases x) (auto simp: fork_demo_rd fork_demo_pte)

lemma fork_demo_holders:
  "holders fork_demo {4, 5, 6} p = (if p = 7 then {PDE 5 2} else if p = 8 then {PTE 5 2048} else {})"
proof -
  have pn: "PGNUM 0x7007 = 7" "PGNUM 0x8007 = 8" by (simp_all add: PGNUM_div)
    have "x \<in> holders fork_demo {4, 5, 6} p \<longleftrightarrow> x = PDE 5 2 \<and> p = 7 \<or> x = PTE 5 2048 \<and> p = 8" for x
    proof (cases "x \<in> slots {4, 5, 6}")
      case True
      then have "x \<in> holders fork_demo {4, 5, 6} p \<longleftrightarrow> slot_val fork_demo x \<noteq> 0 \<and> PGNUM (slot_val fork_demo x) = p"
        by (simp only: holders_def mem_Collect_eq simp_thms)
      note iff = this [unfolded fork_demo_slots [OF True]]
      show ?thesis
      proof (cases "x = PDE 5 2")
        case True
        then show ?thesis unfolding iff if_P [OF True] pn by simp
      next
        case no: False
        show ?thesis
        proof (cases "x = PTE 5 2048")
          case True
          then show ?thesis unfolding iff if_not_P [OF no] if_P [OF True] pn by simp
        next
          case False
          then show ?thesis unfolding iff if_not_P [OF no] if_not_P [OF False] using no by simp
        qed
      qed
    next
      case False
      have "PDE 5 2 \<in> slots {4, 5, 6}" "PTE 5 2048 \<in> slots {4, 5, 6}" by simp_all
      then have "x \<noteq> PDE 5 2" "x \<noteq> PTE 5 2048" using False by metis+
      then show ?thesis using False by (simp add: holders_def)
    qed
    then show ?thesis by (intro set_eqI) (simp split: if_split)
qed

lemma fork_demo_ref_inv: "ref_inv fork_demo {4, 5, 6} [9, 10, 11] (held {5, 6} live_kx)"
proof -
  have pn: "PGNUM 0x7007 = 7" "PGNUM 0x8007 = 8" by (simp_all add: PGNUM_div)
  have ext: "held {5, 6} live_kx p = (if p \<in> {4, 5, 6} then 1 else 0)" for p by (simp add: held_def live_kx_def)
  have f: "npages fork_demo = 16" "kern_pgdir fork_demo = 4" "\<And>p. pp_ref (pages fork_demo p) = (if 4 \<le> p \<and> p \<le> 8 then 1 else 0)"
    by (simp_all add: fork_demo_def)
  have val: "slot_val fork_demo x = 0x7007 \<or> slot_val fork_demo x = 0x8007"
    if x: "x \<in> slots {4, 5, 6}" "slot_val fork_demo x \<noteq> 0" for x using x(2) fork_demo_slots [OF x(1)] by metis
  show ?thesis
    unfolding ref_inv_def
  proof (intro conjI ballI allI impI)
    show "free_pages fork_demo [9, 10, 11]" by (auto simp: free_pages_def page_link_def fork_demo_def)
    show "PGNUM (slot_val fork_demo x) < npages fork_demo" "PGNUM (slot_val fork_demo x) \<noteq> kern_pgdir fork_demo" "slot_val fork_demo x AND PTE_P \<noteq> 0"
      if "x \<in> slots {4, 5, 6}" "slot_val fork_demo x \<noteq> 0" for x
      using val [OF that] pn by (elim disjE; simp only: f; simp)+
    show "pp_ref (pages fork_demo (PGNUM (rd fork_demo pd i))) = 1"
      if "pd \<in> {4, 5, 6}" "i < NUDIR" "rd fork_demo pd i \<noteq> 0" for pd i
    proof -
      have "rd fork_demo pd i = 0x7007" using that by (auto simp: fork_demo_rd split: if_splits)
      then show ?thesis using pn f(3) by simp
    qed
    show "unat (pp_ref (pages fork_demo p)) = card (holders fork_demo {4, 5, 6} p) + held {5, 6} live_kx p" for p
      unfolding fork_demo_holders ext f(3) by auto
  qed (auto simp: mem_ok_def ext f)
qed

lemma fork_demo_kinv: "kinv fork_demo [9, 10, 11] [2..<1024] live_kx"
  unfolding kinv_def
proof (intro conjI allI impI)
  show "ref_inv fork_demo (dirs fork_demo) [9, 10, 11] (held (pgdirs fork_demo) live_kx)"
    by (simp only: fork_demo_dirs fork_demo_ref_inv)
  have "chain (env_link_of fork_demo) (Some 2) [2..<1024]"
    by (rule chain_up) (auto simp: env_link_of_def fork_demo_def simp del: upt_rec_numeral)
  then show "free_envs fork_demo [2..<1024]"
    unfolding free_envs_def set_upt by (auto simp: fork_demo_def simp del: upt_rec_numeral)
  show "(env_pgdir (envs fork_demo e) = None) = (env_status (envs fork_demo e) = ENV_FREE)" for e
    by (simp add: fork_demo_def)
  show "e = e'" if "env_pgdir (envs fork_demo e) \<noteq> None" "env_pgdir (envs fork_demo e) = env_pgdir (envs fork_demo e')" for e e'
    using that by (auto simp: fork_demo_def split: if_splits)
  show "kern_pgdir fork_demo \<notin> pgdirs fork_demo" by (simp add: fork_demo_dirs) (simp add: fork_demo_def)
  show "rd fork_demo (kern_pgdir fork_demo) i = 0" for i by (simp add: fork_demo_rd) (simp add: fork_demo_def)
qed

lemma fork_demo_runs: "runs_in fork_demo 0 5"
proof -
  have "open_pde 0x7007" by (simp add: open_pde_def)
  then show ?thesis
    by (auto simp: runs_in_def fork_demo_dirs fork_demo_rd page2pa_def may_manage_def controls_def)
      (auto simp: fork_demo_def curenv_def boot_state_def)
qed

lemma fork_demo_family: "family fork_demo 0 5 0x1001 6"
  using fork_demo_runs
  by (auto simp: family_def may_manage_def controls_def target_def ENVX_def) (auto simp: fork_demo_def curenv_def boot_state_def)

theorem fork_shares_pages_witness:
  "\<exists>s'. each_page (fork_page SCHED_ROUND_ROBIN 0x1001) 0 (PGNUM UTOP) fork_demo = returns () s'
     \<and> PGNUM (pte_of s' 6 2048) = 8 \<and> pte_of s' 6 2048 AND PTE_W = 0 \<and> pte_of s' 5 2048 AND PTE_W = 0"
proof -
  have pn: "PGNUM 0x8007 = 8" by (simp add: PGNUM_div)
  have "unat (pp_ref (pages fork_demo p)) < 32767" for p by (simp add: fork_demo_def)
  moreover have "missing fork_demo 5 6 \<subseteq> {2}" by (auto simp: missing_def fork_demo_rd)
  then have "card (missing fork_demo 5 6) \<le> card {2 :: nat}" by (intro card_mono) simp_all
  ultimately obtain s' where s': "each_page (fork_page SCHED_ROUND_ROBIN 0x1001) 0 (PGNUM UTOP) fork_demo = returns () s'"
    and e: "\<forall>m<NUDIR * NPTENTRIES. let pte = pte_of fork_demo 5 m; child = pte_of s' 6 m; parent = pte_of s' 5 m in
          if copyable fork_demo 5 m
          then PGNUM child = PGNUM pte \<and> PGNUM parent = PGNUM pte \<and> child AND PTE_W = 0
             \<and> (if cow_page pte then parent AND PTE_W = 0 \<and> parent AND PTE_COW \<noteq> 0 \<and> child AND PTE_COW \<noteq> 0
                else parent = pte)
          else parent = pte \<and> child = pte_of fork_demo 6 m"
    using fork_shares_pages [OF fork_demo_kinv fork_demo_family, of SCHED_ROUND_ROBIN] by (auto simp del: upt_Suc)
  have "pte_of fork_demo 5 2048 = 0x8007" by (simp add: fork_demo_pte)
  moreover have "PGNUM UXSTACKTOP = 977920" by (simp add: PGNUM_div)
  ultimately have "copyable fork_demo 5 2048" "cow_page (pte_of fork_demo 5 2048)"
    by (simp_all add: copyable_def cow_page_def)
  with e [rule_format, of 2048] pn s' \<open>pte_of fork_demo 5 2048 = 0x8007\<close> show ?thesis
    by (intro exI [of _ s']) (simp add: Let_def)
qed

end
