(* ===== verification/Loader.thy ===== *)
theory Loader
  imports UserLibProps UserMem
begin

text \<open>
  The loader of \<open>kern/env.c\<close> is correct: \<open>region_alloc\<close>, \<open>load_icode\<close> and \<open>env_create\<close> under the
  kernel invariant. Each virtual page of the program costs a fresh frame of its own, so that a
  store through the new address space reaches the program and nothing else.
\<close>

section \<open>The bytes of an address space\<close>

text \<open>What a program that may write at \<open>va\<close> reads there.\<close>

definition user_byte :: "kstate \<Rightarrow> nat \<Rightarrow> u32 \<Rightarrow> u8 option" where
  "user_byte s pd va =
     map_option (\<lambda>(pg, off). get_byte (rd s pg (off div 4)) (off mod 4)) (translate s pd True va)"

text \<open>
  \<open>pd\<close> maps exactly the virtual pages \<open>N\<close> below \<open>UTOP\<close>, each for user and write, each to a frame
  that nothing else maps.
\<close>

definition rw_entry :: "nat \<Rightarrow> u32" where
  "rw_entry q = page2pa q OR (PTE_U OR PTE_W) OR PTE_P"

definition owns :: "kstate \<Rightarrow> nat \<Rightarrow> nat set \<Rightarrow> bool" where
  "owns s pd N \<longleftrightarrow> N \<subseteq> {..<977920} \<and> (\<forall>i<955. rd s pd i \<noteq> 0 \<longrightarrow> open_pde (rd s pd i))
     \<and> (\<forall>n<977920. n \<notin> N \<longrightarrow> pte_of s pd n = 0)
     \<and> (\<forall>n\<in>N. \<exists>q<1048576. pte_of s pd n = rw_entry q \<and> mappers s q = {(pd, n)} \<and> q \<notin> dirs s)"

lemma rw_entry_bits: "rw_entry q AND PTE_P \<noteq> 0" "rw_entry q AND PTE_W \<noteq> 0" "rw_entry q AND PTE_U \<noteq> 0"
    "rw_entry q \<noteq> 0"
  by (simp_all add: rw_entry_def bit.conj_disj_distrib2 or_eq_0_iff)

lemma rw_entry_PGNUM: "q < 1048576 \<Longrightarrow> PGNUM (rw_entry q) = q"
  by (simp add: rw_entry_def or.assoc)

lemma user_PGNUM: "va < UTOP \<longleftrightarrow> PGNUM va < 977920"
  by (simp add: PGNUM_div word_less_nat_alt) auto

lemma owns_frame:
  assumes "owns s pd N" and "n \<in> N"
  obtains q where "q < 1048576" and "pte_of s pd n = rw_entry q" and "mappers s q = {(pd, n)}" and "q \<notin> dirs s"
    and "open_pde (rd s pd (n div 1024))" and "n < 977920"
proof -
  from assms obtain q where q: "q < 1048576" "pte_of s pd n = rw_entry q" "mappers s q = {(pd, n)}" "q \<notin> dirs s"
    by (auto simp: owns_def)
  have n: "n < 977920" using assms by (auto simp: owns_def)
  moreover have "rd s pd (n div 1024) \<noteq> 0" using q(2) rw_entry_bits(4) by (auto simp: pte_of_def)
  ultimately have "open_pde (rd s pd (n div 1024))" using assms by (auto simp: owns_def div_less_iff_less_mult)
  with q n that show thesis by blast
qed

lemma translate_owned:
  assumes "owns s pd N" and "PGNUM va \<in> N"
  shows "translate s pd w va = Some (PGNUM (pte_of s pd (PGNUM va)), unat va mod 4096)"
proof -
  from owns_frame [OF assms] obtain q where
    q: "pte_of s pd (PGNUM va) = rw_entry q" "open_pde (rd s pd (PGNUM va div 1024))" by blast
  then have "rd s pd (PDX va) \<noteq> 0" by (auto simp: open_pde_def PDX_PGNUM)
  then have "rd s (PGNUM (rd s pd (PDX va))) (PTX va) = rw_entry q" using q(1) by (simp add: pte_of_va)
  then show ?thesis
    using q rw_entry_bits [of q] by (simp add: translate_def open_pde_def PDX_PGNUM PTX_PGNUM PGOFF_mod Let_def)
qed

lemma user_byte_owned:
  assumes "owns s pd N" and "PGNUM va \<in> N"
  shows "user_byte s pd va = Some (get_byte (rd s (PGNUM (pte_of s pd (PGNUM va))) (unat va mod 4096 div 4)) (unat va mod 4))"
proof -
  have "unat va mod 4096 mod 4 = unat va mod 4" by (rule mod_mod_cancel) simp
  then show ?thesis by (simp add: user_byte_def translate_owned [OF assms])
qed

lemma user_byte_unowned:
  assumes "owns s pd N" and "PGNUM va \<notin> N" and "va < UTOP"
  shows "user_byte s pd va = None"
proof -
  have "pte_of s pd (PGNUM va) = 0" using assms user_PGNUM by (auto simp: owns_def)
  then have "rd s pd (PDX va) = 0 \<or> rd s (PGNUM (rd s pd (PDX va))) (PTX va) = 0"
    by (auto simp: pte_of_va split: if_splits)
  then show ?thesis by (auto simp: user_byte_def translate_def Let_def)
qed

text \<open>The other address spaces: their entries and the contents of the pages they map.\<close>

definition others_kept :: "kstate \<Rightarrow> nat \<Rightarrow> kstate \<Rightarrow> bool" where
  "others_kept s pd s' \<longleftrightarrow> (\<forall>pd'\<in>dirs s. pd' \<noteq> pd \<longrightarrow> rd s' pd' = rd s pd' \<and> (\<forall>n<977920. pte_of s' pd' n = pte_of s pd' n
     \<and> (pte_of s pd' n \<noteq> 0 \<and> PGNUM (pte_of s pd' n) \<notin> dirs s
          \<longrightarrow> rd s' (PGNUM (pte_of s pd' n)) = rd s (PGNUM (pte_of s pd' n)))))"

definition loading :: "kstate \<Rightarrow> nat list \<Rightarrow> nat list \<Rightarrow> (nat \<Rightarrow> nat) \<Rightarrow> nat \<Rightarrow> nat \<Rightarrow> nat set \<Rightarrow> bool" where
  "loading s fl el kx e pd N \<longleftrightarrow>
     kinv s fl el kx \<and> e < 1024 \<and> env_pgdir (envs s e) = Some pd \<and> owns s pd N"

text \<open>
  One step of the loader: it goes on loading with the pages \<open>N'\<close>, at the cost of at most \<open>k\<close>
  free pages, and the bytes that were there are still there, but for those in \<open>W\<close>.
\<close>

definition loads_on ::
  "kstate \<Rightarrow> nat list \<Rightarrow> nat list \<Rightarrow> (nat \<Rightarrow> nat) \<Rightarrow> nat \<Rightarrow> nat \<Rightarrow> nat set \<Rightarrow> u32 set \<Rightarrow> nat \<Rightarrow> nat set
     \<Rightarrow> kstate \<Rightarrow> nat list \<Rightarrow> bool" where
  "loads_on s fl el kx e pd N W k N' s' fl' \<longleftrightarrow> loading s' fl' el kx e pd N' \<and> N \<subseteq> N' \<and> vm_frame s s'
     \<and> length fl \<le> length fl' + k \<and> others_kept s pd s'
     \<and> (\<forall>va. PGNUM va \<in> N \<longrightarrow> va \<notin> W \<longrightarrow> user_byte s' pd va = user_byte s pd va)"

lemma others_kept_trans:
  assumes "others_kept s pd t" and "others_kept t pd u" and "dirs t = dirs s"
  shows "others_kept s pd u"
  using assms unfolding others_kept_def by simp

lemma loads_on_refl: "loading s fl el kx e pd N \<Longrightarrow> loads_on s fl el kx e pd N W 0 N s fl"
  by (simp add: loads_on_def others_kept_def)

lemma loads_on_trans:
  assumes "loads_on s fl el kx e pd N W k N' t fl'" and "loads_on t fl' el kx e pd N' W' k' N'' u fl''"
  shows "loads_on s fl el kx e pd N (W \<union> W') (k + k') N'' u fl''"
  using assms others_kept_trans [of s pd t u] dirs_cong [of s t] vm_frame_trans [of s t u]
  unfolding loads_on_def by auto

section \<open>region_alloc\<close>

lemma free_unmapped: "kinv s fl el kx \<Longrightarrow> q \<in> set fl \<Longrightarrow> mappers s q = {}"
  using refs_mappers(3) by fast

lemma mappers_fill:
  assumes pte: "\<forall>pd'\<in>dirs s. \<forall>m<977920. pte_of s' pd' m = (if pd' = pd \<and> m = n then x else pte_of s pd' m)"
    and ds: "dirs s' = dirs s" "pd \<in> dirs s" and n: "n < 977920" "pte_of s pd n = 0" and x: "x \<noteq> 0"
  shows "mappers s' q = (if q = PGNUM x then insert (pd, n) (mappers s q) else mappers s q)"
proof (rule set_eqI)
  fix y :: "nat \<times> nat"
  obtain d m where y: "y = (d, m)" by fastforce
  have "y \<in> mappers s' q \<longleftrightarrow> d \<in> dirs s \<and> m < 977920
      \<and> (if d = pd \<and> m = n then PGNUM x = q else pte_of s d m \<noteq> 0 \<and> PGNUM (pte_of s d m) = q)"
    using pte x by (auto simp: mappers_def y ds(1))
  also have "\<dots> \<longleftrightarrow> y \<in> (if q = PGNUM x then insert (pd, n) (mappers s q) else mappers s q)"
    using ds(2) n by (auto simp: mappers_def y)
  finally show "y \<in> mappers s' q \<longleftrightarrow> y \<in> (if q = PGNUM x then insert (pd, n) (mappers s q) else mappers s q)" .
qed

text \<open>One page: taken from the free list and mapped where nothing was.\<close>

lemma load_page:
  assumes ld: "loading s (p # fl) el kx e pd N" and n: "n \<notin> N" "n < 977920" and fl: "fl \<noteq> []"
  shows "\<exists>s1 s' fl'. page_alloc 0 s = Inr (Some p, s1)
     \<and> page_insert pd p (page_addr n) (PTE_U OR PTE_W) s1 = Inr (Inr (), s')
     \<and> loads_on s (p # fl) el kx e pd N {} 2 (insert n N) s' fl'"
proof -
  have inv: "kinv s (p # fl) el kx" and e: "e < 1024" "env_pgdir (envs s e) = Some pd" and own: "owns s pd N"
    using ld by (simp_all add: loading_def)
  have pdd: "pd \<in> dirs s" by (rule kinv_dir [OF e(2,1)])
  note a = page_addr_props [OF n(2)]
  have dir: "PDX (page_addr n) = n div 1024" by (simp add: PDX_PGNUM a)
  have ndir: "n div 1024 < 955" using n by (simp add: div_less_iff_less_mult)
  have p: "p < 1048576" using kinv_ref [OF inv] by (auto simp: ref_inv_def free_pages_def mem_ok_def)
  have ok: "perm_ok (PTE_U OR PTE_W)" by simp
  from alloc_insert [OF inv e a(4) ok disjI2 [OF fl], of 0, folded rw_entry_def, unfolded a(2) dir] obtain s1 s' fl' where
    run: "page_alloc 0 s = Inr (Some p, s1)" "page_insert pd p (page_addr n) (PTE_U OR PTE_W) s1 = Inr (Inr (), s')"
    and k': "kinv s' fl' el kx" and fr: "vm_frame s s'"
    and pte: "\<forall>pd'\<in>dirs s. \<forall>m<977920. pte_of s' pd' m = (if pd' = pd \<and> m = n then rw_entry p else pte_of s pd' m)"
    and data: "\<forall>q. plain s (p # fl) q \<longrightarrow> rd s' q = rd s q"
    and pdes: "\<forall>pd'\<in>dirs s. \<forall>i. (pd', i) \<noteq> (pd, n div 1024) \<or> rd s pd (n div 1024) \<noteq> 0 \<longrightarrow> rd s' pd' i = rd s pd' i"
    and pde: "rd s' pd (n div 1024) \<noteq> 0 \<and> (rd s pd (n div 1024) = 0 \<longrightarrow> open_pde (rd s' pd (n div 1024)))"
    and len: "length fl \<le> length fl' + (if rd s pd (n div 1024) = 0 then 1 else 0)"
    by blast
  note ds = dirs_cong [OF fr]
  have none: "pte_of s pd n = 0" using own n by (simp add: owns_def)
  have map: "mappers s' q = (if q = p then {(pd, n)} else mappers s q)" for q
    using mappers_fill [OF pte ds pdd n(2) none rw_entry_bits(4), of q] free_unmapped [OF inv, of p] rw_entry_PGNUM [OF p]
    by simp
  have pnd: "p \<notin> dirs s" using free_unheld(3) [OF kinv_ref [OF inv], of p] by simp
  have keep: "rd s' (PGNUM (pte_of s pd' m)) = rd s (PGNUM (pte_of s pd' m))"
    if "pd' \<in> dirs s" "m < 977920" "pte_of s pd' m \<noteq> 0" "PGNUM (pte_of s pd' m) \<notin> dirs s" for pd' m
    using mapped_plain [OF inv _ that(4), of pd' m] data that by (auto simp: mappers_def)
  have own': "owns s' pd (insert n N)"
    unfolding owns_def
  proof (intro conjI allI impI ballI)
    show "insert n N \<subseteq> {..<977920}" using own n by (auto simp: owns_def)
    show "open_pde (rd s' pd i)" if "i < 955" "rd s' pd i \<noteq> 0" for i
      using pde pdes own that pdd by (cases "i = n div 1024 \<and> rd s pd i = 0") (auto simp: owns_def)
    show "pte_of s' pd m = 0" if "m < 977920" "m \<notin> insert n N" for m
      using own pte pdd that by (simp add: owns_def)
    show "\<exists>q<1048576. pte_of s' pd m = rw_entry q \<and> mappers s' q = {(pd, m)} \<and> q \<notin> dirs s'" if m: "m \<in> insert n N" for m
    proof (cases "m = n")
      case True
      then show ?thesis using p map pnd ds pte pdd n by auto
    next
      case False
      with m obtain q where "q < 1048576" "pte_of s pd m = rw_entry q" "mappers s q = {(pd, m)}" "q \<notin> dirs s" "m < 977920"
        using owns_frame [OF own] by (metis insertE)
      moreover from this have "q \<noteq> p" using free_unmapped [OF inv, of p] by auto
      ultimately show ?thesis using map False pte pdd ds by auto
    qed
  qed
  have bytes: "user_byte s' pd va = user_byte s pd va" if va: "PGNUM va \<in> N" for va
  proof -
    have "pte_of s pd (PGNUM va) \<noteq> 0" "PGNUM (pte_of s pd (PGNUM va)) \<notin> dirs s" and m: "PGNUM va < 977920" "PGNUM va \<noteq> n"
      using owns_frame [OF own va] rw_entry_bits(4) rw_entry_PGNUM n va by metis+
    then show ?thesis
      using user_byte_owned [OF own va] user_byte_owned [OF own', of va] va keep [of pd] pte pdd by simp
  qed
  have "others_kept s pd s'" using keep pte pdes by (simp add: others_kept_def fun_eq_iff)
  moreover have "env_pgdir (envs s' e) = Some pd" using e(2) vm_frame_envs [OF fr] by simp
  ultimately have "loads_on s (p # fl) el kx e pd N {} 2 (insert n N) s' fl'"
    using k' e(1) own' fr len bytes unfolding loads_on_def loading_def by (auto split: if_splits)
  with run show ?thesis by blast
qed

lemma page_addr_Suc: "page_addr n + 0x1000 = page_addr (Suc n)"
  by (simp add: page_addr_def push_bit_eq_mult algebra_simps)

lemma region_alloc_loop_loads:
  assumes "loading s fl el kx e pd N" and "{a..<a + k} \<inter> N = {}" and "a + k \<le> 977920" and "2 * k \<le> length fl"
  shows "\<exists>s' fl'. region_alloc_loop pd (page_addr a) k s = Inr s'
     \<and> loads_on s fl el kx e pd N {} (2 * k) (N \<union> {a..<a + k}) s' fl'"
  using assms
proof (induction k arbitrary: s fl N a)
  case 0
  then show ?case using loads_on_refl by fastforce
next
  case (Suc k)
  then obtain p fl0 where fl: "fl = p # fl0" "fl0 \<noteq> []" by (cases fl; cases "tl fl") auto
  have "a \<in> {a..<a + Suc k}" by simp
  then have "a \<notin> N" using Suc.prems(2) by blast
  moreover have "loading s (p # fl0) el kx e pd N" "a < 977920" using Suc.prems(1,3) fl by simp_all
  ultimately obtain s1 s2 fl2 where
    run: "page_alloc 0 s = Inr (Some p, s1)" "page_insert pd p (page_addr a) (PTE_U OR PTE_W) s1 = Inr (Inr (), s2)"
    and st: "loads_on s fl el kx e pd N {} 2 (insert a N) s2 fl2"
    using load_page [of s p fl0 el kx e pd N a] fl by blast
  have "loading s2 fl2 el kx e pd (insert a N)" "2 * k \<le> length fl2" using st Suc.prems(4) by (simp_all add: loads_on_def)
  moreover have "{Suc a..<Suc a + k} \<subseteq> {a..<a + Suc k}" "a \<notin> {Suc a..<Suc a + k}" by auto
  with Suc.prems(2) have "{Suc a..<Suc a + k} \<inter> insert a N = {}" by blast
  moreover have "Suc a + k \<le> 977920" using Suc.prems(3) by simp
  ultimately obtain s' fl' where rest: "region_alloc_loop pd (page_addr (Suc a)) k s2 = Inr s'"
      "loads_on s2 fl2 el kx e pd (insert a N) {} (2 * k) (insert a N \<union> {Suc a..<Suc a + k}) s' fl'"
    using Suc.IH [of s2 fl2 "insert a N" "Suc a"] by blast
  have "insert a N \<union> {Suc a..<Suc a + k} = N \<union> {a..<a + Suc k}" by auto
  with loads_on_trans [OF st rest(2)] rest(1) run show ?case by (simp add: page_addr_Suc) blast
qed

text \<open>The virtual pages a region of \<open>len\<close> bytes at \<open>va\<close> touches.\<close>

definition region_pages :: "u32 \<Rightarrow> u32 \<Rightarrow> nat set" where
  "region_pages va len = {unat va div 4096..<(unat va + unat len + 4095) div 4096}"

lemma region_alloc_loads:
  assumes ld: "loading s fl el kx e pd N" and hi: "unat va + unat len \<le> unat UTOP"
    and new: "region_pages va len \<inter> N = {}" and room: "2 * card (region_pages va len) \<le> length fl"
  shows "\<exists>s' fl'. region_alloc pd va len s = Inr s'
     \<and> loads_on s fl el kx e pd N {} (2 * card (region_pages va len)) (N \<union> region_pages va len) s' fl'"
proof -
  define a where "a = unat va div 4096"
  define b where "b = (unat va + unat len + 4095) div 4096"
  have sum: "unat (va + len) = unat va + unat len" using hi by (simp add: unat_word_ariths)
  have up: "unat (ROUNDUP (va + len) PGSIZE) = 4096 * b"
    using hi unat_ROUNDUP_page [of "va + len"] by (simp add: sum b_def)
  have down: "unat (ROUNDDOWN va PGSIZE) = 4096 * a"
    by (simp only: ROUNDDOWN_page PGNUM_div a_def)
  have b: "b \<le> 977920" using hi by (simp add: b_def)
  have ab: "a \<le> b" unfolding a_def b_def by (rule div_le_mono) simp
  have at_a: "unat (page_addr a) = 4096 * a"
    using ab b by (simp add: page_addr_def push_bit_eq_mult unat_word_ariths unat_of_nat)
  then have "ROUNDDOWN va PGSIZE = page_addr a" by (simp only: word_unat_eq_iff down)
  moreover have "unat UTOP = 4005560320" by simp
  then have "\<not> UTOP < ROUNDUP (va + len) PGSIZE" using b by (simp only: word_less_nat_alt up)
  moreover have "(4096 * b - 4096 * a) div 4096 = b - a" by (simp flip: diff_mult_distrib2)
  ultimately have "region_alloc pd va len s = region_alloc_loop pd (page_addr a) (b - a) s"
    by (simp only: region_alloc_def Let_def up at_a if_False)
  then show ?thesis
    using region_alloc_loop_loads [OF ld, of a "b - a"] new room b ab by (simp add: region_pages_def a_def b_def)
qed

section \<open>Stores through the new address space\<close>

lemma kinv_store:
  assumes inv: "kinv s fl el kx" and q: "plain s fl q" and s': "s' = wr q i w s"
  shows "kinv s' fl el kx" and "\<forall>pd\<in>dirs s. \<forall>n<977920. pte_of s' pd n = pte_of s pd n"
    and "\<forall>pd\<in>dirs s. rd s' pd = rd s pd"
proof -
  note r = kinv_ref [OF inv]
  have other: "rd s' q' j = rd s q' j" if "q' \<noteq> q" for q' j using that by (simp add: s')
  moreover have "q \<notin> dirs s" using q by (simp add: plain_def)
  ultimately show dirs: "\<forall>pd\<in>dirs s. rd s' pd = rd s pd" by (metis ext)
  have "ref_inv s' (dirs s) fl (held (pgdirs s) kx)"
    by (rule ref_inv_other_mem [OF r, of q]) (use q other in \<open>auto simp: plain_def s'\<close>)
  moreover have "vm_frame s s'" by (simp add: s')
  ultimately show "kinv s' fl el kx" using kinv_vm [OF inv, of s' fl] dirs by (simp add: dirs_def)
  show "\<forall>pd\<in>dirs s. \<forall>n<977920. pte_of s' pd n = pte_of s pd n"
  proof (intro ballI allI impI)
    fix pd n assume x: "pd \<in> dirs s" "n < (977920 :: nat)"
    have "slot_val s' (PTE pd n) = slot_val s (PTE pd n)"
      by (rule slot_val_other_mem [OF r, of q]) (use q other x in \<open>auto simp: plain_def\<close>)
    then show "pte_of s' pd n = pte_of s pd n" by simp
  qed
qed

lemma byte_place:
  assumes "(k div 4 :: nat) = j div 4" and "k mod 4 = j mod 4" shows "k = j"
  using assms by (metis mult_div_mod_eq)

lemma store8_loads:
  assumes ld: "loading s fl el kx e pd N" and cr: "cr3 s (cpunum s) = pd" and va: "PGNUM va \<in> N"
  shows "\<exists>s'. store8 va b s = Inr s' \<and> loads_on s fl el kx e pd N {va} 0 N s' fl \<and> user_byte s' pd va = Some b"
proof -
  have inv: "kinv s fl el kx" and e: "e < 1024" "env_pgdir (envs s e) = Some pd" and own: "owns s pd N"
    using ld by (simp_all add: loading_def)
  have pdd: "pd \<in> dirs s" by (rule kinv_dir [OF e(2,1)])
  obtain q where q: "q < 1048576" "pte_of s pd (PGNUM va) = rw_entry q" "mappers s q = {(pd, PGNUM va)}" "q \<notin> dirs s"
    using owns_frame [OF own va] by metis
  define off where "off = unat va mod 4096"
  define s' where "s' = wr q (off div 4) (set_byte (rd s q (off div 4)) (off mod 4) b) s"
  have run: "store8 va b s = Inr s'"
    using translate_owned [OF own va, of True] q(2) rw_entry_PGNUM [OF q(1)] by (simp add: store8_def cr s'_def off_def)
  have pl: "plain s fl q" using mapped_plain [OF inv _ q(4), of pd "PGNUM va"] q(3) by simp
  note k = kinv_store [OF inv pl s'_def]
  have fr: "vm_frame s s'" by (simp add: s'_def)
  note ds = dirs_cong [OF fr]
  have map: "mappers s' = mappers s" using k(2) by (auto simp: mappers_def ds fun_eq_iff)
  have own': "owns s' pd N" using own k(2,3) pdd by (auto simp: owns_def map ds)
  have bytes: "user_byte s' pd va' = (if va' = va then Some b else user_byte s pd va')" if va': "PGNUM va' \<in> N" for va'
  proof -
    obtain q' where q': "q' < 1048576" "pte_of s pd (PGNUM va') = rw_entry q'" "mappers s q' = {(pd, PGNUM va')}" "PGNUM va' < 977920"
      using owns_frame [OF own va'] by metis
    define off' where "off' = unat va' mod 4096"
    have m4: "unat va mod 4 = off mod 4" "unat va' mod 4 = off' mod 4"
      by (simp_all add: off_def off'_def mod_mod_cancel)
    have "va' = va" if "q' = q" "off' = off"
      using that q(3) q'(3) by (simp add: PGNUM_div off_def off'_def) (metis div_mult_mod_eq word_unat_eq_iff)
    moreover have "q' = q \<and> off' = off" if "va' = va"
      using that q(2) q'(2) rw_entry_PGNUM q(1) q'(1) by (auto simp: off_def off'_def) metis
    ultimately have same: "va' = va \<longleftrightarrow> q' = q \<and> off' div 4 = off div 4 \<and> off' mod 4 = off mod 4"
      using byte_place [of off' off] by auto
    have "pte_of s' pd (PGNUM va') = rw_entry q'" using k(2) pdd q'(2,4) by simp
    then show ?thesis
      using user_byte_owned [OF own' va'] user_byte_owned [OF own va'] q'(2) rw_entry_PGNUM [OF q'(1)]
      by (auto simp: same m4 off'_def [symmetric] s'_def get_set_byte_same get_set_byte_other)
  qed
  have "rd s' q' = rd s q'" if "(pd', n) \<in> mappers s q'" "pd' \<noteq> pd" for q' pd' n
  proof -
    from that q(3) have "q' \<noteq> q" by auto
    then show ?thesis by (simp add: s'_def fun_eq_iff)
  qed
  then have "others_kept s pd s'" using k(2,3) by (auto simp: others_kept_def mappers_def)
  then have "loads_on s fl el kx e pd N {va} 0 N s' fl"
    using k(1) e own' fr bytes vm_frame_envs [OF fr] by (simp add: loads_on_def loading_def)
  with run bytes [OF va] show ?thesis by simp
qed

text \<open>A run of bytes: every one is where it was put, and nothing else changed.\<close>

definition span :: "u32 \<Rightarrow> nat \<Rightarrow> u32 set" where
  "span va len = {x. unat va \<le> unat x \<and> unat x < unat va + len}"

lemma loads_on_bytes:
  "loads_on s fl el kx e pd N W k N' s' fl' \<Longrightarrow> PGNUM va \<in> N \<Longrightarrow> va \<notin> W \<Longrightarrow> user_byte s' pd va = user_byte s pd va"
  by (simp add: loads_on_def)

lemma store_bytes_loads:
  assumes "loading s fl el kx e pd N" and "cr3 s (cpunum s) = pd" and "PGNUM ` span va (length bs) \<subseteq> N"
    and "unat va + length bs \<le> 4294967295"
  shows "\<exists>s'. store_bytes va bs s = Inr s' \<and> loads_on s fl el kx e pd N (span va (length bs)) 0 N s' fl
     \<and> (\<forall>x\<in>span va (length bs). user_byte s' pd x = Some (bs ! (unat x - unat va)))"
  using assms
proof (induction bs arbitrary: s va)
  case Nil
  then show ?case using loads_on_refl by (fastforce simp: span_def)
next
  case (Cons b bs)
  have suc: "unat (va + 1) = unat va + 1" using Cons.prems(4) by (simp add: unat_word_ariths)
  have span: "span va (length (b # bs)) = insert va (span (va + 1) (length bs))" "va \<notin> span (va + 1) (length bs)"
    by (auto simp: span_def suc word_unat_eq_iff)
  have va: "PGNUM va \<in> N" using Cons.prems(3) span by auto
  from store8_loads [OF Cons.prems(1,2) va, of b] obtain s1 where
    s1: "store8 va b s = Inr s1" "loads_on s fl el kx e pd N {va} 0 N s1 fl" "user_byte s1 pd va = Some b" by blast
  have "cr3 s1 (cpunum s1) = pd" "loading s1 fl el kx e pd N"
    using s1(2) Cons.prems(2) by (simp_all add: loads_on_def vm_frame_def)
  from Cons.IH [OF this(2,1), of "va + 1"] obtain s' where
    s': "store_bytes (va + 1) bs s1 = Inr s'" "loads_on s1 fl el kx e pd N (span (va + 1) (length bs)) 0 N s' fl"
      "\<forall>x\<in>span (va + 1) (length bs). user_byte s' pd x = Some (bs ! (unat x - unat (va + 1)))"
    using Cons.prems(3,4) span suc by auto
  have "user_byte s' pd x = Some ((b # bs) ! (unat x - unat va))" if "x \<in> span va (length (b # bs))" for x
  proof (cases "x = va")
    case True
    then show ?thesis using loads_on_bytes [OF s'(2) va span(2)] s1(3) by simp
  next
    case False
    then have x: "x \<in> span (va + 1) (length bs)" using that span by simp
    then have "unat x - unat va = Suc (unat x - unat (va + 1))" by (auto simp: span_def suc)
    then show ?thesis using s'(3) x by simp
  qed
  moreover have "loads_on s fl el kx e pd N (span va (length (b # bs))) 0 N s' fl"
    using loads_on_trans [OF s1(2) s'(2)] span by simp
  ultimately show ?case using s1(1) s'(1) by simp
qed

section \<open>Segments\<close>

text \<open>
  What the image says: the loadable segments, the pages each touches, and the bytes of a
  segment: the file's, then zeros.
\<close>

fun loads :: "image \<Rightarrow> nat \<Rightarrow> nat \<Rightarrow> Proghdr list" where
  "loads b off 0 = []"
| "loads b off (Suc n) =
     (if p_type (proghdr b off) = ELF_PROG_LOAD then [proghdr b off] else []) @ loads b (off + 32) n"

definition segments :: "image \<Rightarrow> Proghdr list" where
  "segments b = loads b (unat (img32 b 28)) (unat (img16 b 44))"

definition seg_pages :: "Proghdr \<Rightarrow> nat set" where
  "seg_pages ph = region_pages (p_va ph) (p_memsz ph)"

definition seg_byte :: "image \<Rightarrow> Proghdr \<Rightarrow> nat \<Rightarrow> u8" where
  "seg_byte b ph k = (if k < unat (p_filesz ph) then b (unat (p_offset ph) + k) else 0)"

text \<open>
  A segment ends below the stack page and is no shorter in memory than in the file; no two
  share a page, as the comment of \<open>load_icode\<close> assumes.
\<close>

definition seg_ok :: "Proghdr \<Rightarrow> bool" where
  "seg_ok ph \<longleftrightarrow> p_filesz ph \<le> p_memsz ph \<and> unat (p_va ph) + unat (p_memsz ph) \<le> unat (USTACKTOP - PGSIZE)"

fun segs_ok :: "nat set \<Rightarrow> Proghdr list \<Rightarrow> bool" where
  "segs_ok N [] = True"
| "segs_ok N (ph # phs) = (seg_ok ph \<and> seg_pages ph \<inter> N = {} \<and> segs_ok (N \<union> seg_pages ph) phs)"

definition pages_needed :: "Proghdr list \<Rightarrow> nat" where
  "pages_needed phs = (\<Sum>ph\<leftarrow>phs. card (seg_pages ph))"

definition seg_loaded :: "kstate \<Rightarrow> nat \<Rightarrow> image \<Rightarrow> Proghdr \<Rightarrow> bool" where
  "seg_loaded s pd b ph \<longleftrightarrow> (\<forall>x\<in>span (p_va ph) (unat (p_memsz ph)).
     user_byte s pd x = Some (seg_byte b ph (unat x - unat (p_va ph))))"

lemma span_pages:
  assumes "x \<in> span va (unat len)"
  shows "PGNUM x \<in> region_pages va len"
proof -
  have x: "unat va \<le> unat x" "unat x < unat va + unat len" using assms by (auto simp: span_def)
  then have "unat va div 4096 \<le> unat x div 4096" "(unat x + 4096) div 4096 \<le> (unat va + unat len + 4095) div 4096"
    by (intro div_le_mono; simp)+
  then show ?thesis by (simp add: region_pages_def PGNUM_div)
qed

lemma loads_on_loading: "loads_on s fl el kx e pd N W k N' s' fl' \<Longrightarrow> loading s' fl' el kx e pd N'"
  and loads_on_cr3: "loads_on s fl el kx e pd N W k N' s' fl' \<Longrightarrow> cr3 s' (cpunum s') = cr3 s (cpunum s)"
  and loads_on_room: "loads_on s fl el kx e pd N W k N' s' fl' \<Longrightarrow> length fl \<le> length fl' + k"
  by (simp_all add: loads_on_def vm_frame_def)

lemma load_segment_loads:
  assumes ld: "loading s fl el kx e pd N" and cr: "cr3 s (cpunum s) = pd" and ok: "seg_ok ph"
    and new: "seg_pages ph \<inter> N = {}" and room: "2 * card (seg_pages ph) \<le> length fl"
  shows "\<exists>s' fl'. load_segment pd b ph s = Inr s'
     \<and> loads_on s fl el kx e pd N {} (2 * card (seg_pages ph)) (N \<union> seg_pages ph) s' fl' \<and> seg_loaded s' pd b ph"
proof -
  let ?N = "N \<union> seg_pages ph" and ?S = "span (p_va ph) (unat (p_memsz ph))" and ?F = "span (p_va ph) (unat (p_filesz ph))"
  let ?file = "map (\<lambda>k. b (unat (p_offset ph) + k)) [0..<unat (p_filesz ph)]"
  have hi: "unat (p_va ph) + unat (p_memsz ph) \<le> unat UTOP" and fm: "unat (p_filesz ph) \<le> unat (p_memsz ph)"
    using ok by (auto simp: seg_ok_def word_le_nat_alt)
  have lim: "unat (p_va ph) + unat (p_memsz ph) \<le> 4294967295" using hi by simp
  from region_alloc_loads [OF ld hi, folded seg_pages_def, OF new room] obtain s1 fl1 where
    s1: "region_alloc pd (p_va ph) (p_memsz ph) s = Inr s1"
      "loads_on s fl el kx e pd N {} (2 * card (seg_pages ph)) ?N s1 fl1" by blast
  have S: "PGNUM ` ?S \<subseteq> ?N" using span_pages by (auto simp: seg_pages_def)
  have FS: "?F \<subseteq> ?S" using fm by (auto simp: span_def)
  have cr1: "cr3 s1 (cpunum s1) = pd" using loads_on_cr3 [OF s1(2)] cr by simp
  from store_bytes_loads [OF loads_on_loading [OF s1(2)] cr1, of "p_va ph" "replicate (unat (p_memsz ph)) 0"] S lim
  obtain s2 where s2: "store_bytes (p_va ph) (replicate (unat (p_memsz ph)) 0) s1 = Inr s2"
      "loads_on s1 fl1 el kx e pd ?N ?S 0 ?N s2 fl1"
      "\<forall>x\<in>?S. user_byte s2 pd x = Some (replicate (unat (p_memsz ph)) 0 ! (unat x - unat (p_va ph)))"
    by auto
  have cr2: "cr3 s2 (cpunum s2) = pd" using loads_on_cr3 [OF s2(2)] cr1 by simp
  from store_bytes_loads [OF loads_on_loading [OF s2(2)] cr2, of "p_va ph" ?file] S FS lim fm
  obtain s3 where s3: "store_bytes (p_va ph) ?file s2 = Inr s3" "loads_on s2 fl1 el kx e pd ?N ?F 0 ?N s3 fl1"
      "\<forall>x\<in>?F. user_byte s3 pd x = Some (?file ! (unat x - unat (p_va ph)))"
    by (auto simp: subset_iff)
  have "user_byte s3 pd x = Some (seg_byte b ph (unat x - unat (p_va ph)))" if x: "x \<in> ?S" for x
  proof (cases "x \<in> ?F")
    case True
    then show ?thesis using s3(3) by (auto simp: span_def seg_byte_def)
  next
    case False
    then show ?thesis
      using x s2(3) loads_on_bytes [OF s3(2) _ False] S by (auto simp: span_def seg_byte_def image_subset_iff)
  qed
  moreover have "loads_on s fl el kx e pd N {} (2 * card (seg_pages ph)) ?N s3 fl1"
  proof -
    note t = loads_on_trans [OF s1(2) loads_on_trans [OF s2(2) s3(2)]]
    have "va \<notin> ?S" if "PGNUM va \<in> N" for va using that span_pages [of va] new by (auto simp: seg_pages_def)
    with t FS show ?thesis unfolding loads_on_def by auto
  qed
  ultimately show ?thesis using s1(1) s2(1) s3(1) by (auto simp: load_segment_def seg_loaded_def)
qed

lemma seg_loaded_keep:
  assumes "loads_on s fl el kx e pd N {} k N' s' fl'" and "seg_pages ph \<subseteq> N" and "seg_loaded s pd b ph"
  shows "seg_loaded s' pd b ph"
  using assms span_pages loads_on_bytes [OF assms(1)] unfolding seg_loaded_def seg_pages_def by fastforce

lemma load_segments_loads:
  assumes "loading s fl el kx e pd N" and "cr3 s (cpunum s) = pd" and "segs_ok N (loads b off n)"
    and "2 * pages_needed (loads b off n) \<le> length fl"
  shows "\<exists>s' fl'. load_segments pd b off n s = Inr s'
     \<and> loads_on s fl el kx e pd N {} (2 * pages_needed (loads b off n)) (N \<union> (\<Union>ph\<in>set (loads b off n). seg_pages ph)) s' fl'
     \<and> (\<forall>ph\<in>set (loads b off n). seg_loaded s' pd b ph)"
  using assms
proof (induction n arbitrary: s fl N off)
  case 0
  then show ?case using loads_on_refl by (fastforce simp: pages_needed_def)
next
  case (Suc n)
  let ?ph = "proghdr b off"
  show ?case
  proof (cases "p_type ?ph = ELF_PROG_LOAD")
    case False
    then show ?thesis using Suc by simp
  next
    case True
    then have ls: "loads b off (Suc n) = ?ph # loads b (off + 32) n" by simp
    have ok: "seg_ok ?ph" "seg_pages ?ph \<inter> N = {}" "segs_ok (N \<union> seg_pages ?ph) (loads b (off + 32) n)"
      and room: "2 * card (seg_pages ?ph) + 2 * pages_needed (loads b (off + 32) n) \<le> length fl"
      using Suc.prems(3,4) unfolding ls by (simp_all add: pages_needed_def)
    from load_segment_loads [OF Suc.prems(1,2) ok(1,2), of b] room obtain s1 fl1 where
      s1: "load_segment pd b ?ph s = Inr s1" "seg_loaded s1 pd b ?ph"
        "loads_on s fl el kx e pd N {} (2 * card (seg_pages ?ph)) (N \<union> seg_pages ?ph) s1 fl1" by auto
    have cr: "cr3 s1 (cpunum s1) = pd" and room1: "2 * pages_needed (loads b (off + 32) n) \<le> length fl1"
      using loads_on_cr3 [OF s1(3)] loads_on_room [OF s1(3)] Suc.prems(2) room by simp_all
    from Suc.IH [OF loads_on_loading [OF s1(3)] cr ok(3) room1] obtain s' fl' where
      s': "load_segments pd b (off + 32) n s1 = Inr s'"
        "loads_on s1 fl1 el kx e pd (N \<union> seg_pages ?ph) {} (2 * pages_needed (loads b (off + 32) n))
           (N \<union> seg_pages ?ph \<union> (\<Union>ph\<in>set (loads b (off + 32) n). seg_pages ph)) s' fl'"
        "\<forall>ph\<in>set (loads b (off + 32) n). seg_loaded s' pd b ph" by blast
    have run: "load_segments pd b off (Suc n) s = Inr s'" using True s1(1) s'(1) by simp
    have "seg_loaded s' pd b ?ph" by (rule seg_loaded_keep [OF s'(2) _ s1(2)]) blast
    with s'(3) loads_on_trans [OF s1(3) s'(2)] run show ?thesis
      unfolding ls by (intro exI [of _ s'] exI [of _ fl']) (simp add: pages_needed_def Un_assoc)
  qed
qed

section \<open>load_icode and env_create\<close>

definition stack_page :: nat where
  "stack_page = PGNUM (USTACKTOP - PGSIZE)"

definition program_pages :: "image \<Rightarrow> nat set" where
  "program_pages b = insert stack_page (\<Union>ph\<in>set (segments b). seg_pages ph)"

definition loadable :: "image \<Rightarrow> bool" where
  "loadable b \<longleftrightarrow> img32 b 0 = ELF_MAGIC \<and> segs_ok {} (segments b)"

definition memory_needed :: "image \<Rightarrow> nat" where
  "memory_needed b = 2 * (pages_needed (segments b) + 1)"

lemma segs_okD: "segs_ok N phs \<Longrightarrow> ph \<in> set phs \<Longrightarrow> seg_ok ph"
  by (induction phs arbitrary: N) auto

lemma stack_page_region: "region_pages (USTACKTOP - PGSIZE) PGSIZE = {stack_page}"
proof -
  have "{977917..<977918} = {977917 :: nat}" by auto
  then show ?thesis by (simp add: region_pages_def stack_page_def PGNUM_div)
qed

lemma stack_page_free:
  assumes "seg_ok ph" shows "stack_page \<notin> seg_pages ph"
proof -
  have "unat (p_va ph) + unat (p_memsz ph) + 4095 \<le> 4005548032 + 4095" using assms by (simp add: seg_ok_def)
  then have "(unat (p_va ph) + unat (p_memsz ph) + 4095) div 4096 \<le> (4005548032 + 4095) div 4096" by (rule div_le_mono)
  then show ?thesis by (auto simp: seg_pages_def region_pages_def stack_page_def PGNUM_div)
qed

lemma view_cong:
  assumes mem: "rd s' = rd s" and ds: "dirs s' = dirs s"
  shows "user_byte s' = user_byte s" and "pte_of s' = pte_of s" and "owns s' = owns s"
proof -
  show pte: "pte_of s' = pte_of s" by (intro ext) (simp only: pte_of_def mem)
  show "user_byte s' = user_byte s" by (intro ext) (simp only: user_byte_def translate_def mem)
  have "mappers s' = mappers s" by (intro ext) (simp only: mappers_def ds pte)
  then show "owns s' = owns s" by (intro ext) (simp only: owns_def mem pte ds)
qed

lemma loading_cong:
  assumes ld: "loading s fl el kx e pd N" and mem: "rd s' = rd s" "npages s' = npages s" "pages s' = pages s"
      "page_free_list s' = page_free_list s" "kern_pgdir s' = kern_pgdir s"
    and env: "env_free_list s' = env_free_list s" "\<And>x. env_link (envs s' x) = env_link (envs s x)"
      "\<And>x. env_status (envs s' x) = ENV_FREE \<longleftrightarrow> env_status (envs s x) = ENV_FREE"
      "\<And>x. env_pgdir (envs s' x) = env_pgdir (envs s x)"
  shows "loading s' fl el kx e pd N" and "user_byte s' = user_byte s" and "pte_of s' = pte_of s" and "dirs s' = dirs s"
proof -
  have inv: "kinv s fl el kx" using ld by (simp add: loading_def)
  note k = kinv_cong [OF inv mem env]
  note v = view_cong [OF mem(1) k(2)]
  show "user_byte s' = user_byte s" "pte_of s' = pte_of s" "dirs s' = dirs s" by (rule v k)+
  show "loading s' fl el kx e pd N" using ld k(1) by (simp add: loading_def env v(3))
qed

lemma load_icode_loads:
  assumes ld: "loading s fl el kx e pd {}" and ok: "loadable b" and room: "memory_needed b \<le> length fl"
  shows "\<exists>s' fl'. load_icode e b s = Inr s' \<and> loading s' fl' el kx e pd (program_pages b)
     \<and> (\<forall>ph\<in>set (segments b). seg_loaded s' pd b ph) \<and> others_kept s pd s'
     \<and> envs s' = (envs s)(e := (envs s e)\<lparr>env_tf := (env_tf (envs s e))\<lparr>tf_eip := img32 b 24\<rparr>\<rparr>)
     \<and> cr3 s' = (cr3 s)(cpunum s := kern_pgdir s) \<and> cpus s' = cpus s \<and> cpunum s' = cpunum s
     \<and> kernel_lock s' = kernel_lock s \<and> length fl \<le> length fl' + memory_needed b \<and> kern_pgdir s' = kern_pgdir s"
proof -
  let ?s0 = "lcr3 pd s" and ?S = "\<Union>ph\<in>set (segments b). seg_pages ph" and ?off = "unat (img32 b 28)" and ?n = "unat (img16 b 44)"
  let ?upd = "\<lambda>en. en\<lparr>env_tf := (env_tf en)\<lparr>tf_eip := img32 b 24\<rparr>\<rparr>"
  have rd0: "rd ?s0 = rd s" by (simp add: rd_def fun_eq_iff)
  have ld0: "loading ?s0 fl el kx e pd {}" and pte0: "pte_of ?s0 = pte_of s" and ds0: "dirs ?s0 = dirs s"
    by (rule loading_cong [OF ld rd0]; simp)+
  have need: "2 * pages_needed (loads b ?off ?n) + 2 \<le> length fl"
    using room by (simp add: memory_needed_def segments_def)
  have segs: "segs_ok {} (loads b ?off ?n)" using ok by (simp add: loadable_def segments_def)
  have cr0: "cr3 ?s0 (cpunum ?s0) = pd" by (simp add: lcr3_def)
  from load_segments_loads [OF ld0 cr0 segs] need obtain s1 fl1 where
    s1: "load_segments pd b ?off ?n ?s0 = Inr s1"
      "loads_on ?s0 fl el kx e pd {} {} (2 * pages_needed (loads b ?off ?n)) ?S s1 fl1"
      "\<forall>ph\<in>set (segments b). seg_loaded s1 pd b ph"
    by (auto simp: segments_def)
  have "stack_page \<notin> ?S" using stack_page_free segs_okD [OF segs] by (auto simp: segments_def)
  with region_alloc_loads [OF loads_on_loading [OF s1(2)], of "USTACKTOP - PGSIZE" PGSIZE]
  have "\<exists>s2 fl2. region_alloc pd (USTACKTOP - PGSIZE) PGSIZE s1 = Inr s2
      \<and> loads_on s1 fl1 el kx e pd ?S {} 2 (?S \<union> {stack_page}) s2 fl2"
    using loads_on_room [OF s1(2)] need unfolding stack_page_region by fastforce
  then obtain s2 fl2 where s2: "region_alloc pd (USTACKTOP - PGSIZE) PGSIZE s1 = Inr s2"
      "loads_on s1 fl1 el kx e pd ?S {} 2 (program_pages b) s2 fl2"
    by (auto simp: program_pages_def)
  have all: "loads_on ?s0 fl el kx e pd {} {} (2 * pages_needed (loads b ?off ?n) + 2) (program_pages b) s2 fl2"
    using loads_on_trans [OF s1(2) s2(2)] by simp
  have fr: "vm_frame ?s0 s2" using all by (simp add: loads_on_def)
  define s' where "s' = lcr3 (kern_pgdir s2) (upd_env e ?upd s2)"
  have rd': "rd s' = rd s2" by (simp add: s'_def rd_def fun_eq_iff)
  have ld': "loading s' fl2 el kx e pd (program_pages b)" and ub: "user_byte s' = user_byte s2"
      and pte': "pte_of s' = pte_of s2"
    by (rule loading_cong [OF loads_on_loading [OF all] rd']; simp add: s'_def)+
  have pd: "env_pgdir (envs s e) = Some pd" using ld by (simp add: loading_def)
  have run: "load_icode e b s = Inr s'"
    using ok s1(1) s2(1) pd by (simp add: load_icode_def loadable_def s'_def Let_def)
  have "seg_loaded s' pd b ph" if "ph \<in> set (segments b)" for ph
    using seg_loaded_keep [OF s2(2), of ph] s1(3) that unfolding seg_loaded_def ub by blast
  moreover have "others_kept s pd s'"
    using all unfolding loads_on_def others_kept_def rd' rd0 pte' pte0 ds0 by blast
  moreover have "envs s' = (envs s)(e := ?upd (envs s e))" "cr3 s' = (cr3 s)(cpunum s := kern_pgdir s)"
      "cpus s' = cpus s" "cpunum s' = cpunum s" "kernel_lock s' = kernel_lock s" "kern_pgdir s' = kern_pgdir s"
    using fr by (simp_all add: s'_def vm_frame_def lcr3_def fun_eq_iff)
  moreover have "length fl \<le> length fl2 + memory_needed b"
    using loads_on_room [OF all] by (simp add: memory_needed_def segments_def)
  ultimately show ?thesis using run ld' by blast
qed

lemma env_create_effect:
  assumes inv': "kinv s (p # fl0) (e # el') kx" and ok: "loadable b" and room: "memory_needed b \<le> length fl0"
  shows "\<exists>s' fl'. env_create b type s = Inr s' \<and> kinv s' fl' el' kx
     \<and> envs s' = (envs s)(e := (envs s e)\<lparr>
          env_id := next_generation (env_id (envs s e)) OR word_of_nat e,
          env_parent_id := 0, env_type := type, env_status := ENV_RUNNABLE, env_runs := 0,
          env_priority := 0, env_tf := user_tf\<lparr>tf_eip := img32 b 24\<rparr>, env_pgfault_upcall := 0,
          env_ipc_recving := False, env_pgdir := Some p\<rparr>)
     \<and> owns s' p (program_pages b) \<and> (\<forall>ph\<in>set (segments b). seg_loaded s' p b ph)
     \<and> others_kept s p s' \<and> dirs s' = insert p (dirs s) \<and> p \<notin> dirs s \<and> length fl0 \<le> length fl' + memory_needed b
     \<and> cpus s' = cpus s \<and> cpunum s' = cpunum s \<and> kernel_lock s' = kernel_lock s"
proof -
  have pfree: "q \<noteq> p" if "(pd, n) \<in> mappers s q" for q pd n using free_unmapped [OF inv', of p] that by auto
  from env_alloc_effect [OF inv', of 0] obtain s1 where
    run1: "env_alloc 0 s = Inr (Inr e, s1)" and k1: "kinv s1 fl0 el' kx"
    and env1: "envs s1 = (envs s)(e := (envs s e)\<lparr>
            env_id := next_generation (env_id (envs s e)) OR word_of_nat e,
            env_parent_id := 0, env_type := ENV_TYPE_USER, env_status := ENV_RUNNABLE, env_runs := 0,
            env_priority := 0, env_tf := user_tf, env_pgfault_upcall := 0,
            env_ipc_recving := False, env_pgdir := Some p\<rparr>)"
    and empty: "\<forall>n<977920. pte_of s1 p n = 0" "\<forall>i<955. rd s1 p i = 0"
    and other1: "\<forall>pd\<in>dirs s. \<forall>n<977920. pte_of s1 pd n = pte_of s pd n" "\<forall>q. q \<noteq> p \<longrightarrow> rd s1 q = rd s q"
    and ds1: "dirs s1 = insert p (dirs s)" and f1: "cpus s1 = cpus s" "cpunum s1 = cpunum s" "kernel_lock s1 = kernel_lock s" "p \<notin> dirs s" by blast
  have "e < 1024" using inv' by (auto simp: kinv_def free_envs_def)
  then have ld1: "loading s1 fl0 el' kx e p {}" using k1 env1 empty by (simp add: loading_def owns_def)
  from load_icode_loads [OF ld1 ok room] obtain s2 fl2 where
    run2: "load_icode e b s1 = Inr s2" and ld2: "loading s2 fl2 el' kx e p (program_pages b)"
    and seg: "\<forall>ph\<in>set (segments b). seg_loaded s2 p b ph" and other2: "others_kept s1 p s2"
    and env2: "envs s2 = (envs s1)(e := (envs s1 e)\<lparr>env_tf := (env_tf (envs s1 e))\<lparr>tf_eip := img32 b 24\<rparr>\<rparr>)"
    and f2: "cpus s2 = cpus s1" "cpunum s2 = cpunum s1" "kernel_lock s2 = kernel_lock s1" "length fl0 \<le> length fl2 + memory_needed b"
    and kd2: "kern_pgdir s2 = kern_pgdir s1"
    by blast
  define s' where "s' = upd_env e (\<lambda>en. en\<lparr>env_type := type\<rparr>) s2"
  have rd': "rd s' = rd s2" by (simp add: s'_def)
  have ld': "loading s' fl2 el' kx e p (program_pages b)" and ub: "user_byte s' = user_byte s2" and pte': "pte_of s' = pte_of s2"
      and ds': "dirs s' = dirs s2"
    by (rule loading_cong [OF ld2 rd']; simp add: s'_def)+
  have run: "env_create b type s = Inr s'" using run1 run2 by (simp add: env_create_def s'_def)
  have old: "pte_of s' pd n = pte_of s pd n
      \<and> (pte_of s pd n \<noteq> 0 \<and> PGNUM (pte_of s pd n) \<notin> dirs s
            \<longrightarrow> rd s' (PGNUM (pte_of s pd n)) = rd s (PGNUM (pte_of s pd n)))"
    if x: "pd \<in> dirs s" "pd \<noteq> p" "n < 977920" for pd n
  proof -
    have "PGNUM (pte_of s pd n) \<noteq> p" if "pte_of s pd n \<noteq> 0"
      using pfree [of pd n] x that by (simp add: mappers_def)
    then show ?thesis using other1 other2 x unfolding others_kept_def rd' pte' ds1 by auto
  qed
  have "rd s' pd = rd s pd" if "pd \<in> dirs s" "pd \<noteq> p" for pd
    using other1(2) other2 that unfolding others_kept_def rd' ds1 by simp
  with old have "others_kept s p s'" by (simp add: others_kept_def)
  moreover have "pgdirs s2 = pgdirs s1" by (rule pgdirs_upd_same) (simp add: env2)
  then have "dirs s2 = dirs s1" by (simp add: dirs_def kd2)
  with ds' ds1 have "dirs s' = insert p (dirs s)" by simp
  moreover have "cpus s' = cpus s" "cpunum s' = cpunum s" "kernel_lock s' = kernel_lock s" by (simp_all add: s'_def f1 f2)
  moreover have "envs s' = (envs s)(e := (envs s e)\<lparr>
          env_id := next_generation (env_id (envs s e)) OR word_of_nat e,
          env_parent_id := 0, env_type := type, env_status := ENV_RUNNABLE, env_runs := 0,
          env_priority := 0, env_tf := user_tf\<lparr>tf_eip := img32 b 24\<rparr>, env_pgfault_upcall := 0,
          env_ipc_recving := False, env_pgdir := Some p\<rparr>)"
    by (simp add: s'_def env2 env1 fun_eq_iff)
  moreover have "\<forall>ph\<in>set (segments b). seg_loaded s' p b ph" using seg by (simp add: seg_loaded_def ub)
  ultimately show ?thesis using run ld' f1(4) f2(4) unfolding loading_def by blast
qed

text \<open>
  C3. env_create, under the invariant, with a free slot, an image whose segments lie below the
  stack and share no page, and enough free memory: it does not panic. The first free slot
  becomes a runnable environment of the given type that starts at the image's entry point. Its
  directory maps, below UTOP, exactly the pages of the segments and the stack page, for user
  and write, each to a frame of its own; the bytes of every segment are those of the file,
  followed by zeros; no other environment and no other address space changes, and the
  invariant holds again.
\<close>

theorem env_create_correct:
  assumes inv: "kinv s fl el kx" and slot: "el \<noteq> []" and ok: "loadable b" and room: "memory_needed b < length fl"
  shows "\<exists>s' fl'. env_create b type s = Inr s' \<and> kinv s' fl' (tl el) kx
     \<and> envs s' = (envs s)(hd el := (envs s (hd el))\<lparr>
          env_id := next_generation (env_id (envs s (hd el))) OR word_of_nat (hd el),
          env_parent_id := 0, env_type := type, env_status := ENV_RUNNABLE, env_runs := 0,
          env_priority := 0, env_tf := user_tf\<lparr>tf_eip := img32 b 24\<rparr>, env_pgfault_upcall := 0,
          env_ipc_recving := False, env_pgdir := Some (hd fl)\<rparr>)
     \<and> owns s' (hd fl) (program_pages b)
     \<and> (\<forall>ph\<in>set (segments b). seg_loaded s' (hd fl) b ph)
     \<and> others_kept s (hd fl) s'"
proof -
  obtain e el' p fl0 where el: "el = e # el'" and fl: "fl = p # fl0" using slot room by (cases el; cases fl) auto
  have "kinv s (p # fl0) (e # el') kx" "memory_needed b \<le> length fl0" using inv room el fl by simp_all
  from env_create_effect [OF this(1) ok this(2), of type] show ?thesis unfolding el fl list.sel by blast
qed

text \<open>
  A machine with ten free pages, and an image of one segment: three bytes of file and 4,997
  zeros at \<open>0x800020\<close>, on two pages.
\<close>

definition load_demo :: kstate where
  "load_demo = live_demo\<lparr>page_free_list := Some 6,
     pages := (\<lambda>p. \<lparr>pp_link = (if 6 \<le> p \<and> p < 15 then Some (p + 1) else None), pp_ref = (if p = 4 \<or> p = 5 then 1 else 0)\<rparr>)\<rparr>"

definition demo_image :: image where
  "demo_image i = (case map_of [(0, 0x7F), (1, 0x45), (2, 0x4C), (3, 0x46), (24, 0x20), (26, 0x80), (28, 52), (44, 1),
     (52, 1), (56, 84), (60, 0x20), (62, 0x80), (68, 3), (72, 0x88), (73, 0x13), (84, 7), (85, 8), (86, 9)] i of
       None \<Rightarrow> 0 | Some x \<Rightarrow> x)"

lemma load_demo_kinv: "kinv load_demo [6..<16] [1..<1024] live_kx"
proof -
  have live: "env_pgdir (envs load_demo e) = env_pgdir (envs live_demo e)" for e by (simp add: load_demo_def)
  have f: "envs load_demo = envs live_demo" "env_free_list load_demo = env_free_list live_demo"
      "kern_pgdir load_demo = 4" "npages load_demo = 16" "rd load_demo = (\<lambda>_ _. 0)"
    by (simp_all add: load_demo_def rd_def fun_eq_iff) (simp_all add: live_demo_def vm_demo_def boot_state_def)
  have pg: "pgdirs load_demo = {5}" and d: "dirs load_demo = {4, 5}"
    by (auto simp: pgdirs_def dirs_def f live_demo_def zero_env_def split: if_splits)
  have "slot_val load_demo x = 0" for x by (cases x) (simp_all add: pte_of_def f)
  moreover from this have "holders load_demo D q = {}" for q D by (simp add: holders_def)
  moreover have "chain (page_link load_demo) (Some 6) [6..<16]"
    by (rule chain_up) (auto simp: page_link_def load_demo_def)
  then have "free_pages load_demo [6..<16]"
    by (auto simp: free_pages_def f) (auto simp: load_demo_def page_link_def)
  ultimately have "ref_inv load_demo {4, 5} [6..<16] (held {5} live_kx)"
    by (auto simp: ref_inv_def mem_ok_def f held_def live_kx_def) (auto simp: load_demo_def)
  moreover have "free_envs load_demo [1..<1024]"
    using live_demo_kinv free_envs_cong [of load_demo live_demo] by (simp add: kinv_def f)
  moreover have "(4 :: nat) \<notin> {5}" by simp
  ultimately show ?thesis
    using live_demo_kinv unfolding kinv_def pg d f by blast
qed

lemma demo_segments: "segments demo_image =
    [\<lparr>p_type = 1, p_offset = 84, p_va = 0x800020, p_filesz = 3, p_memsz = 5000\<rparr>]"
  by (simp add: segments_def img32_def img16_def demo_image_def proghdr_def)

lemma demo_memory: "memory_needed demo_image = 6"
  by (simp add: memory_needed_def pages_needed_def demo_segments seg_pages_def region_pages_def)

lemma demo_loadable: "loadable demo_image"
  by (simp add: loadable_def demo_segments seg_ok_def) (simp add: img32_def demo_image_def)

theorem env_create_correct_witness:
  "\<exists>s' fl'. env_create demo_image ENV_TYPE_USER load_demo = Inr s' \<and> kinv s' fl' (tl [1..<1024]) live_kx
     \<and> user_byte s' 6 0x800022 = Some 9 \<and> user_byte s' 6 0x800023 = Some 0
     \<and> tf_eip (env_tf (envs s' 1)) = 0x800020"
proof -
  have "loadable demo_image" "memory_needed demo_image < length ([6..<16] :: nat list)"
    by (simp_all add: demo_loadable demo_memory)
  moreover have el: "([1..<1024] :: nat list) \<noteq> []" "hd [1..<1024] = (1 :: nat)" and fl: "hd [6..<16] = (6 :: nat)"
    by (simp_all del: upt_Suc)
  ultimately obtain s' fl' where
    run: "env_create demo_image ENV_TYPE_USER load_demo = Inr s'" "kinv s' fl' (tl [1..<1024]) live_kx"
    and env: "tf_eip (env_tf (envs s' 1)) = img32 demo_image 24"
    and seg: "\<forall>ph\<in>set (segments demo_image). seg_loaded s' 6 demo_image ph"
    using env_create_correct [OF load_demo_kinv el(1), of demo_image ENV_TYPE_USER, unfolded el(2) fl] by fastforce
  have "(0x800022 :: u32) \<in> span 0x800020 5000" by (simp add: span_def)
  then have "user_byte s' 6 0x800022 = Some 9"
    using seg by (simp add: demo_segments seg_loaded_def seg_byte_def) (simp add: demo_image_def)
  moreover have "user_byte s' 6 0x800023 = Some 0"
    using seg by (simp add: demo_segments seg_loaded_def span_def seg_byte_def)
  moreover have "img32 demo_image 24 = 0x800020" by (simp add: img32_def demo_image_def)
  ultimately show ?thesis using run env by metis
qed

end
