(* ===== verification/MemInit.thy ===== *)
theory MemInit
  imports UserMem
begin

text \<open>
  The start of the memory system: \<open>mem_init\<close> of \<open>kern/pmap.c\<close> with the detection of the
  memory, the mappings above \<open>UTOP\<close>, and the self tests it runs on the way. The arrays \<open>pages\<close>
  and \<open>envs\<close> are fields of the kernel state; their addresses, which the mappings need, are values
  of \<open>mem_init\<close>. The end of the kernel image and the place of \<open>percpu_kstacks\<close> are the linker's
  choice and arguments. A failed \<open>assert\<close> is a panic.
\<close>

section \<open>Detecting memory (kern/kclock.h)\<close>

definition NVRAM_BASELO :: nat where [simp]: "NVRAM_BASELO = 21"
definition NVRAM_EXTLO :: nat where [simp]: "NVRAM_EXTLO = 23"
definition NVRAM_EXT16LO :: nat where [simp]: "NVRAM_EXT16LO = 52"

text \<open>\<open>cmos r\<close> is what the clock chip answers for register \<open>r\<close>.\<close>

definition nvram_read :: "(nat \<Rightarrow> u8) \<Rightarrow> nat \<Rightarrow> nat" where
  "nvram_read cmos r = unat (ucast (cmos r) OR push_bit 8 (ucast (cmos (r + 1))) :: u32)"

definition i386_detect_memory :: "(nat \<Rightarrow> u8) \<Rightarrow> kstate \<Rightarrow> kstate" where
  "i386_detect_memory cmos s =
     (let basemem = nvram_read cmos NVRAM_BASELO;
          extmem = nvram_read cmos NVRAM_EXTLO;
          ext16mem = nvram_read cmos NVRAM_EXT16LO * 64;
          totalmem = (if ext16mem \<noteq> 0 then 16 * 1024 + ext16mem
                      else if extmem \<noteq> 0 then 1 * 1024 + extmem
                      else basemem)
      in s\<lparr>npages := totalmem div 4, npages_basemem := basemem div 4\<rparr>)"

section \<open>The mappings above UTOP\<close>

text \<open>\<open>sizeof(struct PageInfo)\<close> is 8 and \<open>sizeof(struct Env)\<close> is 128.\<close>

definition pages_size :: "kstate \<Rightarrow> u32" where
  "pages_size s = word_of_nat (npages s) * 8"

definition envs_size :: u32 where
  [simp]: "envs_size = 131072"

definition stack_start :: "nat \<Rightarrow> u32" where
  "stack_start i = KSTACKTOP - word_of_nat i * (KSTKSIZE + KSTKGAP) - KSTKSIZE"

fun map_stacks :: "(nat \<Rightarrow> u32) \<Rightarrow> nat \<Rightarrow> nat \<Rightarrow> kstate \<Rightarrow> kstate fallible" where
  "map_stacks kstacks i 0 s = Inr s"
| "map_stacks kstacks i (Suc n) s =
     andThen (PADDR (kstacks i)) (\<lambda>pa.
     andThen (boot_map_region (kern_pgdir s) (stack_start i) KSTKSIZE pa (PTE_W OR PTE_P) s)
       (map_stacks kstacks (i + 1) n))"

definition mem_init_mp :: "(nat \<Rightarrow> u32) \<Rightarrow> kstate \<Rightarrow> kstate fallible" where
  "mem_init_mp kstacks = map_stacks kstacks 0 NCPU"

definition map_kernel :: "u32 \<Rightarrow> u32 \<Rightarrow> (nat \<Rightarrow> u32) \<Rightarrow> kstate \<Rightarrow> kstate fallible" where
  "map_kernel pages_va envs_va kstacks s =
     andThen (PADDR pages_va) (\<lambda>pa.
     andThen (boot_map_region (kern_pgdir s) UPAGES (ROUNDUP (pages_size s) PGSIZE) pa (PTE_U OR PTE_P) s) (\<lambda>s.
     andThen (PADDR envs_va) (\<lambda>pa.
     andThen (boot_map_region (kern_pgdir s) UENVS (ROUNDUP envs_size PGSIZE) pa (PTE_U OR PTE_P) s) (\<lambda>s.
     andThen (boot_map_region (kern_pgdir s) KERNBASE (push_bit 28 1) 0 (PTE_W OR PTE_P) s)
       (mem_init_mp kstacks)))))"

section \<open>Self tests\<close>

definition require :: "bool \<Rightarrow> 'a fallible \<Rightarrow> 'a fallible" where
  "require b r = (if b then r else Inl (KPanic ''assertion failed''))"

lemma require_True [simp]: "require True r = r"
  by (simp add: require_def)

lemma require_eq_Inr: "require b r = Inr x \<longleftrightarrow> b \<and> r = Inr x"
  by (simp add: require_def)

text \<open>All \<open>n\<close> rounds of a loop from \<open>i\<close> on.\<close>

fun require_each :: "(nat \<Rightarrow> bool fallible) \<Rightarrow> nat \<Rightarrow> nat \<Rightarrow> unit fallible" where
  "require_each p i 0 = Inr ()"
| "require_each p i (Suc n) = andThen (p i) (\<lambda>b. require b (require_each p (i + 1) n))"

lemma require_each_ok: "(\<And>j. i \<le> j \<Longrightarrow> j < i + n \<Longrightarrow> p j = Inr True) \<Longrightarrow> require_each p i n = Inr ()"
  by (induction n arbitrary: i) auto

text \<open>The members of a list by following the links; a list with more members than pages is a cycle.\<close>

fun list_pages :: "kstate \<Rightarrow> nat option \<Rightarrow> nat \<Rightarrow> nat list fallible" where
  "list_pages s None n = Inr []"
| "list_pages s (Some p) 0 = Inl (KUndef ''cyclic list'')"
| "list_pages s (Some p) (Suc n) = andThen (list_pages s (pp_link (pages s p)) n) (\<lambda>ps. Inr (p # ps))"

text \<open>
  The partition of the free list by address: two lists under construction, each with its head
  and the place that its next element is stored in, the head itself (\<open>None\<close>) or a link.
\<close>

type_synonym building = "nat option \<times> nat option"

definition store_tail :: "building \<Rightarrow> nat option \<Rightarrow> kstate \<Rightarrow> building \<times> kstate" where
  "store_tail l v s = (case l of
       (h, None) \<Rightarrow> ((v, None), s)
     | (h, Some q) \<Rightarrow> ((h, Some q), upd_page q (\<lambda>pi. pi\<lparr>pp_link := v\<rparr>) s))"

fun partition_free :: "nat \<Rightarrow> nat \<Rightarrow> nat option \<Rightarrow> building \<Rightarrow> building \<Rightarrow> kstate \<Rightarrow> (building \<times> building \<times> kstate) fallible" where
  "partition_free limit n None lo hi s = Inr (lo, hi, s)"
| "partition_free limit 0 (Some pp) lo hi s = Inl (KUndef ''cyclic list'')"
| "partition_free limit (Suc n) (Some pp) lo hi s =
     (if limit \<le> PDX (page2pa pp)
      then let (hi, s) = store_tail hi (Some pp) s in
           partition_free limit n (pp_link (pages s pp)) lo (fst hi, Some pp) s
      else let (lo, s) = store_tail lo (Some pp) s in
           partition_free limit n (pp_link (pages s pp)) (fst lo, Some pp) hi s)"

definition low_pages_first :: "nat \<Rightarrow> kstate \<Rightarrow> kstate fallible" where
  "low_pages_first limit s =
     andThen (partition_free limit (npages s) (page_free_list s) (None, None) (None, None) s) (\<lambda>(lo, hi, s).
       let (hi, s) = store_tail hi None s; (lo, s) = store_tail lo (fst hi) s
       in Inr (s\<lparr>page_free_list := fst lo\<rparr>))"

text \<open>\<open>memset(page2kva(pp), 0x97, 128)\<close>, and the assertions on one free page.\<close>

fun fill_words :: "nat \<Rightarrow> nat \<Rightarrow> u32 \<Rightarrow> kstate \<Rightarrow> kstate" where
  "fill_words pg 0 w s = s"
| "fill_words pg (Suc n) w s = fill_words pg n w (wr pg n w s)"

fun scrub_pages :: "nat \<Rightarrow> nat list \<Rightarrow> kstate \<Rightarrow> kstate fallible" where
  "scrub_pages limit [] s = Inr s"
| "scrub_pages limit (pp # ps) s =
     (if PDX (page2pa pp) < limit
      then andThen (page2kva s pp) (\<lambda>pg. scrub_pages limit ps (fill_words pg 32 0x97979797 s))
      else scrub_pages limit ps s)"

definition check_free_page :: "u32 \<Rightarrow> kstate \<Rightarrow> nat \<Rightarrow> bool fallible" where
  "check_free_page first_free_page s pp =
     (if pp < npages s \<and> page2pa pp \<noteq> 0 \<and> page2pa pp \<noteq> IOPHYSMEM \<and> page2pa pp \<noteq> EXTPHYSMEM - PGSIZE
         \<and> page2pa pp \<noteq> EXTPHYSMEM
      then andThen (if page2pa pp < EXTPHYSMEM then Inr True
             else andThen (KADDR s (page2pa pp)) (\<lambda>kva. Inr (first_free_page \<le> kva))) (\<lambda>b.
           Inr (b \<and> page2pa pp \<noteq> MPENTRY_PADDR))
      else Inr False)"

definition check_page_free_list :: "u32 \<Rightarrow> bool \<Rightarrow> kstate \<Rightarrow> kstate fallible" where
  "check_page_free_list kend only_low_memory s =
     (let pdx_limit = (if only_low_memory then 1 else NPDENTRIES) in
      if page_free_list s = None then Inl (KPanic ''page_free_list is a null pointer!'')
      else andThen (if only_low_memory then low_pages_first pdx_limit s else Inr s) (\<lambda>s.
      andThen (list_pages s (page_free_list s) (npages s)) (\<lambda>ps.
      andThen (scrub_pages pdx_limit ps s) (\<lambda>s.
      andThen (boot_alloc kend 0 s) (\<lambda>(first_free_page, s).
      andThen (require_each (\<lambda>i. check_free_page first_free_page s (ps ! i)) 0 (length ps)) (\<lambda>_.
        require (\<exists>pp\<in>set ps. page2pa pp < EXTPHYSMEM)
       (require (\<exists>pp\<in>set ps. \<not> page2pa pp < EXTPHYSMEM) (Inr s))))))))"

text \<open>\<open>assert((pp = page_alloc(0)))\<close>, and \<open>assert(!page_alloc(0))\<close>.\<close>

definition must_alloc :: "u32 \<Rightarrow> kstate \<Rightarrow> (nat \<Rightarrow> kstate \<Rightarrow> 'a fallible) \<Rightarrow> 'a fallible" where
  "must_alloc flags s f = andThen (page_alloc flags s) (\<lambda>(p, s).
     case p of None \<Rightarrow> Inl (KPanic ''assertion failed'') | Some p \<Rightarrow> f p s)"

definition no_alloc :: "kstate \<Rightarrow> (kstate \<Rightarrow> 'a fallible) \<Rightarrow> 'a fallible" where
  "no_alloc s f = andThen (page_alloc 0 s) (\<lambda>(p, s). require (p = None) (f s))"

definition take_three :: "kstate \<Rightarrow> (nat \<Rightarrow> nat \<Rightarrow> nat \<Rightarrow> kstate \<Rightarrow> 'a fallible) \<Rightarrow> 'a fallible" where
  "take_three s f =
     must_alloc 0 s (\<lambda>pp0 s. must_alloc 0 s (\<lambda>pp1 s. must_alloc 0 s (\<lambda>pp2 s.
       require (pp1 \<noteq> pp0 \<and> pp2 \<noteq> pp1 \<and> pp2 \<noteq> pp0) (f pp0 pp1 pp2 s))))"

definition check_page_alloc :: "u32 \<Rightarrow> kstate \<Rightarrow> kstate fallible" where
  "check_page_alloc pages_va s =
     (if pages_va = 0 then Inl (KPanic ''pages is a null pointer!'')
      else andThen (list_pages s (page_free_list s) (npages s)) (\<lambda>before.
      take_three s (\<lambda>pp0 pp1 pp2 s.
      require (page2pa pp0 < word_of_nat (npages s) * PGSIZE \<and> page2pa pp1 < word_of_nat (npages s) * PGSIZE
          \<and> page2pa pp2 < word_of_nat (npages s) * PGSIZE)
      (let fl = page_free_list s; s = s\<lparr>page_free_list := None\<rparr> in
      no_alloc s (\<lambda>s.
      andThen (page_free pp0 s) (\<lambda>s. andThen (page_free pp1 s) (\<lambda>s. andThen (page_free pp2 s) (\<lambda>s.
      take_three s (\<lambda>pp0 pp1 pp2 s.
      no_alloc s (\<lambda>s.
      andThen (page2kva s pp0) (\<lambda>pg.
      andThen (page_free pp0 (fill_words pg 1024 0x01010101 s)) (\<lambda>s.
      must_alloc ALLOC_ZERO s (\<lambda>pp s.
      require (pp0 = pp)
      (andThen (page2kva s pp) (\<lambda>pg.
      require (\<forall>i\<in>{0..<1024}. rd s pg i = 0)
      (let s = s\<lparr>page_free_list := fl\<rparr> in
      andThen (page_free pp0 s) (\<lambda>s. andThen (page_free pp1 s) (\<lambda>s. andThen (page_free pp2 s) (\<lambda>s.
      andThen (list_pages s (page_free_list s) (npages s)) (\<lambda>after.
      require (length after = length before) (Inr s)))))))))))))))))))))"

text \<open>
  The assertions of \<open>check_page\<close>: an address is mapped to, an insertion succeeds or fails, the
  entry of an address satisfies a test.
\<close>

definition maps_to :: "u32 \<Rightarrow> u32 \<Rightarrow> kstate \<Rightarrow> 'a fallible \<Rightarrow> 'a fallible" where
  "maps_to va pa s r = andThen (check_va2pa (kern_pgdir s) va s) (\<lambda>x. require (x = pa) r)"

definition must_insert :: "nat \<Rightarrow> u32 \<Rightarrow> u32 \<Rightarrow> kstate \<Rightarrow> (kstate \<Rightarrow> 'a fallible) \<Rightarrow> 'a fallible" where
  "must_insert pp va perm s f = andThen (page_insert (kern_pgdir s) pp va perm s) (\<lambda>(r, s).
     require (r = Inr ()) (f s))"

definition refuse_insert :: "nat \<Rightarrow> u32 \<Rightarrow> u32 \<Rightarrow> kstate \<Rightarrow> (kstate \<Rightarrow> 'a fallible) \<Rightarrow> 'a fallible" where
  "refuse_insert pp va perm s f = andThen (page_insert (kern_pgdir s) pp va perm s) (\<lambda>(r, s).
     require (r \<noteq> Inr ()) (f s))"

definition entry_of :: "u32 \<Rightarrow> bool \<Rightarrow> kstate \<Rightarrow> (nat \<Rightarrow> nat \<Rightarrow> kstate \<Rightarrow> 'a fallible) \<Rightarrow> 'a fallible" where
  "entry_of va create s f = andThen (pgdir_walk (kern_pgdir s) va create s) (\<lambda>(pte, s).
     case pte of None \<Rightarrow> Inl (KUndef ''null pte'') | Some (pt, i) \<Rightarrow> f pt i s)"

definition entry_has :: "u32 \<Rightarrow> u32 \<Rightarrow> bool \<Rightarrow> kstate \<Rightarrow> 'a fallible \<Rightarrow> 'a fallible" where
  "entry_has va bits on s r = entry_of va False s (\<lambda>pt i s. require ((rd s pt i AND bits \<noteq> 0) = on) r)"

definition refs :: "kstate \<Rightarrow> nat \<Rightarrow> nat" where
  "refs s p = unat (pp_ref (pages s p))"

text \<open>\<open>check_page\<close> from its first lookup to the replacement of \<open>pp2\<close> at \<open>PGSIZE\<close>.\<close>

definition check_page_map :: "nat \<Rightarrow> nat \<Rightarrow> nat \<Rightarrow> kstate \<Rightarrow> kstate fallible" where
  "check_page_map pp0 pp1 pp2 s =
     andThen (page_lookup (kern_pgdir s) 0 s) (\<lambda>(p, _).
     require (p = None)
    (refuse_insert pp1 0 PTE_W s (\<lambda>s.
     andThen (page_free pp0 s) (\<lambda>s.
     must_insert pp1 0 PTE_W s (\<lambda>s.
     require (PTE_ADDR (rd s (kern_pgdir s) 0) = page2pa pp0)
    (maps_to 0 (page2pa pp1) s
    (require (refs s pp1 = 1 \<and> refs s pp0 = 1)
    (must_insert pp2 PGSIZE PTE_W s (\<lambda>s.
     maps_to PGSIZE (page2pa pp2) s
    (require (refs s pp2 = 1)
    (no_alloc s (\<lambda>s.
     must_insert pp2 PGSIZE PTE_W s (\<lambda>s.
     maps_to PGSIZE (page2pa pp2) s
    (require (refs s pp2 = 1)
    (no_alloc s (\<lambda>s.
     andThen (KADDR s (PTE_ADDR (rd s (kern_pgdir s) (PDX PGSIZE)))) (\<lambda>ptep.
     entry_of PGSIZE False s (\<lambda>pt i s.
     require (pt = PGNUM (ptep - KERNBASE) \<and> i = PTX PGSIZE)
    (must_insert pp2 PGSIZE (PTE_W OR PTE_U) s (\<lambda>s.
     maps_to PGSIZE (page2pa pp2) s
    (require (refs s pp2 = 1)
    (entry_has PGSIZE PTE_U True s
    (require (rd s (kern_pgdir s) 0 AND PTE_U \<noteq> 0)
    (must_insert pp2 PGSIZE PTE_W s (\<lambda>s.
     entry_has PGSIZE PTE_W True s
    (entry_has PGSIZE PTE_U False s
    (refuse_insert pp0 PTSIZE PTE_W s (\<lambda>s.
     must_insert pp1 PGSIZE PTE_W s (\<lambda>s.
     entry_has PGSIZE PTE_U False s (Inr s))))))))))))))))))))))))))))))"

text \<open>From there to the last allocation: the counts of pages mapped twice, once and not at all.\<close>

definition check_page_counts :: "nat \<Rightarrow> nat \<Rightarrow> nat \<Rightarrow> kstate \<Rightarrow> kstate fallible" where
  "check_page_counts pp0 pp1 pp2 s =
     maps_to 0 (page2pa pp1) s
    (maps_to PGSIZE (page2pa pp1) s
    (require (refs s pp1 = 2 \<and> refs s pp2 = 0)
    (must_alloc 0 s (\<lambda>pp s.
     require (pp = pp2)
    (andThen (page_remove (kern_pgdir s) 0 s) (\<lambda>s.
     maps_to 0 (NOT 0) s
    (maps_to PGSIZE (page2pa pp1) s
    (require (refs s pp1 = 1 \<and> refs s pp2 = 0)
    (must_insert pp1 PGSIZE 0 s (\<lambda>s.
     require (refs s pp1 \<noteq> 0 \<and> pp_link (pages s pp1) = None)
    (andThen (page_remove (kern_pgdir s) PGSIZE s) (\<lambda>s.
     maps_to 0 (NOT 0) s
    (maps_to PGSIZE (NOT 0) s
    (require (refs s pp1 = 0 \<and> refs s pp2 = 0)
    (must_alloc 0 s (\<lambda>pp s.
     require (pp = pp1)
    (no_alloc s Inr)))))))))))))))))"

text \<open>From the recovery of \<open>pp0\<close> to the return of the free list \<open>fl\<close>.\<close>

definition forget_table :: "nat \<Rightarrow> nat \<Rightarrow> kstate \<Rightarrow> kstate" where
  "forget_table pdx pp s = upd_page pp (\<lambda>pi. pi\<lparr>pp_ref := 0\<rparr>) (wr (kern_pgdir s) pdx 0 s)"

definition check_page_walk :: "nat option \<Rightarrow> nat \<Rightarrow> nat \<Rightarrow> nat \<Rightarrow> kstate \<Rightarrow> kstate fallible" where
  "check_page_walk fl pp0 pp1 pp2 s =
     require (PTE_ADDR (rd s (kern_pgdir s) 0) = page2pa pp0)
    (require (refs s pp0 = 1)
    (andThen (page_free pp0 (forget_table 0 pp0 s)) (\<lambda>s.
     let va = PGSIZE * word_of_nat NPDENTRIES + PGSIZE in
     entry_of va True s (\<lambda>pt i s.
     andThen (KADDR s (PTE_ADDR (rd s (kern_pgdir s) (PDX va)))) (\<lambda>ptep1.
     require (pt = PGNUM (ptep1 - KERNBASE) \<and> i = PTX va)
    (let s = forget_table (PDX va) pp0 s in
     andThen (page2kva s pp0) (\<lambda>pg.
     andThen (page_free pp0 (fill_words pg 1024 0xFFFFFFFF s)) (\<lambda>s.
     andThen (pgdir_walk (kern_pgdir s) 0 True s) (\<lambda>(_, s).
     andThen (page2kva s pp0) (\<lambda>pg.
     require (\<forall>i\<in>{0..<NPTENTRIES}. rd s pg i AND PTE_P = 0)
    (let s = (forget_table 0 pp0 s)\<lparr>page_free_list := fl\<rparr> in
     andThen (page_free pp0 s) (\<lambda>s.
     andThen (page_free pp1 s) (\<lambda>s.
     page_free pp2 s)))))))))))))"

definition check_page_mmio :: "kstate \<Rightarrow> kstate fallible" where
  "check_page_mmio s =
     andThen (mmio_map_region 0 4097 s) (\<lambda>(mm1, s).
     andThen (mmio_map_region 0 4096 s) (\<lambda>(mm2, s).
     require (MMIOBASE \<le> mm1 \<and> mm1 + 8096 < MMIOLIM)
    (require (MMIOBASE \<le> mm2 \<and> mm2 + 8096 < MMIOLIM)
    (require (mm1 mod PGSIZE = 0 \<and> mm2 mod PGSIZE = 0)
    (require (mm1 + 8096 \<le> mm2)
    (maps_to mm1 0 s
    (maps_to (mm1 + PGSIZE) PGSIZE s
    (maps_to mm2 0 s
    (maps_to (mm2 + PGSIZE) (NOT 0) s
    (entry_has mm1 (PTE_W OR PTE_PWT OR PTE_PCD) True s
    (entry_has mm1 PTE_U False s
    (entry_of mm1 False s (\<lambda>pt i s. let s = wr pt i 0 s in
     entry_of (mm1 + PGSIZE) False s (\<lambda>pt i s. let s = wr pt i 0 s in
     entry_of mm2 False s (\<lambda>pt i s. Inr (wr pt i 0 s))))))))))))))))"

definition check_page :: "kstate \<Rightarrow> kstate fallible" where
  "check_page s =
     take_three s (\<lambda>pp0 pp1 pp2 s.
     let fl = page_free_list s; s = s\<lparr>page_free_list := None\<rparr> in
     no_alloc s (\<lambda>s.
     andThen (check_page_map pp0 pp1 pp2 s) (\<lambda>s.
     andThen (check_page_counts pp0 pp1 pp2 s) (\<lambda>s.
     andThen (check_page_walk fl pp0 pp1 pp2 s) check_page_mmio))))"

text \<open>
  \<open>check_kern_pgdir\<close>, in the configuration without \<open>TP1_PSE\<close>. Its loops advance by pages.
\<close>

definition region_maps :: "u32 \<Rightarrow> u32 \<Rightarrow> kstate \<Rightarrow> nat \<Rightarrow> bool fallible" where
  "region_maps va pa s i = andThen (check_va2pa (kern_pgdir s) (va + page2pa i) s) (\<lambda>x. Inr (x = pa + page2pa i))"

definition check_stack :: "(nat \<Rightarrow> u32) \<Rightarrow> kstate \<Rightarrow> nat \<Rightarrow> bool fallible" where
  "check_stack kstacks s n =
     (let base = KSTACKTOP - (KSTKSIZE + KSTKGAP) * (word_of_nat n + 1) in
      andThen (PADDR (kstacks n)) (\<lambda>pa.
      andThen (require_each (region_maps (base + KSTKGAP) pa s) 0 8) (\<lambda>_.
      andThen (require_each (\<lambda>i. andThen (check_va2pa (kern_pgdir s) (base + page2pa i) s) (\<lambda>x. Inr (x = NOT 0))) 0 8) (\<lambda>_.
        Inr True))))"

definition check_pde :: "kstate \<Rightarrow> nat \<Rightarrow> bool" where
  "check_pde s i =
     (let pde = rd s (kern_pgdir s) i in
      if i \<in> {PDX UVPT, PDX (KSTACKTOP - 1), PDX UPAGES, PDX UENVS, PDX MMIOBASE} then pde AND PTE_P \<noteq> 0
      else if PDX KERNBASE \<le> i then pde AND PTE_P \<noteq> 0 \<and> pde AND PTE_W \<noteq> 0
      else pde = 0)"

definition check_kern_pgdir :: "u32 \<Rightarrow> u32 \<Rightarrow> (nat \<Rightarrow> u32) \<Rightarrow> kstate \<Rightarrow> unit fallible" where
  "check_kern_pgdir pages_va envs_va kstacks s =
     andThen (PADDR pages_va) (\<lambda>pa.
     andThen (require_each (region_maps UPAGES pa s) 0 (PGNUM (ROUNDUP (pages_size s) PGSIZE))) (\<lambda>_.
     andThen (PADDR envs_va) (\<lambda>pa.
     andThen (require_each (region_maps UENVS pa s) 0 (PGNUM (ROUNDUP envs_size PGSIZE))) (\<lambda>_.
     andThen (require_each (region_maps KERNBASE 0 s) 0 (npages s)) (\<lambda>_.
     andThen (require_each (check_stack kstacks s) 0 NCPU) (\<lambda>_.
       require_each (\<lambda>i. Inr (check_pde s i)) 0 NPDENTRIES))))))"

text \<open>Aligned words through the installed page tables.\<close>

definition kload :: "u32 \<Rightarrow> kstate \<Rightarrow> u32 fallible" where
  "kload va s =
     (case translate s (cr3 s (cpunum s)) False va of
        None \<Rightarrow> Inl (KPanic ''page fault in kernel mode'')
      | Some (pg, off) \<Rightarrow> Inr (rd s pg (off div 4)))"

definition kstore :: "u32 \<Rightarrow> u32 \<Rightarrow> kstate \<Rightarrow> kstate fallible" where
  "kstore va w s =
     (case translate s (cr3 s (cpunum s)) True va of
        None \<Rightarrow> Inl (KPanic ''page fault in kernel mode'')
      | Some (pg, off) \<Rightarrow> Inr (wr pg (off div 4) w s))"

definition check_page_installed_pgdir :: "kstate \<Rightarrow> kstate fallible" where
  "check_page_installed_pgdir s =
     must_alloc 0 s (\<lambda>pp0 s. must_alloc 0 s (\<lambda>pp1 s. must_alloc 0 s (\<lambda>pp2 s.
     andThen (page_free pp0 s) (\<lambda>s.
     andThen (page2kva s pp1) (\<lambda>pg1. let s = fill_words pg1 1024 0x01010101 s in
     andThen (page2kva s pp2) (\<lambda>pg2. let s = fill_words pg2 1024 0x02020202 s in
     andThen (page_insert (kern_pgdir s) pp1 PGSIZE PTE_W s) (\<lambda>(_, s).
     require (refs s pp1 = 1)
    (andThen (kload PGSIZE s) (\<lambda>w. require (w = 0x01010101)
    (andThen (page_insert (kern_pgdir s) pp2 PGSIZE PTE_W s) (\<lambda>(_, s).
     andThen (kload PGSIZE s) (\<lambda>w. require (w = 0x02020202)
    (require (refs s pp2 = 1 \<and> refs s pp1 = 0)
    (andThen (kstore PGSIZE 0x03030303 s) (\<lambda>s.
     andThen (page2kva s pp2) (\<lambda>pg2. require (rd s pg2 0 = 0x03030303)
    (andThen (page_remove (kern_pgdir s) PGSIZE s) (\<lambda>s.
     require (refs s pp2 = 0)
    (require (PTE_ADDR (rd s (kern_pgdir s) 0) = page2pa pp0)
    (require (refs s pp0 = 1)
     (page_free pp0 (forget_table 0 pp0 s))))))))))))))))))))))"

section \<open>mem_init\<close>

definition CR0_ON :: u32 where [simp]: "CR0_ON = 0x80050023"
definition CR0_OFF :: u32 where [simp]: "CR0_OFF = 0xC"

text \<open>The part up to \<open>page_init\<close>: the addresses of the two arrays and the new state.\<close>

definition boot_data :: "u32 \<Rightarrow> kstate \<Rightarrow> ((u32 \<times> u32) \<times> kstate) fallible" where
  "boot_data kend s =
     andThen (boot_alloc kend PGSIZE s) (\<lambda>(kern_va, s).
     andThen (PADDR kern_va) (\<lambda>pa.
     let s = zero_page (PGNUM pa) (s\<lparr>kern_pgdir := PGNUM pa\<rparr>);
         s = wr (kern_pgdir s) (PDX UVPT) (pa OR PTE_U OR PTE_P) s in
     andThen (boot_alloc kend (pages_size s) s) (\<lambda>(pages_va, s).
     let s = s\<lparr>pages := (\<lambda>_. \<lparr>pp_link = None, pp_ref = 0\<rparr>)\<rparr> in
     andThen (boot_alloc kend envs_size s) (\<lambda>(envs_va, s).
     let s = s\<lparr>envs := (\<lambda>_. zero_env)\<rparr> in
       Inr ((pages_va, envs_va), s)))))"

definition mem_init :: "(nat \<Rightarrow> u8) \<Rightarrow> u32 \<Rightarrow> (nat \<Rightarrow> u32) \<Rightarrow> u32 \<Rightarrow> kstate \<Rightarrow> (u32 \<times> kstate) fallible" where
  "mem_init cmos kend kstacks cr0 s =
     andThen (boot_data kend (i386_detect_memory cmos s)) (\<lambda>((pages_va, envs_va), s).
     andThen (page_init kend s) (\<lambda>s.
     andThen (check_page_free_list kend True s) (\<lambda>s.
     andThen (check_page_alloc pages_va s) (\<lambda>s.
     andThen (check_page s) (\<lambda>s.
     andThen (map_kernel pages_va envs_va kstacks s) (\<lambda>s.
     andThen (check_kern_pgdir pages_va envs_va kstacks s) (\<lambda>_.
     let s = lcr3 (kern_pgdir s) s in
     andThen (check_page_free_list kend False s) (\<lambda>s.
     let cr0 = (cr0 OR CR0_ON) AND NOT CR0_OFF in
     andThen (check_page_installed_pgdir s) (\<lambda>s.
       Inr (cr0, s))))))))))"

end
