(* ===== verification/KernMap.thy ===== *)
theory KernMap
  imports MemInit EnvProps
begin

text \<open>
  The kernel's part of the address space while \<open>mem_init\<close> builds it: the invariant of the
  kernel's page directory, one page mapped by \<open>boot_map_region\<close>, a whole region, and the final
  map, which passes \<open>check_kern_pgdir\<close>.
\<close>

section \<open>The kernel's directory\<close>

text \<open>
  Entry 957 maps the directory itself at \<open>UVPT\<close>; every other entry that is not empty has a table
  of its own, counted once and open to everything; all other pages have no references.
\<close>

definition tables :: "kstate \<Rightarrow> nat set" where
  "tables s = {i. i < 1024 \<and> i \<noteq> 957 \<and> rd s (kern_pgdir s) i \<noteq> 0}"

definition table_at :: "kstate \<Rightarrow> nat \<Rightarrow> nat" where
  "table_at s i = PGNUM (rd s (kern_pgdir s) i)"

definition table_pde :: "u32 \<Rightarrow> bool" where
  "table_pde e \<longleftrightarrow> open_pde e \<and> e AND PTE_PS = 0"

definition kdir :: "kstate \<Rightarrow> nat list \<Rightarrow> bool" where
  "kdir s fl \<longleftrightarrow> mem_ok s \<and> free_pages s fl \<and> kern_pgdir s < npages s \<and> kern_pgdir s \<notin> set fl
     \<and> (\<forall>i\<in>tables s. table_at s i < npages s \<and> table_at s i \<noteq> kern_pgdir s \<and> table_pde (rd s (kern_pgdir s) i))
     \<and> inj_on (table_at s) (tables s)
     \<and> (\<forall>p<npages s. unat (pp_ref (pages s p)) = (if p \<in> table_at s ` tables s then 1 else 0))"

lemma finite_tables [simp]: "finite (tables s)"
  by (simp add: tables_def)

lemma tables_iff: "i < 1024 \<Longrightarrow> i \<noteq> 957 \<Longrightarrow> i \<in> tables s \<longleftrightarrow> rd s (kern_pgdir s) i \<noteq> 0"
  by (simp add: tables_def)

lemma kdir_table:
  assumes "kdir s fl" and "i \<in> tables s"
  shows "table_at s i < npages s" and "table_at s i \<noteq> kern_pgdir s" and "table_pde (rd s (kern_pgdir s) i)"
    and "table_at s i \<notin> set fl"
proof -
  show lt: "table_at s i < npages s" and "table_at s i \<noteq> kern_pgdir s" "table_pde (rd s (kern_pgdir s) i)"
    using assms by (simp_all add: kdir_def)
  have "unat (pp_ref (pages s (table_at s i))) = 1" using assms lt by (simp add: kdir_def)
  then have "pp_ref (pages s (table_at s i)) \<noteq> 0" by auto
  then show "table_at s i \<notin> set fl" using assms(1) by (auto simp: kdir_def free_pages_def)
qed

lemma table_pde_new:
  assumes "t < 65536" shows "table_pde (page2pa t OR PTE_P OR PTE_W OR PTE_U)"
proof -
  have "page2pa t AND PTE_PS = 0" by (rule page2pa_and_perm) (simp add: perm_ok_def)
  then have "(page2pa t OR PTE_P OR PTE_W OR PTE_U) AND PTE_PS = 0" by (simp add: bit.conj_disj_distrib2)
  then show ?thesis unfolding table_pde_def using open_pde_new [of "page2pa t"] by (simp only: simp_thms)
qed

text \<open>The two writes of the mapping functions: a new table, and an entry of a table.\<close>

lemma hang_table_kern:
  assumes k: "kdir s (t # fl)" and i: "i < 1024" "i \<noteq> 957" "rd s (kern_pgdir s) i = 0"
  defines "s' \<equiv> hang_table (kern_pgdir s) i t s"
  shows "kdir s' fl" and "tables s' = insert i (tables s)" and "table_at s' i = t" and "i \<notin> tables s"
    and "\<And>q j. q \<noteq> t \<Longrightarrow> (q, j) \<noteq> (kern_pgdir s, i) \<Longrightarrow> rd s' q j = rd s q j"
    and "\<And>j. rd s' t j = 0" and "kern_pgdir s' = kern_pgdir s"
    and "\<And>m. m div 1024 \<noteq> 957 \<Longrightarrow> m < 1048576 \<Longrightarrow> pte_of s' (kern_pgdir s) m = pte_of s (kern_pgdir s) m"
proof -
  let ?k = "kern_pgdir s" and ?e = "page2pa t OR PTE_P OR PTE_W OR PTE_U"
  have free: "free_pages s (t # fl)" and ok: "mem_ok s" using k by (simp_all add: kdir_def)
  have t: "t < npages s" "t < 65536" using free_pages_Cons [OF free] ok by (simp_all add: mem_ok_def)
  have tk: "t \<noteq> ?k" "?k \<notin> set fl" using k by (auto simp: kdir_def)
  have dist: "t \<notin> set fl" using free_pages_distinct [OF free] by simp
  show kk: "kern_pgdir s' = ?k" by (simp add: s'_def)
  have rdk: "rd s' ?k j = (if j = i then ?e else rd s ?k j)" for j using tk by (simp add: s'_def hang_table_rd)
  show ni: "i \<notin> tables s" using i by (simp add: tables_def)
  show tb: "tables s' = insert i (tables s)"
    unfolding tables_def kk rdk using i table_entry(2) [OF t(2)] by auto
  have at: "table_at s' j = (if j = i then t else table_at s j)" for j
    unfolding table_at_def kk rdk using table_entry(1) [OF t(2)] by simp
  then show "table_at s' i = t" by simp
  have new: "table_at s j \<noteq> t" if "j \<in> tables s" for j using kdir_table(4) [OF k that] by auto
  have pages: "pages s' = (pages s)(t := \<lparr>pp_link = None, pp_ref = 1\<rparr>)"
    using free_pages_Cons [OF free] free by (auto simp: s'_def hang_table_def pop_page_def free_pages_def)
  have n: "npages s' = npages s" by (simp add: s'_def)
  have "free_pages (pop_page s) fl" by (rule free_pages_pop [OF free])
  then have "free_pages s' fl"
    using dist by (auto simp: s'_def free_pages_def hang_table_def page_link_def [abs_def] elim!: chain_cong)
  moreover have "inj_on (table_at s') (tables s')"
    using k new ni unfolding kdir_def inj_on_def by (auto simp: tb at)
  moreover have "table_at s' j < npages s' \<and> table_at s' j \<noteq> ?k \<and> table_pde (rd s' ?k j)" if "j \<in> tables s'" for j
    using that kdir_table [OF k] t(1) tk table_pde_new [OF t(2)] ni by (auto simp: at tb rdk n)
  moreover have "table_at s' ` tables s' = insert t (table_at s ` tables s)"
    using ni by (auto simp: tb at image_iff)
  then have "unat (pp_ref (pages s' p)) = (if p \<in> table_at s' ` tables s' then 1 else 0)" if "p < npages s" for p
    using that k by (auto simp: pages kdir_def)
  ultimately show "kdir s' fl" using k tk ok unfolding kdir_def kk by (simp add: n mem_ok_def)
  show other: "rd s' q j = rd s q j" if "q \<noteq> t" "(q, j) \<noteq> (?k, i)" for q j
    using that by (auto simp: s'_def hang_table_rd)
  show zero: "rd s' t j = 0" for j using tk by (simp add: s'_def hang_table_rd)
  show "pte_of s' ?k m = pte_of s ?k m" if m: "m div 1024 \<noteq> 957" "m < 1048576" for m
  proof (cases "m div 1024 = i")
    case True
    then show ?thesis using i table_entry(1) [OF t(2)] zero by (simp add: pte_of_def rdk Let_def)
  next
    case False
    have "m div 1024 < 1024" using m(2) by (simp add: div_less_iff_less_mult)
    then have "rd s ?k (m div 1024) = 0 \<or> m div 1024 \<in> tables s" using m(1) by (auto simp: tables_def)
    then show ?thesis using False new [of "m div 1024"] kdir_table(2) [OF k, of "m div 1024"] other
      by (auto simp: pte_of_def rdk Let_def table_at_def)
  qed
qed

lemma write_entry_kern:
  fixes v :: u32
  assumes k: "kdir s fl" and i: "i \<in> tables s" and j: "j < 1024"
  defines "s' \<equiv> wr (table_at s i) j v s"
  shows "kdir s' fl" and "tables s' = tables s" and "rd s' (kern_pgdir s) = rd s (kern_pgdir s)"
    and "\<And>m. m div 1024 \<noteq> 957 \<Longrightarrow> m < 1048576 \<Longrightarrow>
       pte_of s' (kern_pgdir s) m = (if m = i * 1024 + j then v else pte_of s (kern_pgdir s) m)"
proof -
  let ?k = "kern_pgdir s"
  show rdk: "rd s' ?k = rd s ?k" using kdir_table(2) [OF k i] by (auto simp: s'_def)
  have kk: "kern_pgdir s' = ?k" by (simp add: s'_def)
  show tb: "tables s' = tables s" by (simp add: tables_def kk rdk)
  have at: "table_at s' = table_at s" by (simp add: table_at_def [abs_def] kk rdk)
  have "free_pages s' fl" using k ref_inv_pages_cong(1) [of s' s fl] by (simp add: s'_def kdir_def)
  then show "kdir s' fl" using k unfolding kdir_def kk rdk tb at by (simp add: s'_def mem_ok_def)
  show "pte_of s' ?k m = (if m = i * 1024 + j then v else pte_of s ?k m)" if m: "m div 1024 \<noteq> 957" "m < 1048576" for m
  proof (cases "rd s ?k (m div 1024) = 0")
    case True
    then have "m div 1024 \<noteq> i" using i by (auto simp: tables_def)
    then show ?thesis using True j by (auto simp: pte_of_def rdk)
  next
    case False
    have "m div 1024 < 1024" using m(2) by (simp add: div_less_iff_less_mult)
    then have "m div 1024 \<in> tables s" using False m(1) by (simp add: tables_def)
    then have "table_at s (m div 1024) = table_at s i \<longleftrightarrow> m div 1024 = i"
      using k i unfolding kdir_def inj_on_def by blast
    moreover have "m div 1024 = i \<and> m mod 1024 = j \<longleftrightarrow> m = i * 1024 + j" using j by auto
    ultimately show ?thesis using False
      unfolding pte_of_def Let_def rdk table_at_def [symmetric] by (auto simp: s'_def)
  qed
qed

section \<open>boot_map_region\<close>

definition kframe :: "kstate \<Rightarrow> kstate \<Rightarrow> bool" where
  "kframe s s' \<longleftrightarrow> vm_frame s s' \<and> nextfree s' = nextfree s
     \<and> rd s' (kern_pgdir s) 957 = rd s (kern_pgdir s) 957"

lemma kframe_refl [simp]: "kframe s s"
  by (simp add: kframe_def)

lemma kframe_trans: "kframe s t \<Longrightarrow> kframe t u \<Longrightarrow> kframe s u"
  by (auto simp: kframe_def vm_frame_def)

lemma kframe_kern: "kframe s s' \<Longrightarrow> kern_pgdir s' = kern_pgdir s \<and> npages s' = npages s"
  by (simp add: kframe_def vm_frame_def)

text \<open>What is mapped at virtual page \<open>m\<close>, outside the window at \<open>UVPT\<close>.\<close>

definition kpte :: "kstate \<Rightarrow> nat \<Rightarrow> u32" where
  "kpte s m = pte_of s (kern_pgdir s) m"

definition kpage :: "nat \<Rightarrow> bool" where
  "kpage m \<longleftrightarrow> m < 1048576 \<and> m div 1024 \<noteq> 957"

lemma map_page_present:
  assumes k: "kdir s fl" and i: "PDX va \<in> tables s" and none: "kpte s (PGNUM va) = 0"
  shows "\<exists>s'. (\<forall>n. boot_map_loop (kern_pgdir s) va pa perm (Suc n) s
         = boot_map_loop (kern_pgdir s) (va + PGSIZE) (pa + PGSIZE) perm n s')
     \<and> kdir s' fl \<and> kframe s s' \<and> tables s' = tables s
     \<and> (\<forall>m. kpage m \<longrightarrow> kpte s' m = (if m = PGNUM va then pa OR perm OR PTE_P else kpte s m))"
proof -
  let ?k = "kern_pgdir s" and ?v = "pa OR perm OR PTE_P"
  let ?s' = "wr (table_at s (PDX va)) (PTX va) ?v s"
  have ne: "rd s ?k (PDX va) \<noteq> 0" using i by (simp add: tables_def)
  have t: "table_at s (PDX va) < npages s" by (rule kdir_table(1) [OF k i])
  have "rd s (table_at s (PDX va)) (PTX va) = 0" using none ne by (simp add: kpte_def pte_of_va table_at_def)
  then have "page_remove ?k va s = Inr s"
    using ne t by (simp add: page_remove_def pgdir_walk_present page_lookup_empty table_at_def)
  then have "boot_map_loop ?k va pa perm (Suc n) s = boot_map_loop ?k (va + PGSIZE) (pa + PGSIZE) perm n ?s'" for n
    using ne t by (simp add: pgdir_walk_present table_at_def)
  moreover note w = write_entry_kern [OF k i PTX_less [of va], where v = ?v]
  moreover have "kframe s ?s'" using w(3) by (simp add: kframe_def)
  moreover have "PDX va * 1024 + PTX va = PGNUM va" by (simp add: PDX_PGNUM PTX_PGNUM)
  ultimately show ?thesis by (intro exI [of _ ?s']) (simp add: kpte_def kpage_def)
qed

text \<open>The pages of the new tables come from the front of the free list, one for each.\<close>

definition taken :: "kstate \<Rightarrow> nat list \<Rightarrow> kstate \<Rightarrow> nat list \<Rightarrow> bool" where
  "taken s fl t fl' \<longleftrightarrow> (\<exists>ps. fl = ps @ fl' \<and> card (tables t) = card (tables s) + length ps)"

lemma taken_none: "tables t = tables s \<Longrightarrow> taken s fl t fl"
  by (simp add: taken_def)

lemma taken_trans:
  assumes "taken s fl t fl'" and "taken t fl' u fl''" shows "taken s fl u fl''"
proof -
  from assms obtain ps qs where "fl = ps @ fl'" "fl' = qs @ fl''"
    "card (tables t) = card (tables s) + length ps" "card (tables u) = card (tables t) + length qs"
    by (auto simp: taken_def)
  then have "fl = (ps @ qs) @ fl''" "card (tables u) = card (tables s) + length (ps @ qs)" by simp_all
  then show ?thesis unfolding taken_def by blast
qed

lemma taken_length: "taken s fl t fl' \<Longrightarrow> length fl' + card (tables t) = length fl + card (tables s)"
  by (auto simp: taken_def)

lemma map_page_kern:
  assumes k: "kdir s fl" and va: "PDX va \<noteq> 957" and none: "kpte s (PGNUM va) = 0"
    and room: "PDX va \<in> tables s \<or> fl \<noteq> []"
  shows "\<exists>s' fl'. (\<forall>n. boot_map_loop (kern_pgdir s) va pa perm (Suc n) s
         = boot_map_loop (kern_pgdir s) (va + PGSIZE) (pa + PGSIZE) perm n s')
     \<and> kdir s' fl' \<and> kframe s s' \<and> tables s' = insert (PDX va) (tables s)
     \<and> taken s fl s' fl'
     \<and> (\<forall>m. kpage m \<longrightarrow> kpte s' m = (if m = PGNUM va then pa OR perm OR PTE_P else kpte s m))"
proof (cases "PDX va \<in> tables s")
  case True
  from map_page_present [OF k True none, of pa perm] True taken_none show ?thesis by (metis insert_absorb)
next
  case False
  let ?k = "kern_pgdir s"
  from False room obtain t fl' where fl: "fl = t # fl'" by (cases fl) auto
  have zero: "rd s ?k (PDX va) = 0" using False va by (simp add: tables_def PDX_less)
  define s1 where "s1 = hang_table ?k (PDX va) t s"
  note h = hang_table_kern [OF k [unfolded fl] PDX_less va zero, folded s1_def]
  have vap: "PGNUM va div 1024 \<noteq> 957" "PGNUM va < 1048576"
    using va PGNUM_less [of va] by (simp_all add: PDX_PGNUM)
  have in1: "PDX va \<in> tables s1" by (simp add: h(2))
  have pde1: "rd s1 ?k (PDX va) \<noteq> 0" "PGNUM (rd s1 ?k (PDX va)) = t"
    using in1 h(3) by (simp_all add: tables_def table_at_def h(7))
  have run: "boot_map_loop ?k va pa perm (Suc n) s = boot_map_loop ?k va pa perm (Suc n) s1" for n
  proof -
    have "free_pages s (t # fl')" "mem_ok s" using k by (simp_all add: kdir_def fl)
    from pgdir_walk_create [OF zero this] have "pgdir_walk ?k va True s = Inr (Some (t, PTX va), s1)"
      by (simp add: s1_def)
    moreover have "pgdir_walk ?k va True s1 = Inr (Some (t, PTX va), s1)"
      using pgdir_walk_present [OF pde1(1)] kdir_table(1) [OF h(1) in1] pde1(2) h(3) by simp
    ultimately show ?thesis by simp
  qed
  have none1: "kpte s1 (PGNUM va) = 0" using none h(8) [OF vap] by (simp add: kpte_def h(7))
  from map_page_present [OF h(1) in1 none1, of pa perm] obtain s' where
    s': "\<forall>n. boot_map_loop ?k va pa perm (Suc n) s1 = boot_map_loop ?k (va + PGSIZE) (pa + PGSIZE) perm n s'"
      "kdir s' fl'" "kframe s1 s'" "tables s' = tables s1"
      "\<forall>m. kpage m \<longrightarrow> kpte s' m = (if m = PGNUM va then pa OR perm OR PTE_P else kpte s1 m)"
    by (auto simp: h(7))
  have "nextfree s1 = nextfree s" by (simp add: s1_def hang_table_def pop_page_def split: option.split)
  moreover have "t \<noteq> ?k" using k fl by (auto simp: kdir_def)
  ultimately have "kframe s s1" using h(5) [of ?k 957] va by (simp add: kframe_def s1_def)
  then have "kframe s s'" by (rule kframe_trans [OF _ s'(3)])
  moreover have "kpte s1 m = kpte s m" if "kpage m" for m using that h(8) by (simp add: kpte_def kpage_def h(7))
  ultimately show ?thesis using s' h(2,4) run fl by (intro exI [of _ s'] exI [of _ fl']) (simp add: taken_def)
qed

text \<open>A region of \<open>n\<close> pages from virtual page \<open>v\<close> that is not mapped yet, onto physical page \<open>p\<close>.\<close>

definition region_pdes :: "nat \<Rightarrow> nat \<Rightarrow> nat set" where
  "region_pdes v n = (\<lambda>m. m div 1024) ` {v..<v + n}"

lemma boot_map_loop_kern:
  assumes "kdir s fl" and "\<And>m. v \<le> m \<Longrightarrow> m < v + n \<Longrightarrow> kpage m \<and> kpte s m = 0"
    and "card (tables s \<union> region_pdes v n) \<le> card (tables s) + length fl"
    and "va = page2pa v" and "v + n \<le> 1048576"
  shows "\<exists>s' fl'. boot_map_loop (kern_pgdir s) va (page2pa p) perm n s = Inr s'
     \<and> kdir s' fl' \<and> kframe s s' \<and> tables s' = tables s \<union> region_pdes v n
     \<and> taken s fl s' fl'
     \<and> (\<forall>m. kpage m \<longrightarrow> kpte s' m = (if v \<le> m \<and> m < v + n then page2pa (p + (m - v)) OR perm OR PTE_P else kpte s m))"
  using assms
proof (induction n arbitrary: s fl v va p)
  case 0
  then show ?case by (auto simp: region_pdes_def intro: taken_none)
next
  case (Suc n)
  have pg: "PGNUM va = v" using Suc.prems(4,5) by simp
  have v: "kpage v" "kpte s v = 0" using Suc.prems(2) [of v] by simp_all
  then have pdx: "PDX va \<noteq> 957" "PDX va = v div 1024" by (simp_all add: PDX_PGNUM pg kpage_def)
  have rest: "region_pdes v (Suc n) = insert (v div 1024) (region_pdes (Suc v) n)"
  proof -
    have "{v..<v + Suc n} = insert v {Suc v..<Suc v + n}" by auto
    then show ?thesis by (simp add: region_pdes_def)
  qed
  have room: "PDX va \<in> tables s \<or> fl \<noteq> []"
  proof (rule ccontr)
    assume no: "\<not> (PDX va \<in> tables s \<or> fl \<noteq> [])"
    then have "card (insert (v div 1024) (tables s)) \<le> card (tables s \<union> region_pdes v (Suc n))"
      by (intro card_mono) (auto simp: rest region_pdes_def)
    with no Suc.prems(3) show False by (simp add: pdx)
  qed
  have none: "kpte s (PGNUM va) = 0" using v by (simp add: pg)
  from map_page_kern [OF Suc.prems(1) pdx(1) none room, of "page2pa p" perm, unfolded pg pdx(2)] obtain s1 fl1 where
    s1: "\<forall>n. boot_map_loop (kern_pgdir s) va (page2pa p) perm (Suc n) s
         = boot_map_loop (kern_pgdir s) (va + PGSIZE) (page2pa p + PGSIZE) perm n s1"
      "kdir s1 fl1" "kframe s s1" "tables s1 = insert (v div 1024) (tables s)"
      "taken s fl s1 fl1"
      "\<forall>m. kpage m \<longrightarrow> kpte s1 m = (if m = v then page2pa p OR perm OR PTE_P else kpte s m)"
    by blast
  have next_page: "page2pa q + PGSIZE = page2pa (Suc q)" for q
    by (simp add: page2pa_def push_bit_eq_mult algebra_simps)
  have "tables s1 \<union> region_pdes (Suc v) n = tables s \<union> region_pdes v (Suc n)" by (auto simp: s1(4) rest)
  then have "card (tables s1 \<union> region_pdes (Suc v) n) \<le> card (tables s1) + length fl1"
    using Suc.prems(3) taken_length [OF s1(5)] by simp
  from Suc.IH [OF s1(2) _ this, of "page2pa (Suc v)" "Suc p"] s1(6) Suc.prems(2,5) obtain s2 fl2 where
    s2: "boot_map_loop (kern_pgdir s1) (page2pa (Suc v)) (page2pa (Suc p)) perm n s1 = Inr s2"
      "kdir s2 fl2" "kframe s1 s2" "tables s2 = tables s1 \<union> region_pdes (Suc v) n"
      "taken s1 fl1 s2 fl2"
      "\<forall>m. kpage m \<longrightarrow> kpte s2 m = (if Suc v \<le> m \<and> m < Suc v + n then page2pa (Suc p + (m - Suc v)) OR perm OR PTE_P else kpte s1 m)"
    by auto
  have "kpte s2 m = (if v \<le> m \<and> m < v + Suc n then page2pa (p + (m - v)) OR perm OR PTE_P else kpte s m)"
    if "kpage m" for m
    using that s2(6) s1(6) by (auto simp: Suc_le_eq le_less Suc_diff_Suc)
  moreover have "kframe s s2" by (rule kframe_trans [OF s1(3) s2(3)])
  moreover have "tables s2 = tables s \<union> region_pdes v (Suc n)" by (auto simp: s2(4) s1(4) rest)
  moreover have "boot_map_loop (kern_pgdir s) va (page2pa p) perm (Suc n) s = Inr s2"
    using s1(1) [THEN spec, of n] s2(1) kframe_kern [OF s1(3)] Suc.prems(4) next_page by (simp only:)
  moreover have "taken s fl s2 fl2" by (rule taken_trans [OF s1(5) s2(5)])
  ultimately show ?case using s2(2) by blast
qed

lemma boot_map_region_kern:
  assumes k: "kdir s fl" and free: "\<And>m. v \<le> m \<Longrightarrow> m < v + n \<Longrightarrow> kpage m \<and> kpte s m = 0"
    and room: "card (tables s \<union> region_pdes v n) \<le> card (tables s) + length fl"
    and sz: "unat sz = 4096 * n" and v: "v + n \<le> 1048576" and va: "va = page2pa v" and pa: "pa = page2pa p"
  shows "\<exists>s' fl'. boot_map_region (kern_pgdir s) va sz pa perm s = Inr s'
     \<and> kdir s' fl' \<and> kframe s s' \<and> tables s' = tables s \<union> region_pdes v n
     \<and> taken s fl s' fl'
     \<and> (\<forall>m. kpage m \<longrightarrow> kpte s' m = (if v \<le> m \<and> m < v + n then page2pa (p + (m - v)) OR perm OR PTE_P else kpte s m))"
proof -
  have "(unat sz + 4095) div 4096 = n" by (simp add: sz)
  then show ?thesis
    using boot_map_loop_kern [OF k free room va v, where p = p and perm = perm] by (simp add: boot_map_region_def pa)
qed

section \<open>The kernel's map\<close>

lemma region_pdes_within: "a * 1024 \<le> v \<Longrightarrow> v + n \<le> b * 1024 \<Longrightarrow> region_pdes v n \<subseteq> {a..<b}"
  by (auto simp: region_pdes_def div_le_mono less_mult_imp_div_less)

text \<open>
  The stack of processor \<open>j\<close> has 8 pages and lies above a gap of 8 pages; counted down from
  \<open>KSTACKTOP\<close>, page \<open>d\<close> belongs to stack \<open>d div 16\<close> when \<open>d mod 16 < 8\<close>.
\<close>

definition stack_page :: "nat \<Rightarrow> nat \<Rightarrow> bool" where
  "stack_page j m \<longleftrightarrow> m < 983040 \<and> (983039 - m) div 16 = j \<and> (983039 - m) mod 16 < 8"

lemma stack_page_range: "j < 8 \<Longrightarrow> stack_page j m \<longleftrightarrow> 983032 - 16 * j \<le> m \<and> m < 983032 - 16 * j + 8"
proof (cases "m < 983040")
  case True
  assume j: "j < 8"
  obtain d where d: "m = 983039 - d" "d < 983040" using True by (intro that [of "983039 - m"]) simp_all
  have "983039 - m = d" using d by simp
  moreover have "d div 16 = j \<and> d mod 16 < 8 \<longleftrightarrow> 16 * j \<le> d \<and> d < 16 * j + 8"
  proof
    assume "d div 16 = j \<and> d mod 16 < 8"
    then show "16 * j \<le> d \<and> d < 16 * j + 8" using div_mult_mod_eq [of d 16] by linarith
  next
    assume "16 * j \<le> d \<and> d < 16 * j + 8"
    then obtain r where "d = 16 * j + r" "r < 8" by (metis add_less_cancel_left le_iff_add)
    then show "d div 16 = j \<and> d mod 16 < 8" by simp
  qed
  moreover have "16 * j \<le> d \<and> d < 16 * j + 8 \<longleftrightarrow> 983032 - 16 * j \<le> m \<and> m < 983032 - 16 * j + 8"
    using d j by linarith
  ultimately show ?thesis using True by (simp add: stack_page_def)
qed (auto simp: stack_page_def)

lemma stack_start_page: "j < 8 \<Longrightarrow> stack_start j = page2pa (983032 - 16 * j)"
  by (simp add: stack_start_def page2pa_def push_bit_eq_mult of_nat_diff algebra_simps)

lemma PADDR_page: "kva = KERNBASE + page2pa p \<Longrightarrow> p < 65536 \<Longrightarrow> PADDR kva = Inr (page2pa p)"
  using unat_page_kva [of p] by (simp add: PADDR_def word_less_nat_alt)

lemma map_stacks_kern:
  assumes "kdir s fl" and "i + n \<le> 8" and "\<forall>j m. i \<le> j \<and> j < i + n \<and> stack_page j m \<longrightarrow> kpte s m = 0"
    and "959 \<in> tables s \<or> fl \<noteq> []" and K: "\<forall>j<8. kstacks j = KERNBASE + page2pa (K j) \<and> K j < 65536"
  shows "\<exists>s' fl'. map_stacks kstacks i n s = Inr s' \<and> kdir s' fl' \<and> kframe s s'
     \<and> tables s' = tables s \<union> (if n = 0 then {} else {959})
     \<and> taken s fl s' fl'
     \<and> (\<forall>m. kpage m \<longrightarrow> kpte s' m =
          (if \<exists>j. i \<le> j \<and> j < i + n \<and> stack_page j m
           then page2pa (K ((983039 - m) div 16) + (7 - (983039 - m) mod 16)) OR (PTE_W OR PTE_P) OR PTE_P else kpte s m))"
  using assms(1-4)
proof (induction n arbitrary: i s fl)
  case 0
  then show ?case by (auto intro: taken_none)
next
  case (Suc n)
  let ?v = "983032 - 16 * i" and ?perm = "PTE_W OR PTE_P"
  have i: "i < 8" using Suc.prems(2) by simp
  have pdes: "region_pdes ?v 8 = {959}"
  proof -
    have "region_pdes ?v 8 \<subseteq> {959..<960}" by (rule region_pdes_within) (use i in simp_all)
    moreover have "region_pdes ?v 8 \<noteq> {}" by (simp add: region_pdes_def)
    moreover have "{959..<960 :: nat} = {959}" by auto
    ultimately show ?thesis by (metis subset_singletonD)
  qed
  have in_stack: "stack_page i m" if "?v \<le> m" "m < ?v + 8" for m using that stack_page_range [OF i] by simp
  have free: "kpage m \<and> kpte s m = 0" if "?v \<le> m" "m < ?v + 8" for m
    using Suc.prems(3) [THEN spec, THEN spec, of i m] in_stack [OF that] i that by (auto simp: kpage_def)
  have room: "card (tables s \<union> region_pdes ?v 8) \<le> card (tables s) + length fl"
    using Suc.prems(4) unfolding pdes by (cases fl) (auto simp: card_insert_if insert_absorb)
  have sizes: "unat KSTKSIZE = 4096 * 8" "?v + 8 \<le> 1048576" using i by simp_all
  have pa: "page2pa (K i) = page2pa (K i)" by (rule refl)
  from boot_map_region_kern [OF Suc.prems(1) free room sizes stack_start_page [OF i] pa, where perm = ?perm, unfolded pdes]
  obtain s1 fl1 where
    s1: "boot_map_region (kern_pgdir s) (stack_start i) KSTKSIZE (page2pa (K i)) ?perm s = Inr s1" "kdir s1 fl1"
      "kframe s s1" "tables s1 = tables s \<union> {959}" "taken s fl s1 fl1"
      "\<forall>m. kpage m \<longrightarrow> kpte s1 m = (if ?v \<le> m \<and> m < ?v + 8 then page2pa (K i + (m - ?v)) OR ?perm OR PTE_P else kpte s m)"
    by blast
  have kpte1: "kpte s1 m = (if stack_page i m then page2pa (K ((983039 - m) div 16) + (7 - (983039 - m) mod 16)) OR ?perm OR PTE_P else kpte s m)"
    if "kpage m" for m
  proof (cases "stack_page i m")
    case True
    then have d: "(983039 - m) div 16 = i" "m < 983040" "(983039 - m) mod 16 < 8" by (simp_all add: stack_page_def)
    have "983039 - m = 16 * i + (983039 - m) mod 16" using div_mult_mod_eq [of "983039 - m" 16] d(1) by simp
    then have "m - ?v = 7 - (983039 - m) mod 16" using d(2,3) i by linarith
    with d(1) have "m - ?v = 7 - (983039 - m) mod 16" "(983039 - m) div 16 = i" by simp_all
    then show ?thesis using True s1(6) that stack_page_range [OF i, of m] by simp
  next
    case False
    then show ?thesis using s1(6) that stack_page_range [OF i, of m] by auto
  qed
  have kpage_stack: "kpage m" if "stack_page j m" "j < 8" for j m
    using that stack_page_range [of j m] by (auto simp: kpage_def)
  have "kpte s1 m = 0" if "Suc i \<le> j" "j < Suc i + n" "stack_page j m" for j m
    using that kpage_stack [of j m] kpte1 [of m] Suc.prems(2) Suc.prems(3) [THEN spec, THEN spec, of j m]
    by (auto simp: stack_page_def)
  then have free1: "\<forall>j m. Suc i \<le> j \<and> j < Suc i + n \<and> stack_page j m \<longrightarrow> kpte s1 m = 0" by blast
  have more: "959 \<in> tables s1 \<or> fl1 \<noteq> []" and le: "Suc i + n \<le> 8" using s1(4) Suc.prems(2) by simp_all
  from Suc.IH [OF s1(2) le free1 more] obtain s2 fl2 where
    s2: "map_stacks kstacks (Suc i) n s1 = Inr s2" "kdir s2 fl2" "kframe s1 s2"
      "tables s2 = tables s1 \<union> (if n = 0 then {} else {959})"
      "taken s1 fl1 s2 fl2"
      "\<forall>m. kpage m \<longrightarrow> kpte s2 m =
          (if \<exists>j. Suc i \<le> j \<and> j < Suc i + n \<and> stack_page j m
           then page2pa (K ((983039 - m) div 16) + (7 - (983039 - m) mod 16)) OR ?perm OR PTE_P else kpte s1 m)"
    by blast
  have split: "(\<exists>j. i \<le> j \<and> j < i + Suc n \<and> stack_page j m) \<longleftrightarrow> stack_page i m \<or> (\<exists>j. Suc i \<le> j \<and> j < Suc i + n \<and> stack_page j m)" for m
  proof -
    have "i \<le> j \<and> j < i + Suc n \<and> b \<longleftrightarrow> j = i \<and> b \<or> Suc i \<le> j \<and> j < Suc i + n \<and> b" for j b by auto
    then show ?thesis by (simp only: ex_disj_distrib simp_thms)
  qed
  have "kpte s2 m = (if \<exists>j. i \<le> j \<and> j < i + Suc n \<and> stack_page j m
           then page2pa (K ((983039 - m) div 16) + (7 - (983039 - m) mod 16)) OR ?perm OR PTE_P else kpte s m)"
    if "kpage m" for m
    unfolding split s2(6) [THEN spec, THEN mp, OF that] kpte1 [OF that]
    by (cases "stack_page i m") (simp_all only: simp_thms if_True if_False if_cancel)
  moreover have "map_stacks kstacks i (Suc n) s = Inr s2"
    using s1(1) s2(1) K i PADDR_page [of "kstacks i" "K i"] kframe_kern [OF s1(3)] by simp
  moreover have "tables s2 = tables s \<union> (if Suc n = 0 then {} else {959})" by (simp add: s2(4) s1(4))
  moreover have "taken s fl s2 fl2" by (rule taken_trans [OF s1(5) s2(5)])
  ultimately show ?case using s2(2) kframe_trans [OF s1(3) s2(3)] by blast
qed

end
