(* ===== verification/BootData.thy ===== *)
theory BootData
  imports KernMap
begin

text \<open>
  \<open>mem_init\<close> up to \<open>page_init\<close>: the boot allocator hands out consecutive pages, and the page
  directory, the array \<open>pages\<close> and the array \<open>envs\<close> lie one after the other; what is left is
  the first free list.
\<close>

section \<open>boot_alloc\<close>

lemma boot_alloc_next:
  assumes ok: "mem_ok s" and nf: "(if nextfree s = 0 then ROUNDUP kend PGSIZE else nextfree s) = KERNBASE + page2pa K"
    and q: "q = (unat n + 4095) div 4096" and room: "K + q < npages s"
  shows "boot_alloc kend n s = Inr (KERNBASE + page2pa K, s\<lparr>nextfree := KERNBASE + page2pa (K + q)\<rparr>)"
proof -
  let ?nf = "KERNBASE + page2pa K"
  have n: "npages s \<le> 65536" using ok by (simp add: mem_ok_def)
  have Kq: "K < 65536" "K + q < 65536" using room n by simp_all
  have len: "unat n \<le> 4096 * q" 
    using div_mult_mod_eq [of "unat n + 4095" 4096] mod_less_divisor [of 4096 "unat n + 4095"] unfolding q by linarith
  have u: "unat ?nf = 4026531840 + 4096 * K" using unat_page_kva [OF Kq(1)] by simp
  have sum: "unat (?nf + n) = 4026531840 + 4096 * K + unat n"
    using u len Kq by (subst unat_add_lem [THEN iffD1]) simp_all
  have last: "unat (?nf + n - KERNBASE) = 4096 * K + unat n"
    using sum by (subst unat_sub_if_size) (simp add: word_size)
  have top: "unat (PGSIZE * word_of_nat (npages s)) = 4096 * npages s"
    using n by (simp add: unat_word_ariths unat_of_nat)
  have pg: "PGNUM (?nf + n - KERNBASE) < npages s"
    unfolding PGNUM_div last using len room by (simp add: div_less_iff_less_mult)
  have le: "\<not> PGSIZE * word_of_nat (npages s) \<le> ?nf + n - KERNBASE"
    using len room unfolding word_le_nat_alt top last by simp
  have "4026531840 + 4096 * K + unat n + 4095 = (983040 + K) * 4096 + (unat n + 4095)" by simp
  then have "(4026531840 + 4096 * K + unat n + 4095) div 4096 = 983040 + K + q"
    unfolding q by (simp only: div_mult_self3 num.distinct zero_neq_numeral refl)
  moreover have "unat (?nf + n) + 4095 < 4294967296" unfolding sum using len Kq by simp
  ultimately have "unat (ROUNDUP (?nf + n) PGSIZE) = 4096 * (983040 + K + q)"
    using unat_ROUNDUP_page [of "?nf + n"] unfolding sum by simp
  then have r: "ROUNDUP (?nf + n) PGSIZE = KERNBASE + page2pa (K + q)"
    using unat_page_kva [OF Kq(2)] by (simp add: word_unat_eq_iff)
  have "PADDR (?nf + n) = Inr (?nf + n - KERNBASE)" using sum by (simp add: PADDR_def word_less_nat_alt)
  moreover have "KADDR s (?nf + n - KERNBASE) = Inr (?nf + n)" using pg by (simp add: KADDR_def)
  ultimately show ?thesis unfolding boot_alloc_def Let_def nf using le r by simp
qed

section \<open>The boot data\<close>

text \<open>The number of pages that the array \<open>pages\<close> takes.\<close>

definition pages_len :: "kstate \<Rightarrow> nat" where
  "pages_len s = (8 * npages s + 4095) div 4096"

lemma pages_len_le: "mem_ok s \<Longrightarrow> pages_len s \<le> 128"
  by (simp add: pages_len_def mem_ok_def)

lemma unat_pages_size: "mem_ok s \<Longrightarrow> unat (pages_size s) = 8 * npages s"
  by (simp add: pages_size_def unat_word_ariths unat_of_nat mem_ok_def)

lemma unat_rounded:
  assumes "mem_ok s" shows "unat (ROUNDUP (pages_size s) PGSIZE) = 4096 * pages_len s"
  using assms unat_pages_size [OF assms] unat_ROUNDUP_page [of "pages_size s"] by (simp add: pages_len_def mem_ok_def)

lemma PTE_ADDR_entry: "perm_ok perm \<Longrightarrow> PTE_ADDR (page2pa p OR perm) = page2pa p"
proof (rule bit_word_eqI)
  fix n
  assume perm: "perm_ok perm" and n: "n < LENGTH(32)"
  have "\<not> bit perm n" if "12 \<le> n"
  proof -
    have "bit (drop_bit 12 perm) (n - 12) = bit perm n" using that by (simp add: bit_drop_bit_eq)
    then show ?thesis using perm by (simp add: perm_ok_def)
  qed
  then show "bit (PTE_ADDR (page2pa p OR perm)) n = bit (page2pa p) n"
    using n by (auto simp: PTE_ADDR_def page2pa_def bit_simps mask_10_12 [symmetric] bit_mask_iff)
qed

lemma kva_not_0: "K < 65536 \<Longrightarrow> KERNBASE + page2pa K \<noteq> 0"
  using unat_page_kva [of K] by (auto simp: word_unat_eq_iff)

text \<open>The kernel ends below page \<open>K\<close>: the directory is page \<open>K\<close>, the two arrays follow.\<close>

lemma boot_data_layout:
  assumes ok: "mem_ok s" and nf: "nextfree s = 0" "ROUNDUP kend PGSIZE = KERNBASE + page2pa K"
    and room: "K + pages_len s + 33 < npages s"
  shows "\<exists>s'. boot_data kend s = Inr ((KERNBASE + page2pa (K + 1), KERNBASE + page2pa (K + 1 + pages_len s)), s')
     \<and> npages s' = npages s \<and> nextfree s' = KERNBASE + page2pa (K + pages_len s + 33) \<and> page_free_list s' = page_free_list s
     \<and> kern_pgdir s' = K \<and> pages s' = (\<lambda>_. \<lparr>pp_link = None, pp_ref = 0\<rparr>) \<and> envs s' = (\<lambda>_. zero_env) \<and> mmio_base s' = mmio_base s
     \<and> rd s' K = (\<lambda>i. if i = 957 then page2pa K OR PTE_U OR PTE_P else 0)"
proof -
  have n: "npages s \<le> 65536" using ok by (simp add: mem_ok_def)
  let ?P = "page2pa K OR PTE_U OR PTE_P"
  let ?s1 = "s\<lparr>nextfree := KERNBASE + page2pa (K + 1)\<rparr>"
  let ?s2 = "wr K 957 ?P (zero_page K (?s1\<lparr>kern_pgdir := K\<rparr>))"
  let ?s3 = "?s2\<lparr>nextfree := KERNBASE + page2pa (K + 1 + pages_len s)\<rparr>\<lparr>pages := (\<lambda>_. \<lparr>pp_link = None, pp_ref = 0\<rparr>)\<rparr>"
  have a1: "boot_alloc kend PGSIZE s = Inr (KERNBASE + page2pa K, ?s1)"
    using nf room by (intro boot_alloc_next [OF ok]) simp_all
  have sz: "pages_size ?s2 = pages_size s" by (simp add: pages_size_def)
  have a2: "boot_alloc kend (pages_size s) ?s2 = Inr (KERNBASE + page2pa (K + 1), ?s2\<lparr>nextfree := KERNBASE + page2pa (K + 1 + pages_len s)\<rparr>)"
    using room n kva_not_0 [of "K + 1"] by (intro boot_alloc_next) (simp_all add: mem_ok_def unat_pages_size [OF ok] pages_len_def)
  have a3: "boot_alloc kend envs_size ?s3 = Inr (KERNBASE + page2pa (K + 1 + pages_len s), ?s3\<lparr>nextfree := KERNBASE + page2pa (K + pages_len s + 33)\<rparr>)"
  proof -
    have "K + pages_len s + 33 = K + 1 + pages_len s + 32" by simp
    then show ?thesis using room n kva_not_0 [of "K + 1 + pages_len s"]
      by (simp only:) (intro boot_alloc_next, simp_all add: mem_ok_def)
  qed
  have pdx: "PDX UVPT = 957" by (simp add: PDX_div)
  have pa: "PADDR (KERNBASE + page2pa K) = Inr (page2pa K)" using room n by (intro PADDR_page) simp_all
  have pg: "PGNUM (page2pa K) = K" using room n by simp
  have "boot_data kend s = Inr ((KERNBASE + page2pa (K + 1), KERNBASE + page2pa (K + 1 + pages_len s)),
      ?s3\<lparr>nextfree := KERNBASE + page2pa (K + pages_len s + 33)\<rparr>\<lparr>envs := (\<lambda>_. zero_env)\<rparr>)"
    unfolding boot_data_def a1 andThen_Inr prod.case pa Let_def pg pdx select_convs kstate.simps using a2 [folded sz] a3 by simp
  moreover have "rd (?s3\<lparr>nextfree := KERNBASE + page2pa (K + pages_len s + 33)\<rparr>\<lparr>envs := (\<lambda>_. zero_env)\<rparr>) = rd ?s2"
    by (simp add: rd_def fun_eq_iff)
  moreover have "rd ?s2 K = (\<lambda>i. if i = 957 then ?P else 0)" by (simp add: fun_eq_iff)
  ultimately show ?thesis by simp
qed

section \<open>The first free list\<close>

text \<open>The processors and the lock are no business of the memory code.\<close>

definition same_procs :: "kstate \<Rightarrow> kstate \<Rightarrow> bool" where
  "same_procs s t \<longleftrightarrow> cpus t = cpus s \<and> cpunum t = cpunum s \<and> kernel_lock t = kernel_lock s"

lemma boot_alloc_procs: "boot_alloc kend n s = Inr (a, t) \<Longrightarrow> same_procs s t"
  by (auto simp: boot_alloc_def same_procs_def Let_def andThen_eq_Inr split: if_splits)

lemma boot_data_procs: "boot_data kend s = Inr (r, t) \<Longrightarrow> same_procs s t"
  by (auto simp: boot_data_def Let_def andThen_eq_Inr same_procs_def dest!: boot_alloc_procs)

lemma page_init_frame:
  assumes "mem_ok s" and "nextfree s = KERNBASE + page2pa K" and "K < npages s" and "i + n = npages s"
  shows "\<forall>s'. page_init_loop kend i n s = Inr s' \<longrightarrow> kern_pgdir s' = kern_pgdir s \<and> nextfree s' = nextfree s \<and> mmio_base s' = mmio_base s \<and> envs s' = envs s
     \<and> same_procs s s' \<and> (\<forall>p. pp_ref (pages s p) = 0 \<longrightarrow> pp_ref (pages s' p) = 0)"
  using assms
proof (induction n arbitrary: i s)
  case (Suc n)
  let ?t = "if usable K i then push_page i (upd_page i (\<lambda>pi. pi\<lparr>pp_link := None, pp_ref := 0\<rparr>) s)
     else upd_page i (\<lambda>pi. pi\<lparr>pp_link := None\<rparr>) s"
  have step: "page_init_step kend i s = Inr ?t" using Suc.prems by (intro page_init_step_cases) simp_all
  have t: "npages ?t = npages s" "nextfree ?t = nextfree s" "kern_pgdir ?t = kern_pgdir s" "mmio_base ?t = mmio_base s" "envs ?t = envs s"
    "cpus ?t = cpus s" "cpunum ?t = cpunum s" "kernel_lock ?t = kernel_lock s" "pp_ref (pages s p) = 0 \<longrightarrow> pp_ref (pages ?t p) = 0" for p
    by (auto simp: push_page_def)
  then show ?case using Suc.prems Suc.IH [of ?t "Suc i"] by (simp add: step mem_ok_def same_procs_def)
qed (simp add: same_procs_def)

lemma boot_start:
  assumes "npages s \<le> 65536" and "nextfree s = 0" and "ROUNDUP kend PGSIZE = KERNBASE + page2pa K" and "256 \<le> K"
    and "K + pages_len s + 33 < npages s" and "page_free_list s = None"
  shows "\<exists>s1 s2. boot_data kend s = Inr ((KERNBASE + page2pa (K + 1), KERNBASE + page2pa (K + 1 + pages_len s)), s1)
     \<and> page_init kend s1 = Inr s2 \<and> kern_pgdir s2 = K
     \<and> kdir s2 (rev (filter (usable (K + pages_len s + 33)) [0..<npages s])) \<and> tables s2 = {}
     \<and> PTE_ADDR (rd s2 K 957) = page2pa K \<and> rd s2 K 957 AND PTE_P \<noteq> 0 \<and> envs s2 = (\<lambda>_. zero_env)
     \<and> nextfree s2 = KERNBASE + page2pa (K + pages_len s + 33) \<and> mmio_base s2 = mmio_base s \<and> npages s2 = npages s \<and> same_procs s s2"
proof -
  let ?K = "K + pages_len s + 33"
  let ?fl = "rev (filter (usable ?K) [0..<npages s])"
  have ok: "mem_ok s" using assms(1) by (simp add: mem_ok_def)
  from boot_data_layout [OF ok assms(2,3,5)] obtain s1 where
    s1: "boot_data kend s = Inr ((KERNBASE + page2pa (K + 1), KERNBASE + page2pa (K + 1 + pages_len s)), s1)"
      "npages s1 = npages s" "nextfree s1 = KERNBASE + page2pa ?K" "page_free_list s1 = page_free_list s" "kern_pgdir s1 = K"
      "pages s1 = (\<lambda>_. \<lparr>pp_link = None, pp_ref = 0\<rparr>)" "rd s1 K = (\<lambda>i. if i = 957 then page2pa K OR PTE_U OR PTE_P else 0)"
      "envs s1 = (\<lambda>_. zero_env)" "mmio_base s1 = mmio_base s"
    by blast
  have prem: "npages s1 \<le> 65536" "?K < npages s1" "page_free_list s1 = None" "\<forall>p. pages s1 p = \<lparr>pp_link = None, pp_ref = 0\<rparr>"
    using assms s1 by simp_all
  from page_init_correct [OF prem(1) s1(3) prem(2-4)] obtain s2 where
    s2: "page_init kend s1 = Inr s2" "free_pages s2 ?fl" "rd s2 = rd s1" using s1(2) by auto
  have f: "npages s2 = npages s" "kern_pgdir s2 = K" "\<forall>p. pp_ref (pages s2 p) = 0" "envs s2 = (\<lambda>_. zero_env)"
    "nextfree s2 = KERNBASE + page2pa ?K" "mmio_base s2 = mmio_base s" "same_procs s1 s2"
    using page_init_frame [of s1 ?K 0 "npages s1" kend] page_init_loop_correct [of s1 ?K 0 "npages s1" kend] s1 s2 prem
    by (auto simp: page_init_def mem_ok_def free_pages_def page_link_def)
  have "tables s2 = {}" by (simp add: tables_def f(2) s2(3) s1(7))
  moreover have "kdir s2 ?fl"
    using s2(2) f ok assms(4,5) \<open>tables s2 = {}\<close> by (auto simp: kdir_def mem_ok_def usable_def)
  moreover have "PTE_ADDR (rd s2 K 957) = page2pa K" "rd s2 K 957 AND PTE_P \<noteq> 0"
    using PTE_ADDR_entry [of "PTE_U OR PTE_P" K] or_P_present [of "page2pa K OR PTE_U"]
    by (simp_all only: s2(3) s1(7) if_True refl or.assoc perm_ok_or perm_ok_flags simp_thms)
  moreover have "same_procs s s2" using f(7) boot_data_procs [OF s1(1)] by (simp add: same_procs_def)
  ultimately show ?thesis using s1(1) s2(1) f(1,2,4-6) by blast
qed

text \<open>
  The first two stages of \<open>mem_init\<close> succeed when the kernel image ends below page \<open>K\<close> (at or
  above 1 MB) and its data leaves memory over. They place \<open>pages\<close> and \<open>envs\<close> right after the page
  directory, which maps nothing but itself at \<open>UVPT\<close>; the free list is exactly the usable pages,
  all environments are zero, and the invariant of the kernel's directory holds.
\<close>

theorem boot_data_free_list:
  assumes "npages s \<le> 65536" and "nextfree s = 0" and "ROUNDUP kend PGSIZE = KERNBASE + page2pa K" and "256 \<le> K"
    and "K + pages_len s + 33 < npages s" and "page_free_list s = None"
  shows "\<exists>s1 s2. boot_data kend s = Inr ((KERNBASE + page2pa (K + 1), KERNBASE + page2pa (K + 1 + pages_len s)), s1)
     \<and> page_init kend s1 = Inr s2 \<and> kern_pgdir s2 = K
     \<and> kdir s2 (rev (filter (usable (K + pages_len s + 33)) [0..<npages s])) \<and> tables s2 = {}
     \<and> PTE_ADDR (rd s2 K 957) = page2pa K \<and> rd s2 K 957 AND PTE_P \<noteq> 0 \<and> envs s2 = (\<lambda>_. zero_env)"
  using boot_start [OF assms] by blast

text \<open>4 MB of memory, the kernel image ends in page 278.\<close>

definition power_on :: kstate where
  "power_on = boot_state\<lparr>nextfree := 0\<rparr>"

lemma power_on_fields:
  "npages power_on = 1024" "nextfree power_on = 0" "page_free_list power_on = None" "pages_len power_on = 2"
  "ROUNDUP 0xF0116800 PGSIZE = KERNBASE + page2pa 279"
  by (simp_all add: power_on_def boot_state_def pages_len_def ROUNDUP_def ROUNDDOWN_def page2pa_def)

theorem boot_data_free_list_witness:
  "\<exists>s1 s2. boot_data 0xF0116800 power_on = Inr ((KERNBASE + page2pa 280, KERNBASE + page2pa 282), s1)
     \<and> page_init 0xF0116800 s1 = Inr s2 \<and> kern_pgdir s2 = 279 \<and> kdir s2 (rev (filter (usable 314) [0..<1024])) \<and> tables s2 = {}
     \<and> PTE_ADDR (rd s2 279 957) = page2pa 279 \<and> rd s2 279 957 AND PTE_P \<noteq> 0 \<and> envs s2 = (\<lambda>_. zero_env)"
  using boot_data_free_list [of power_on "0xF0116800" 279] power_on_fields by (simp del: KERNBASE_def PTE_P_def upt_rec_numeral)

end
