(* ===== verification/BootMap.thy ===== *)
theory BootMap
  imports BootData
begin

text \<open>
  What \<open>mem_init\<close> maps above \<open>UTOP\<close>, page by page, and that \<open>check_kern_pgdir\<close> accepts it.
\<close>

section \<open>The whole map\<close>

lemma region_pdes_whole: "region_pdes (a * 1024) (b * 1024) = {a..<a + b}"
proof
  show "region_pdes (a * 1024) (b * 1024) \<subseteq> {a..<a + b}" by (rule region_pdes_within) (simp_all add: algebra_simps)
  show "{a..<a + b} \<subseteq> region_pdes (a * 1024) (b * 1024)"
  proof
    fix i assume "i \<in> {a..<a + b}"
    then have "i * 1024 \<in> {a * 1024..<a * 1024 + b * 1024}" by auto
    then show "i \<in> region_pdes (a * 1024) (b * 1024)"
      unfolding region_pdes_def by (intro image_eqI [where x = "i * 1024"]) simp_all
  qed
qed

lemma region_pdes_one:
  assumes "a * 1024 \<le> v" "v + n \<le> (a + 1) * 1024" "0 < n" shows "region_pdes v n = {a}"
proof -
  have "region_pdes v n \<subseteq> {a..<a + 1}" by (rule region_pdes_within) (use assms in simp_all)
  moreover have "region_pdes v n \<noteq> {}" using assms(3) by (simp add: region_pdes_def)
  moreover have "{a..<a + 1} = {a}" by auto
  ultimately show ?thesis by (metis subset_singletonD)
qed

text \<open>The entry of virtual page \<open>m\<close>; \<open>P\<close>, \<open>E\<close>, \<open>K j\<close> are the first frames of the arrays and stacks.\<close>

definition kernel_map :: "kstate \<Rightarrow> nat \<Rightarrow> nat \<Rightarrow> (nat \<Rightarrow> nat) \<Rightarrow> nat \<Rightarrow> u32" where
  "kernel_map s P E K m =
     (if 983040 \<le> m then page2pa (m - 983040) OR PTE_W OR PTE_P
      else if 978944 \<le> m \<and> m < 978944 + pages_len s then page2pa (P + (m - 978944)) OR PTE_U OR PTE_P
      else if 977920 \<le> m \<and> m < 977920 + 32 then page2pa (E + (m - 977920)) OR PTE_U OR PTE_P
      else if (983039 - m) div 16 < 8 \<and> (983039 - m) mod 16 < 8
      then page2pa (K ((983039 - m) div 16) + (7 - (983039 - m) mod 16)) OR PTE_W OR PTE_P
      else 0)"

lemma perm_twice: "x OR (p OR q) OR q = x OR p OR (q :: u32)"
  by (simp add: or.assoc)

lemma stack_page_kpage:
  assumes "j < 8" "stack_page j m" shows "kpage m" "m div 1024 = 959" "982016 \<le> m" "m < 983040"
  using stack_page_range [of j m] assms by (auto simp: kpage_def)

text \<open>
  A stage of the construction: at least \<open>c\<close> pages of the free list \<open>L\<close> are left, taken from its
  front, the tables are those of \<open>T\<close>, and \<open>f\<close> says what is mapped.
\<close>

definition mapped :: "kstate \<Rightarrow> nat \<Rightarrow> nat list \<Rightarrow> nat set \<Rightarrow> (nat \<Rightarrow> u32) \<Rightarrow> bool" where
  "mapped s c L T f \<longleftrightarrow> (\<exists>fl. kdir s fl \<and> (\<exists>ps. L = ps @ fl) \<and> c \<le> length fl) \<and> tables s = T \<and> (\<forall>m. kpage m \<longrightarrow> kpte s m = f m)"

definition lay :: "nat \<Rightarrow> nat \<Rightarrow> nat \<Rightarrow> u32 \<Rightarrow> (nat \<Rightarrow> u32) \<Rightarrow> nat \<Rightarrow> u32" where
  "lay v n p perm f m = (if v \<le> m \<and> m < v + n then page2pa (p + (m - v)) OR perm OR PTE_P else f m)"

lemma taken_left:
  assumes t: "taken s fl s' fl'" and L: "\<exists>ps. L = ps @ fl" and c: "card (tables s') \<le> card (tables s) + c" "c + d \<le> length fl"
  shows "(\<exists>ps. L = ps @ fl') \<and> d \<le> length fl'"
proof -
  from t L obtain ps qs where "fl = ps @ fl'" "length ps \<le> c" "L = qs @ fl" using c(1) by (auto simp: taken_def)
  moreover from this have "L = (qs @ ps) @ fl'" by simp
  ultimately show ?thesis using c(2) by auto
qed

lemma mapped_region:
  assumes st: "mapped s (c + d) L T f" and free: "\<And>m. v \<le> m \<Longrightarrow> m < v + n \<Longrightarrow> kpage m \<and> f m = 0"
    and c: "card (region_pdes v n) \<le> c" and sz: "unat sz = 4096 * n" and v: "v + n \<le> 1048576"
    and va: "va = page2pa v" and pa: "pa = page2pa p"
  shows "\<exists>s'. boot_map_region (kern_pgdir s) va sz pa (perm OR PTE_P) s = Inr s' \<and> kframe s s'
     \<and> mapped s' d L (T \<union> region_pdes v n) (lay v n p perm f)"
proof -
  from st obtain fl where fl: "kdir s fl" "c + d \<le> length fl" "tables s = T" "\<forall>m. kpage m \<longrightarrow> kpte s m = f m"
    and L: "\<exists>ps. L = ps @ fl" by (auto simp: mapped_def)
  have card: "card (tables s \<union> region_pdes v n) \<le> card (tables s) + c"
    using card_Un_le [of "tables s" "region_pdes v n"] c by linarith
  then have room: "card (tables s \<union> region_pdes v n) \<le> card (tables s) + length fl" using fl(2) by simp
  have none: "kpage m \<and> kpte s m = 0" if "v \<le> m" "m < v + n" for m using free [OF that] fl(4) by simp
  from boot_map_region_kern [OF fl(1) none room sz v va pa, where perm = "perm OR PTE_P"] obtain s' fl' where
    s': "boot_map_region (kern_pgdir s) va sz pa (perm OR PTE_P) s = Inr s'" "kdir s' fl'" "kframe s s'"
      "tables s' = tables s \<union> region_pdes v n" "taken s fl s' fl'"
      "\<forall>m. kpage m \<longrightarrow> kpte s' m = (if v \<le> m \<and> m < v + n then page2pa (p + (m - v)) OR (perm OR PTE_P) OR PTE_P else kpte s m)"
    by blast
  from taken_left [OF s'(5) L _ fl(2)] card have "(\<exists>ps. L = ps @ fl') \<and> d \<le> length fl'" by (simp add: s'(4))
  then show ?thesis using s' fl(3,4) by (auto simp: mapped_def perm_twice lay_def)
qed

lemma mapped_stacks:
  assumes st: "mapped s (1 + d) L T f" and free: "\<forall>m. 982016 \<le> m \<and> m < 983040 \<longrightarrow> f m = 0"
    and K: "\<forall>j<8. kstacks j = KERNBASE + page2pa (K j) \<and> K j < 65536"
  shows "\<exists>s'. mem_init_mp kstacks s = Inr s' \<and> kframe s s' \<and> mapped s' d L (T \<union> {959})
     (\<lambda>m. if m < 983040 \<and> (983039 - m) div 16 < 8 \<and> (983039 - m) mod 16 < 8
       then page2pa (K ((983039 - m) div 16) + (7 - (983039 - m) mod 16)) OR PTE_W OR PTE_P else f m)"
proof -
  from st obtain fl where fl: "kdir s fl" "1 + d \<le> length fl" "tables s = T" "\<forall>m. kpage m \<longrightarrow> kpte s m = f m"
    and L: "\<exists>ps. L = ps @ fl" by (auto simp: mapped_def)
  have f: "\<forall>j m. 0 \<le> j \<and> j < 0 + 8 \<and> stack_page j m \<longrightarrow> kpte s m = 0"
    using fl(4) free stack_page_kpage by (metis add_0)
  have le: "0 + 8 \<le> (8 :: nat)" and room: "959 \<in> tables s \<or> fl \<noteq> []" using fl(2) by auto
  from map_stacks_kern [OF fl(1) le f room K] obtain s' fl' where
    s': "map_stacks kstacks 0 8 s = Inr s'" "kdir s' fl'" "kframe s s'" "tables s' = tables s \<union> (if 8 = (0::nat) then {} else {959})"
      "taken s fl s' fl'"
      "\<forall>m. kpage m \<longrightarrow> kpte s' m = (if \<exists>j. 0 \<le> j \<and> j < 0 + 8 \<and> stack_page j m
           then page2pa (K ((983039 - m) div 16) + (7 - (983039 - m) mod 16)) OR (PTE_W OR PTE_P) OR PTE_P else kpte s m)"
    by blast
  have "(\<exists>j. 0 \<le> j \<and> j < 0 + 8 \<and> stack_page j m) \<longleftrightarrow> m < 983040 \<and> (983039 - m) div 16 < 8 \<and> (983039 - m) mod 16 < 8" for m
    by (auto simp: stack_page_def)
  moreover have "card (tables s') \<le> card (tables s) + 1" using s'(4) card_Un_le [of "tables s" "{959}"] by simp
  then have "(\<exists>ps. L = ps @ fl') \<and> d \<le> length fl'" by (rule taken_left [OF s'(5) L _ fl(2)])
  ultimately show ?thesis using s' fl(3,4) by (auto simp: mapped_def mem_init_mp_def perm_twice simp del: map_stacks.simps)
qed

lemma map_kernel_kern:
  assumes k: "mapped s (67 + d) L T (\<lambda>_. 0)" and ok: "mem_ok s"
    and P: "pages_va = KERNBASE + page2pa P" "P < 65536" and E: "envs_va = KERNBASE + page2pa E" "E < 65536"
    and K: "\<forall>j<8. kstacks j = KERNBASE + page2pa (K j) \<and> K j < 65536"
  shows "\<exists>s'. map_kernel pages_va envs_va kstacks s = Inr s' \<and> kframe s s'
     \<and> mapped s' d L (T \<union> region_pdes 978944 (pages_len s) \<union> {955} \<union> {960..<1024} \<union> {959}) (kernel_map s P E K)"
proof -
  let ?n = "pages_len s" and ?R = "region_pdes 978944 (pages_len s)"
  note len = pages_len_le [OF ok]
  have pa: "page2pa p = page2pa p" for p by (rule refl)
  have "?R \<subseteq> {956..<957}" by (rule region_pdes_within) (use len in simp_all)
  from card_mono [OF _ this] have R: "card ?R \<le> 1" by simp
  have R2: "region_pdes 977920 32 = {955}" by (rule region_pdes_one) simp_all
  have R3: "region_pdes 983040 65536 = {960..<1024}" using region_pdes_whole [of 960 64] by simp
  have c2: "card (region_pdes 977920 32) \<le> 1" and c3: "card (region_pdes 983040 65536) \<le> 64"
    by (simp_all add: R2 R3)
  have sz1: "unat (ROUNDUP (pages_size s) PGSIZE) = 4096 * ?n" by (rule unat_rounded [OF ok])
  have sz2: "unat (ROUNDUP envs_size PGSIZE) = 4096 * 32" using unat_ROUNDUP_page [of envs_size] by simp
  have sz3: "unat (push_bit 28 1 :: u32) = 4096 * 65536" by simp
  have b1: "978944 + ?n \<le> 1048576" and b2: "977920 + 32 \<le> (1048576 :: nat)" and b3: "983040 + 65536 \<le> (1048576 :: nat)"
    using len by simp_all
  have a1: "UPAGES = page2pa 978944" and a2: "UENVS = page2pa 977920" and a3: "KERNBASE = page2pa 983040" and a0: "0 = page2pa 0"
    by (simp_all add: page2pa_def)
  have pde: "kpage m" if "a * 1024 \<le> m" "m < a * 1024 + 1024" "a < 1024" "a \<noteq> 957" for a m
  proof -
    have "m div 1024 = a" using that(1,2) by (intro div_nat_eqI) simp_all
    then show ?thesis using that by (simp add: kpage_def)
  qed
  let ?f1 = "lay 978944 ?n P PTE_U (\<lambda>_. 0)"
  let ?f2 = "lay 977920 32 E PTE_U ?f1" and ?f3 = "lay 983040 65536 0 PTE_W (lay 977920 32 E PTE_U ?f1)"
  have f1: "kpage m \<and> (0 :: u32) = 0" if "978944 \<le> m" "m < 978944 + ?n" for m
    using pde [of 956 m] that len by simp
  have f2: "kpage m \<and> ?f1 m = 0" if "977920 \<le> m" "m < 977920 + 32" for m
    using pde [of 955 m] that by (simp add: lay_def)
  have f3: "kpage m \<and> ?f2 m = 0" if "983040 \<le> m" "m < 983040 + 65536" for m
    using that len by (auto simp: lay_def kpage_def)
  have f4: "\<forall>m. 982016 \<le> m \<and> m < 983040 \<longrightarrow> ?f3 m = 0" using len by (simp add: lay_def)
  have k': "mapped s (1 + (1 + (64 + (1 + d)))) L T (\<lambda>_. 0)" using k by (simp add: add.assoc)
  from mapped_region [OF k' f1 R sz1 b1 a1 pa] obtain s1 where s1:
    "boot_map_region (kern_pgdir s) UPAGES (ROUNDUP (pages_size s) PGSIZE) (page2pa P) (PTE_U OR PTE_P) s = Inr s1"
    "kframe s s1" "mapped s1 (1 + (64 + (1 + d))) L (T \<union> ?R) ?f1" by blast
  from mapped_region [OF s1(3) f2 c2 sz2 b2 a2 pa] obtain s2 where s2:
    "boot_map_region (kern_pgdir s1) UENVS (ROUNDUP envs_size PGSIZE) (page2pa E) (PTE_U OR PTE_P) s1 = Inr s2"
    "kframe s1 s2" "mapped s2 (64 + (1 + d)) L (T \<union> ?R \<union> {955}) ?f2" unfolding R2 by blast
  from mapped_region [OF s2(3) f3 c3 sz3 b3 a3 a0] obtain s3 where s3:
    "boot_map_region (kern_pgdir s2) KERNBASE (push_bit 28 1) 0 (PTE_W OR PTE_P) s2 = Inr s3"
    "kframe s2 s3" "mapped s3 (1 + d) L (T \<union> ?R \<union> {955} \<union> {960..<1024}) ?f3" unfolding R3 by blast
  from mapped_stacks [OF s3(3) f4 K] obtain s4 where s4: "mem_init_mp kstacks s3 = Inr s4" "kframe s3 s4"
    "mapped s4 d L (T \<union> ?R \<union> {955} \<union> {960..<1024} \<union> {959}) (\<lambda>m. if m < 983040 \<and> (983039 - m) div 16 < 8 \<and> (983039 - m) mod 16 < 8
       then page2pa (K ((983039 - m) div 16) + (7 - (983039 - m) mod 16)) OR PTE_W OR PTE_P else ?f3 m)" by blast
  have "map_kernel pages_va envs_va kstacks s = Inr s4"
    using s1(1) s2(1) s3(1) s4(1) PADDR_page [OF P] PADDR_page [OF E] kframe_kern [OF s1(2)] kframe_kern [OF s2(2)]
    by (simp add: map_kernel_def)
  moreover have "mapped s4 d L (T \<union> ?R \<union> {955} \<union> {960..<1024} \<union> {959}) (kernel_map s P E K)"
    using s4(3) len unfolding mapped_def by (auto simp: kernel_map_def lay_def kpage_def)
  moreover have "kframe s s4" using kframe_trans s1(2) s2(2) s3(2) s4(2) by blast
  ultimately show ?thesis by blast
qed

section \<open>check_kern_pgdir\<close>

lemma page2pa_add: "page2pa (a + b) = page2pa a + page2pa b"
  by (simp add: page2pa_def push_bit_add)

lemma check_va2pa_kern:
  assumes k: "kdir s fl" and m: "kpage m"
  shows "check_va2pa (kern_pgdir s) (page2pa m) s
    = Inr (if kpte s m AND PTE_P = 0 then NOT 0 else PTE_ADDR (kpte s m))"
proof -
  let ?k = "kern_pgdir s"
  have pg: "PGNUM (page2pa m) = m" using m by (simp add: kpage_def)
  have pdx: "PDX (page2pa m) \<noteq> 957" "PDX (page2pa m) < 1024"
    using m PDX_less [of "page2pa m"] by (simp_all add: PDX_PGNUM pg kpage_def)
  show ?thesis
  proof (cases "rd s ?k (PDX (page2pa m)) = 0")
    case True
    then show ?thesis using pte_of_va [of s ?k "page2pa m"] by (simp add: check_va2pa_def kpte_def pg)
  next
    case False
    then have i: "PDX (page2pa m) \<in> tables s" using pdx by (simp add: tables_def)
    note t = kdir_table [OF k i, unfolded table_at_def]
    have "PTE_ADDR e + KERNBASE - KERNBASE = PTE_ADDR e" for e by simp
    then show ?thesis using False t pte_of_va [of s ?k "page2pa m"]
      by (simp add: check_va2pa_def kpte_def pg KADDR_def table_pde_def open_pde_def Let_def)
  qed
qed

lemma region_maps_ok:
  assumes st: "mapped s c L T f" and m: "kpage (v + i)" and perm: "perm_ok perm"
    and f: "f (v + i) = page2pa (p + i) OR perm OR PTE_P" and va: "va = page2pa v" and pa: "pa = page2pa p"
  shows "region_maps va pa s i = Inr True"
proof -
  from st obtain fl where k: "kdir s fl" and e: "kpte s (v + i) = page2pa (p + i) OR (perm OR PTE_P)"
    using m f by (auto simp: mapped_def or.assoc)
  have "(page2pa (p + i) OR (perm OR PTE_P)) AND PTE_P \<noteq> 0" by (simp add: bit.conj_disj_distrib2 or_eq_0_iff)
  moreover have "PTE_ADDR (page2pa (p + i) OR (perm OR PTE_P)) = page2pa (p + i)" using perm by (simp only: PTE_ADDR_entry perm_ok_or perm_ok_flags simp_thms)
  ultimately show ?thesis using check_va2pa_kern [OF k m] unfolding region_maps_def va pa page2pa_add [symmetric] e by simp
qed

lemma check_stack_ok:
  assumes st: "mapped s c L T (kernel_map s0 P E K)" and ok: "mem_ok s0" and n: "n < 8"
    and K: "kstacks n = KERNBASE + page2pa (K n) \<and> K n < 65536"
  shows "check_stack kstacks s n = Inr True"
proof -
  note len = pages_len_le [OF ok]
  let ?base = "KSTACKTOP - (KSTKSIZE + KSTKGAP) * (word_of_nat n + 1)"
  have base: "?base + KSTKGAP = page2pa (983032 - 16 * n)" "?base = page2pa (983024 - 16 * n)"
    using n by (simp_all add: page2pa_def push_bit_eq_mult of_nat_diff algebra_simps)
  have split: "(16 * n + r) div 16 = n" "(16 * n + r) mod 16 = r" if "r < 16" for r using that by simp_all
  have maps: "region_maps (?base + KSTKGAP) (page2pa (K n)) s i = Inr True" if "i < 8" for i
  proof (rule region_maps_ok [OF st _ _ _ base(1) refl])
    have d: "983039 - (983032 - 16 * n + i) = 16 * n + (7 - i)" using n that by linarith
    have m: "(983039 - (983032 - 16 * n + i)) div 16 = n" "(983039 - (983032 - 16 * n + i)) mod 16 = 7 - i"
      unfolding d by (rule split, simp)+
    have "983032 - 16 * n + i < 983040" "7 - i < 8" using that by linarith+
    with m have "stack_page n (983032 - 16 * n + i)" unfolding stack_page_def by (simp only: simp_thms)
    then show "kpage (983032 - 16 * n + i)" by (rule stack_page_kpage(1) [OF n])
    have "\<not> 983040 \<le> 983032 - 16 * n + i" "\<not> 983032 - 16 * n + i < 978944 + pages_len s0" "\<not> 983032 - 16 * n + i < 977920 + 32"
      using n that len by linarith+
    moreover have "7 - (7 - i) = i" using that by simp
    ultimately show "kernel_map s0 P E K (983032 - 16 * n + i) = page2pa (K n + i) OR PTE_W OR PTE_P"
      using n \<open>7 - i < 8\<close> unfolding kernel_map_def m by simp
    show "perm_ok PTE_W" by simp
  qed
  have gap: "check_va2pa (kern_pgdir s) (?base + page2pa i) s = Inr (NOT 0)" if "i < 8" for i
  proof -
    have d: "983039 - (983024 - 16 * n + i) = 16 * n + (15 - i)" using n that by linarith
    have m: "(983039 - (983024 - 16 * n + i)) div 16 = n" "(983039 - (983024 - 16 * n + i)) mod 16 = 15 - i"
      unfolding d by (rule split, simp)+
    have "\<not> 15 - i < 8" "\<not> 983040 \<le> 983024 - 16 * n + i" "\<not> 983024 - 16 * n + i < 978944 + pages_len s0" "\<not> 983024 - 16 * n + i < 977920 + 32"
      using n that len by linarith+
    then have "kernel_map s0 P E K (983024 - 16 * n + i) = 0" 
      unfolding kernel_map_def m by simp
    moreover have "kpage (983024 - 16 * n + i)" using n that by (auto simp: kpage_def)
    moreover from st obtain fl where "kdir s fl" by (auto simp: mapped_def)
    ultimately show ?thesis using st check_va2pa_kern [of s fl "983024 - 16 * n + i"]
      unfolding base(2) page2pa_add [symmetric] mapped_def by simp
  qed
  show ?thesis
    using PADDR_page [of "kstacks n" "K n"] K require_each_ok [of 0 8 "region_maps (?base + KSTKGAP) (page2pa (K n)) s"]
      require_each_ok [of 0 8 "\<lambda>i. andThen (check_va2pa (kern_pgdir s) (?base + page2pa i) s) (\<lambda>x. Inr (x = NOT 0))"] maps gap
    unfolding check_stack_def Let_def by (simp del: require_each.simps)
qed

lemma check_pde_ok:
  assumes k: "kdir s fl" and t: "tables s = {955, 956, 958, 959} \<union> {960..<1024}"
    and self: "rd s (kern_pgdir s) 957 AND PTE_P \<noteq> 0" and i: "i < 1024"
  shows "check_pde s i"
proof -
  have set: "{PDX UVPT, PDX (KSTACKTOP - 1), PDX UPAGES, PDX UENVS, PDX MMIOBASE} = {957, 959, 956, 955, 958}"
    by (simp add: PDX_div)
  have kb: "PDX KERNBASE = 960" by (simp add: PDX_div)
  have here: "rd s (kern_pgdir s) i AND PTE_P \<noteq> 0 \<and> rd s (kern_pgdir s) i AND PTE_W \<noteq> 0" if "i \<in> tables s"
    using kdir_table(3) [OF k that] by (simp add: table_pde_def open_pde_def)
  have none: "rd s (kern_pgdir s) i = 0" if "i \<notin> tables s" "i \<noteq> 957" using that i by (simp add: tables_def)
  show ?thesis
  proof (cases "i = 957")
    case False
    then show ?thesis
      unfolding check_pde_def set kb Let_def using here none i unfolding t by (cases "960 \<le> i") auto
  qed (simp only: check_pde_def set self Let_def insert_iff simp_thms if_True)
qed

lemma check_kern_pgdir_ok:
  assumes st: "mapped s c L ({955, 956, 958, 959} \<union> {960..<1024}) (kernel_map s P E K)" and ok: "mem_ok s"
    and self: "rd s (kern_pgdir s) 957 AND PTE_P \<noteq> 0"
    and P: "pages_va = KERNBASE + page2pa P" "P < 65536" and E: "envs_va = KERNBASE + page2pa E" "E < 65536"
    and K: "\<forall>j<8. kstacks j = KERNBASE + page2pa (K j) \<and> K j < 65536"
  shows "check_kern_pgdir pages_va envs_va kstacks s = Inr ()"
proof -
  note len = pages_len_le [OF ok]
  have n: "npages s \<le> 65536" using ok by (simp add: mem_ok_def)
  from st obtain fl where k: "kdir s fl" "tables s = {955, 956, 958, 959} \<union> {960..<1024}" by (auto simp: mapped_def)
  have pde: "kpage m" if "a * 1024 \<le> m" "m < a * 1024 + 1024" "a < 1024" "a \<noteq> 957" for a m
  proof -
    have "m div 1024 = a" using that(1,2) by (intro div_nat_eqI) simp_all
    then show ?thesis using that by (simp add: kpage_def)
  qed
  have pg: "PGNUM (ROUNDUP (pages_size s) PGSIZE) = pages_len s" "PGNUM (ROUNDUP envs_size PGSIZE) = 32"
    using unat_rounded [OF ok] unat_ROUNDUP_page [of envs_size] by (simp_all add: PGNUM_div)
  have a: "UPAGES = page2pa 978944" "UENVS = page2pa 977920" "KERNBASE = page2pa 983040" "0 = page2pa 0"
    by (simp_all add: page2pa_def)
  have r1: "require_each (region_maps UPAGES (page2pa P) s) 0 (pages_len s) = Inr ()"
    using len by (intro require_each_ok region_maps_ok [OF st _ _ _ a(1), where perm = PTE_U and p = P] pde [of 956])
      (simp_all add: kernel_map_def)
  have r2: "require_each (region_maps UENVS (page2pa E) s) 0 32 = Inr ()"
    by (intro require_each_ok region_maps_ok [OF st _ _ _ a(2), where perm = PTE_U and p = E] pde [of 955])
      (simp_all add: kernel_map_def)
  have r3: "require_each (region_maps KERNBASE 0 s) 0 (npages s) = Inr ()"
    using n by (intro require_each_ok region_maps_ok [OF st _ _ _ a(3), where perm = PTE_W and p = 0])
      (auto simp: kernel_map_def kpage_def page2pa_def)
  have r4: "require_each (check_stack kstacks s) 0 NCPU = Inr ()"
    using K by (intro require_each_ok check_stack_ok [OF st ok]) simp_all
  have r5: "require_each (\<lambda>i. Inr (check_pde s i)) 0 NPDENTRIES = Inr ()"
    by (intro require_each_ok) (simp add: check_pde_ok [OF k self])
  show ?thesis
    unfolding check_kern_pgdir_def PADDR_page [OF P] PADDR_page [OF E] pg andThen_Inr r1 r2 r3 r4 r5 ..
qed

text \<open>
  With the directory as the tests leave it (only the table of the device window) and 67
  pages left, \<open>mem_init\<close> maps exactly this above \<open>UTOP\<close>: \<open>pages\<close> at \<open>UPAGES\<close> and \<open>envs\<close> at
  \<open>UENVS\<close>, readable by users; all memory at \<open>KERNBASE\<close> and eight stacks of eight pages below
  it, each above a gap of eight unmapped pages, for the kernel alone; nothing else. The map
  passes \<open>check_kern_pgdir\<close>, and no assertion or allocation fails on the way.
\<close>

theorem map_kernel_exact:
  assumes "mapped s (67 + d) L {958} (\<lambda>_. 0)" and "mem_ok s" and "rd s (kern_pgdir s) 957 AND PTE_P \<noteq> 0"
    and "pages_va = KERNBASE + page2pa P" and "P < 65536" and "envs_va = KERNBASE + page2pa E" and "E < 65536"
    and "\<forall>j<8. kstacks j = KERNBASE + page2pa (K j) \<and> K j < 65536"
  shows "\<exists>s'. map_kernel pages_va envs_va kstacks s = Inr s'
     \<and> mapped s' d L ({955, 956, 958, 959} \<union> {960..<1024}) (kernel_map s P E K)
     \<and> check_kern_pgdir pages_va envs_va kstacks s' = Inr ()"
proof -
  from map_kernel_kern [OF assms(1,2,4-8)] obtain s' where s': "map_kernel pages_va envs_va kstacks s = Inr s'"
    "kframe s s'" "mapped s' d L ({958} \<union> region_pdes 978944 (pages_len s) \<union> {955} \<union> {960..<1024} \<union> {959}) (kernel_map s P E K)"
    by blast
  have "0 < npages s" using assms(1) by (auto simp: mapped_def kdir_def)
  then have "0 < pages_len s" by (simp add: pages_len_def)
  then have R: "region_pdes 978944 (pages_len s) = {956}"
    using pages_len_le [OF assms(2)] by (intro region_pdes_one) simp_all
  have "{958} \<union> {956} \<union> {955} \<union> {960..<1024} \<union> {959} = {955, 956, 958, 959} \<union> {960..<1024 :: nat}" by auto
  with s'(3) have m: "mapped s' d L ({955, 956, 958, 959} \<union> {960..<1024}) (kernel_map s P E K)" by (simp add: R)
  have n: "npages s' = npages s" "kern_pgdir s' = kern_pgdir s" using kframe_kern [OF s'(2)] by simp_all
  then have km: "kernel_map s' P E K = kernel_map s P E K" by (simp add: fun_eq_iff kernel_map_def pages_len_def)
  have "check_kern_pgdir pages_va envs_va kstacks s' = Inr ()"
    by (rule check_kern_pgdir_ok [OF _ _ _ assms(4-8)])
      (use m assms(2,3) s'(2) n in \<open>simp_all add: km mem_ok_def kframe_def\<close>)
  with s'(1) m show ?thesis by blast
qed

lemma kpte_new_dir: "tables s = {} \<Longrightarrow> kpage m \<Longrightarrow> kpte s m = 0"
  using div_less_iff_less_mult [of 1024 m 1024] by (auto simp: tables_def kpte_def pte_of_def kpage_def)

text \<open>The state after \<open>page_init\<close> with a table for the device window.\<close>

lemma ready_to_map:
  "\<exists>s L. mapped s (67 + 0) L {958} (\<lambda>_. 0) \<and> mem_ok s \<and> rd s (kern_pgdir s) 957 AND PTE_P \<noteq> 0 \<and> envs s = (\<lambda>_. zero_env)"
proof -
  let ?fl = "rev (filter (usable 314) [0..<1024])"
  from boot_start [of power_on "0xF0116800" 279] power_on_fields obtain s where
    s: "kern_pgdir s = 279" "kdir s ?fl" "tables s = {}" "rd s 279 957 AND PTE_P \<noteq> 0" "envs s = (\<lambda>_. zero_env)"
    by (auto simp del: KERNBASE_def PTE_P_def upt_rec_numeral)
  have "{314..<1024} \<subseteq> set ?fl" by (auto simp: usable_def)
  from card_mono [OF _ this] have len: "710 \<le> length ?fl" using card_length [of ?fl] by simp
  then obtain t fl where fl: "?fl = t # fl" by (cases ?fl) auto
  have z: "rd s (kern_pgdir s) 958 = 0" using tables_iff [of 958 s] s(3) by simp
  have i: "958 < (1024 :: nat)" "958 \<noteq> (957 :: nat)" by simp_all
  let ?s = "hang_table (kern_pgdir s) 958 t s"
  note h = hang_table_kern [OF s(2) [unfolded fl] i z]
  have "kpte ?s m = 0" if "kpage m" for m
    using kpte_new_dir [OF s(3) that] h(8) [of m] that h(7) by (simp add: kpte_def kpage_def)
  moreover have "67 \<le> length fl" using len fl by simp
  ultimately have "mapped ?s (67 + 0) fl {958} (\<lambda>_. 0)" using h(1,2) s(3) by (auto simp: mapped_def)
  moreover have "mem_ok ?s" using h(1) by (simp add: kdir_def)
  moreover have "t \<noteq> 279" using s(1,2) fl by (auto simp: kdir_def)
  then have "rd ?s (kern_pgdir ?s) 957 AND PTE_P \<noteq> 0" using h(5) [of 279 957] h(7) s(1,4) by simp
  moreover have "envs ?s = (\<lambda>_. zero_env)" using s(5) by (simp add: hang_table_def pop_page_def split: option.split)
  ultimately show ?thesis by blast
qed

theorem map_kernel_exact_witness:
  "\<exists>s s' L. map_kernel (KERNBASE + page2pa 280) (KERNBASE + page2pa 282) (\<lambda>j. KERNBASE + page2pa (258 + 8 * j)) s = Inr s'
     \<and> mapped s' 0 L ({955, 956, 958, 959} \<union> {960..<1024}) (kernel_map s 280 282 (\<lambda>j. 258 + 8 * j))
     \<and> check_kern_pgdir (KERNBASE + page2pa 280) (KERNBASE + page2pa 282) (\<lambda>j. KERNBASE + page2pa (258 + 8 * j)) s' = Inr ()"
proof -
  from ready_to_map obtain s L where "mapped s (67 + 0) L {958} (\<lambda>_. 0)" "mem_ok s" "rd s (kern_pgdir s) 957 AND PTE_P \<noteq> 0" by blast
  from map_kernel_exact [OF this refl _ refl, of 280 282 "\<lambda>j. KERNBASE + page2pa (258 + 8 * j)" "\<lambda>j. 258 + 8 * j"]
  show ?thesis by auto
qed

section \<open>From the boot directory to the kernel's\<close>

text \<open>\<open>kern/entrypgdir.c\<close>: two large pages over the first 4 MB; the table below them is disabled.\<close>

definition entry_pgdir :: "nat \<Rightarrow> u32" where
  "entry_pgdir i = (if i = 0 then 0x00000 + PTE_P + PTE_PS
     else if i = PDX KERNBASE then 0x00000 + PTE_P + PTE_W + PTE_PS else 0)"

text \<open>A large page of the hardware: the directory entry gives the upper ten bits.\<close>

definition large_page :: "u32 \<Rightarrow> u32 \<Rightarrow> u32 option" where
  "large_page pde va = (if pde AND PTE_P = 0 \<or> pde AND PTE_PS = 0 then None
     else Some ((pde AND NOT 0x3FFFFF) OR (va AND 0x3FFFFF)))"

text \<open>
  Loading \<open>kern_pgdir\<close> keeps the ground under the running kernel: every page of the first
  4 MB above \<open>KERNBASE\<close>, which is all that the boot directory maps there, has the same frame in
  the map that \<open>mem_init\<close> builds, present and writable in both.
\<close>

theorem switch_keeps_kernel:
  assumes "m < 1024"
  shows "large_page (entry_pgdir (PDX (KERNBASE + page2pa m))) (KERNBASE + page2pa m) = Some (page2pa m)
     \<and> PTE_ADDR (kernel_map s P E K (983040 + m)) = page2pa m
     \<and> kernel_map s P E K (983040 + m) AND PTE_P \<noteq> 0 \<and> kernel_map s P E K (983040 + m) AND PTE_W \<noteq> 0
     \<and> entry_pgdir (PDX (KERNBASE + page2pa m)) AND PTE_W \<noteq> 0"
proof -
  have u: "unat (KERNBASE + page2pa m) = 4026531840 + 4096 * m" using unat_page_kva [of m] assms by simp
  then have pdx: "PDX (KERNBASE + page2pa m) = 960" using assms by (simp add: PDX_div)
  have kb: "PDX KERNBASE = 960" by (simp add: PDX_div)
  have "(4026531840 + 4096 * m) mod 4194304 = (960 * 4194304 + 4096 * m) mod 4194304" by simp
  also have "\<dots> = 4096 * m" using assms by (simp only: mod_mult_self3) simp
  finally have "unat (take_bit 22 (KERNBASE + page2pa m)) = 4096 * m" 
    unfolding unsigned_take_bit_eq u by (simp add: take_bit_eq_mod)
  then have "take_bit 22 (KERNBASE + page2pa m) = page2pa m" using page2pa_unat [of m] assms by (simp only: word_unat_eq_iff)
  then have "(KERNBASE + page2pa m) AND 0x3FFFFF = page2pa m" by (simp add: take_bit_eq_mask mask_eq_exp_minus_1)
  moreover have e: "entry_pgdir 960 = 0x83" unfolding entry_pgdir_def kb by simp
  ultimately have "large_page (entry_pgdir 960) (KERNBASE + page2pa m) = Some (page2pa m)"
    unfolding large_page_def e by simp
  moreover have k: "kernel_map s P E K (983040 + m) = page2pa m OR (PTE_W OR PTE_P)" by (simp add: kernel_map_def or.assoc)
  have "perm_ok (PTE_W OR PTE_P)" by (simp only: perm_ok_or perm_ok_flags simp_thms)
  then have "PTE_ADDR (kernel_map s P E K (983040 + m)) = page2pa m" unfolding k by (rule PTE_ADDR_entry)
  moreover have "kernel_map s P E K (983040 + m) AND PTE_P \<noteq> 0 \<and> kernel_map s P E K (983040 + m) AND PTE_W \<noteq> 0"
    unfolding k by (simp add: bit.conj_disj_distrib2 or_eq_0_iff)
  moreover have "entry_pgdir 960 AND PTE_W \<noteq> 0" by (simp add: e)
  ultimately show ?thesis unfolding pdx by blast
qed

theorem switch_keeps_kernel_witness:
  "large_page (entry_pgdir (PDX (KERNBASE + page2pa 256))) (KERNBASE + page2pa 256) = Some (page2pa 256)
     \<and> PTE_ADDR (kernel_map power_on 280 282 (\<lambda>j. 258 + 8 * j) (983040 + 256)) = page2pa 256"
proof -
  have "256 < (1024 :: nat)" by simp
  from switch_keeps_kernel [OF this] show ?thesis by blast
qed

section \<open>The invariant of the running kernel\<close>

lemma env_init_keeps:
  "npages (env_init s) = npages s \<and> pages (env_init s) = pages s \<and> page_free_list (env_init s) = page_free_list s
     \<and> rd (env_init s) = rd s \<and> kern_pgdir (env_init s) = kern_pgdir s"
  by (simp add: env_init_def env_init_loop_envs upd_env_def rd_def fun_eq_iff)

lemma kinv_of_kdir:
  assumes k: "kdir s fl" and t: "tables s \<subseteq> {955..<1024}" and free: "free_envs s [0..<1024]"
    and none: "\<And>e. e < 1024 \<Longrightarrow> env_pgdir (envs s e) = None"
  shows "kinv s fl [0..<1024] (\<lambda>p. if p = kern_pgdir s \<or> p \<in> table_at s ` tables s then 1 else 0)"
proof -
  let ?k = "kern_pgdir s"
  have e: "env_status (envs s e) = ENV_FREE" if "e < 1024" for e
  proof -
    have "e \<in> set [0..<1024]" using that by (simp only: set_upt atLeastLessThan_iff le0 simp_thms)
    then show ?thesis using free unfolding free_envs_def by blast
  qed
  have pg: "pgdirs s = {}" using none by (auto simp: pgdirs_def)
  have zero: "rd s ?k i = 0" if "i < 955" for i
    using t that tables_iff [of i s] by auto
  have slot0: "slot_val s x = 0" if "x \<in> slots {?k}" for x
  proof (cases x)
    case (PDE pd i)
    then show ?thesis using that zero by simp
  next
    case (PTE pd n)
    then have "n div 1024 < 955" "pd = ?k" using that by (simp_all add: div_less_iff_less_mult)
    then show ?thesis using zero by (simp add: PTE pte_of_def)
  qed
  have none0: "holders s {?k} p = {}" for p using slot0 by (auto simp: holders_def)
  have "ref_inv s {?k} fl (\<lambda>p. if p = ?k \<or> p \<in> table_at s ` tables s then 1 else 0)"
    using k slot0 zero none0 by (simp add: ref_inv_def kdir_def mem_ok_def NUDIR_def)
  then show ?thesis using free none e pg zero
    by (simp add: kinv_def dirs_def held_def [abs_def] del: upt_Suc upt_rec_numeral)
qed

lemma env_init_kdir: "kdir (env_init s) fl = kdir s fl" "tables (env_init s) = tables s" "kpte (env_init s) = kpte s"
proof -
  note keep = env_init_keeps [of s]
  then have r: "rd (env_init s) = rd s" "kern_pgdir (env_init s) = kern_pgdir s" by simp_all
  show t: "tables (env_init s) = tables s" "kpte (env_init s) = kpte s"
    by (simp only: tables_def r) (intro ext, simp only: kpte_def pte_of_def r)
  have "table_at (env_init s) = table_at s" by (intro ext) (simp only: table_at_def r)
  moreover have "free_pages (env_init s) fl = free_pages s fl" using keep by (simp add: free_pages_def page_link_def [abs_def])
  ultimately show "kdir (env_init s) fl = kdir s fl" using keep t by (simp add: kdir_def mem_ok_def)
qed

lemma env_init_free:
  assumes "envs s = (\<lambda>_. zero_env)"
  shows "free_envs (env_init s) [0..<1024]" and "env_pgdir (envs (env_init s) e) = None"
  using env_init_correct [of s] assms by (simp_all add: env_init_def env_init_loop_envs zero_env_def)

end
