(* ===== verification/PageTest.thy ===== *)
theory PageTest
  imports BootMap
begin

text \<open>
  The self test of the page tables, \<open>check_page\<close>, up to the device window: it takes three pages,
  hides the rest of the free list, plays with the three and returns them, and no assertion of it
  can fail.
\<close>

section \<open>The state during a test\<close>

text \<open>Only the pages of \<open>Y\<close> and the first two entries of the kernel's directory have changed.\<close>

definition aside :: "kstate \<Rightarrow> nat set \<Rightarrow> kstate \<Rightarrow> bool" where
  "aside s Y t \<longleftrightarrow> vm_frame s t \<and> nextfree t = nextfree s \<and> (\<forall>p. p \<notin> Y \<longrightarrow> pages t p = pages s p)
     \<and> (\<forall>q j. q \<notin> Y \<longrightarrow> q = kern_pgdir s \<longrightarrow> j \<noteq> 0 \<and> j \<noteq> 1 \<longrightarrow> rd t q j = rd s q j)
     \<and> (\<forall>q. q \<notin> Y \<longrightarrow> q \<noteq> kern_pgdir s \<longrightarrow> rd t q = rd s q)"

definition three :: "kstate \<Rightarrow> nat \<Rightarrow> nat \<Rightarrow> nat \<Rightarrow> bool" where
  "three s a b c \<longleftrightarrow> distinct [a, b, c, kern_pgdir s] \<and> a < npages s \<and> b < npages s \<and> c < npages s \<and> npages s \<le> 65536"

text \<open>The free list is \<open>fl\<close> from \<open>Y\<close>, then \<open>h\<close> outside it; \<open>r\<close> are the reference counts.\<close>

definition vis :: "nat set \<Rightarrow> nat list \<Rightarrow> kstate \<Rightarrow> nat list \<Rightarrow> (nat \<Rightarrow> u16) \<Rightarrow> bool" where
  "vis Y h t fl r \<longleftrightarrow> chain (page_link t) (page_free_list t) (fl @ h) \<and> set h \<inter> Y = {} \<and> (\<forall>p\<in>set fl. p \<in> Y \<and> r p = 0)
     \<and> (\<forall>p\<in>Y. p \<notin> set fl \<longrightarrow> page_link t p = None) \<and> (\<forall>p\<in>Y. pp_ref (pages t p) = r p)"

text \<open>\<open>a\<close> is the page table of the first 4 MB, if there is one, with the entries \<open>f\<close>.\<close>

definition low_table :: "kstate \<Rightarrow> nat \<Rightarrow> kstate \<Rightarrow> bool \<Rightarrow> (nat \<Rightarrow> u32) \<Rightarrow> bool" where
  "low_table s a t tab f \<longleftrightarrow> rd t (kern_pgdir s) 0 = (if tab then page2pa a OR PTE_P OR PTE_W OR PTE_U else 0)
     \<and> rd t (kern_pgdir s) 1 = 0 \<and> (tab \<longrightarrow> rd t a = f)"

definition lab :: "nat list \<Rightarrow> kstate \<Rightarrow> nat \<Rightarrow> nat \<Rightarrow> nat \<Rightarrow> kstate \<Rightarrow> nat list \<Rightarrow> bool \<Rightarrow> (nat \<Rightarrow> u32) \<Rightarrow> (nat \<Rightarrow> u16) \<Rightarrow> bool" where
  "lab h s a b c t fl tab f r \<longleftrightarrow> aside s {a, b, c} t \<and> vis {a, b, c} h t fl r \<and> low_table s a t tab f"

lemma labD:
  assumes "lab h s a b c t fl tab f r"
  shows "aside s {a, b, c} t" "vis {a, b, c} h t fl r" "low_table s a t tab f" "npages t = npages s" "kern_pgdir t = kern_pgdir s"
  using assms by (simp_all add: lab_def aside_def vm_frame_def)

lemma aside_refl [simp]: "aside s Y s"
  by (simp add: aside_def)

lemma aside_pages:
  assumes "aside s Y t" and "vm_frame t t'" and "nextfree t' = nextfree t" and "rd t' = rd t"
    and "\<And>q. q \<notin> Y \<Longrightarrow> pages t' q = pages t q"
  shows "aside s Y t'"
  using assms by (auto simp: aside_def intro: vm_frame_trans)

lemma low_table_rd: "rd t' = rd t \<Longrightarrow> low_table s a t' tab f = low_table s a t tab f"
  by (simp add: low_table_def)

lemma nextfree_push_pop [simp]: "nextfree (push_page p t) = nextfree t" "nextfree (pop_page t) = nextfree t" "rd (push_page p t) = rd t"
  by (simp_all add: push_page_def pop_page_def split: option.split)

lemma vis_push:
  assumes "vis Y h t fl r" and "p \<in> Y" and "p \<notin> set fl" and "r p = 0"
  shows "page_free p t = Inr (push_page p t)" and "vis Y h (push_page p t) (p # fl) r"
proof -
  show "page_free p t = Inr (push_page p t)" using assms by (intro page_free_push) (auto simp: vis_def)
  have "chain (page_link (push_page p t)) (page_free_list (push_page p t)) (p # fl @ h)"
    using assms by (intro pfl.chain_push) (auto simp: vis_def)
  then show "vis Y h (push_page p t) (p # fl) r"
    using assms by (auto simp: vis_def push_page_def page_link_def)
qed

lemma vis_pop:
  assumes "vis Y h t (p # fl) r"
  shows "page_alloc 0 t = Inr (Some p, pop_page t)" and "vis Y h (pop_page t) fl r" and "p \<in> Y" and "r p = 0" and "p \<notin> set fl"
proof -
  have ch: "chain (page_link t) (page_free_list t) (p # fl @ h)" using assms by (simp add: vis_def)
  then have hd: "page_free_list t = Some p" by simp
  then show "page_alloc 0 t = Inr (Some p, pop_page t)" by (simp add: page_alloc_def pop_page_def)
  have "chain (page_link (pop_page t)) (page_free_list (pop_page t)) (fl @ h)" by (rule pfl.chain_pop [OF ch])
  moreover show p: "p \<notin> set fl" using chain_distinct [OF ch] by simp
  ultimately show "vis Y h (pop_page t) fl r"
    using assms hd by (auto simp: vis_def pop_page_def page_link_def)
  show "p \<in> Y" "r p = 0" using assms by (simp_all add: vis_def)
qed

lemma pop_page_other: "page_free_list t = Some p \<Longrightarrow> q \<noteq> p \<Longrightarrow> pages (pop_page t) q = pages t q"
  by (simp add: pop_page_def)

lemma push_page_other: "q \<noteq> p \<Longrightarrow> pages (push_page p t) q = pages t q"
  by (simp add: push_page_def)

lemma lab_refs: "lab h s a b c t fl tab f r \<Longrightarrow> p \<in> {a, b, c} \<Longrightarrow> refs t p = unat (r p)"
  by (auto simp: lab_def vis_def refs_def)

lemma lab_no_alloc: "lab [] s a b c t [] tab f r \<Longrightarrow> no_alloc t F = F t"
  by (simp add: lab_def vis_def no_alloc_def page_alloc_def)

lemma lab_free:
  assumes l: "lab h s a b c t fl tab f r" and p: "p \<in> {a, b, c}" "p \<notin> set fl" "r p = 0"
  shows "page_free p t = Inr (push_page p t)" and "lab h s a b c (push_page p t) (p # fl) tab f r"
proof -
  show "page_free p t = Inr (push_page p t)" by (rule vis_push(1) [OF labD(2) [OF l] p])
  have "aside s {a, b, c} (push_page p t)"
    using p(1) push_page_other by (intro aside_pages [OF labD(1) [OF l]]) auto
  then show "lab h s a b c (push_page p t) (p # fl) tab f r"
    using vis_push(2) [OF labD(2) [OF l] p] labD(3) [OF l] by (simp add: lab_def low_table_rd [of "push_page p t" t])
qed

lemma lab_alloc:
  assumes l: "lab h s a b c t (p # fl) tab f r"
  shows "page_alloc 0 t = Inr (Some p, pop_page t)" and "lab h s a b c (pop_page t) fl tab f r"
proof -
  note v = vis_pop [OF labD(2) [OF l]]
  show "page_alloc 0 t = Inr (Some p, pop_page t)" by (rule v(1))
  have hd: "page_free_list t = Some p" using labD(2) [OF l] by (simp add: vis_def)
  have "aside s {a, b, c} (pop_page t)"
    using v(3) pop_page_other [OF hd] by (intro aside_pages [OF labD(1) [OF l]]) auto
  then show "lab h s a b c (pop_page t) fl tab f r"
    using v(2) labD(3) [OF l] by (simp add: lab_def low_table_rd [of "pop_page t" t])
qed

lemma lab_must_alloc: "lab h s a b c t (p # fl) tab f r \<Longrightarrow> must_alloc 0 t F = F p (pop_page t)"
  using lab_alloc(1) by (simp add: must_alloc_def)

section \<open>The page table of the test\<close>

lemma lab_pde:
  assumes l: "lab h s a b c t fl True f r" and th: "three s a b c" and va: "PDX va = 0"
  shows "rd t (kern_pgdir s) (PDX va) = page2pa a OR PTE_P OR PTE_W OR PTE_U" and "rd t a = f"
    and "PGNUM (page2pa a OR PTE_P OR PTE_W OR PTE_U) = a" and "a < npages t"
    and "(page2pa a OR PTE_P OR PTE_W OR PTE_U) AND PTE_PS = 0" and "(page2pa a OR PTE_P OR PTE_W OR PTE_U) AND PTE_P \<noteq> 0"
    and "page2pa a OR PTE_P OR PTE_W OR PTE_U \<noteq> 0"
proof -
  show "rd t (kern_pgdir s) (PDX va) = page2pa a OR PTE_P OR PTE_W OR PTE_U" "rd t a = f"
    using labD(3) [OF l] va by (simp_all add: low_table_def)
  have a: "a < 65536" using th by (simp add: three_def)
  show "a < npages t" using th labD(4) [OF l] by (simp add: three_def)
  show "PGNUM (page2pa a OR PTE_P OR PTE_W OR PTE_U) = a" "page2pa a OR PTE_P OR PTE_W OR PTE_U \<noteq> 0"
    using table_entry [OF a] by simp_all
  show "(page2pa a OR PTE_P OR PTE_W OR PTE_U) AND PTE_PS = 0" "(page2pa a OR PTE_P OR PTE_W OR PTE_U) AND PTE_P \<noteq> 0"
    using table_pde_new [OF a] by (simp_all only: table_pde_def open_pde_def simp_thms)
qed

lemma lab_walk:
  assumes l: "lab h s a b c t fl True f r" and th: "three s a b c" and va: "PDX va = 0"
  shows "pgdir_walk (kern_pgdir s) va create t = Inr (Some (a, PTX va), t)"
proof -
  note d = lab_pde [OF l th va]
  show ?thesis using pgdir_walk_present [of t "kern_pgdir s" va create] unfolding d(1,3) using d(4,7) by simp
qed

lemma lab_entry_has:
  assumes "lab h s a b c t fl True f r" and "three s a b c" and "PDX va = 0"
  shows "entry_has va bits on t x = require ((f (PTX va) AND bits \<noteq> 0) = on) x"
  unfolding entry_has_def entry_of_def labD(5) [OF assms(1)] lab_walk [OF assms] using lab_pde(2) [OF assms] by simp

lemma lab_maps_to:
  assumes l: "lab h s a b c t fl True f r" and th: "three s a b c" and va: "PDX va = 0"
  shows "maps_to va pa t x = require ((if f (PTX va) AND PTE_P = 0 then NOT 0 else PTE_ADDR (f (PTX va))) = pa) x"
proof -
  note d = lab_pde [OF l th va]
  have k: "KADDR t (PTE_ADDR (page2pa a OR PTE_P OR PTE_W OR PTE_U)) = Inr (PTE_ADDR (page2pa a OR PTE_P OR PTE_W OR PTE_U) + KERNBASE)"
    unfolding KADDR_def PGNUM_PTE_ADDR d(3) using d(4) by simp
  have u: "x + KERNBASE - KERNBASE = x" for x by simp
  show ?thesis
    unfolding maps_to_def check_va2pa_def Let_def labD(5) [OF l] d(1) k andThen_Inr u PGNUM_PTE_ADDR d(3) d(2)
    using d(5,6) by (simp only: if_False if_True andThen_Inr simp_thms split: if_split) simp
qed

text \<open>Counts, entries and the translation cache.\<close>

lemma vis_ref:
  assumes "vis Y h t fl r" and "p \<notin> set fl"
  shows "vis Y h (upd_page p (\<lambda>pi. pi\<lparr>pp_ref := g pi\<rparr>) t) fl (r(p := g (pages t p)))"
proof -
  have "page_link (upd_page p (\<lambda>pi. pi\<lparr>pp_ref := g pi\<rparr>) t) = page_link t" by (simp add: page_link_def fun_eq_iff)
  then show ?thesis using assms by (auto simp: vis_def)
qed

lemma vis_same: "pages t' = pages t \<Longrightarrow> page_free_list t' = page_free_list t \<Longrightarrow> vis Y h t' fl r = vis Y h t fl r"
  by (simp add: vis_def page_link_def [abs_def])

lemma lab_ref:
  assumes l: "lab h s a b c t fl tab f r" and p: "p \<in> {a, b, c}" "p \<notin> set fl" and x: "x = g (pages t p)"
  shows "lab h s a b c (upd_page p (\<lambda>pi. pi\<lparr>pp_ref := g pi\<rparr>) t) fl tab f (r(p := x))"
proof -
  have "aside s {a, b, c} (upd_page p (\<lambda>pi. pi\<lparr>pp_ref := g pi\<rparr>) t)"
    using p(1) by (intro aside_pages [OF labD(1) [OF l]]) (auto simp: fun_eq_iff)
  moreover have "rd (upd_page p (\<lambda>pi. pi\<lparr>pp_ref := g pi\<rparr>) t) = rd t" by (simp add: fun_eq_iff)
  ultimately show ?thesis
    using vis_ref [OF labD(2) [OF l] p(2)] labD(3) [OF l] by (simp add: lab_def x low_table_def)
qed

lemma lab_write:
  assumes l: "lab h s a b c t fl True f r" and th: "three s a b c"
  shows "lab h s a b c (wr a i v t) fl True (f(i := v)) r"
proof -
  have "aside s {a, b, c} (wr a i v t)" using labD(1) [OF l] by (auto simp: aside_def intro: vm_frame_trans)
  moreover have "a \<noteq> kern_pgdir s" using th by (simp add: three_def)
  ultimately show ?thesis using labD(2,3) [OF l] vis_same [of "wr a i v t" t]
    by (auto simp: lab_def low_table_def fun_eq_iff)
qed

lemma lab_tlb: "lab h s a b c t fl tab f r \<Longrightarrow> lab h s a b c (tlb_invalidate pd va t) fl tab f r"
proof -
  assume l: "lab h s a b c t fl tab f r"
  have "nextfree (tlb_invalidate pd va t) = nextfree t" by (simp add: tlb_invalidate_def split: option.split)
  then have "aside s {a, b, c} (tlb_invalidate pd va t)" by (intro aside_pages [OF labD(1) [OF l]]) auto
  then show ?thesis using labD(2,3) [OF l] vis_same [of "tlb_invalidate pd va t" t] low_table_rd [of "tlb_invalidate pd va t" t]
    by (simp add: lab_def)
qed

lemma lab_decref:
  assumes l: "lab h s a b c t fl tab f r" and q: "q \<in> {a, b, c}" "r q \<noteq> 0"
  shows "\<exists>d. page_decref q t = Inr d \<and> lab h s a b c d (if r q = 1 then q # fl else fl) tab f (r(q := r q - 1))"
proof -
  have nq: "q \<notin> set fl" "pp_ref (pages t q) = r q" using labD(2) [OF l] q by (auto simp: vis_def)
  let ?d = "upd_page q (\<lambda>pi. pi\<lparr>pp_ref := pp_ref pi - 1\<rparr>) t"
  have d: "lab h s a b c ?d fl tab f (r(q := r q - 1))"
    by (rule lab_ref [OF l q(1) nq(1), where g = "\<lambda>pi. pp_ref pi - 1"]) (simp add: nq(2))
  show ?thesis
  proof (cases "r q = 1")
    case True
    have "page_decref q t = page_free q ?d" using nq(2) True by (simp add: page_decref_def Let_def)
    then show ?thesis using lab_free [OF d q(1) nq(1)] True by simp
  next
    case False
    then have "page_decref q t = Inr ?d" by (intro page_decref_shared) (simp add: nq(2))
    then show ?thesis using d False by simp
  qed
qed

lemma lab_remove:
  assumes l: "lab h s a b c t fl True f r" and th: "three s a b c" and va: "PDX va = 0"
    and e: "f (PTX va) \<noteq> 0" and q: "PGNUM (f (PTX va)) = q" "q \<in> {b, c}" "r q \<noteq> 0"
  shows "\<exists>t'. page_remove (kern_pgdir s) va t = Inr t'
     \<and> lab h s a b c t' (if r q = 1 then q # fl else fl) True (f(PTX va := 0)) (r(q := r q - 1))"
proof -
  note d = lab_pde [OF l th va]
  have qn: "q < npages t" using q(2) th labD(4) [OF l] by (auto simp: three_def)
  have look: "page_lookup (kern_pgdir s) va t = Inr (Some q, Some (a, PTX va))"
    using page_lookup_present [of t "kern_pgdir s" va] unfolding d(1-3) q(1) using d(4,7) e qn by simp
  have "q \<in> {a, b, c}" using q(2) by blast
  from lab_decref [OF l this q(3)] obtain t1 where
    t1: "page_decref q t = Inr t1" "lab h s a b c t1 (if r q = 1 then q # fl else fl) True f (r(q := r q - 1))" by blast
  have "page_remove (kern_pgdir s) va t = Inr (tlb_invalidate (kern_pgdir s) va (wr a (PTX va) 0 t1))"
    using lab_walk [OF l th va, of False] look t1(1) e d(2) by (simp add: page_remove_def)
  then show ?thesis using lab_tlb [OF lab_write [OF t1(2) th]] by blast
qed

text \<open>An insertion into the table: first the new reference, then what was mapped goes.\<close>

lemma lab_insert:
  assumes l: "lab h s a b c t fl True f r" and th: "three s a b c" and va: "PDX va = 0"
    and p: "p \<in> {b, c}" "p \<notin> set fl" "r p + 1 \<noteq> 0"
    and old: "f (PTX va) = 0 \<and> fl' = fl \<and> r' = r(p := r p + 1)
      \<or> f (PTX va) \<noteq> 0 \<and> PGNUM (f (PTX va)) = q \<and> q \<in> {b, c} \<and> r q \<noteq> 0 \<and> (if q = p then fl' = fl \<and> r' = r
          else fl' = (if r q = 1 then q # fl else fl) \<and> r' = r(p := r p + 1, q := r q - 1))"
  shows "\<exists>t'. page_insert (kern_pgdir s) p va perm t = Inr (Inr (), t')
     \<and> lab h s a b c t' fl' True (f(PTX va := page2pa p OR perm OR PTE_P)) r'"
proof -
  let ?k = "kern_pgdir s"
  let ?t = "upd_page p (\<lambda>pi. pi\<lparr>pp_ref := pp_ref pi + 1\<rparr>) t"
  have p3: "p \<in> {a, b, c}" using p(1) by blast
  have ref: "pp_ref (pages t p) = r p" using labD(2) [OF l] p3 by (auto simp: vis_def)
  have l1: "lab h s a b c ?t fl True f (r(p := r p + 1))"
    by (rule lab_ref [OF l p3 p(2), where g = "\<lambda>pi. pp_ref pi + 1"]) (simp add: ref)
  have ins: "page_insert ?k p va perm t = andThen (page_remove ?k va ?t) (\<lambda>t. Inr (Inr (), wr a (PTX va) (page2pa p OR perm OR PTE_P) t))"
    using lab_walk [OF l th va, of True] by (simp add: page_insert_def)
  have "\<exists>t1. page_remove ?k va ?t = Inr t1 \<and> lab h s a b c t1 fl' True (f(PTX va := 0)) r'"
  proof (cases "f (PTX va) = 0")
    case True
    note d = lab_pde [OF l1 th va]
    have "page_lookup ?k va ?t = Inr (None, None)"
      using page_lookup_empty [of ?t ?k va] unfolding d(1-3) using d(4,7) True by simp
    then have "page_remove ?k va ?t = Inr ?t"
      using lab_walk [OF l1 th va, of False] True d(2) by (simp add: page_remove_def)
    moreover have "f(PTX va := 0) = f" using True by (simp add: fun_eq_iff)
    ultimately show ?thesis using l1 old True by simp
  next
    case False
    then have q: "PGNUM (f (PTX va)) = q" "q \<in> {b, c}" "r q \<noteq> 0" using old by auto
    have "(r(p := r p + 1)) q \<noteq> 0" using p(3) q(3) by simp
    from lab_remove [OF l1 th va False q(1,2) this] obtain t1 where
      t1: "page_remove ?k va ?t = Inr t1"
        "lab h s a b c t1 (if (r(p := r p + 1)) q = 1 then q # fl else fl) True (f(PTX va := 0)) ((r(p := r p + 1))(q := (r(p := r p + 1)) q - 1))"
      by blast
    show ?thesis
    proof (cases "q = p")
      case True
      have "(r(p := r p + 1))(q := (r(p := r p + 1)) q - 1) = r" by (simp add: True fun_eq_iff)
      moreover have "(r(p := r p + 1)) q \<noteq> 1" using q(3) by (simp add: True)
      ultimately show ?thesis using t1 old False True by auto
    next
      case ne: False
      then show ?thesis using t1 old False by auto
    qed
  qed
  then obtain t1 where t1: "page_remove ?k va ?t = Inr t1" "lab h s a b c t1 fl' True (f(PTX va := 0)) r'" by blast
  have "(f(PTX va := 0))(PTX va := v) = f(PTX va := v)" for v by simp
  with lab_write [OF t1(2) th, of "PTX va" "page2pa p OR perm OR PTE_P"] ins t1(1) show ?thesis by auto
qed


text \<open>Insertions and removals write only the table, so the contents of the mapped pages stay.\<close>

lemma lab_remove_rd:
  assumes l: "lab h s a b c t fl True f r" and th: "three s a b c" and va: "PDX va = 0"
    and rm: "page_remove (kern_pgdir s) va t = Inr t'" and q: "q \<noteq> a"
  shows "rd t' q = rd t q"
proof -
  note w = lab_walk [OF l th va]
  obtain x stored where look: "page_lookup (kern_pgdir s) va t = Inr (x, stored)" "stored = None \<or> stored = Some (a, PTX va)"
    using rm w [of False] by (auto simp: page_remove_def page_lookup_def andThen_def split: sum.splits if_splits)
  then show ?thesis
    using rm q w [of False] page_decref_frame
    by (auto simp: page_remove_def Let_def andThen_def fun_eq_iff split: sum.splits if_splits option.splits)
qed

lemma lab_insert_rd:
  assumes l: "lab h s a b c t fl True f r" and th: "three s a b c" and va: "PDX va = 0" and p: "p \<in> {b, c}" "p \<notin> set fl"
    and ins: "page_insert (kern_pgdir s) p va perm t = Inr (x, t')" and q: "q \<noteq> a"
  shows "rd t' q = rd t q"
proof -
  let ?t = "upd_page p (\<lambda>pi. pi\<lparr>pp_ref := pp_ref pi + 1\<rparr>) t"
  have "p \<in> {a, b, c}" using p(1) by blast
  from lab_ref [OF l this p(2), where g = "\<lambda>pi. pp_ref pi + 1", OF refl] have l1: "\<exists>r. lab h s a b c ?t fl True f r" by blast
  have "page_insert (kern_pgdir s) p va perm t = andThen (page_remove (kern_pgdir s) va ?t) (\<lambda>t. Inr (Inr (), wr a (PTX va) (page2pa p OR perm OR PTE_P) t))"
    using lab_walk [OF l th va, of True] by (simp add: page_insert_def)
  then obtain t1 where "page_remove (kern_pgdir s) va ?t = Inr t1" "t' = wr a (PTX va) (page2pa p OR perm OR PTE_P) t1"
    using ins by (auto simp: andThen_def split: sum.splits)
  then show ?thesis using lab_remove_rd [OF _ th va _ q] l1 q by (auto simp: fun_eq_iff)
qed

section \<open>The table comes and goes\<close>

lemma hang_table_other: "page_free_list t = Some p \<Longrightarrow> q \<noteq> p \<Longrightarrow> pages (hang_table pd i p t) q = pages t q"
  by (simp add: hang_table_def pop_page_other)

lemma vis_hang:
  assumes v: "vis Y h t (p # fl) r"
  shows "vis Y h (hang_table pd i p t) fl (r(p := 1))"
proof -
  note pop = vis_pop [OF v]
  have "pp_ref (pages (pop_page t) p) = 0" using pop(2-4) by (simp add: vis_def)
  from vis_ref [OF pop(2,5), of "\<lambda>pi. pp_ref pi + 1", unfolded this] 
  have "vis Y h (upd_page p (\<lambda>pi. pi\<lparr>pp_ref := pp_ref pi + 1\<rparr>) (pop_page t)) fl (r(p := 1))" by simp
  then show ?thesis
    using vis_same [of "hang_table pd i p t" "upd_page p (\<lambda>pi. pi\<lparr>pp_ref := pp_ref pi + 1\<rparr>) (pop_page t)"]
    by (simp add: hang_table_def)
qed

lemma nextfree_hang_table [simp]: "nextfree (hang_table pd i p t) = nextfree t"
  by (simp add: hang_table_def)

lemma lab_hang:
  assumes l: "lab h s a b c t [a] False f r" and th: "three s a b c" and i: "i = 0 \<or> i = 1"
  shows "PDX va = i \<Longrightarrow> pgdir_walk (kern_pgdir s) va True t = Inr (Some (a, PTX va), hang_table (kern_pgdir s) i a t)"
    and "i = 0 \<Longrightarrow> lab h s a b c (hang_table (kern_pgdir s) i a t) [] True (\<lambda>_. 0) (r(a := 1))"
    and "lab h s a b c (forget_table i a (hang_table (kern_pgdir s) i a t)) [] False g r"
proof -
  let ?k = "kern_pgdir s"
  let ?h = "hang_table ?k i a t"
  have a: "a < npages t" "a < 65536" "a \<noteq> ?k" "npages t \<le> 65536" using th labD(4) [OF l] by (auto simp: three_def)
  have hd: "page_free_list t = Some a" using labD(2) [OF l] by (simp add: vis_def)
  have zero: "rd t ?k 0 = 0" "rd t ?k 1 = 0" using labD(3) [OF l] by (simp_all add: low_table_def)
  have pp: "page_alloc ALLOC_ZERO t = Inr (Some a, zero_page a (pop_page t))"
    using a by (simp add: page_alloc_def pop_page_def hd page2kva_ok mem_ok_def Let_def)
  show "pgdir_walk ?k va True t = Inr (Some (a, PTX va), ?h)" if "PDX va = i"
    using pp zero i that table_entry [OF a(2)] a by (auto simp: pgdir_walk_def Let_def KADDR_def hang_table_def)
  have as: "aside s {a, b, c} ?h"
    using labD(1) [OF l] i hang_table_other [OF hd] vm_frame_trans [of s t ?h]
    by (auto simp: aside_def hang_table_rd fun_eq_iff)
  have v: "vis {a, b, c} h ?h [] (r(a := 1))" by (rule vis_hang [OF labD(2) [OF l]])
  show "lab h s a b c ?h [] True (\<lambda>_. 0) (r(a := 1))" if "i = 0"
    using as v zero a that by (simp add: lab_def low_table_def hang_table_rd fun_eq_iff)
  have ra: "r a = 0" using labD(2) [OF l] by (simp add: vis_def)
  let ?w = "wr ?k i 0 ?h"
  have "aside s {a, b, c} ?w"
    using as i vm_frame_trans [of s ?h ?w] by (auto simp: aside_def)
  moreover have "low_table s a ?w False g" using zero a i by (auto simp: low_table_def hang_table_rd)
  ultimately have w: "lab h s a b c ?w [] False g (r(a := 1))"
    using v vis_same [of ?w ?h] by (simp add: lab_def)
  have "a \<in> {a, b, c}" by simp
  from lab_ref [OF w this, of 0 "\<lambda>_. 0"] ra
  show "lab h s a b c (forget_table i a ?h) [] False g r"
    using fun_upd_triv [of r a] by (simp add: forget_table_def labD(5) [OF l])
qed

text \<open>Without the table an insertion takes the free page for it; without a free page it fails.\<close>

lemma lab_insert_first:
  assumes l: "lab h s a b c t [a] False f r" and th: "three s a b c" and va: "PDX va = 0" and p: "p \<in> {b, c}" "r p + 1 \<noteq> 0"
  shows "\<exists>t'. page_insert (kern_pgdir s) p va perm t = Inr (Inr (), t')
     \<and> lab h s a b c t' [] True ((\<lambda>_. 0)(PTX va := page2pa p OR perm OR PTE_P)) (r(a := 1, p := r p + 1))
     \<and> (\<forall>q. q \<noteq> a \<and> q \<noteq> kern_pgdir s \<longrightarrow> rd t' q = rd t q)"
proof -
  let ?h = "hang_table (kern_pgdir s) 0 a t"
  have i: "(0 :: nat) = 0 \<or> (0 :: nat) = 1" by simp
  note h = lab_hang(1,2) [OF l th i]
  have walk: "pgdir_walk (kern_pgdir s) va True t = pgdir_walk (kern_pgdir s) va True ?h"
    using h(1) [OF va] lab_walk [OF h(2) th va] by simp
  have pa: "p \<noteq> a" using p(1) th by (auto simp: three_def)
  have r: "(r(a := 1)) p = r p" using pa by simp
  have "\<exists>t'. page_insert (kern_pgdir s) p va perm ?h = Inr (Inr (), t')
     \<and> lab h s a b c t' [] True ((\<lambda>_. 0)(PTX va := page2pa p OR perm OR PTE_P)) (r(a := 1, p := r p + 1))"
    by (rule lab_insert [OF h(2) th va p(1)]) (use p(2) r in simp_all)
  moreover have "rd t' q = rd t q" if "page_insert (kern_pgdir s) p va perm ?h = Inr (x, t')" "q \<noteq> a" "q \<noteq> kern_pgdir s" for t' q x
  proof -
    have "p \<notin> set []" by simp
    from lab_insert_rd [OF h(2) th va p(1) this that(1,2)] show ?thesis using that(2,3) by (simp add: hang_table_rd fun_eq_iff)
  qed
  moreover have "page_insert (kern_pgdir s) p va perm t = page_insert (kern_pgdir s) p va perm ?h"
    by (simp add: page_insert_def walk)
  ultimately show ?thesis by fastforce
qed

lemma lab_insert_fails:
  assumes l: "lab [] s a b c t [] tab f r" and va: "PDX va = 0 \<and> \<not> tab \<or> PDX va = 1"
  shows "page_insert (kern_pgdir s) p va perm t = Inr (Inl E_NO_MEM, t)"
proof -
  have "rd t (kern_pgdir s) (PDX va) = 0" using labD(3) [OF l] va by (auto simp: low_table_def)
  moreover have "page_free_list t = None" using labD(2) [OF l] by (simp add: vis_def)
  ultimately show ?thesis by (simp add: page_insert_def pgdir_walk_def page_alloc_def Let_def)
qed

lemma lab_forget:
  assumes l: "lab h s a b c t fl True f r" and a: "a \<notin> set fl"
  shows "lab h s a b c (forget_table 0 a t) fl False g (r(a := 0))"
proof -
  let ?t = "wr (kern_pgdir s) 0 0 t"
  have fr: "vm_frame s ?t" using labD(1) [OF l] by (auto simp: aside_def intro: vm_frame_trans)
  have "aside s {a, b, c} ?t" using labD(1) [OF l] fr by (auto simp: aside_def)
  moreover have "low_table s a ?t False g" using labD(3) [OF l] by (simp add: low_table_def)
  ultimately have "lab h s a b c ?t fl False g r" using labD(2) [OF l] vis_same [of ?t t] by (simp add: lab_def)
  from lab_ref [OF this _ a, of 0 "\<lambda>_. 0"] show ?thesis by (simp add: forget_table_def labD(5) [OF l])
qed

lemma rd_fill_words: "rd (fill_words p n w t) q j = (if q = p \<and> j < n then w else rd t q j)"
  by (induction n arbitrary: t) auto

lemma fill_words_frame:
  "pages (fill_words p n w t) = pages t \<and> page_free_list (fill_words p n w t) = page_free_list t
     \<and> nextfree (fill_words p n w t) = nextfree t \<and> vm_frame t (fill_words p n w t) \<and> tlb (fill_words p n w t) = tlb t"
proof (induction n arbitrary: t)
  case (Suc n)
  have "vm_frame t (wr p n w t)" by simp
  with Suc [of "wr p n w t"] show ?case using vm_frame_trans [of t "wr p n w t"] by simp
qed simp

lemma lab_fill:
  assumes l: "lab h s a b c t fl tab f r" and th: "three s a b c" and p: "p \<in> {a, b, c}" "p = a \<longrightarrow> \<not> tab"
  shows "lab h s a b c (fill_words p n w t) fl tab f r"
proof -
  note fr = fill_words_frame [of p n w t]
  have pk: "p \<noteq> kern_pgdir s" using p th by (auto simp: three_def)
  have "aside s {a, b, c} (fill_words p n w t)"
    using labD(1) [OF l] fr p by (auto simp: aside_def rd_fill_words fun_eq_iff intro: vm_frame_trans)
  moreover have "low_table s a (fill_words p n w t) tab f"
    using labD(3) [OF l] p pk by (auto simp: low_table_def rd_fill_words fun_eq_iff)
  ultimately show ?thesis using labD(2) [OF l] fr vis_same [of "fill_words p n w t" t] by (simp add: lab_def)
qed

section \<open>check_page, first half: insertions\<close>

text \<open>The entry an insertion writes, a table with two entries, and the three counts.\<close>

definition ent :: "nat \<Rightarrow> u32 \<Rightarrow> u32" where
  "ent p perm = page2pa p OR perm OR PTE_P"

definition two :: "u32 \<Rightarrow> u32 \<Rightarrow> nat \<Rightarrow> u32" where
  "two x y = (\<lambda>_. 0)(0 := x, 1 := y)"

definition cnt :: "nat \<Rightarrow> nat \<Rightarrow> nat \<Rightarrow> u16 \<Rightarrow> u16 \<Rightarrow> u16 \<Rightarrow> nat \<Rightarrow> u16" where
  "cnt a b c i j k = (\<lambda>_. 0)(a := i, b := j, c := k)"

lemma two_simps [simp]:
  "two x y 0 = x" "two x y (Suc 0) = y" "(two x y)(0 := z) = two z y" "(two x y)(Suc 0 := z) = two x z" "two 0 0 = (\<lambda>_. 0)"
  by (auto simp: two_def fun_eq_iff)

lemma cnt_simps:
  assumes "three s a b c"
  shows "cnt a b c i j k a = i" "cnt a b c i j k b = j" "cnt a b c i j k c = k"
    "(cnt a b c i j k)(a := n) = cnt a b c n j k" "(cnt a b c i j k)(b := n) = cnt a b c i n k" "(cnt a b c i j k)(c := n) = cnt a b c i j n"
  using assms by (auto simp: cnt_def three_def fun_eq_iff)

lemma cnt_0: "cnt a b c 0 0 0 = (\<lambda>_. 0)"
  by (auto simp: cnt_def fun_eq_iff)

lemma ent_facts:
  assumes "p < 65536" and "perm_ok perm"
  shows "PGNUM (ent p perm) = p" "PTE_ADDR (ent p perm) = page2pa p" "ent p perm AND PTE_P \<noteq> 0" "ent p perm \<noteq> 0"
    and "perm_ok m \<Longrightarrow> ent p perm AND m = (perm OR PTE_P) AND m"
proof -
  have ok: "perm_ok (perm OR PTE_P)" using assms(2) by (simp only: perm_ok_or perm_ok_flags simp_thms)
  show "PGNUM (ent p perm) = p" using PGNUM_entry [OF ok] assms(1) by (simp add: ent_def)
  show "PTE_ADDR (ent p perm) = page2pa p" using PTE_ADDR_entry [OF ok] by (simp add: ent_def)
  show P: "ent p perm AND PTE_P \<noteq> 0" using or_P_present [of "page2pa p OR perm"] by (simp only: ent_def or.assoc simp_thms)
  show "ent p perm \<noteq> 0" using P by auto
  show "ent p perm AND m = (perm OR PTE_P) AND m" if "perm_ok m"
    using page2pa_and_perm [OF that] by (simp add: ent_def bit.conj_disj_distrib2)
qed

lemma three_small: "three s a b c \<Longrightarrow> p \<in> {a, b, c} \<Longrightarrow> p < 65536"
  by (auto simp: three_def)

lemma run_insert:
  assumes l: "lab h s a b c t fl True f r" and th: "three s a b c" and va: "PDX va = 0"
    and p: "p \<in> {b, c}" "p \<notin> set fl" "r p + 1 \<noteq> 0"
    and old: "f (PTX va) = 0 \<and> fl' = fl \<and> r' = r(p := r p + 1)
      \<or> f (PTX va) \<noteq> 0 \<and> PGNUM (f (PTX va)) = q \<and> q \<in> {b, c} \<and> r q \<noteq> 0 \<and> (if q = p then fl' = fl \<and> r' = r
          else fl' = (if r q = 1 then q # fl else fl) \<and> r' = r(p := r p + 1, q := r q - 1))"
    and f': "f' = f(PTX va := ent p perm)"
  shows "\<exists>t'. (\<forall>F :: kstate \<Rightarrow> kstate fallible. must_insert p va perm t F = F t') \<and> lab h s a b c t' fl' True f' r'"
proof -
  from lab_insert [OF l th va p old, where perm = perm] obtain t' where
    "page_insert (kern_pgdir s) p va perm t = Inr (Inr (), t')" "lab h s a b c t' fl' True f' r'"
    unfolding f' ent_def by blast
  then show ?thesis using labD(5) [OF l] by (auto simp: must_insert_def)
qed

lemma lab_maps_to_entry:
  assumes l: "lab h s a b c t fl True f r" and th: "three s a b c" and va: "PDX va = 0"
    and f: "f (PTX va) = ent p perm" "p < 65536" "perm_ok perm"
  shows "maps_to va (page2pa p) t x = x"
  using lab_maps_to [OF l th va, of "page2pa p"] ent_facts [OF f(2,3)] by (simp only: f(1) if_False require_True refl)

lemma lab_maps_to_none:
  assumes l: "lab h s a b c t fl True f r" and th: "three s a b c" and va: "PDX va = 0" and f: "f (PTX va) = 0"
  shows "maps_to va (NOT 0) t x = x"
  using lab_maps_to [OF l th va, of "NOT 0"] by (simp add: f)

lemma lab_table_addr:
  assumes l: "lab h s a b c t fl True f r" and th: "three s a b c"
  shows "PTE_ADDR (rd t (kern_pgdir t) 0) = page2pa a" and "rd t (kern_pgdir t) 0 AND PTE_U \<noteq> 0"
    and "KADDR t (PTE_ADDR (rd t (kern_pgdir t) 0)) = Inr (page2pa a + KERNBASE)"
proof -
  have e: "rd t (kern_pgdir t) 0 = page2pa a OR (PTE_P OR PTE_W OR PTE_U)"
    using labD(3,5) [OF l] by (simp add: low_table_def)
  have "perm_ok (PTE_P OR PTE_W OR PTE_U)" by (simp only: perm_ok_or perm_ok_flags simp_thms)
  then show ad: "PTE_ADDR (rd t (kern_pgdir t) 0) = page2pa a" unfolding e by (rule PTE_ADDR_entry)
  show "rd t (kern_pgdir t) 0 AND PTE_U \<noteq> 0" unfolding e by (simp add: bit.conj_disj_distrib2 or_eq_0_iff)
  show "KADDR t (PTE_ADDR (rd t (kern_pgdir t) 0)) = Inr (page2pa a + KERNBASE)"
    using th labD(4) [OF l] three_small [OF th, of a] by (simp add: ad KADDR_def three_def)
qed

lemma low_addresses: "PDX 0 = 0" "PDX PGSIZE = 0" "PTX 0 = 0" "PTX PGSIZE = Suc 0" "PDX PTSIZE = 1" "PDX 0x401000 = 1"
  by (simp_all add: mmu_simps)

lemma check_page_map_passes:
  assumes l0: "lab [] s a b c t [] False f (cnt a b c 0 0 0)" and th: "three s a b c"
  shows "\<exists>t'. check_page_map a b c t = Inr t' \<and> lab [] s a b c t' [c] True (two (ent b PTE_W) (ent b PTE_W)) (cnt a b c 1 2 0)"
proof -
  note cs = cnt_simps [OF th] and lo = low_addresses
  have dist: "a \<noteq> b" "a \<noteq> c" "b \<noteq> c" using th by (auto simp: three_def)
  have small: "a < 65536" "b < 65536" "c < 65536" using three_small [OF th] by simp_all
  have perm: "perm_ok PTE_W" "perm_ok (PTE_W OR PTE_U)" "perm_ok PTE_U" by (simp_all only: perm_ok_or perm_ok_flags simp_thms)
  note ew = ent_facts [OF small(2) perm(1)] ent_facts [OF small(3) perm(1)] ent_facts [OF small(3) perm(2)]
  have look: "page_lookup (kern_pgdir t) 0 t = Inr (None, None)"
    using labD(3,5) [OF l0] lo by (intro page_lookup_absent) (simp add: low_table_def)
  have no1: "refuse_insert b 0 PTE_W t F = F t" for F :: "kstate \<Rightarrow> kstate fallible"
    using lab_insert_fails [OF l0, of 0] lo by (simp add: refuse_insert_def labD(5) [OF l0])
  have a: "a \<in> {a, b, c}" "a \<notin> set []" "cnt a b c 0 0 0 a = 0" by (simp_all add: cs)
  note l1 = lab_free [OF l0 a]
  have "\<exists>t2. (\<forall>F :: kstate \<Rightarrow> kstate fallible. must_insert b 0 PTE_W (push_page a t) F = F t2)
     \<and> lab [] s a b c t2 [] True (two (ent b PTE_W) 0) (cnt a b c 1 1 0)"
  proof -
    have f: "(\<lambda>_. 0)(PTX 0 := page2pa b OR PTE_W OR PTE_P) = two (ent b PTE_W) 0"
      unfolding lo by (simp add: two_def ent_def fun_eq_iff)
    from lab_insert_first [OF l1(2) th lo(1), of b PTE_W, unfolded f cs] obtain t2 where
      "page_insert (kern_pgdir s) b 0 PTE_W (push_page a t) = Inr (Inr (), t2)"
      "lab [] s a b c t2 [] True (two (ent b PTE_W) 0) (cnt a b c 1 1 0)" by (auto simp: cs)
    then show ?thesis using labD(5) [OF l1(2)] by (auto simp: must_insert_def)
  qed
  then obtain t2 where i2: "\<And>F :: kstate \<Rightarrow> kstate fallible. must_insert b 0 PTE_W (push_page a t) F = F t2"
    and l2: "lab [] s a b c t2 [] True (two (ent b PTE_W) 0) (cnt a b c 1 1 0)" by blast
  have m2: "maps_to 0 (page2pa b) t2 x = x" for x :: "kstate fallible"
    by (rule lab_maps_to_entry [OF l2 th lo(1) _ small(2) perm(1)]) (simp add: lo)
  have r2: "refs t2 b = 1" "refs t2 a = 1" using lab_refs [OF l2] by (simp_all add: cs)
  have "\<exists>t3. (\<forall>F :: kstate \<Rightarrow> kstate fallible. must_insert c PGSIZE PTE_W t2 F = F t3)
     \<and> lab [] s a b c t3 [] True (two (ent b PTE_W) (ent c PTE_W)) (cnt a b c 1 1 1)"
    by (rule run_insert [OF l2 th lo(2), where q = c]) (simp_all only: lo cs two_simps, simp_all)
  then obtain t3 where i3: "\<And>F :: kstate \<Rightarrow> kstate fallible. must_insert c PGSIZE PTE_W t2 F = F t3"
    and l3: "lab [] s a b c t3 [] True (two (ent b PTE_W) (ent c PTE_W)) (cnt a b c 1 1 1)" by blast
  have again: "\<exists>t4. (\<forall>F :: kstate \<Rightarrow> kstate fallible. must_insert c PGSIZE p t3 F = F t4)
     \<and> lab [] s a b c t4 [] True (two (ent b PTE_W) (ent c p)) (cnt a b c 1 1 1)"
    if "lab [] s a b c t3 [] True (two (ent b PTE_W) (ent c p')) (cnt a b c 1 1 1)" "perm_ok p'" for t3 p p'
    by (rule run_insert [OF that(1) th lo(2), where q = c])
      (use ent_facts [OF small(3) that(2)] in \<open>simp_all only: lo cs two_simps, simp_all\<close>)
  from again [OF l3 perm(1), of PTE_W] obtain t4 where i4: "\<And>F :: kstate \<Rightarrow> kstate fallible. must_insert c PGSIZE PTE_W t3 F = F t4"
    and l4: "lab [] s a b c t4 [] True (two (ent b PTE_W) (ent c PTE_W)) (cnt a b c 1 1 1)" by blast
  from again [OF l4 perm(1), of "PTE_W OR PTE_U"] obtain t5 where
    i5: "\<And>F :: kstate \<Rightarrow> kstate fallible. must_insert c PGSIZE (PTE_W OR PTE_U) t4 F = F t5"
    and l5: "lab [] s a b c t5 [] True (two (ent b PTE_W) (ent c (PTE_W OR PTE_U))) (cnt a b c 1 1 1)" by blast
  from again [OF l5 perm(2), of PTE_W] obtain t6 where i6: "\<And>F :: kstate \<Rightarrow> kstate fallible. must_insert c PGSIZE PTE_W t5 F = F t6"
    and l6: "lab [] s a b c t6 [] True (two (ent b PTE_W) (ent c PTE_W)) (cnt a b c 1 1 1)" by blast
  have "\<exists>t7. (\<forall>F :: kstate \<Rightarrow> kstate fallible. must_insert b PGSIZE PTE_W t6 F = F t7)
     \<and> lab [] s a b c t7 [c] True (two (ent b PTE_W) (ent b PTE_W)) (cnt a b c 1 2 0)"
    by (rule run_insert [OF l6 th lo(2), where q = c]) (use dist ew in \<open>simp_all only: lo cs two_simps, simp_all add: cs\<close>)
  then obtain t7 where i7: "\<And>F :: kstate \<Rightarrow> kstate fallible. must_insert b PGSIZE PTE_W t6 F = F t7"
    and l7: "lab [] s a b c t7 [c] True (two (ent b PTE_W) (ent b PTE_W)) (cnt a b c 1 2 0)" by blast
  have m: "maps_to PGSIZE (page2pa c) t x = x" if "lab [] s a b c t fl True (two y (ent c p)) r" "perm_ok p" for t fl y p r and x :: "kstate fallible"
    by (rule lab_maps_to_entry [OF that(1) th lo(2) _ small(3) that(2)]) (simp only: lo two_simps)
  note ms = m [OF l3 perm(1)] m [OF l4 perm(1)] m [OF l5 perm(2)]
  have rs: "refs t3 c = 1" "refs t4 c = 1" "refs t5 c = 1" using lab_refs [OF l3] lab_refs [OF l4] lab_refs [OF l5] by (simp_all add: cs)
  have no7: "refuse_insert a PTSIZE PTE_W t6 F = F t6" for F :: "kstate \<Rightarrow> kstate fallible"
    using lab_insert_fails [OF l6, of PTSIZE] lo by (simp add: refuse_insert_def labD(5) [OF l6])
  have e: "entry_has PGSIZE bits on t x = x" if "lab [] s a b c t fl True (two y (ent q p)) r" "q < 65536" "perm_ok p" "perm_ok bits" "((p OR PTE_P) AND bits \<noteq> 0) = on"
    for t fl y q p r bits on and x :: "kstate fallible"
    using lab_entry_has [OF that(1) th lo(2), of bits on x] that(5) ent_facts(5) [OF that(2,3,4)] by (simp only: lo two_simps require_True simp_thms)
  have bits: "((PTE_W OR PTE_U) OR PTE_P) AND PTE_U \<noteq> 0" "((PTE_W OR PTE_P) AND PTE_U \<noteq> 0) = False" "(PTE_W OR PTE_P) AND PTE_W \<noteq> 0"
    by simp_all
  note es = e [OF l5 small(3) perm(2,3), of True] e [OF l6 small(3) perm(1,1), of True] e [OF l6 small(3) perm(1,3), of False]
    e [OF l7 small(2) perm(1,3), of False]
  have w: "entry_of PGSIZE False t4 F = F a (PTX PGSIZE) t4" for F :: "nat \<Rightarrow> nat \<Rightarrow> kstate \<Rightarrow> kstate fallible"
    using lab_walk [OF l4 th lo(2), of False] labD(5) [OF l4] by (simp add: entry_of_def)
  have k: "PGNUM (page2pa a + KERNBASE - KERNBASE) = a" using small(1) by simp
  note ta = lab_table_addr
  have "check_page_map a b c t = Inr t7"
    unfolding check_page_map_def look andThen_Inr prod.case no1 l1(1) i2 ta(1) [OF l2 th] m2 r2 i3 i4 i5 i6 i7 ms rs no7 w
      lab_no_alloc [OF l3] lab_no_alloc [OF l4] lo ta(3) [OF l4 th]  k
    using es bits ta(2) [OF l5 th] by (simp only: require_True simp_thms)
  then show ?thesis using l7 by blast
qed

section \<open>check_page, second half: removals and the walk\<close>

lemma run_remove:
  assumes l: "lab h s a b c t fl True f r" and th: "three s a b c" and va: "PDX va = 0"
    and q: "f (PTX va) = ent q p" "q \<in> {b, c}" "perm_ok p" "r q \<noteq> 0"
    and r': "fl' = (if r q = 1 then q # fl else fl)" "f' = f(PTX va := 0)" "r' = r(q := r q - 1)"
  shows "\<exists>t'. page_remove (kern_pgdir t) va t = Inr t' \<and> lab h s a b c t' fl' True f' r'"
proof -
  have "q \<in> {a, b, c}" using q(2) by blast
  then have e: "f (PTX va) \<noteq> 0" "PGNUM (f (PTX va)) = q"
    using ent_facts [OF three_small [OF th, of q] q(3)] q(1) by auto
  show ?thesis using lab_remove [OF l th va e q(2,4)] unfolding r' labD(5) [OF l] .
qed

lemma check_page_counts_passes:
  assumes l0: "lab [] s a b c t [c] True (two (ent b PTE_W) (ent b PTE_W)) (cnt a b c 1 2 0)" and th: "three s a b c"
  shows "\<exists>t'. check_page_counts a b c t = Inr t' \<and> lab [] s a b c t' [] True (two 0 0) (cnt a b c 1 0 0)"
proof -
  note cs = cnt_simps [OF th] and lo = low_addresses
  have dist: "a \<noteq> b" "a \<noteq> c" "b \<noteq> c" using th by (auto simp: three_def)
  have b: "b < 65536" "b \<in> {b, c}" using three_small [OF th] by simp_all
  have perm: "perm_ok PTE_W" "perm_ok 0" by (simp_all only: perm_ok_flags simp_thms) (simp add: perm_ok_def)
  note ew = ent_facts [OF b(1) perm(1)]
  have m0: "maps_to 0 (page2pa b) t x = x" "maps_to PGSIZE (page2pa b) t x = x" for x :: "kstate fallible"
    by (rule lab_maps_to_entry [OF l0 th _ _ b(1) perm(1)], simp_all only: lo two_simps)+
  have r0: "refs t b = 2" "refs t c = 0" using lab_refs [OF l0] by (simp_all add: cs)
  note a1 = lab_must_alloc [OF l0] and l1 = lab_alloc(2) [OF l0]
  have "\<exists>t2. page_remove (kern_pgdir (pop_page t)) 0 (pop_page t) = Inr t2
     \<and> lab [] s a b c t2 [] True (two 0 (ent b PTE_W)) (cnt a b c 1 1 0)"
    by (rule run_remove [OF l1 th lo(1) _ b(2) perm(1)]) (simp_all only: lo cs two_simps, simp_all)
  then obtain t2 where v2: "page_remove (kern_pgdir (pop_page t)) 0 (pop_page t) = Inr t2"
    and l2: "lab [] s a b c t2 [] True (two 0 (ent b PTE_W)) (cnt a b c 1 1 0)" by blast
  have m2: "maps_to 0 (NOT 0) t2 x = x" "maps_to PGSIZE (page2pa b) t2 x = x" for x :: "kstate fallible"
    by (rule lab_maps_to_none [OF l2 th] lab_maps_to_entry [OF l2 th _ _ b(1) perm(1)], simp_all only: lo two_simps)+
  have r2: "refs t2 b = 1" "refs t2 c = 0" using lab_refs [OF l2] by (simp_all add: cs)
  have "\<exists>t3. (\<forall>F :: kstate \<Rightarrow> kstate fallible. must_insert b PGSIZE 0 t2 F = F t3)
     \<and> lab [] s a b c t3 [] True (two 0 (ent b 0)) (cnt a b c 1 1 0)"
    by (rule run_insert [OF l2 th lo(2) b(2), where q = b]) (use ew in \<open>simp_all only: lo cs two_simps, simp_all\<close>)
  then obtain t3 where i3: "\<And>F :: kstate \<Rightarrow> kstate fallible. must_insert b PGSIZE 0 t2 F = F t3"
    and l3: "lab [] s a b c t3 [] True (two 0 (ent b 0)) (cnt a b c 1 1 0)" by blast
  have r3: "refs t3 b \<noteq> 0" "pp_link (pages t3 b) = None"
    using lab_refs [OF l3] labD(2) [OF l3] by (simp_all add: cs vis_def page_link_def)
  have "\<exists>t4. page_remove (kern_pgdir t3) PGSIZE t3 = Inr t4 \<and> lab [] s a b c t4 [b] True (two 0 0) (cnt a b c 1 0 0)"
    by (rule run_remove [OF l3 th lo(2) _ b(2) perm(2)]) (simp_all only: lo cs two_simps, simp_all)
  then obtain t4 where v4: "page_remove (kern_pgdir t3) PGSIZE t3 = Inr t4"
    and l4: "lab [] s a b c t4 [b] True (two 0 0) (cnt a b c 1 0 0)" by blast
  have m4: "maps_to 0 (NOT 0) t4 x = x" "maps_to PGSIZE (NOT 0) t4 x = x" for x :: "kstate fallible"
    by (rule lab_maps_to_none [OF l4 th], simp_all only: lo two_simps)+
  have r4: "refs t4 b = 0" "refs t4 c = 0" using lab_refs [OF l4] by (simp_all add: cs)
  note l5 = lab_alloc(2) [OF l4]
  have "check_page_counts a b c t = Inr (pop_page t4)"
    unfolding check_page_counts_def m0 r0 a1 v2 m2 r2 i3 v4 m4 r4 lab_must_alloc [OF l4] lab_no_alloc [OF l5] andThen_Inr
    using r3 by (simp only: require_True simp_thms andThen_Inr v2 m2 r2 i3 v4 m4 r4 lab_must_alloc [OF l4] lab_no_alloc [OF l5])
  then show ?thesis using l5 by blast
qed

text \<open>The walks that make a table, and the return of the three pages.\<close>

lemma check_page_walk_passes:
  assumes l0: "lab [] s a b c t [] True (two 0 0) (cnt a b c 1 0 0)" and th: "three s a b c"
  shows "\<exists>u. lab [] s a b c u [] False (\<lambda>_. 0) (cnt a b c 0 0 0) \<and> check_page_walk fl a b c t =
     andThen (page_free a (u\<lparr>page_free_list := fl\<rparr>)) (\<lambda>s. andThen (page_free b s) (page_free c))"
proof -
  note cs = cnt_simps [OF th] and lo = low_addresses
  let ?k = "kern_pgdir s" and ?t1 = "forget_table 0 a t"
  let ?h1 = "hang_table ?k 1 a (push_page a ?t1)"
  let ?t2 = "fill_words a 1024 0xFFFFFFFF (forget_table 1 a ?h1)"
  let ?h0 = "hang_table ?k 0 a (push_page a ?t2)" 
  have an: "a < 65536" "a < npages s" "npages s \<le> 65536" using th three_small [OF th, of a] by (simp_all add: three_def)
  have r0: "refs t a = 1" using lab_refs [OF l0] by (simp add: cs)
  have ra: "a \<in> {a, b, c}" "a \<notin> set []" "cnt a b c 0 0 0 a = 0" by (simp_all add: cs)
  have l1: "lab [] s a b c ?t1 [] False (\<lambda>_. 0) (cnt a b c 0 0 0)" using lab_forget [OF l0 ra(2)] by (simp only: cs)
  note p1 = lab_free [OF l1 ra]
  have i: "(1 :: nat) = 0 \<or> (1 :: nat) = 1" "(0 :: nat) = 0 \<or> (0 :: nat) = 1" by simp_all
  note h1 = lab_hang(1) [OF p1(2) th i(1)] lab_hang(3) [OF p1(2) th i(1), where g = "\<lambda>_. 0"]
  have k1: "kern_pgdir (push_page a ?t1) = ?k" "kern_pgdir ?h1 = ?k" "npages ?h1 = npages s"
    using labD(4,5) [OF p1(2)] by simp_all
  have e1: "entry_of 0x401000 True (push_page a ?t1) F = F a (PTX 0x401000) ?h1" for F :: "nat \<Rightarrow> nat \<Rightarrow> kstate \<Rightarrow> kstate fallible"
    unfolding entry_of_def k1 h1(1) [OF lo(6)] by simp
  have "perm_ok (PTE_P OR PTE_W OR PTE_U)" by (simp only: perm_ok_or perm_ok_flags simp_thms)
  then have "PTE_ADDR (rd ?h1 ?k 1) = page2pa a" unfolding hang_table_rd using PTE_ADDR_entry by simp
  then have ad1: "KADDR ?h1 (PTE_ADDR (rd ?h1 (kern_pgdir ?h1) 1)) = Inr (page2pa a + KERNBASE)"
    unfolding k1 using an labD(4) [OF p1(2)] by (simp add: KADDR_def)
  have l2: "lab [] s a b c ?t2 [] False (\<lambda>_. 0) (cnt a b c 0 0 0)" by (rule lab_fill [OF h1(2) th ra(1)]) simp
  note p2 = lab_free [OF l2 ra]
  note h0 = lab_hang(1) [OF p2(2) th i(2) lo(1)] lab_hang(2,3) [OF p2(2) th i(2)]
  have kva: "page2kva u a = Inr a" if "npages u = npages s" for u
    using that an by (intro page2kva_ok) (simp_all add: mem_ok_def)
  have k2: "page2kva (forget_table 1 a ?h1) a = Inr a" by (rule kva) (rule labD(4) [OF h1(2)])
  have k3: "kern_pgdir (push_page a ?t2) = ?k" by (rule labD(5) [OF p2(2)])
  have k4: "page2kva ?h0 a = Inr a" by (rule kva) (use labD(4) [OF p2(2)] in simp)
  have z: "\<forall>i\<in>{0..<NPTENTRIES}. rd ?h0 a i AND PTE_P = 0"
    using labD(3) [OF h0(2)] by (simp add: low_table_def)
  have va: "PGSIZE * word_of_nat NPDENTRIES + PGSIZE = 0x401000" by simp
  have pg: "PGNUM (page2pa a + KERNBASE - KERNBASE) = a" using an by simp
  have "check_page_walk fl a b c t = andThen (page_free a ((forget_table 0 a ?h0)\<lparr>page_free_list := fl\<rparr>)) (\<lambda>s. andThen (page_free b s) (page_free c))"
    unfolding check_page_walk_def lab_table_addr(1) [OF l0 th] r0 va Let_def
    unfolding p1(1) andThen_Inr e1 ad1 lo pg
    by (simp only: require_True simp_thms andThen_Inr e1 ad1 lo pg k2 p2(1) k3 h0(1) prod.case k4 z [THEN eqTrueI])
  then show ?thesis using h0(3) by blast
qed

section \<open>The pages before and after a test\<close>

text \<open>The same kernel map: directory and tables are untouched.\<close>

definition same_map :: "kstate \<Rightarrow> kstate \<Rightarrow> bool" where
  "same_map s t \<longleftrightarrow> vm_frame s t \<and> nextfree t = nextfree s \<and> rd t (kern_pgdir s) = rd s (kern_pgdir s)
     \<and> (\<forall>i\<in>tables s. rd t (table_at s i) = rd s (table_at s i))"

lemma same_mapD:
  assumes "same_map s t"
  shows "kframe s t" "tables t = tables s" "kern_pgdir t = kern_pgdir s" "npages t = npages s" "kpage m \<Longrightarrow> kpte t m = kpte s m"
    and "table_at t = table_at s"
proof -
  note d = assms [unfolded same_map_def]
  show k: "kern_pgdir t = kern_pgdir s" and "npages t = npages s" using d by (simp_all add: vm_frame_def)
  show "kframe s t" using d by (simp add: kframe_def)
  show tb: "tables t = tables s" using d k by (simp add: tables_def)
  show at: "table_at t = table_at s" using d k by (simp add: table_at_def fun_eq_iff)
  show "kpte t m = kpte s m" if "kpage m"
  proof (cases "rd s (kern_pgdir s) (m div 1024) = 0")
    case False
    then have "m div 1024 \<in> tables s" using that by (simp add: tables_def kpage_def div_less_iff_less_mult)
    then show ?thesis using d k by (simp add: kpte_def pte_of_def table_at_def Let_def)
  qed (use d k in \<open>simp add: kpte_def pte_of_def\<close>)
qed

lemma same_map_trans: "same_map s t \<Longrightarrow> same_map t u \<Longrightarrow> same_map s u"
  using same_mapD(2,3,6) [of s t] vm_frame_trans [of s t u] by (auto simp: same_map_def)

lemma same_map_refl [simp]: "same_map s s"
  by (simp add: same_map_def)

lemma same_map_rd: "rd t = rd s \<Longrightarrow> vm_frame s t \<Longrightarrow> nextfree t = nextfree s \<Longrightarrow> same_map s t"
  by (simp add: same_map_def)

lemma kdir_same:
  assumes k: "kdir s fl" and m: "same_map s t" and free: "free_pages t fl'" and n: "kern_pgdir s \<notin> set fl'"
    and r: "\<And>p. p < npages s \<Longrightarrow> pp_ref (pages t p) = pp_ref (pages s p)"
  shows "kdir t fl'"
proof -
  note d = same_mapD(2-4,6) [OF m]
  have "rd t (kern_pgdir s) = rd s (kern_pgdir s)" using m by (simp add: same_map_def)
  then show ?thesis using k free n r unfolding kdir_def d by (simp add: mem_ok_def d)
qed

lemma kdir_pop:
  assumes k: "kdir s (p # fl)"
  shows "page_alloc 0 s = Inr (Some p, pop_page s)" and "kdir (pop_page s) fl" and "same_map s (pop_page s)"
    and "pp_ref (pages s p) = 0" and "p < npages s" and "p \<noteq> kern_pgdir s" and "p \<notin> set fl" and "\<And>q. pp_ref (pages (pop_page s) q) = pp_ref (pages s q)"
proof -
  have free: "free_pages s (p # fl)" and ok: "mem_ok s" using k by (simp_all add: kdir_def)
  show "page_alloc 0 s = Inr (Some p, pop_page s)" using page_alloc_take [OF free ok] by simp
  show m: "same_map s (pop_page s)" by (rule same_map_rd) simp_all
  show r: "pp_ref (pages (pop_page s) q) = pp_ref (pages s q)" for q by (simp add: pop_page_def split: option.split)
  show "kdir (pop_page s) fl" by (rule kdir_same [OF k m free_pages_pop [OF free] _ r]) (use k in \<open>simp add: kdir_def\<close>)
  show "pp_ref (pages s p) = 0" "p < npages s" "p \<noteq> kern_pgdir s" "p \<notin> set fl"
    using k free free_pages_distinct [OF free] by (auto simp: kdir_def free_pages_def)
qed

lemma kdir_push:
  assumes k: "kdir s fl" and p: "p < npages s" "p \<notin> set fl" "p \<noteq> kern_pgdir s" "pp_ref (pages s p) = 0"
  shows "page_free p s = Inr (push_page p s)" and "kdir (push_page p s) (p # fl)" and "same_map s (push_page p s)"
    and "pp_ref (pages (push_page p s) q) = pp_ref (pages s q)"
proof -
  have free: "free_pages s fl" using k by (simp add: kdir_def)
  show "page_free p s = Inr (push_page p s)" using p free by (intro page_free_push) (auto simp: free_pages_def)
  show m: "same_map s (push_page p s)" by (rule same_map_rd) simp_all
  have r: "pp_ref (pages (push_page p s) q) = pp_ref (pages s q)" for q by (simp add: push_page_def)
  then show "pp_ref (pages (push_page p s) q) = pp_ref (pages s q)" .
  show "kdir (push_page p s) (p # fl)"
    by (rule kdir_same [OF k m free_pages_push [OF free p(2,1,4)] _ r]) (use k p(3) in \<open>simp add: kdir_def\<close>)
qed

text \<open>Three pages come back on an intact kernel.\<close>

lemma push_three:
  assumes k: "kdir s fl" and d: "distinct [a, b, c, kern_pgdir s]" "set [a, b, c] \<inter> set fl = {}"
    and n: "\<forall>p\<in>{a, b, c}. p < npages s \<and> pp_ref (pages s p) = 0"
  shows "\<exists>t. andThen (page_free a s) (\<lambda>s. andThen (page_free b s) (page_free c)) = Inr t \<and> kdir t (c # b # a # fl) \<and> same_map s t"
proof -
  have "a < npages s" "a \<notin> set fl" "a \<noteq> kern_pgdir s" "pp_ref (pages s a) = 0" using d n by auto
  note a = kdir_push [OF k this]
  have "b < npages (push_page a s)" "b \<notin> set (a # fl)" "b \<noteq> kern_pgdir (push_page a s)" "pp_ref (pages (push_page a s) b) = 0"
    using d n a(4) same_mapD(3,4) [OF a(3)] by auto
  note b = kdir_push [OF a(2) this]
  have "c < npages (push_page b (push_page a s))" "c \<notin> set (b # a # fl)" "c \<noteq> kern_pgdir (push_page b (push_page a s))"
    "pp_ref (pages (push_page b (push_page a s)) c) = 0"
    using d n a(4) b(4) same_mapD(3,4) [OF a(3)] same_mapD(3,4) [OF b(3)] by auto
  note c = kdir_push [OF b(2) this]
  show ?thesis using a(1) b(1) c(1,2) same_map_trans [OF a(3) same_map_trans [OF b(3) c(3)]] by auto
qed

lemma take_three_pages:
  assumes k: "kdir s (a # b # c # fl)"
  shows "\<exists>t. (\<forall>F :: nat \<Rightarrow> nat \<Rightarrow> nat \<Rightarrow> kstate \<Rightarrow> kstate fallible. take_three s F = F a b c t) \<and> kdir t fl \<and> same_map s t
     \<and> distinct [a, b, c, kern_pgdir t] \<and> set [a, b, c] \<inter> set fl = {} \<and> (\<forall>p\<in>{a, b, c}. p < npages t \<and> pp_ref (pages t p) = 0)"
proof -
  note p1 = kdir_pop [OF k]
  note p2 = kdir_pop [OF p1(2)]
  note p3 = kdir_pop [OF p2(2)]
  let ?t = "pop_page (pop_page (pop_page s))"
  have m: "same_map s ?t" by (rule same_map_trans [OF p1(3) same_map_trans [OF p2(3) p3(3)]])
  have "free_pages s (a # b # c # fl)" using k by (simp only: kdir_def)
  from free_pages_distinct [OF this] have "distinct (a # b # c # fl)" .
  moreover from this have "take_three s F = F a b c ?t" for F :: "nat \<Rightarrow> nat \<Rightarrow> nat \<Rightarrow> kstate \<Rightarrow> kstate fallible"
    by (auto simp: take_three_def must_alloc_def p1(1) p2(1) p3(1))
  moreover have "kern_pgdir ?t \<notin> {a, b, c}" "\<forall>p\<in>{a, b, c}. p < npages ?t \<and> pp_ref (pages ?t p) = 0"
    using p1(4-6,8) p2(4-6,8) p3(4-6,8) same_mapD(3,4) [OF m] same_mapD(3,4) [OF p1(3)] same_mapD(3,4) [OF same_map_trans [OF p1(3) p2(3)]]
    by auto
  ultimately show ?thesis using p3(2) m by (intro exI [of _ ?t]) auto
qed

text \<open>What three pages outside the map need to be a laboratory, and what is left of it.\<close>

definition bench :: "kstate \<Rightarrow> nat \<Rightarrow> nat \<Rightarrow> nat \<Rightarrow> nat list \<Rightarrow> bool" where
  "bench s a b c fl \<longleftrightarrow> kdir s fl \<and> distinct [a, b, c, kern_pgdir s] \<and> set [a, b, c] \<inter> set fl = {}
     \<and> (\<forall>p\<in>{a, b, c}. p < npages s \<and> pp_ref (pages s p) = 0) \<and> 0 \<notin> tables s \<and> 1 \<notin> tables s"

lemma bench_three: "bench s a b c fl \<Longrightarrow> three s a b c"
  by (auto simp: bench_def three_def kdir_def mem_ok_def)

lemma lab_start:
  assumes "bench s a b c fl"
  shows "lab [] s a b c (s\<lparr>page_free_list := None\<rparr>) [] False f (cnt a b c 0 0 0)"
proof -
  let ?t = "s\<lparr>page_free_list := None\<rparr>"
  have k: "kdir s fl" "set [a, b, c] \<inter> set fl = {}" using assms by (simp_all only: bench_def)
  have "rd ?t = rd s" "vm_frame s ?t" by (simp_all add: rd_def fun_eq_iff vm_frame_def)
  moreover have "rd s (kern_pgdir s) 0 = 0" "rd s (kern_pgdir s) 1 = 0" using assms by (simp_all add: bench_def tables_def)
  moreover have "page_link ?t p = None \<and> pp_ref (pages ?t p) = 0" if "p \<in> {a, b, c}" for p
    using assms k that by (auto simp: bench_def kdir_def free_pages_def page_link_def)
  ultimately show ?thesis by (auto simp: lab_def aside_def vis_def low_table_def cnt_def)
qed

lemma lab_close:
  assumes be: "bench s a b c fl" and l: "lab fl s a b c v ps False f (cnt a b c 0 0 0)"
  shows "kdir v (ps @ fl)" and "same_map s v" and "\<forall>p\<in>{a, b, c}. pp_ref (pages v p) = 0"
proof -
  have k: "kdir s fl" and n: "\<forall>p\<in>{a, b, c}. p < npages s \<and> pp_ref (pages s p) = 0"
    using be unfolding bench_def by blast+
  have free: "free_pages s fl" using k by (simp add: kdir_def)
  note as = labD(1) [OF l, unfolded aside_def] and v = labD(2) [OF l, unfolded vis_def cnt_0]
  have kd: "kern_pgdir s \<notin> {a, b, c}" using bench_three [OF be] by (auto simp: three_def)
  have "rd v (kern_pgdir s) j = rd s (kern_pgdir s) j" for j
    using as kd labD(3) [OF l] be by (cases "j = 0 \<or> j = 1") (auto simp: low_table_def bench_def tables_def)
  moreover have "table_at s i \<notin> {a, b, c} \<and> table_at s i \<noteq> kern_pgdir s" if "i \<in> tables s" for i
  proof -
    have "unat (pp_ref (pages s (table_at s i))) = 1" using k that kdir_table(1) [OF k that] by (simp add: kdir_def)
    then show ?thesis using n kdir_table(2) [OF k that] by auto
  qed
  ultimately show m: "same_map s v" using as kd by (auto simp: same_map_def)
  have same: "pages v p = pages s p" if "p \<notin> {a, b, c}" for p using as that by simp
  have refs: "pp_ref (pages v p) = pp_ref (pages s p)" for p
    using v n same [of p] by (cases "p \<in> {a, b, c}") auto
  then show "\<forall>p\<in>{a, b, c}. pp_ref (pages v p) = 0" using n by simp
  have "page_link v p = None" if "p \<notin> set (ps @ fl)" for p
    using v free same [of p] that by (cases "p \<in> {a, b, c}") (auto simp: free_pages_def page_link_def)
  moreover have "p < npages v \<and> pp_ref (pages v p) = 0" if "p \<in> set (ps @ fl)" for p
    using that v n free refs same_mapD(4) [OF m] by (auto simp: free_pages_def)
  ultimately have "free_pages v (ps @ fl)" using v by (simp add: free_pages_def)
  moreover have "kern_pgdir s \<notin> set (ps @ fl)" using v kd k by (auto simp: kdir_def)
  ultimately show "kdir v (ps @ fl)" using refs by (intro kdir_same [OF k m]) simp_all
qed

lemma lab_end:
  assumes be: "bench s a b c fl" and l: "lab [] s a b c u [] False f (cnt a b c 0 0 0)"
  defines "v \<equiv> u\<lparr>page_free_list := page_free_list s\<rparr>"
  shows "kdir v fl" and "same_map s v" and "\<forall>p\<in>{a, b, c}. pp_ref (pages v p) = 0"
proof -
  have free: "free_pages s fl" and d: "set [a, b, c] \<inter> set fl = {}" using be by (auto simp: bench_def kdir_def)
  note as = labD(1) [OF l, unfolded aside_def]
  have rd: "rd v = rd u" by (simp add: v_def rd_def fun_eq_iff)
  have "aside s {a, b, c} v" using as rd by (simp add: aside_def v_def vm_frame_def)
  moreover have "page_link v p = page_link s p" if "p \<in> set fl" for p
  proof -
    have "p \<notin> {a, b, c}" using d that by auto
    then show ?thesis using as by (simp add: v_def page_link_def)
  qed
  then have "chain (page_link v) (page_free_list v) fl"
    using free by (auto simp: free_pages_def v_def intro: chain_cong)
  then have "vis {a, b, c} fl v [] (cnt a b c 0 0 0)"
    using labD(2) [OF l] d unfolding vis_def by (auto simp: v_def page_link_def)
  ultimately have "lab fl s a b c v [] False f (cnt a b c 0 0 0)" using labD(3) [OF l] by (simp add: lab_def low_table_def rd)
  from lab_close [OF be this] show "kdir v fl" "same_map s v" "\<forall>p\<in>{a, b, c}. pp_ref (pages v p) = 0" by simp_all
qed

lemma check_page_core:
  assumes k: "kdir s (a # b # c # fl)" and t: "0 \<notin> tables s" "1 \<notin> tables s"
  shows "\<exists>t. check_page s = check_page_mmio t \<and> kdir t (c # b # a # fl) \<and> same_map s t"
proof -
  from take_three_pages [OF k] obtain s3 where
    take: "\<And>F :: nat \<Rightarrow> nat \<Rightarrow> nat \<Rightarrow> kstate \<Rightarrow> kstate fallible. take_three s F = F a b c s3"
    and s3: "kdir s3 fl" "same_map s s3" "distinct [a, b, c, kern_pgdir s3]" "set [a, b, c] \<inter> set fl = {}"
      "\<forall>p\<in>{a, b, c}. p < npages s3 \<and> pp_ref (pages s3 p) = 0" by blast
  have be: "bench s3 a b c fl" using s3 t by (simp add: bench_def same_mapD(2) [OF s3(2)])
  note th = bench_three [OF be] and l0 = lab_start [OF be, of "\<lambda>_. 0"]
  from check_page_map_passes [OF l0 th] obtain t1 where
    t1: "check_page_map a b c (s3\<lparr>page_free_list := None\<rparr>) = Inr t1"
      "lab [] s3 a b c t1 [c] True (two (ent b PTE_W) (ent b PTE_W)) (cnt a b c 1 2 0)" by blast
  from check_page_counts_passes [OF t1(2) th] obtain t2 where
    t2: "check_page_counts a b c t1 = Inr t2" "lab [] s3 a b c t2 [] True (two 0 0) (cnt a b c 1 0 0)" by blast
  from check_page_walk_passes [OF t2(2) th, of "page_free_list s3"] obtain u where
    u: "lab [] s3 a b c u [] False (\<lambda>_. 0) (cnt a b c 0 0 0)"
      "check_page_walk (page_free_list s3) a b c t2 = andThen (page_free a (u\<lparr>page_free_list := page_free_list s3\<rparr>))
         (\<lambda>s. andThen (page_free b s) (page_free c))" by blast
  note v = lab_end [OF be u(1)]
  let ?v = "u\<lparr>page_free_list := page_free_list s3\<rparr>"
  have "distinct [a, b, c, kern_pgdir ?v]" "\<forall>p\<in>{a, b, c}. p < npages ?v \<and> pp_ref (pages ?v p) = 0"
    using s3(3,5) v(3) same_mapD(3,4) [OF v(2)] by simp_all
  from push_three [OF v(1) this(1) s3(4) this(2)] obtain t3 where
    t3: "andThen (page_free a ?v) (\<lambda>s. andThen (page_free b s) (page_free c)) = Inr t3" "kdir t3 (c # b # a # fl)" "same_map ?v t3" by blast
  have "check_page s = check_page_mmio t3"
    unfolding check_page_def take Let_def lab_no_alloc [OF l0] t1(1) andThen_Inr t2(1) u(2) t3(1) ..
  then show ?thesis using t3(2) same_map_trans [OF s3(2) same_map_trans [OF v(2) t3(3)]] by blast
qed

end
