(* ===== verification/FreeListTest.thy ===== *)
theory FreeListTest
  imports PageTest
begin

text \<open>
  The self tests of the allocator, \<open>check_page_alloc\<close> and \<open>check_page_free_list\<close>, pass: the first
  returns the list it found, the second puts the pages of the first 4 MB to the front when it is
  asked to.
\<close>

section \<open>check_page_alloc\<close>

lemma list_pages_chain: "chain (page_link s) h fl \<Longrightarrow> length fl \<le> n \<Longrightarrow> list_pages s h n = Inr fl"
proof (induction fl arbitrary: h n)
  case (Cons p fl)
  then obtain n' where "n = Suc n'" by (cases n) auto
  then show ?case using Cons by (simp add: page_link_def)
qed simp

lemma kdir_list:
  assumes "kdir s fl"
  shows "list_pages s (page_free_list s) (npages s) = Inr fl"
proof -
  have free: "free_pages s fl" using assms by (simp add: kdir_def)
  then have "set fl \<subseteq> {..<npages s}" by (auto simp: free_pages_def)
  from card_mono [OF _ this] have "length fl \<le> npages s" using free_pages_distinct [OF free] by (simp add: distinct_card)
  then show ?thesis using free by (intro list_pages_chain) (simp_all add: free_pages_def)
qed

lemma page2pa_below:
  assumes "p < n" and "n \<le> 65536"
  shows "page2pa p < word_of_nat n * PGSIZE"
proof -
  have "unat (word_of_nat n * PGSIZE :: u32) = 4096 * n" using assms by (simp add: unat_word_ariths unat_of_nat)
  then show ?thesis using page2pa_unat [of p] assms by (simp add: word_less_nat_alt)
qed

lemma lab_alloc_zero:
  assumes l: "lab h s a b c t (p # fl) False f r" and th: "three s a b c"
  shows "must_alloc ALLOC_ZERO t F = F p (zero_page p (pop_page t))" and "lab h s a b c (zero_page p (pop_page t)) fl False f r"
    and "rd (zero_page p (pop_page t)) p j = 0"
proof -
  note pop = lab_alloc [OF l]
  have p: "p \<in> {a, b, c}" using labD(2) [OF l] by (simp add: vis_def)
  have n: "p < npages (pop_page t)" "npages (pop_page t) \<le> 65536" "p \<noteq> kern_pgdir s" 
    using p th labD(4) [OF pop(2)] by (auto simp: three_def)
  have "page_alloc ALLOC_ZERO t = Inr (Some p, zero_page p (pop_page t))"
    using pop(1) n page2kva_ok [of "pop_page t" p] by (auto simp: page_alloc_def Let_def mem_ok_def split: option.splits)
  then show "must_alloc ALLOC_ZERO t F = F p (zero_page p (pop_page t))" by (simp add: must_alloc_def)
  show "rd (zero_page p (pop_page t)) p j = 0" by simp
  let ?z = "zero_page p (pop_page t)"
  have "aside s {a, b, c} ?z"
    using labD(1) [OF pop(2)] p vm_frame_trans [of s "pop_page t" ?z] by (auto simp: aside_def fun_eq_iff)
  moreover have "low_table s a ?z False f" using labD(3) [OF pop(2)] n(3) by (simp add: low_table_def)
  ultimately show "lab h s a b c ?z fl False f r" using labD(2) [OF pop(2)] vis_same [of ?z "pop_page t"] by (simp add: lab_def)
qed

lemma lab_take_three:
  assumes l: "lab h s a b c t [p, q, w] tab f r"
  shows "take_three t F = F p q w (pop_page (pop_page (pop_page t)))" and "lab h s a b c (pop_page (pop_page (pop_page t))) [] tab f r"
proof -
  note a1 = lab_alloc [OF l]
  note a2 = lab_alloc [OF a1(2)]
  note a3 = lab_alloc [OF a2(2)]
  have "distinct ([p, q, w] @ h)" using labD(2) [OF l] chain_distinct [of "page_link t" _ "[p, q, w] @ h"] unfolding vis_def by blast
  then have "distinct [p, q, w]" by (simp only: distinct_append)
  then show "take_three t F = F p q w (pop_page (pop_page (pop_page t)))"
    by (simp add: take_three_def must_alloc_def a1(1) a2(1) a3(1))
  show "lab h s a b c (pop_page (pop_page (pop_page t))) [] tab f r" by (rule a3(2))
qed

lemma check_page_alloc_passes:
  assumes k: "kdir s (a # b # c # fl)" and t: "0 \<notin> tables s" "1 \<notin> tables s" and pv: "pages_va \<noteq> 0"
  shows "\<exists>t. check_page_alloc pages_va s = Inr t \<and> kdir t (a # b # c # fl) \<and> same_map s t"
proof -
  from take_three_pages [OF k] obtain s3 where
    take: "\<And>F :: nat \<Rightarrow> nat \<Rightarrow> nat \<Rightarrow> kstate \<Rightarrow> kstate fallible. take_three s F = F a b c s3"
    and s3: "kdir s3 fl" "same_map s s3" "distinct [a, b, c, kern_pgdir s3]" "set [a, b, c] \<inter> set fl = {}"
      "\<forall>p\<in>{a, b, c}. p < npages s3 \<and> pp_ref (pages s3 p) = 0" by blast
  have be: "bench s3 a b c fl" using s3 t by (simp add: bench_def same_mapD(2) [OF s3(2)])
  note th = bench_three [OF be] and l0 = lab_start [OF be, of "\<lambda>_. 0"]
  note cs = cnt_simps [OF th]
  have dist: "a \<noteq> b" "a \<noteq> c" "b \<noteq> c" using s3(3) by auto
  have inn: "a \<in> {a, b, c}" "b \<in> {a, b, c}" "c \<in> {a, b, c}" by simp_all
  have n: "page2pa p < word_of_nat (npages s3) * PGSIZE" if "p \<in> {a, b, c}" for p
    using that th by (intro page2pa_below) (auto simp: three_def)
  let ?t0 = "s3\<lparr>page_free_list := None\<rparr>"
  have "a \<notin> set []" "cnt a b c 0 0 0 a = 0" by (simp_all add: cs)
  note l1 = lab_free [OF l0 inn(1) this]
  have "b \<notin> set [a]" "cnt a b c 0 0 0 b = 0" using dist by (simp_all add: cs)
  note l2 = lab_free [OF l1(2) inn(2) this]
  have "c \<notin> set [b, a]" and c0: "cnt a b c 0 0 0 c = 0" using dist by (simp_all add: cs)
  note l3 = lab_free [OF l2(2) inn(3) this]
  let ?t3 = "push_page c (push_page b (push_page a ?t0))"
  note l4 = lab_take_three [OF l3(2)]
  let ?t4 = "pop_page (pop_page (pop_page ?t3))"
  have l5: "lab [] s3 a b c (fill_words c 1024 0x01010101 ?t4) [] False (\<lambda>_. 0) (cnt a b c 0 0 0)"
    by (rule lab_fill [OF l4(2) th inn(3)]) simp
  have "c \<notin> set []" by simp
  note l6 = lab_free [OF l5 inn(3) this c0]
  let ?t6 = "push_page c (fill_words c 1024 0x01010101 ?t4)"
  note l7 = lab_alloc_zero [OF l6(2) th]
  let ?t7 = "zero_page c (pop_page ?t6)"
  have kva: "page2kva u c = Inr c" if "npages u = npages s3" for u
    using that th by (intro page2kva_ok) (simp_all add: mem_ok_def three_def)
  note kva4 = kva [OF labD(4) [OF l4(2)]] and kva7 = kva [OF labD(4) [OF l7(2)]]
  have z: "\<forall>i\<in>{0..<1024}. rd ?t7 c i = 0" using l7(3) by simp
  note v = lab_end [OF be l7(2)]
  let ?v = "?t7\<lparr>page_free_list := page_free_list s3\<rparr>"
  have d: "distinct [c, b, a, kern_pgdir ?v]" "set [c, b, a] \<inter> set fl = {}" "\<forall>p\<in>{c, b, a}. p < npages ?v \<and> pp_ref (pages ?v p) = 0"
    using s3(3,4,5) v(3) same_mapD(3,4) [OF v(2)] by auto
  from push_three [OF v(1) d] obtain t8 where
    t8: "andThen (page_free c ?v) (\<lambda>s. andThen (page_free b s) (page_free a)) = Inr t8" "kdir t8 (a # b # c # fl)" "same_map ?v t8" by blast
  from t8(1) obtain u1 u2 where u: "page_free c ?v = Inr u1" "page_free b u1 = Inr u2" "page_free a u2 = Inr t8"
    by (auto simp: andThen_def split: sum.splits)
  have "check_page_alloc pages_va s = Inr t8"
    unfolding check_page_alloc_def take kdir_list [OF k] andThen_Inr Let_def lab_no_alloc [OF l0] l1(1) l2(1) l3(1) l4(1)
      lab_no_alloc [OF l4(2)] kva4 l6(1) l7(1) kva7 u kdir_list [OF t8(2)]
    using pv n [OF inn(1)] n [OF inn(2)] n [OF inn(3)]
    by (simp only: if_False simp_thms require_True z [THEN eqTrueI] u andThen_Inr kdir_list [OF t8(2)] list.size)
  then show ?thesis using t8(2) same_map_trans [OF s3(2) same_map_trans [OF v(2) t8(3)]] by blast
qed

section \<open>check_page_free_list\<close>

text \<open>A list under construction: every link but the last is in place.\<close>

fun linked :: "(nat \<Rightarrow> nat option) \<Rightarrow> nat list \<Rightarrow> bool" where
  "linked nx (x # y # zs) \<longleftrightarrow> nx x = Some y \<and> linked nx (y # zs)"
| "linked nx _ \<longleftrightarrow> True"

definition built :: "kstate \<Rightarrow> building \<Rightarrow> nat list \<Rightarrow> bool" where
  "built s l xs \<longleftrightarrow> (if xs = [] then l = (None, None) else l = (Some (hd xs), Some (last xs)) \<and> linked (page_link s) xs)"

lemma linked_cong: "linked nx xs \<Longrightarrow> (\<And>x. x \<in> set (butlast xs) \<Longrightarrow> nx' x = nx x) \<Longrightarrow> linked nx' xs"
  by (induction nx xs rule: linked.induct) auto

lemma chain_linked: "xs \<noteq> [] \<Longrightarrow> chain nx h (xs @ ys) \<longleftrightarrow> h = Some (hd xs) \<and> linked nx xs \<and> chain nx (nx (last xs)) ys"
proof (induction xs arbitrary: h)
  case (Cons x xs)
  then show ?case by (cases xs) auto
qed simp

lemma linked_snoc: "linked nx xs \<Longrightarrow> xs \<noteq> [] \<Longrightarrow> nx (last xs) = Some p \<Longrightarrow> linked nx (xs @ [p])"
  by (induction nx xs rule: linked.induct) auto

text \<open>Only links of \<open>Z\<close> and the head of the free list change.\<close>

definition relinked :: "nat set \<Rightarrow> kstate \<Rightarrow> kstate \<Rightarrow> bool" where
  "relinked Z s t \<longleftrightarrow> vm_frame s t \<and> nextfree t = nextfree s \<and> rd t = rd s
     \<and> (\<forall>p. pp_ref (pages t p) = pp_ref (pages s p)) \<and> (\<forall>p. p \<notin> Z \<longrightarrow> page_link t p = page_link s p)"

lemma relinked_refl [simp]: "relinked Z s s"
  by (simp add: relinked_def)

lemma relinked_trans: "relinked Z s t \<Longrightarrow> relinked Z t u \<Longrightarrow> relinked Z s u"
  by (auto simp: relinked_def intro: vm_frame_trans)

lemma page_link_upd: "page_link (upd_page q (\<lambda>pi. pi\<lparr>pp_link := v\<rparr>) s) = (page_link s)(q := v)"
  by (simp add: page_link_def fun_eq_iff)

lemma relinked_upd: "q \<in> Z \<Longrightarrow> relinked Z s (upd_page q (\<lambda>pi. pi\<lparr>pp_link := v\<rparr>) s)"
  by (simp add: relinked_def page_link_upd)

text \<open>Storing at the tail: the place is the last link, or the head of an empty list.\<close>

lemma store_tail_chain:
  assumes b: "built s l xs" and d: "distinct (xs @ ys)" and c: "chain (page_link s) h ys" and Z: "set xs \<subseteq> Z"
  shows "\<exists>hd tl t. store_tail l h s = ((hd, tl), t) \<and> chain (page_link t) hd (xs @ ys) \<and> relinked Z s t \<and> page_free_list t = page_free_list s"
proof (cases "xs = []")
  case True
  then show ?thesis using b c by (simp add: built_def store_tail_def)
next
  case False
  let ?t = "upd_page (last xs) (\<lambda>pi. pi\<lparr>pp_link := h\<rparr>) s"
  have lx: "last xs \<in> set xs" "last xs \<notin> set ys" using False d by (auto simp del: last_in_set intro: last_in_set) 
  have nl: "last xs \<notin> set (butlast xs)"
    using d False append_butlast_last_id [OF False] by (metis distinct_append distinct_butlast not_distinct_conv_prefix)
  have "linked (page_link ?t) xs"
    using b False nl by (auto simp: built_def page_link_upd intro!: linked_cong [of "page_link s" xs])
  moreover have "chain (page_link ?t) h ys" using c lx(2) by (simp add: page_link_upd chain_upd_notin)
  ultimately have "chain (page_link ?t) (Some (hd xs)) (xs @ ys)"
    using False by (simp add: chain_linked page_link_upd)
  moreover have "relinked Z s ?t" using lx(1) Z by (intro relinked_upd) auto
  ultimately show ?thesis using b False by (simp add: built_def store_tail_def)
qed

lemma store_tail_built:
  assumes b: "built s l xs" and d: "p \<notin> set xs" "distinct xs" and Z: "set xs \<subseteq> Z"
  shows "\<exists>hd tl t. store_tail l (Some p) s = ((hd, tl), t) \<and> built t (hd, Some p) (xs @ [p]) \<and> relinked Z s t
     \<and> page_free_list t = page_free_list s \<and> (\<forall>q. q \<notin> set xs \<longrightarrow> page_link t q = page_link s q)"
proof (cases "xs = []")
  case True
  then show ?thesis using b by (simp add: built_def store_tail_def)
next
  case False
  let ?t = "upd_page (last xs) (\<lambda>pi. pi\<lparr>pp_link := Some p\<rparr>) s"
  have nl: "last xs \<notin> set (butlast xs)"
    using d False append_butlast_last_id [OF False] by (metis distinct_append distinct_butlast not_distinct_conv_prefix)
  have "linked (page_link ?t) xs"
    using b False nl by (auto simp: built_def page_link_upd intro!: linked_cong [of "page_link s" xs])
  then have "linked (page_link ?t) (xs @ [p])" using False by (intro linked_snoc) (simp_all add: page_link_upd)
  moreover have "relinked Z s ?t" using False Z by (intro relinked_upd) auto
  ultimately show ?thesis using b False by (auto simp: built_def store_tail_def page_link_upd)
qed

lemma built_cong:
  assumes "built s l xs" and "\<And>q. q \<in> set xs \<Longrightarrow> page_link t q = page_link s q"
  shows "built t l xs"
proof -
  have "linked (page_link t) xs" if "linked (page_link s) xs"
    by (rule linked_cong [OF that]) (use assms(2) in_set_butlastD in metis)
  then show ?thesis using assms(1) by (simp add: built_def split: if_splits)
qed

text \<open>The partition keeps the order inside both halves.\<close>

definition is_low :: "nat \<Rightarrow> nat \<Rightarrow> bool" where
  "is_low limit p \<longleftrightarrow> \<not> limit \<le> PDX (page2pa p)"

lemma chain_next: "chain nx (Some p) (p # ps) \<Longrightarrow> (\<And>q. q \<in> set (p # ps) \<Longrightarrow> nx' q = nx q) \<Longrightarrow> chain nx' (nx' p) ps"
  by (auto intro: chain_cong)

lemma partition_free_splits:
  assumes "chain (page_link s) h ps" and "length ps \<le> n" and "built s lo xs" and "built s hi ys"
    and "distinct (ps @ xs @ ys)" and "set ps \<union> set xs \<union> set ys \<subseteq> Z"
  shows "\<exists>lo' hi' t. partition_free limit n h lo hi s = Inr (lo', hi', t) \<and> built t lo' (xs @ filter (is_low limit) ps)
     \<and> built t hi' (ys @ filter (\<lambda>p. \<not> is_low limit p) ps) \<and> relinked Z s t \<and> page_free_list t = page_free_list s"
  using assms
proof (induction ps arbitrary: h n lo hi xs ys s)
  case (Cons p ps)
  from Cons.prems(1,2) obtain m where h: "h = Some p" and n: "n = Suc m" and m: "length ps \<le> m" by (cases n) auto
  have d: "p \<notin> set xs" "p \<notin> set ys" "p \<notin> set ps" "distinct xs" "distinct ys" "set ps \<inter> (set xs \<union> set ys) = {}" "set xs \<inter> set ys = {}"
    using Cons.prems(5) by auto
  show ?case
  proof (cases "is_low limit p")
    case True
    from store_tail_built [OF Cons.prems(3) d(1,4)] Cons.prems(6) obtain hd tl t where
      t: "store_tail lo (Some p) s = ((hd, tl), t)" "built t (hd, Some p) (xs @ [p])" "relinked Z s t" "page_free_list t = page_free_list s"
        "\<forall>q. q \<notin> set xs \<longrightarrow> page_link t q = page_link s q" by (metis Un_subset_iff)
    have "chain (page_link t) (page_link t p) ps"
      by (rule chain_next [OF Cons.prems(1) [unfolded h]]) (use t(5) d in auto)
    moreover have "built t hi ys" by (rule built_cong [OF Cons.prems(4)]) (use t(5) d in auto)
    moreover have "distinct (ps @ (xs @ [p]) @ ys)" "set ps \<union> set (xs @ [p]) \<union> set ys \<subseteq> Z" using Cons.prems(5,6) by auto
    ultimately obtain lo' hi' u where "partition_free limit m (page_link t p) (hd, Some p) hi t = Inr (lo', hi', u)"
      "built u lo' ((xs @ [p]) @ filter (is_low limit) ps)" "built u hi' (ys @ filter (\<lambda>p. \<not> is_low limit p) ps)"
      "relinked Z t u" "page_free_list u = page_free_list t"
      using Cons.IH [of t "page_link t p" m "(hd, Some p)" "xs @ [p]" hi ys] m t(2) by blast
    then show ?thesis using True t relinked_trans [of Z s t u] by (simp add: h n is_low_def [abs_def] page_link_def)
  next
    case False
    from store_tail_built [OF Cons.prems(4) d(2,5)] Cons.prems(6) obtain hd tl t where
      t: "store_tail hi (Some p) s = ((hd, tl), t)" "built t (hd, Some p) (ys @ [p])" "relinked Z s t" "page_free_list t = page_free_list s"
        "\<forall>q. q \<notin> set ys \<longrightarrow> page_link t q = page_link s q" by (metis Un_subset_iff)
    have "chain (page_link t) (page_link t p) ps"
      by (rule chain_next [OF Cons.prems(1) [unfolded h]]) (use t(5) d in auto)
    moreover have "built t lo xs" by (rule built_cong [OF Cons.prems(3)]) (use t(5) d in auto)
    moreover have "distinct (ps @ xs @ (ys @ [p]))" "set ps \<union> set xs \<union> set (ys @ [p]) \<subseteq> Z" using Cons.prems(5,6) by auto
    ultimately obtain lo' hi' u where "partition_free limit m (page_link t p) lo (hd, Some p) t = Inr (lo', hi', u)"
      "built u lo' (xs @ filter (is_low limit) ps)" "built u hi' ((ys @ [p]) @ filter (\<lambda>p. \<not> is_low limit p) ps)"
      "relinked Z t u" "page_free_list u = page_free_list t"
      using Cons.IH [of t "page_link t p" m lo xs "(hd, Some p)" "ys @ [p]"] m t(2) by blast
    then show ?thesis using False t relinked_trans [of Z s t u] by (simp add: h n is_low_def [abs_def] page_link_def)
  qed
qed simp

definition low_first :: "nat list \<Rightarrow> nat list" where
  "low_first fl = filter (\<lambda>p. p < 1024) fl @ filter (\<lambda>p. \<not> p < 1024) fl"

lemma set_low_first [simp]: "set (low_first fl) = set fl"
  by (auto simp: low_first_def)

lemma is_low_1: "p < 1048576 \<Longrightarrow> is_low (Suc 0) p \<longleftrightarrow> p < 1024"
  by (simp add: is_low_def PDX_PGNUM div_eq_0_iff not_le)

lemma low_pages_first_sorts:
  assumes k: "kdir s fl"
  shows "\<exists>t. low_pages_first 1 s = Inr t \<and> kdir t (low_first fl) \<and> same_map s t"
proof -
  have free: "free_pages s fl" and ok: "mem_ok s" using k by (simp_all add: kdir_def)
  have d: "distinct fl" by (rule free_pages_distinct [OF free])
  have small: "is_low (Suc 0) p \<longleftrightarrow> p < 1024" if "p \<in> set fl" for p
    using that free ok by (intro is_low_1) (auto simp: free_pages_def mem_ok_def)
  have "set fl \<subseteq> {..<npages s}" using free by (auto simp: free_pages_def)
  from card_mono [OF _ this] have len: "length fl \<le> npages s" using d by (simp add: distinct_card)
  have low: "filter (is_low 1) fl = filter (\<lambda>p. p < 1024) fl" "filter (\<lambda>p. \<not> is_low 1 p) fl = filter (\<lambda>p. \<not> p < 1024) fl"
    using small by (simp_all cong: filter_cong)
  have ch: "chain (page_link s) (page_free_list s) fl" using free by (simp add: free_pages_def)
  have b0: "built s (None, None) []" by (simp add: built_def)
  have dz: "distinct (fl @ [] @ [])" "set fl \<union> set [] \<union> set [] \<subseteq> set fl" using d by simp_all
  from partition_free_splits [OF ch len b0 b0 dz, of 1, unfolded low] obtain lo hi t where
    t: "partition_free 1 (npages s) (page_free_list s) (None, None) (None, None) s = Inr (lo, hi, t)"
      "built t lo (filter (\<lambda>p. p < 1024) fl)" "built t hi (filter (\<lambda>p. \<not> p < 1024) fl)" "relinked (set fl) s t"
    by auto
  let ?lo = "filter (\<lambda>p. p < 1024) fl" and ?hi = "filter (\<lambda>p. \<not> p < 1024) fl"
  have "distinct (?hi @ [])" "chain (page_link t) None []" "set ?hi \<subseteq> set ?hi" using d by auto
  from store_tail_chain [OF t(3) this] obtain hd2 tl2 u where
    u: "store_tail hi None t = ((hd2, tl2), u)" "chain (page_link u) hd2 ?hi" "relinked (set ?hi) t u" by auto
  have "built u lo ?lo" by (rule built_cong [OF t(2)]) (use u(3) in \<open>auto simp: relinked_def\<close>)
  moreover have "distinct (?lo @ ?hi)" "set ?lo \<subseteq> set fl" using d by auto
  ultimately obtain hd1 tl1 v where
    v: "store_tail lo hd2 u = ((hd1, tl1), v)" "chain (page_link v) hd1 (?lo @ ?hi)" "relinked (set fl) u v"
    using store_tail_chain [of u lo ?lo ?hi hd2] u(2) by blast
  let ?v = "v\<lparr>page_free_list := hd1\<rparr>"
  have "low_pages_first 1 s = Inr ?v" unfolding low_pages_first_def t(1) by (simp add: u(1) v(1))
  moreover have r: "relinked (set fl) s v"
    using t(4) u(3) v(3) by (auto simp: relinked_def vm_frame_def)
  then have m: "same_map s ?v" by (intro same_map_rd) (auto simp: relinked_def vm_frame_def rd_def fun_eq_iff)
  moreover have "free_pages ?v (low_first fl)"
    using v(2) r free same_mapD(4) [OF m] by (auto simp: free_pages_def low_first_def relinked_def page_link_def [abs_def])
  then have "kdir ?v (low_first fl)"
    by (rule kdir_same [OF k m]) (use k r in \<open>auto simp: kdir_def relinked_def\<close>)
  ultimately show ?thesis by blast
qed

text \<open>The scribbling over free pages touches nothing else.\<close>

lemma scrub_pages_ok:
  assumes "\<forall>p\<in>set ps. p < npages s" and "mem_ok s"
  shows "\<exists>t. scrub_pages limit ps s = Inr t \<and> vm_frame s t \<and> nextfree t = nextfree s \<and> pages t = pages s
     \<and> page_free_list t = page_free_list s \<and> (\<forall>q. q \<notin> set ps \<longrightarrow> rd t q = rd s q)"
  using assms
proof (induction ps arbitrary: s)
  case (Cons p ps)
  let ?s = "fill_words p 32 0x97979797 s"
  note fr = fill_words_frame [of p 32 "0x97979797" s]
  have n: "npages ?s = npages s" using fr by (simp add: vm_frame_def)
  have kva: "page2kva s p = Inr p" using Cons.prems by (intro page2kva_ok) simp_all
  have "\<forall>q\<in>set ps. q < npages ?s" "mem_ok ?s" using Cons.prems n by (simp_all add: mem_ok_def)
  from Cons.IH [OF this] obtain t where t: "scrub_pages limit ps ?s = Inr t" "vm_frame ?s t" "nextfree t = nextfree ?s"
    "pages t = pages ?s" "page_free_list t = page_free_list ?s" "\<forall>q. q \<notin> set ps \<longrightarrow> rd t q = rd ?s q" by blast
  from Cons.IH [of s] Cons.prems obtain u where u: "scrub_pages limit ps s = Inr u" "vm_frame s u" "nextfree u = nextfree s"
    "pages u = pages s" "page_free_list u = page_free_list s" "\<forall>q. q \<notin> set ps \<longrightarrow> rd u q = rd s q" by auto
  show ?case
  proof (cases "PDX (page2pa p) < limit")
    case True
    have "rd t q = rd s q" if "q \<notin> set (p # ps)" for q using t(6) that by (simp add: rd_fill_words fun_eq_iff)
    then show ?thesis using True t fr vm_frame_trans [of s ?s t] by (simp add: kva)
  next
    case False
    then show ?thesis using u by simp
  qed
qed simp

lemma require_each_nth: "(\<And>p. p \<in> set ps \<Longrightarrow> f p = Inr True) \<Longrightarrow> require_each (\<lambda>i. f (ps ! i)) 0 (length ps) = Inr ()"
  by (rule require_each_ok) simp

lemma check_free_page_ok:
  assumes u: "usable K p" "p < npages s" and ok: "mem_ok s" and K: "256 < K" "K < npages s"
  shows "check_free_page (KERNBASE + page2pa K) s p = Inr True"
proof -
  have p: "p < 65536" "K < 65536" using u K ok by (simp_all add: mem_ok_def)
  have up: "unat (page2pa p) = 4096 * p" using p by (simp add: page2pa_unat)
  have ne: "page2pa p \<noteq> 0" "page2pa p \<noteq> IOPHYSMEM" "page2pa p \<noteq> EXTPHYSMEM - PGSIZE" "page2pa p \<noteq> EXTPHYSMEM" "page2pa p \<noteq> MPENTRY_PADDR"
    using up u(1) K(1) unfolding word_unat_eq_iff by (auto simp: usable_def)
  have kva: "KADDR s (page2pa p) = Inr (page2pa p + KERNBASE)" using u(2) p by (simp add: KADDR_def)
  have "KERNBASE + page2pa K \<le> page2pa p + KERNBASE" if "\<not> page2pa p < EXTPHYSMEM"
  proof -
    have "256 \<le> p" using that up by (simp add: word_less_nat_alt)
    then have "K \<le> p" using u(1) by (auto simp: usable_def)
    then show ?thesis using unat_page_kva [OF p(1)] unat_page_kva [OF p(2)] unfolding word_le_nat_alt add.commute [of "page2pa p"] by simp
  qed
  then show ?thesis unfolding check_free_page_def kva using ne u(2) by (simp only: andThen_Inr simp_thms if_True split: if_split) simp
qed

lemma kdirD:
  assumes k: "kdir s fl"
  shows "mem_ok s" "free_pages s fl" "kern_pgdir s \<notin> set fl" "\<forall>p\<in>set fl. p < npages s"
    "i \<in> tables s \<Longrightarrow> table_at s i \<notin> set fl"
proof -
  show "mem_ok s" "free_pages s fl" "kern_pgdir s \<notin> set fl" "\<forall>p\<in>set fl. p < npages s"
    using k by (simp_all add: kdir_def free_pages_def)
  have "pp_ref (pages s p) = 0" if "p \<in> set fl" for p using k that by (simp add: kdir_def free_pages_def)
  moreover have "unat (pp_ref (pages s (table_at s i))) = 1" if "i \<in> tables s"
    using k that kdir_table(1) [OF k that] by (simp add: kdir_def)
  ultimately show "i \<in> tables s \<Longrightarrow> table_at s i \<notin> set fl" by force
qed

lemma check_page_free_list_passes:
  assumes k: "kdir s fl" and us: "\<forall>p\<in>set fl. usable K p" and nf: "nextfree s = KERNBASE + page2pa K" and K: "256 < K" "K < npages s"
    and lo: "\<exists>p\<in>set fl. p < 256" and hi: "\<exists>p\<in>set fl. 256 \<le> p"
  shows "\<exists>t. check_page_free_list kend b s = Inr t \<and> kdir t (if b then low_first fl else fl) \<and> same_map s t"
proof -
  let ?l = "if b then 1 else NPDENTRIES" and ?fl = "if b then low_first fl else fl"
  have ok: "mem_ok s" and "chain (page_link s) (page_free_list s) fl" using k by (simp_all add: kdir_def free_pages_def)
  then have ne: "page_free_list s \<noteq> None" using lo by (cases fl) auto
  have "\<exists>t. (if b then low_pages_first ?l s else Inr s) = Inr t \<and> kdir t ?fl \<and> same_map s t"
    using low_pages_first_sorts [OF k] k by (cases b) simp_all
  then obtain t1 where t1: "(if b then low_pages_first ?l s else Inr s) = Inr t1" "kdir t1 ?fl" "same_map s t1" by blast
  have sf: "set ?fl = set fl" by simp
  have n1: "mem_ok t1" "npages t1 = npages s" using kdirD(1) [OF t1(2)] same_mapD(4) [OF t1(3)] by simp_all
  note bound = kdirD(4) [OF t1(2)]
  from scrub_pages_ok [OF bound n1(1), of ?l] obtain t2 where t2: "scrub_pages ?l ?fl t1 = Inr t2" "vm_frame t1 t2" "nextfree t2 = nextfree t1"
    "pages t2 = pages t1" "page_free_list t2 = page_free_list t1" "\<forall>q. q \<notin> set ?fl \<longrightarrow> rd t2 q = rd t1 q" by blast
  have m2: "same_map t1 t2" using kdirD(3,5) [OF t1(2)] t2 by (auto simp: same_map_def)
  have free2: "free_pages t2 ?fl" using kdirD(2) [OF t1(2)] t2 n1 free_pages_cong [of t2 t1 ?fl] by (simp add: vm_frame_def)
  have k2: "kdir t2 ?fl" by (rule kdir_same [OF t1(2) m2 free2]) (use kdirD(3) [OF t1(2)] t2(4) in simp_all)
  have n2: "mem_ok t2" "npages t2 = npages s" "nextfree t2 = KERNBASE + page2pa K"
    using kdirD(1) [OF k2] same_mapD(4) [OF m2] n1 t2(3) t1(3) nf by (simp_all only: same_map_def)
  have "(if nextfree t2 = 0 then ROUNDUP kend PGSIZE else nextfree t2) = KERNBASE + page2pa K"
    using n2 kva_not_0 [of K] K(2) ok by (auto simp: mem_ok_def)
  from boot_alloc_next [OF n2(1) this, of 0 0] have ba: "boot_alloc kend 0 t2 = Inr (KERNBASE + page2pa K, t2)"
    using K(2) n2 by simp
  have each: "require_each (\<lambda>i. check_free_page (KERNBASE + page2pa K) t2 (?fl ! i)) 0 (length ?fl) = Inr ()"
    by (rule require_each_nth) (use us bound n1 n2 K in \<open>intro check_free_page_ok; simp add: sf\<close>)
  have ad: "page2pa p < EXTPHYSMEM \<longleftrightarrow> p < 256" if "p \<in> set fl" for p
  proof -
    have "p < 65536" using that bound n1 ok unfolding sf by (auto simp: mem_ok_def)
    then show ?thesis by (simp add: word_less_nat_alt page2pa_unat)
  qed
  have e: "\<exists>pp\<in>set ?fl. page2pa pp < EXTPHYSMEM" "\<exists>pp\<in>set ?fl. \<not> page2pa pp < EXTPHYSMEM"
    using lo hi ad unfolding sf by (meson not_le)+
  have "check_page_free_list kend b s = Inr t2"
    unfolding check_page_free_list_def Let_def t1(1) andThen_Inr kdir_list [OF t1(2)] t2(1) ba prod.case each
    using ne e by (simp only: if_False require_True)
  then show ?thesis using k2 same_map_trans [OF t1(3) m2] by blast
qed

end
