(* ===== verification/MemInitProps.thy ===== *)
theory MemInitProps
  imports FreeListTest
begin

text \<open>
  \<open>mem_init\<close> as a whole: the last part of \<open>check_page\<close>, the device window, and
  \<open>check_page_installed_pgdir\<close>, then all stages together.
\<close>

section \<open>The device window\<close>

text \<open>What the stages of \<open>mem_init\<close> keep.\<close>

definition keeps :: "kstate \<Rightarrow> kstate \<Rightarrow> bool" where
  "keeps s t \<longleftrightarrow> npages t = npages s \<and> envs t = envs s \<and> kern_pgdir t = kern_pgdir s \<and> nextfree t = nextfree s
     \<and> rd t (kern_pgdir s) 957 = rd s (kern_pgdir s) 957 \<and> same_procs s t"

lemma keeps_refl [simp]: "keeps s s"
  by (simp add: keeps_def same_procs_def)

lemma keeps_trans: "keeps s t \<Longrightarrow> keeps t u \<Longrightarrow> keeps s u"
  by (simp add: keeps_def same_procs_def)

lemma kframe_keeps: "kframe s t \<Longrightarrow> keeps s t"
  by (simp add: keeps_def kframe_def vm_frame_def same_procs_def)

lemma same_map_keeps: "same_map s t \<Longrightarrow> keeps s t"
  by (intro kframe_keeps same_mapD(1))

lemma mapped_mmio_base:
  "mapped s c L T f \<Longrightarrow> mapped (s\<lparr>mmio_base := b\<rparr>) c L T f"
proof -
  let ?t = "s\<lparr>mmio_base := b\<rparr>"
  assume "mapped s c L T f"
  moreover have "tables ?t = tables s" "table_at ?t = table_at s" "kpte ?t = kpte s"
    by (simp_all add: tables_def table_at_def kpte_def pte_of_def Let_def fun_eq_iff)
  moreover have "kdir ?t fl = kdir s fl" for fl
    using free_pages_cong [of ?t s fl] calculation(2,3) by (simp add: kdir_def mem_ok_def)
  ultimately show ?thesis by (simp add: mapped_def)
qed

lemma mmio_map_region_kern:
  assumes st: "mapped s (1 + d) L T f" and base: "mmio_base s = page2pa v" and sz: "ROUNDUP sz PGSIZE = page2pa n"
    and v: "980992 \<le> v" "v + n < 982016" "0 < n" and free: "\<And>m. v \<le> m \<Longrightarrow> m < v + n \<Longrightarrow> f m = 0"
  shows "\<exists>s'. mmio_map_region pa sz s = Inr (page2pa v, s') \<and> mmio_base s' = page2pa (v + n) \<and> keeps s s'
     \<and> vm_frame s (s'\<lparr>mmio_base := mmio_base s\<rparr>)
     \<and> mapped s' d L (T \<union> {958}) (lay v n (PGNUM pa) (PTE_W OR PTE_PCD OR PTE_PWT) f)"
proof -
  have R: "region_pdes v n = {958}" using v by (intro region_pdes_one) simp_all
  have free': "kpage m \<and> f m = 0" if "v \<le> m" "m < v + n" for m
  proof -
    have "m div 1024 = 958" using that v by (intro div_nat_eqI) simp_all
    then show ?thesis using that v free by (simp add: kpage_def)
  qed
  have c: "card (region_pdes v n) \<le> 1" by (simp add: R)
  have usz: "unat (page2pa n) = 4096 * n" and v': "v + n \<le> 1048576" using v by (simp_all add: page2pa_unat)
  have pa: "ROUNDDOWN pa PGSIZE = page2pa (PGNUM pa)"
  proof -
    show ?thesis using PGNUM_less [of pa] by (simp only: word_unat_eq_iff ROUNDDOWN_page page2pa_unat)
  qed
  from mapped_region [OF st free' c usz v' refl pa, of "PTE_W OR PTE_PCD OR PTE_PWT"] obtain s1 where
    s1: "boot_map_region (kern_pgdir s) (page2pa v) (page2pa n) (ROUNDDOWN pa PGSIZE) ((PTE_W OR PTE_PCD OR PTE_PWT) OR PTE_P) s = Inr s1" "kframe s s1"
      "mapped s1 d L (T \<union> {958}) (lay v n (PGNUM pa) (PTE_W OR PTE_PCD OR PTE_PWT) f)" unfolding R by blast
  have perm: "PTE_W OR PTE_P OR PTE_PCD OR PTE_PWT = (PTE_W OR PTE_PCD OR PTE_PWT) OR PTE_P" by simp
  have "unat (page2pa v + page2pa n) = 4096 * (v + n)"
    using v by (simp add: page2pa_add [symmetric] page2pa_unat)
  then have "\<not> MMIOLIM \<le> page2pa v + page2pa n" using v(2) by (simp add: word_le_nat_alt)
  moreover have "mmio_base s1 = page2pa v" using s1(2) base by (simp add: kframe_def vm_frame_def)
  ultimately have "mmio_map_region pa sz s = Inr (page2pa v, s1\<lparr>mmio_base := page2pa v + page2pa n\<rparr>)"
    unfolding mmio_map_region_def Let_def sz base perm using s1(1) by simp
  moreover have "keeps s (s1\<lparr>mmio_base := b\<rparr>)" for b using kframe_keeps [OF s1(2)] by (simp add: keeps_def same_procs_def)
  moreover have "vm_frame s (s1\<lparr>mmio_base := b, mmio_base := mmio_base s\<rparr>)" for b
    using s1(2) by (simp add: kframe_def vm_frame_def)
  ultimately show ?thesis
    using mapped_mmio_base [OF s1(3)] by (intro exI [of _ "s1\<lparr>mmio_base := page2pa v + page2pa n\<rparr>"]) (simp add: page2pa_add)
qed

text \<open>The entry of a mapped page: where it is, and that writing it changes nothing else.\<close>

lemma mapped_entry:
  assumes st: "mapped s c L T f" and m: "kpage m" "m div 1024 \<in> T" and va: "va = page2pa m"
  shows "\<exists>pt. (\<forall>F :: nat \<Rightarrow> nat \<Rightarrow> kstate \<Rightarrow> kstate fallible. entry_of va False s F = F pt (PTX va) s) \<and> rd s pt (PTX va) = f m
     \<and> (\<forall>w. mapped (wr pt (PTX va) w s) c L T (f(m := w)) \<and> kframe s (wr pt (PTX va) w s))"
proof -
  from st obtain fl where k: "kdir s fl" "(\<exists>ps. L = ps @ fl) \<and> c \<le> length fl" "tables s = T" "\<forall>m. kpage m \<longrightarrow> kpte s m = f m"
    by (auto simp: mapped_def)
  have pg: "PGNUM va = m" using m(1) by (simp add: va kpage_def)
  have i: "PDX va \<in> tables s" "PDX va \<noteq> 957" using m k(3) by (simp_all add: PDX_PGNUM pg kpage_def)
  have ne: "rd s (kern_pgdir s) (PDX va) \<noteq> 0" using i by (simp add: tables_def)
  let ?pt = "table_at s (PDX va)"
  have "pgdir_walk (kern_pgdir s) va False s = Inr (Some (?pt, PTX va), s)"
    using pgdir_walk_present [OF ne] kdir_table(1) [OF k(1) i(1)] by (simp add: table_at_def)
  then have "entry_of va False s F = F ?pt (PTX va) s" for F :: "nat \<Rightarrow> nat \<Rightarrow> kstate \<Rightarrow> kstate fallible"
    by (simp add: entry_of_def)
  moreover have "rd s ?pt (PTX va) = f m"
    using k(4) m(1) ne pte_of_va [of s "kern_pgdir s" va] by (simp add: kpte_def pg table_at_def Let_def)
  moreover have "mapped (wr ?pt (PTX va) w s) c L T (f(m := w)) \<and> kframe s (wr ?pt (PTX va) w s)" for w
  proof -
    note w = write_entry_kern [OF k(1) i(1) PTX_less [of va], where v = w]
    have "PDX va * 1024 + PTX va = m" by (simp add: PDX_PGNUM PTX_PGNUM pg)
    then have "\<forall>n. kpage n \<longrightarrow> kpte (wr ?pt (PTX va) w s) n = (f(m := w)) n"
      using w(4) k(4) by (simp add: kpte_def kpage_def)
    then show ?thesis using w(1-3) k(2,3) by (auto simp: mapped_def kframe_def)
  qed
  ultimately show ?thesis by blast
qed

lemma mapped_maps_to:
  assumes "mapped s c L T f" and "kpage m" and "va = page2pa m"
    and "pa = (if f m AND PTE_P = 0 then NOT 0 else PTE_ADDR (f m))"
  shows "maps_to va pa s x = x"
proof -
  from assms(1) obtain fl where "kdir s fl" "kpte s m = f m" using assms(2) by (auto simp: mapped_def)
  then show ?thesis using check_va2pa_kern [of s fl m] assms(2-4) by (simp add: maps_to_def)
qed

lemma mapped_entry_has:
  fixes x :: "kstate fallible"
  assumes "mapped s c L T f" and "kpage m" "m div 1024 \<in> T" and "va = page2pa m" and "(f m AND bits \<noteq> 0) = on"
  shows "entry_has va bits on s x = x"
proof -
  from mapped_entry [OF assms(1-4)] obtain pt where
    "\<forall>F :: nat \<Rightarrow> nat \<Rightarrow> kstate \<Rightarrow> kstate fallible. entry_of va False s F = F pt (PTX va) s" "rd s pt (PTX va) = f m" by blast
  then show ?thesis using assms(5) by (simp add: entry_has_def)
qed

lemma check_page_mmio_passes:
  assumes st: "mapped s (1 + (1 + d)) L T (\<lambda>_. 0)" and base: "mmio_base s = MMIOBASE"
  shows "\<exists>t. check_page_mmio s = Inr t \<and> mapped t d L (T \<union> {958}) (\<lambda>_. 0) \<and> keeps s t
     \<and> mmio_base t = page2pa 980995"
proof -
  let ?p = "PTE_W OR PTE_PCD OR PTE_PWT"
  let ?f = "lay 980992 2 0 ?p (\<lambda>_. 0)" and ?T = "T \<union> {958}"
  let ?g = "lay 980994 1 0 ?p ?f"
  have base': "mmio_base s = page2pa 980992" by (simp add: base page2pa_def)
  have sz: "ROUNDUP 4097 PGSIZE = page2pa 2" "ROUNDUP 4096 PGSIZE = page2pa 1"
    by (simp_all add: ROUNDUP_def ROUNDDOWN_def page2pa_def)
  from mmio_map_region_kern [OF st base' sz(1), of 0] obtain s1 where
    s1: "mmio_map_region 0 4097 s = Inr (page2pa 980992, s1)" "mmio_base s1 = page2pa 980994" "keeps s s1" "mapped s1 (1 + d) L ?T ?f"
    by (auto simp: PGNUM_def)
  from mmio_map_region_kern [OF s1(4,2) sz(2), of 0] obtain s2 where
    s2: "mmio_map_region 0 4096 s1 = Inr (page2pa 980994, s2)" "keeps s1 s2" "mapped s2 d L ?T ?g"
      "mmio_base s2 = page2pa 980995"
    by (auto simp: lay_def PGNUM_def)
  have ok: "perm_ok (?p OR PTE_P)" by (simp add: perm_ok_def)
  have pte: "?g 980992 = page2pa 0 OR (?p OR PTE_P)" "?g 980993 = page2pa 1 OR (?p OR PTE_P)" "?g 980994 = page2pa 0 OR (?p OR PTE_P)" "?g 980995 = 0"
    by (simp_all add: lay_def)
  have P: "(page2pa q OR (?p OR PTE_P)) AND PTE_P \<noteq> 0" for q by (simp add: bit.conj_disj_distrib2 or_eq_0_iff)
  have at: "page2pa 980992 + PGSIZE = page2pa 980993" "page2pa 980994 + PGSIZE = page2pa 980995" "page2pa 0 = 0" "page2pa 1 = PGSIZE"
    by (simp_all add: page2pa_def)
  have kp: "kpage m \<and> m div 1024 \<in> ?T" if "m \<in> {980992, 980993, 980994, 980995}" for m
    using that by (auto simp: kpage_def)
  have v: "(if (page2pa q OR (?p OR PTE_P)) AND PTE_P = 0 then NOT 0 else PTE_ADDR (page2pa q OR (?p OR PTE_P))) = page2pa q" for q
    using P PTE_ADDR_entry [OF ok] by (simp only: if_False)
  have pa: "0 = (if ?g 980992 AND PTE_P = 0 then NOT 0 else PTE_ADDR (?g 980992))"
    "PGSIZE = (if ?g 980993 AND PTE_P = 0 then NOT 0 else PTE_ADDR (?g 980993))"
    "0 = (if ?g 980994 AND PTE_P = 0 then NOT 0 else PTE_ADDR (?g 980994))"
    "NOT 0 = (if ?g 980995 AND PTE_P = 0 then NOT 0 else PTE_ADDR (?g 980995))"
    unfolding pte(1-3) v by (simp_all only: at(3,4) pte(4) and_zero_eq zero_and_eq if_True refl)
  have maps: "maps_to (page2pa m) pa s2 x = x" if "m \<in> {980992, 980993, 980994, 980995}"
    "pa = (if ?g m AND PTE_P = 0 then NOT 0 else PTE_ADDR (?g m))" for m pa and x :: "kstate fallible"
    using kp [OF that(1)] by (intro mapped_maps_to [OF s2(3) _ refl that(2)]) simp
  have m: "maps_to (page2pa 980992) 0 s2 x = x" "maps_to (page2pa 980993) PGSIZE s2 x = x"
    "maps_to (page2pa 980994) 0 s2 x = x" "maps_to (page2pa 980995) (NOT 0) s2 x = x" for x :: "kstate fallible"
    by (rule maps [OF _ pa(1)] maps [OF _ pa(2)] maps [OF _ pa(3)] maps [OF _ pa(4)], simp)+
  have e: "entry_has (page2pa 980992) (PTE_W OR PTE_PWT OR PTE_PCD) True s2 x = x" "entry_has (page2pa 980992) PTE_U False s2 x = x"
    for x :: "kstate fallible"
  proof -
    have "(?g 980992 AND (PTE_W OR PTE_PWT OR PTE_PCD) \<noteq> 0) = True" "(?g 980992 AND PTE_U \<noteq> 0) = False"
      unfolding pte(1) at(3) by simp_all
    with kp [of 980992] show "entry_has (page2pa 980992) (PTE_W OR PTE_PWT OR PTE_PCD) True s2 x = x" "entry_has (page2pa 980992) PTE_U False s2 x = x"
      by (intro mapped_entry_has [OF s2(3) _ _ refl]; simp only: insert_iff simp_thms)+
  qed
  have clear: "\<exists>pt i. (\<forall>F :: nat \<Rightarrow> nat \<Rightarrow> kstate \<Rightarrow> kstate fallible. entry_of (page2pa m) False t F = F pt i t)
     \<and> mapped (wr pt i 0 t) d L ?T (f(m := 0)) \<and> keeps t (wr pt i 0 t)" if "mapped t d L ?T f" "m \<in> {980992, 980993, 980994, 980995}" for t f m
    using mapped_entry [OF that(1) _ _ refl, of m] kp [OF that(2)] kframe_keeps by blast
  from clear [OF s2(3), of 980992] obtain p1 i1 where
    t1: "\<And>F :: nat \<Rightarrow> nat \<Rightarrow> kstate \<Rightarrow> kstate fallible. entry_of (page2pa 980992) False s2 F = F p1 i1 s2"
      "mapped (wr p1 i1 0 s2) d L ?T (?g(980992 := 0))" "keeps s2 (wr p1 i1 0 s2)" by blast
  let ?t1 = "wr p1 i1 0 s2"
  from clear [OF t1(2), of 980993] obtain p2 i2 where
    t2: "\<And>F :: nat \<Rightarrow> nat \<Rightarrow> kstate \<Rightarrow> kstate fallible. entry_of (page2pa 980993) False ?t1 F = F p2 i2 ?t1"
      "mapped (wr p2 i2 0 ?t1) d L ?T (?g(980992 := 0, 980993 := 0))" "keeps ?t1 (wr p2 i2 0 ?t1)" by blast
  let ?t2 = "wr p2 i2 0 ?t1"
  from clear [OF t2(2), of 980994] obtain p3 i3 where
    t3: "\<And>F :: nat \<Rightarrow> nat \<Rightarrow> kstate \<Rightarrow> kstate fallible. entry_of (page2pa 980994) False ?t2 F = F p3 i3 ?t2"
      "mapped (wr p3 i3 0 ?t2) d L ?T (?g(980992 := 0, 980993 := 0, 980994 := 0))" "keeps ?t2 (wr p3 i3 0 ?t2)" by blast
  have num: "page2pa 980992 = MMIOBASE" "page2pa 980994 = MMIOBASE + 0x2000" by (simp_all add: page2pa_def)
  have r: "MMIOBASE \<le> page2pa 980992 \<and> page2pa 980992 + 8096 < MMIOLIM" "MMIOBASE \<le> page2pa 980994 \<and> page2pa 980994 + 8096 < MMIOLIM"
    "page2pa 980992 mod PGSIZE = 0 \<and> page2pa 980994 mod PGSIZE = 0" "page2pa 980992 + 8096 \<le> page2pa 980994"
    unfolding num by simp_all
  have "check_page_mmio s = Inr (wr p3 i3 0 ?t2)"
    unfolding check_page_mmio_def s1(1) andThen_Inr prod.case s2(1) Let_def
    using r by (simp only: require_True simp_thms at(1,2) m e t1(1) t2(1) t3(1))
  moreover have g: "?g(980992 := 0, 980993 := 0, 980994 := 0) = (\<lambda>_. 0)" by (auto simp: lay_def fun_eq_iff)
  moreover have "keeps s (wr p3 i3 0 ?t2)"
    by (rule keeps_trans [OF s1(3) keeps_trans [OF s2(2) keeps_trans [OF t1(3) keeps_trans [OF t2(3) t3(3)]]]])
  moreover have "mmio_base (wr p3 i3 0 ?t2) = page2pa 980995" using s2(4) by simp
  ultimately show ?thesis using t3(2) [unfolded g] by blast
qed

text \<open>\<open>check_page\<close> as a whole leaves one table, that of the device window, with nothing mapped.\<close>

lemma check_page_passes:
  assumes k: "kdir s (a # b # c # fl)" and T: "tables s = {}" and base: "mmio_base s = MMIOBASE" and d: "d \<le> Suc (length fl)"
  shows "\<exists>t. check_page s = Inr t \<and> mapped t d (c # b # a # fl) {958} (\<lambda>_. 0) \<and> keeps s t
     \<and> mmio_base t = page2pa 980995"
proof -
  from check_page_core [OF k] T obtain u where
    u: "check_page s = check_page_mmio u" "kdir u (c # b # a # fl)" "same_map s u" by auto
  have "kpte u m = 0" if "kpage m" for m using same_mapD(5) [OF u(3) that] kpte_new_dir [OF T that] by simp
  moreover have "tables u = {}" using same_mapD(2) [OF u(3)] T by simp
  moreover have "1 + (1 + d) \<le> length (c # b # a # fl)" using d by simp
  ultimately have "mapped u (1 + (1 + d)) (c # b # a # fl) {} (\<lambda>_. 0)"
    unfolding mapped_def using u(2) by (intro conjI exI [of _ "c # b # a # fl"] exI [of _ "[]"]) simp_all
  moreover have "mmio_base u = MMIOBASE" using u(3) base by (simp add: same_map_def vm_frame_def)
  ultimately obtain t where "check_page_mmio u = Inr t" "mapped t d (c # b # a # fl) ({} \<union> {958}) (\<lambda>_. 0)" "keeps u t" "mmio_base t = page2pa 980995"
    using check_page_mmio_passes by blast
  then show ?thesis using u(1) keeps_trans [OF same_map_keeps [OF u(3)]] by auto
qed

section \<open>check_page_installed_pgdir\<close>

lemma lab_translate:
  assumes l: "lab h s a b c t fl True f r" and th: "three s a b c" and va: "PDX va = 0"
    and f: "f (PTX va) = ent p perm" "p < 65536" "perm_ok perm" "perm AND PTE_W \<noteq> 0"
  shows "translate t (kern_pgdir s) w va = Some (p, unat (PGOFF va))"
proof -
  note d = lab_pde [OF l th va]
  have "perm_ok PTE_W" by (simp only: perm_ok_flags)
  then have "ent p perm AND PTE_W \<noteq> 0" using ent_facts(5) [OF f(2,3), of PTE_W] f(4) by (simp add: bit.conj_disj_distrib2 or_eq_0_iff)
  moreover have "(page2pa a OR PTE_P OR PTE_W OR PTE_U) AND PTE_W \<noteq> 0" by (simp add: bit.conj_disj_distrib2 or_eq_0_iff)
  ultimately show ?thesis
    unfolding translate_def Let_def d(1,2,3) f(1) using d(6) ent_facts(1,3) [OF f(2,3)] by (simp only: simp_thms if_False)
qed

text \<open>
  The third page holds the table, the other two are mapped in turn at the second page and read
  and written through the address translation of the processor.
\<close>

lemma check_page_installed_passes:
  assumes k: "kdir s (a # b # c # fl)" and T: "0 \<notin> tables s" "1 \<notin> tables s" and cr3: "cr3 s (cpunum s) = kern_pgdir s"
  shows "\<exists>t. check_page_installed_pgdir s = Inr t \<and> kdir t (a # c # b # fl) \<and> same_map s t"
proof -
  note p1 = kdir_pop [OF k]
  note p2 = kdir_pop [OF p1(2)]
  note p3 = kdir_pop [OF p2(2)]
  let ?s = "pop_page (pop_page (pop_page s))" and ?W = "PTE_W"
  have m3: "same_map s ?s" by (rule same_map_trans [OF p1(3) same_map_trans [OF p2(3) p3(3)]])
  have "distinct (a # b # c # fl)" using kdirD(2) [OF k] by (rule free_pages_distinct)
  then have be: "bench ?s a b c fl"
    using p1(4-6,8) p2(4-6,8) p3(2,4-6,8) T same_mapD(2,3,4) [OF m3] same_mapD(3,4) [OF p1(3)] same_mapD(3,4) [OF same_map_trans [OF p1(3) p2(3)]]
    by (auto simp: bench_def)
  note th = bench_three [OF be] and lo = low_addresses
  note cs = cnt_simps [OF th] and kk = same_mapD(3) [OF m3]
  have small: "a < 65536" "b < 65536" "c < 65536" using three_small [OF th] by simp_all
  have dist: "a \<noteq> b" "a \<noteq> c" "b \<noteq> c" "b \<noteq> kern_pgdir ?s" "c \<noteq> kern_pgdir ?s" using th by (auto simp: three_def)
  have inn: "a \<in> {a, b, c}" "b \<in> {a, b, c}" "c \<in> {a, b, c}" "b \<in> {b, c}" "c \<in> {b, c}" by simp_all
  have W: "perm_ok ?W" "?W AND PTE_W \<noteq> 0" by (simp only: perm_ok_flags) simp
  have l0: "lab fl ?s a b c ?s [] False (\<lambda>_. 0) (cnt a b c 0 0 0)"
    using be by (auto simp: lab_def vis_def low_table_def bench_def tables_def kdir_def free_pages_def cnt_0)
  have "a \<notin> set []" "cnt a b c 0 0 0 a = 0" by (simp_all add: cs)
  note l1 = lab_free [OF l0 inn(1) this]
  let ?t2 = "fill_words b 1024 0x01010101 (push_page a ?s)"
  have l2: "lab fl ?s a b c ?t2 [a] False (\<lambda>_. 0) (cnt a b c 0 0 0)" by (rule lab_fill [OF l1(2) th inn(2)]) simp
  let ?t3 = "fill_words c 1024 0x02020202 ?t2"
  have l3: "lab fl ?s a b c ?t3 [a] False (\<lambda>_. 0) (cnt a b c 0 0 0)" by (rule lab_fill [OF l2 th inn(3)]) simp
  have kva: "page2kva u p = Inr p" if "npages u = npages ?s" "p \<in> {b, c}" for u p
    using that th by (intro page2kva_ok) (auto simp: mem_ok_def three_def)
  have f4: "(\<lambda>_. 0)(PTX PGSIZE := page2pa b OR ?W OR PTE_P) = two 0 (ent b ?W)"
    unfolding lo by (simp add: two_def ent_def fun_eq_iff)
  have r4: "(cnt a b c 0 0 0)(a := 1, b := cnt a b c 0 0 0 b + 1) = cnt a b c 1 1 0" by (simp add: cs)
  have "cnt a b c 0 0 0 b + 1 \<noteq> 0" by (simp add: cs)
  from lab_insert_first [OF l3 th lo(2) inn(4) this, of ?W, unfolded f4 r4] obtain t4 where
    t4: "page_insert (kern_pgdir ?s) b PGSIZE ?W ?t3 = Inr (Inr (), t4)" "lab fl ?s a b c t4 [] True (two 0 (ent b ?W)) (cnt a b c 1 1 0)"
      "\<forall>q. q \<noteq> a \<and> q \<noteq> kern_pgdir ?s \<longrightarrow> rd t4 q = rd ?t3 q" by blast
  have b4: "rd t4 b 0 = 0x01010101" "rd t4 c 0 = 0x02020202" using t4(3) dist by (simp_all add: rd_fill_words)
  have cr: "cr3 u (cpunum u) = kern_pgdir ?s" if "lab fl ?s a b c u fl' tab f r" for u fl' tab f r
    using labD(1) [OF that] cr3 m3 kk by (simp add: aside_def same_map_def vm_frame_def)
  have off: "unat (PGOFF PGSIZE) = 0" by (simp add: PGOFF_def)
  have load: "kload PGSIZE u = Inr (rd u p 0)" if "lab fl ?s a b c u fl' True (two 0 (ent p ?W)) r" "p \<in> {a, b, c}" for u fl' p r
    using lab_translate [OF that(1) th lo(2), of p ?W False] three_small [OF th that(2)] W unfolding kload_def cr [OF that(1)] lo off
    by (simp only: two_simps simp_thms option.case prod.case off div_0 andThen_Inr)
  have ex: "\<exists>t5. page_insert (kern_pgdir ?s) c PGSIZE ?W t4 = Inr (Inr (), t5) \<and> lab fl ?s a b c t5 [b] True ((two 0 (ent b ?W))(PTX PGSIZE := page2pa c OR ?W OR PTE_P)) (cnt a b c 1 0 1)"
    by (rule lab_insert [OF t4(2) th lo(2) inn(5), where q = b])
      (use dist ent_facts [OF small(2) W(1)] in \<open>simp_all only: lo cs two_simps, simp_all add: cs\<close>)
  have f5: "(two 0 (ent b ?W))(PTX PGSIZE := page2pa c OR ?W OR PTE_P) = two 0 (ent c ?W)" unfolding lo two_simps ent_def ..
  from ex [unfolded f5] obtain t5 where
    t5: "page_insert (kern_pgdir ?s) c PGSIZE ?W t4 = Inr (Inr (), t5)" "lab fl ?s a b c t5 [b] True (two 0 (ent c ?W)) (cnt a b c 1 0 1)" by blast
  have "c \<notin> set []" by simp
  from lab_insert_rd [OF t4(2) th lo(2) inn(5) this t5(1)] dist b4 have c5: "rd t5 c 0 = 0x02020202" by simp
  let ?t6 = "wr c 0 0x03030303 t5"
  have l6: "lab fl ?s a b c ?t6 [b] True (two 0 (ent c ?W)) (cnt a b c 1 0 1)"
    using lab_fill [OF t5(2) th inn(3), of "Suc 0" "0x03030303"] dist by simp
  have store: "kstore PGSIZE 0x03030303 t5 = Inr ?t6"
    using lab_translate [OF t5(2) th lo(2), of c ?W True] small(3) W unfolding kstore_def cr [OF t5(2)] lo off
    by (simp only: two_simps simp_thms option.case prod.case off div_0)
  have "\<exists>t7. page_remove (kern_pgdir ?t6) PGSIZE ?t6 = Inr t7 \<and> lab fl ?s a b c t7 [c, b] True (two 0 0) (cnt a b c 1 0 0)"
    by (rule run_remove [OF l6 th lo(2) _ inn(5) W(1)]) (simp_all only: lo cs two_simps, simp_all)
  then obtain t7 where t7: "page_remove (kern_pgdir ?t6) PGSIZE ?t6 = Inr t7" "lab fl ?s a b c t7 [c, b] True (two 0 0) (cnt a b c 1 0 0)" by blast
  have na: "a \<notin> set [c, b]" using dist by simp
  have l8: "lab fl ?s a b c (forget_table 0 a t7) [c, b] False (\<lambda>_. 0) (cnt a b c 0 0 0)"
    using lab_forget [OF t7(2) na] by (simp only: cs)
  have "cnt a b c 0 0 0 a = 0" by (simp add: cs)
  note l9 = lab_free [OF l8 inn(1) na this]
  note kp = labD(5) [OF l3] labD(5) [OF t4(2)]
  note n = labD(4) [OF l1(2)] labD(4) [OF l2] labD(4) [OF l6]
  have refs: "refs t4 b = 1" "refs t5 c = 1" "refs t5 b = 0" "refs t7 c = 0" "refs t7 a = 1"
    using lab_refs [OF t4(2) inn(2)] lab_refs [OF t5(2) inn(3)] lab_refs [OF t5(2) inn(2)] lab_refs [OF t7(2) inn(3)] lab_refs [OF t7(2) inn(1)]
    by (simp_all add: cs)
  have w6: "rd ?t6 c 0 = 0x03030303" by simp
  have "check_page_installed_pgdir s = Inr (push_page a (forget_table 0 a t7))"
    unfolding check_page_installed_pgdir_def must_alloc_def p1(1) p2(1) p3(1) andThen_Inr prod.case option.case l1(1)
      kva [OF n(1) inn(4)] Let_def kva [OF n(2) inn(5)] kp t4(1) refs load [OF t4(2) inn(2)] b4 t5(1) load [OF t5(2) inn(3)] c5 store
      kva [OF n(3) inn(5)] w6 t7(1) lab_table_addr(1) [OF t7(2) th] l9(1)
    by (simp only: require_True simp_thms andThen_Inr prod.case t5(1) load [OF t5(2) inn(3)] c5 store kva [OF n(3) inn(5)] w6 t7(1)
      refs lab_table_addr(1) [OF t7(2) th] l9(1))
  moreover note lab_close [OF be l9(2)]
  ultimately show ?thesis using same_map_trans [OF m3] by auto
qed

section \<open>mem_init\<close>

text \<open>After the tables are made the free list still has pages below and above the first megabyte.\<close>

lemma pages_left:
  assumes M: "M = ps @ fl" "length ps \<le> 69" and X: "X \<subseteq> set M" "70 \<le> card X"
  shows "\<exists>p\<in>set fl. p \<in> X"
proof (rule ccontr)
  assume "\<not> ?thesis"
  then have "X \<subseteq> set ps" using M(1) X(1) by auto
  from card_mono [OF _ this] X(2) M(2) card_length [of ps] show False by simp
qed

lemma usable_many:
  assumes M: "set M = {p. p < n \<and> usable F p}" and F: "256 < F" "F + 70 \<le> n"
  shows "{8..<160} \<subseteq> set M" "{F..<n} \<subseteq> set M" "152 \<le> length M"
proof -
  show lo: "{8..<160} \<subseteq> set M"
  proof
    fix p :: nat assume "p \<in> {8..<160}"
    then have "8 \<le> p" "p < 160" by simp_all
    then show "p \<in> set M" unfolding M usable_def using F by simp
  qed
  show "{F..<n} \<subseteq> set M"
  proof
    fix p :: nat assume "p \<in> {F..<n}"
    then have "F \<le> p" "p < n" by simp_all
    then show "p \<in> set M" unfolding M usable_def using F by simp
  qed
  show "152 \<le> length M" using card_mono [OF _ lo] card_length [of M] by simp
qed

lemma usable_left:
  assumes M: "set M = {p. p < n \<and> usable F p}" and F: "256 < F" "F + 70 \<le> n"
    and fl: "M = ps @ fl" "length M - 69 \<le> length fl"
  shows "3 \<le> length fl" "\<exists>p\<in>set fl. p < 256" "\<exists>p\<in>set fl. 256 \<le> p" "\<forall>p\<in>set fl. usable F p"
proof -
  note many = usable_many [OF M F]
  show "3 \<le> length fl" using many(3) fl(2) by simp
  have ps: "length ps \<le> 69" using many(3) fl by simp
  have "70 \<le> card {8..<160 :: nat}" "70 \<le> card {F..<n}" using F by simp_all
  from pages_left [OF fl(1) ps many(1) this(1)] pages_left [OF fl(1) ps many(2) this(2)] obtain p q where
    "p \<in> set fl" "p < 160" "q \<in> set fl" "F \<le> q" by (meson atLeastLessThan_iff)
  then have "p \<in> set fl" "p < 256" "q \<in> set fl" "256 \<le> q" using F(1) by simp_all
  then show "\<exists>p\<in>set fl. p < 256" "\<exists>p\<in>set fl. 256 \<le> p" by blast+
  show "\<forall>p\<in>set fl. usable F p"
  proof
    fix p assume "p \<in> set fl"
    then have "p \<in> set M" unfolding fl(1) by simp
    then show "usable F p" unfolding M by simp
  qed
qed

lemma lcr3_keeps: "kdir s fl \<Longrightarrow> kdir (lcr3 pd s) fl" "tables (lcr3 pd s) = tables s" "kpte (lcr3 pd s) m = kpte s m"
  "keeps s (lcr3 pd s)" "cr3 (lcr3 pd s) (cpunum (lcr3 pd s)) = pd"
proof -
  have rd: "rd (lcr3 pd s) = rd s" by (simp add: fun_eq_iff)
  have tb: "tables (lcr3 pd s) = tables s" "table_at (lcr3 pd s) = table_at s" by (simp_all add: tables_def table_at_def rd fun_eq_iff)
  show "tables (lcr3 pd s) = tables s" by (rule tb(1))
  show "kpte (lcr3 pd s) m = kpte s m" by (simp add: kpte_def pte_of_def rd Let_def)
  show "keeps s (lcr3 pd s)" by (simp add: keeps_def same_procs_def lcr3_def rd_def)
  show "cr3 (lcr3 pd s) (cpunum (lcr3 pd s)) = pd" by (simp add: lcr3_def)
  show "kdir (lcr3 pd s) fl" if "kdir s fl"
    using that free_pages_cong [of "lcr3 pd s" s fl] by (simp add: kdir_def mem_ok_def tb rd)
qed

text \<open>The stages up to \<open>check_page\<close>: nothing is mapped, and the list \<open>M\<close> holds every usable page.\<close>

lemma mem_init_first_half:
  assumes n: "npages s \<le> 65536" and nf: "nextfree s = 0" "ROUNDUP kend PGSIZE = KERNBASE + page2pa K" and K: "256 \<le> K"
    and room: "K + pages_len s + 103 \<le> npages s" and fl0: "page_free_list s = None" and base: "mmio_base s = MMIOBASE"
  defines "F \<equiv> K + pages_len s + 33"
  shows "\<exists>s1 s2 s3 s4 s5 M. boot_data kend s = Inr ((KERNBASE + page2pa (K + 1), KERNBASE + page2pa (K + 1 + pages_len s)), s1)
     \<and> page_init kend s1 = Inr s2 \<and> check_page_free_list kend True s2 = Inr s3
     \<and> check_page_alloc (KERNBASE + page2pa (K + 1)) s3 = Inr s4 \<and> check_page s4 = Inr s5
     \<and> mapped s5 (length M - 2) M {958} (\<lambda>_. 0) \<and> set M = {p. p < npages s \<and> usable F p} \<and> distinct M
     \<and> npages s5 = npages s \<and> kern_pgdir s5 = K \<and> nextfree s5 = KERNBASE + page2pa F \<and> envs s5 = (\<lambda>_. zero_env)
     \<and> rd s5 K 957 AND PTE_P \<noteq> 0 \<and> same_procs s s5 \<and> mmio_base s5 = page2pa 980995"
proof -
  let ?fl = "rev (filter (usable F) [0..<npages s])"
  have sfl: "set ?fl = {p. p < npages s \<and> usable F p}" by auto
  have "K + pages_len s + 33 < npages s" using room by simp
  from boot_start [OF n nf K this fl0] obtain s1 s2 where
    s2: "boot_data kend s = Inr ((KERNBASE + page2pa (K + 1), KERNBASE + page2pa (K + 1 + pages_len s)), s1)"
      "page_init kend s1 = Inr s2" "kern_pgdir s2 = K" "kdir s2 ?fl" "tables s2 = {}" "rd s2 K 957 AND PTE_P \<noteq> 0"
      "envs s2 = (\<lambda>_. zero_env)" "nextfree s2 = KERNBASE + page2pa F" "mmio_base s2 = mmio_base s" "npages s2 = npages s" "same_procs s s2"
    unfolding F_def by blast
  have F: "256 < F" "F < npages s" using K room by (simp_all add: F_def)
  have e: "1 \<in> set ?fl" "F \<in> set ?fl" using F by (auto simp: usable_def)
  have lo: "\<exists>p\<in>set ?fl. p < 256" by (rule bexI [OF _ e(1)]) simp
  have hi: "\<exists>p\<in>set ?fl. 256 \<le> p" by (rule bexI [OF _ e(2)]) (use F(1) in simp)
  have "F < npages s2" "\<forall>p\<in>set ?fl. usable F p" using F s2(10) by auto
  from check_page_free_list_passes [OF s2(4) this(2) s2(8) F(1) this(1) lo hi, of kend True] obtain s3 where
    s3: "check_page_free_list kend True s2 = Inr s3" "kdir s3 (low_first ?fl)" "same_map s2 s3" by auto
  have d: "distinct (low_first ?fl)" using free_pages_distinct [OF kdirD(2) [OF s3(2)]] .
  have len: "3 \<le> length (low_first ?fl)"
  proof -
    have "{1, 2, 3} \<subseteq> set (low_first ?fl)" unfolding set_low_first sfl using F by (auto simp: usable_def)
    from card_mono [OF _ this] show ?thesis using distinct_card [OF d] by simp
  qed
  then obtain a b c ps where M: "low_first ?fl = a # b # c # ps"
    by (auto simp: Suc_le_length_iff numeral_3_eq_3)
  have T3: "tables s3 = {}" using same_mapD(2) [OF s3(3)] s2(5) by simp
  have "K + 1 < 65536" using room n by simp
  from kva_not_0 [OF this] have pv: "KERNBASE + page2pa (K + 1) \<noteq> 0" .
  from check_page_alloc_passes [OF s3(2) [unfolded M] _ _ pv] T3 obtain s4 where
    s4: "check_page_alloc (KERNBASE + page2pa (K + 1)) s3 = Inr s4" "kdir s4 (a # b # c # ps)" "same_map s3 s4" by auto
  have m4: "same_map s2 s4" by (rule same_map_trans [OF s3(3) s4(3)])
  have "tables s4 = {}" "mmio_base s4 = MMIOBASE"
    using same_mapD(2) [OF m4] s2(5,9) m4 base by (simp_all add: same_map_def vm_frame_def)
  from check_page_passes [OF s4(2) this, of "Suc (length ps)"] obtain s5 where
    s5: "check_page s4 = Inr s5" "mapped s5 (Suc (length ps)) (c # b # a # ps) {958} (\<lambda>_. 0)" "keeps s4 s5" "mmio_base s5 = page2pa 980995" by auto
  have k5: "keeps s2 s5" by (rule keeps_trans [OF same_map_keeps [OF m4] s5(3)])
  let ?M = "c # b # a # ps"
  have "set ?M = {p. p < npages s \<and> usable F p}" unfolding sfl [symmetric] set_low_first [of ?fl, symmetric] M by auto
  moreover have "distinct ?M" using d unfolding M by auto
  moreover have "mapped s5 (length ?M - 2) ?M {958} (\<lambda>_. 0)" using s5(2) by simp
  moreover have "npages s5 = npages s" "kern_pgdir s5 = K" "nextfree s5 = KERNBASE + page2pa F" "envs s5 = (\<lambda>_. zero_env)" "rd s5 K 957 AND PTE_P \<noteq> 0"
    using k5 s2(3,6-8,10) by (simp_all only: keeps_def simp_thms)
  moreover have "same_procs s s5" using k5 s2(11) by (simp add: keeps_def same_procs_def)
  ultimately show ?thesis using s2(1,2) s3(1) s4(1) s5(1,4) by blast
qed

lemma mem_init_establishes:
  assumes s0: "s0 = i386_detect_memory cmos s" and n: "npages s0 \<le> 65536"
    and nf: "nextfree s = 0" "ROUNDUP kend PGSIZE = KERNBASE + page2pa K" and K: "256 \<le> K"
    and room: "K + pages_len s0 + 103 \<le> npages s0" and fl: "page_free_list s = None" and base: "mmio_base s = MMIOBASE"
    and ks: "\<forall>j<8. kstacks j = KERNBASE + page2pa (KS j) \<and> KS j < 65536"
  shows "\<exists>s' fl'. mem_init cmos kend kstacks cr0 s = Inr ((cr0 OR CR0_ON) AND NOT CR0_OFF, s')
     \<and> npages s' = npages s0 \<and> kern_pgdir s' = K \<and> cr3 s' (cpunum s') = K
     \<and> (\<forall>m. kpage m \<longrightarrow> kpte s' m = kernel_map s0 (K + 1) (K + 1 + pages_len s0) KS m)
     \<and> mapped s' (length fl') fl' ({955, 956, 958, 959} \<union> {960..<1024}) (kernel_map s0 (K + 1) (K + 1 + pages_len s0) KS)
     \<and> envs s' = (\<lambda>_. zero_env) \<and> mmio_base s' = page2pa 980995
     \<and> npages s0 \<le> length fl' + (K + pages_len s0 + 102) \<and> same_procs s s' \<and> 7 \<notin> set fl'"
proof -
  let ?F = "K + pages_len s0 + 33" and ?P = "K + 1" and ?E = "K + 1 + pages_len s0"
  have i: "nextfree s0 = 0" "page_free_list s0 = None" "mmio_base s0 = MMIOBASE"
    using nf fl base by (simp_all add: s0 i386_detect_memory_def Let_def)
  from mem_init_first_half [OF n i(1) nf(2) K room i(2,3)] obtain s1 s2 s3 s4 s5 M where
    run1: "boot_data kend s0 = Inr ((KERNBASE + page2pa ?P, KERNBASE + page2pa ?E), s1)"
      "page_init kend s1 = Inr s2" "check_page_free_list kend True s2 = Inr s3"
      "check_page_alloc (KERNBASE + page2pa ?P) s3 = Inr s4" "check_page s4 = Inr s5"
    and M: "mapped s5 (length M - 2) M {958} (\<lambda>_. 0)" "set M = {p. p < npages s0 \<and> usable ?F p}" "distinct M"
    and k5: "npages s5 = npages s0" "kern_pgdir s5 = K" "nextfree s5 = KERNBASE + page2pa ?F" "envs s5 = (\<lambda>_. zero_env)" "rd s5 K 957 AND PTE_P \<noteq> 0"
    and p5: "same_procs s0 s5" "mmio_base s5 = page2pa 980995"
    by blast
  have F: "256 < ?F" "?F + 70 \<le> npages s0" using K room by simp_all
  have "length M - 2 = 67 + (length M - 69)" using usable_many(3) [OF M(2) F] by linarith
  with M(1) have m5: "mapped s5 (67 + (length M - 69)) M {958} (\<lambda>_. 0)" by (simp only:)
  have ok5: "mem_ok s5" using k5(1) n by (simp add: mem_ok_def)
  have pl: "pages_len s5 = pages_len s0" by (simp add: pages_len_def k5(1))
  have PE: "?P < 65536" "?E < 65536" using room n by simp_all
  from map_kernel_exact [OF m5 ok5 _ refl PE(1) refl PE(2) ks] k5(2,5) obtain s6 where
    s6: "map_kernel (KERNBASE + page2pa ?P) (KERNBASE + page2pa ?E) kstacks s5 = Inr s6"
      "mapped s6 (length M - 69) M ({955, 956, 958, 959} \<union> {960..<1024}) (kernel_map s5 ?P ?E KS)"
      "check_kern_pgdir (KERNBASE + page2pa ?P) (KERNBASE + page2pa ?E) kstacks s6 = Inr ()" by auto
  from map_kernel_kern [OF m5 ok5 refl PE(1) refl PE(2) ks] s6(1) have kf: "kframe s5 s6" by auto
  then have "keeps s5 s6" by (rule kframe_keeps)
  let ?s7 = "lcr3 (kern_pgdir s6) s6"
  have k7: "keeps s5 ?s7" by (rule keeps_trans [OF \<open>keeps s5 s6\<close> lcr3_keeps(4)])
  from s6(2) obtain fl6 ps where fl6: "kdir s6 fl6" "M = ps @ fl6" "length M - 69 \<le> length fl6"
    "tables s6 = {955, 956, 958, 959} \<union> {960..<1024}" "\<forall>m. kpage m \<longrightarrow> kpte s6 m = kernel_map s5 ?P ?E KS m" by (auto simp: mapped_def)
  have d7: "kdir ?s7 fl6" "tables ?s7 = tables s6" "cr3 ?s7 (cpunum ?s7) = kern_pgdir s6"
    using lcr3_keeps(1,2,5) fl6(1) by simp_all
  note left = usable_left [OF M(2) F fl6(2,3)]
  have F7: "nextfree ?s7 = KERNBASE + page2pa ?F" "256 < ?F" "?F < npages ?s7" using k7 k5(1,3) F room by (simp_all add: keeps_def)
  from check_page_free_list_passes [OF d7(1) left(4) F7 left(2,3), of kend False] obtain s8 where
    s8: "check_page_free_list kend False ?s7 = Inr s8" "kdir s8 fl6" "same_map ?s7 s8" by auto
  obtain a b c fl7 where fl7: "fl6 = a # b # c # fl7" using left(1) by (auto simp: Suc_le_length_iff numeral_3_eq_3)
  have k8: "kern_pgdir s8 = kern_pgdir s6" "tables s8 = tables s6" "cr3 s8 (cpunum s8) = kern_pgdir s6"
    using same_mapD(2,3) [OF s8(3)] d7(2,3) s8(3) by (simp_all add: same_map_def vm_frame_def)
  have "0 \<notin> tables s8" "1 \<notin> tables s8" "cr3 s8 (cpunum s8) = kern_pgdir s8" unfolding k8 fl6(4) by auto
  from check_page_installed_passes [OF s8(2) [unfolded fl7] this] obtain s9 where
    s9: "check_page_installed_pgdir s8 = Inr s9" "kdir s9 (a # c # b # fl7)" "same_map s8 s9" by blast
  have "mem_init cmos kend kstacks cr0 s = Inr ((cr0 OR CR0_ON) AND NOT CR0_OFF, s9)"
    unfolding mem_init_def s0 [symmetric] run1 andThen_Inr prod.case s6(1,3) Let_def s8(1) s9(1) ..
  moreover have k9: "keeps s5 s9" by (rule keeps_trans [OF k7 keeps_trans [OF same_map_keeps [OF s8(3)] same_map_keeps [OF s9(3)]]])
  then have "npages s9 = npages s0" "kern_pgdir s9 = K" "envs s9 = (\<lambda>_. zero_env)" using k5 by (simp_all only: keeps_def)
  moreover have "cr3 s9 (cpunum s9) = K"
    using k8(3) k7 k5(2) s9(3) \<open>keeps s5 s6\<close> by (simp add: same_map_def vm_frame_def keeps_def)
  moreover have "kpte s9 m = kernel_map s0 ?P ?E KS m" if "kpage m" for m
    using same_mapD(5) [OF s9(3) that] same_mapD(5) [OF s8(3) that] lcr3_keeps(3) fl6(5) that pl by (simp add: kernel_map_def)
  moreover have "tables s9 = {955, 956, 958, 959} \<union> {960..<1024}"
    unfolding same_mapD(2) [OF s9(3)] k8(2) fl6(4) ..
  moreover have "mmio_base s9 = page2pa 980995"
    using kf p5(2) s8(3) s9(3) by (simp add: kframe_def same_map_def vm_frame_def lcr3_def)
  moreover have "npages s0 \<le> length (a # c # b # fl7) + (K + pages_len s0 + 102)"
  proof -
    have "card {?F..<npages s0} \<le> length M"
      using card_mono [OF _ usable_many(2) [OF M(2) F]] card_length [of M] by simp
    then show ?thesis using fl6(3) fl7 by simp
  qed
  moreover have "same_procs s s9"
    using p5(1) k9 by (simp add: keeps_def same_procs_def s0 i386_detect_memory_def Let_def)
  moreover have "7 \<notin> set (a # c # b # fl7)"
  proof
    assume "7 \<in> set (a # c # b # fl7)"
    then have "7 \<in> set fl6" unfolding fl7 by auto
    then show False using left(4) by (auto simp: usable_def)
  qed
  ultimately show ?thesis using s9(2) unfolding mapped_def by blast
qed

text \<open>A directory that maps the kernel alone, and slots that are all free, give the invariant.\<close>

lemma mapped_kinv:
  assumes "mapped s c L ({955, 956, 958, 959} \<union> {960..<1024}) f" and "free_envs s [0..<1024]"
    and "\<And>e. env_pgdir (envs s e) = None"
  shows "\<exists>fl kx. kinv s fl [0..<1024] kx \<and> c \<le> length fl \<and> (\<exists>ps. L = ps @ fl)"
proof -
  from assms(1) obtain fl where fl: "kdir s fl" "\<exists>ps. L = ps @ fl" "c \<le> length fl"
      "tables s = {955, 956, 958, 959} \<union> {960..<1024}"
    by (auto simp: mapped_def)
  have "tables s \<subseteq> {955..<1024}" unfolding fl(4) by auto
  from kinv_of_kdir [OF fl(1) this assms(2,3)] fl(2,3) show ?thesis by blast
qed

lemma mapped_env_init: "mapped (env_init s) c L T f = mapped s c L T f"
  by (simp add: mapped_def env_init_kdir)


text \<open>A PC with 128 MB, as the emulator configures its clock chip; the kernel ends in page 278.\<close>

definition pc_128mb :: "nat \<Rightarrow> u8" where
  "pc_128mb r = (if r = 21 then 0x80 else if r = 22 then 0x02 else if r = 24 then 0xFC else if r = 53 then 0x07 else 0)"

lemma pc_128mb_detected: "npages (i386_detect_memory pc_128mb s) = 32768"
  by (simp add: i386_detect_memory_def nvram_read_def pc_128mb_def)


end
