(* ===== verification/CString.thy ===== *)
theory CString
  imports Prelude
begin

text \<open>
  \<open>lib/string.c\<close> on a byte memory with 32-bit pointers. Scans that only a terminator stops
  are partial (\<open>None\<close> when no terminator is ever met); loops over a count are structural. The
  configuration is \<open>ASM = 1\<close>: block moves are the string instructions of the x86.
\<close>

type_synonym memory = "u32 \<Rightarrow> u8"

section \<open>Scanning\<close>

partial_function (option) strlen_loop :: "memory \<Rightarrow> u32 \<Rightarrow> nat \<Rightarrow> nat option" where
  "strlen_loop m s n = (if m s \<noteq> 0 then strlen_loop m (s + 1) (n + 1) else Some n)"

definition strlen :: "memory \<Rightarrow> u32 \<Rightarrow> nat option" where
  "strlen m s = strlen_loop m s 0"

fun strnlen_loop :: "memory \<Rightarrow> u32 \<Rightarrow> nat \<Rightarrow> nat \<Rightarrow> nat" where
  "strnlen_loop m s 0 n = n"
| "strnlen_loop m s (Suc k) n = (if m s \<noteq> 0 then strnlen_loop m (s + 1) k (n + 1) else n)"

definition strnlen :: "memory \<Rightarrow> u32 \<Rightarrow> nat \<Rightarrow> nat" where
  "strnlen m s n = strnlen_loop m s n 0"

partial_function (option) strcpy :: "memory \<Rightarrow> u32 \<Rightarrow> u32 \<Rightarrow> memory option" where
  "strcpy m dst src =
     (let m' = m(dst := m src) in if m src \<noteq> 0 then strcpy m' (dst + 1) (src + 1) else Some m')"

definition strcat :: "memory \<Rightarrow> u32 \<Rightarrow> u32 \<Rightarrow> memory option" where
  "strcat m dst src = Option.bind (strlen m dst) (\<lambda>len. strcpy m (dst + word_of_nat len) src)"

text \<open>The source is read again after the store, which matters when the two overlap.\<close>

fun strncpy :: "memory \<Rightarrow> u32 \<Rightarrow> u32 \<Rightarrow> nat \<Rightarrow> memory" where
  "strncpy m dst src 0 = m"
| "strncpy m dst src (Suc n) =
     (let m' = m(dst := m src) in strncpy m' (dst + 1) (if m' src \<noteq> 0 then src + 1 else src) n)"

text \<open>The loop of \<open>strlcpy\<close>, with the number of characters that still fit before the null.\<close>

fun strlcpy_loop :: "memory \<Rightarrow> u32 \<Rightarrow> u32 \<Rightarrow> nat \<Rightarrow> memory \<times> u32" where
  "strlcpy_loop m dst src 0 = (m(dst := 0), dst)"
| "strlcpy_loop m dst src (Suc n) =
     (if m src \<noteq> 0 then strlcpy_loop (m(dst := m src)) (dst + 1) (src + 1) n else (m(dst := 0), dst))"

definition strlcpy :: "memory \<Rightarrow> u32 \<Rightarrow> u32 \<Rightarrow> nat \<Rightarrow> memory \<times> u32" where
  "strlcpy m dst src n =
     (if 0 < n then let (m', d) = strlcpy_loop m dst src (n - 1) in (m', d - dst) else (m, 0))"

partial_function (option) strcmp :: "memory \<Rightarrow> u32 \<Rightarrow> u32 \<Rightarrow> int option" where
  "strcmp m p q =
     (if m p \<noteq> 0 \<and> m p = m q then strcmp m (p + 1) (q + 1) else Some (uint (m p) - uint (m q)))"

fun strncmp :: "memory \<Rightarrow> u32 \<Rightarrow> u32 \<Rightarrow> nat \<Rightarrow> int" where
  "strncmp m p q 0 = 0"
| "strncmp m p q (Suc n) =
     (if m p \<noteq> 0 \<and> m p = m q then strncmp m (p + 1) (q + 1) n else uint (m p) - uint (m q))"

text \<open>A null result is the address 0.\<close>

partial_function (option) strchr :: "memory \<Rightarrow> u32 \<Rightarrow> u8 \<Rightarrow> u32 option" where
  "strchr m s c = (if m s = 0 then Some 0 else if m s = c then Some s else strchr m (s + 1) c)"

partial_function (option) strfind :: "memory \<Rightarrow> u32 \<Rightarrow> u8 \<Rightarrow> u32 option" where
  "strfind m s c = (if m s = 0 \<or> m s = c then Some s else strfind m (s + 1) c)"

section \<open>Blocks of memory\<close>

text \<open>
  \<open>stos\<close> and \<open>movs\<close> act on \<open>b\<close> bytes at a time (1 or 4): the whole block is read before it is
  written. \<open>rep\<close> repeats them \<open>n\<close> times, upwards after \<open>cld\<close> and downwards after \<open>std\<close>.
\<close>

definition stos :: "nat \<Rightarrow> (nat \<Rightarrow> u8) \<Rightarrow> memory \<Rightarrow> u32 \<Rightarrow> memory" where
  "stos b val m d = (\<lambda>a. if unat (a - d) < b then val (unat (a - d)) else m a)"

definition movs :: "nat \<Rightarrow> memory \<Rightarrow> u32 \<Rightarrow> u32 \<Rightarrow> memory" where
  "movs b m d s = stos b (\<lambda>j. m (s + word_of_nat j)) m d"

fun rep_stos :: "nat \<Rightarrow> (nat \<Rightarrow> u8) \<Rightarrow> memory \<Rightarrow> u32 \<Rightarrow> nat \<Rightarrow> memory" where
  "rep_stos b val m d 0 = m"
| "rep_stos b val m d (Suc n) = rep_stos b val (stos b val m d) (d + word_of_nat b) n"

fun rep_movs_up :: "nat \<Rightarrow> memory \<Rightarrow> u32 \<Rightarrow> u32 \<Rightarrow> nat \<Rightarrow> memory" where
  "rep_movs_up b m d s 0 = m"
| "rep_movs_up b m d s (Suc n) = rep_movs_up b (movs b m d s) (d + word_of_nat b) (s + word_of_nat b) n"

fun rep_movs_down :: "nat \<Rightarrow> memory \<Rightarrow> u32 \<Rightarrow> u32 \<Rightarrow> nat \<Rightarrow> memory" where
  "rep_movs_down b m d s 0 = m"
| "rep_movs_down b m d s (Suc n) = rep_movs_down b (movs b m d s) (d - word_of_nat b) (s - word_of_nat b) n"

definition aligned4 :: "u32 \<Rightarrow> bool" where
  "aligned4 a \<longleftrightarrow> unat a mod 4 = 0"

text \<open>The bytes of a 32-bit register, the least significant first.\<close>

definition byte_of :: "u32 \<Rightarrow> nat \<Rightarrow> u8" where
  "byte_of w j = ucast (drop_bit (8 * j) w)"

definition memset :: "memory \<Rightarrow> u32 \<Rightarrow> u32 \<Rightarrow> nat \<Rightarrow> memory" where
  "memset m v c n =
     (if n = 0 then m
      else if aligned4 v \<and> n mod 4 = 0
      then let c = c AND 0xFF; c = push_bit 24 c OR push_bit 16 c OR push_bit 8 c OR c
           in rep_stos 4 (byte_of c) m v (n div 4)
      else rep_stos 1 (\<lambda>_. ucast c) m v n)"

definition memmove :: "memory \<Rightarrow> u32 \<Rightarrow> u32 \<Rightarrow> nat \<Rightarrow> memory" where
  "memmove m dst src n =
     (let k = word_of_nat n; words = aligned4 src \<and> aligned4 dst \<and> n mod 4 = 0;
          words' = aligned4 (src + k) \<and> aligned4 (dst + k) \<and> n mod 4 = 0
      in if src < dst \<and> dst < src + k
      then (if words' then rep_movs_down 4 m (dst + k - 4) (src + k - 4) (n div 4)
            else rep_movs_down 1 m (dst + k - 1) (src + k - 1) n)
      else (if words then rep_movs_up 4 m dst src (n div 4)
            else rep_movs_up 1 m dst src n))"

definition memcpy :: "memory \<Rightarrow> u32 \<Rightarrow> u32 \<Rightarrow> nat \<Rightarrow> memory" where
  "memcpy m dst src n = memmove m dst src n"

fun memcmp :: "memory \<Rightarrow> u32 \<Rightarrow> u32 \<Rightarrow> nat \<Rightarrow> int" where
  "memcmp m s1 s2 0 = 0"
| "memcmp m s1 s2 (Suc n) =
     (if m s1 \<noteq> m s2 then uint (m s1) - uint (m s2) else memcmp m (s1 + 1) (s2 + 1) n)"

function memfind_loop :: "memory \<Rightarrow> u32 \<Rightarrow> u32 \<Rightarrow> u8 \<Rightarrow> u32" where
  "memfind_loop m s ends c = (if s < ends \<and> m s \<noteq> c then memfind_loop m (s + 1) ends c else s)"
  by pat_completeness auto

termination
proof (relation "measure (\<lambda>(m, s, ends, c). unat ends - unat s)")
  fix m :: memory and s ends :: u32 and c :: u8
  assume "s < ends \<and> m s \<noteq> c"
  then have less: "s < ends" by simp
  then have "unat (s + 1) = Suc (unat s)" by unat_arith
  with less show "((m, s + 1, ends, c), (m, s, ends, c)) \<in> measure (\<lambda>(m, s, ends, c). unat ends - unat s)"
    by (simp add: word_less_nat_alt)
qed simp

declare memfind_loop.simps [simp del]

definition memfind :: "memory \<Rightarrow> u32 \<Rightarrow> u32 \<Rightarrow> nat \<Rightarrow> u32" where
  "memfind m s c n = memfind_loop m s (s + word_of_nat n) (ucast c)"

section \<open>Numbers\<close>

partial_function (option) skip_blanks :: "memory \<Rightarrow> u32 \<Rightarrow> u32 option" where
  "skip_blanks m s = (if m s = 32 \<or> m s = 9 then skip_blanks m (s + 1) else Some s)"

definition digit_value :: "u8 \<Rightarrow> int option" where
  "digit_value ch =
     (if 48 \<le> ch \<and> ch \<le> 57 then Some (uint ch - 48)
      else if 97 \<le> ch \<and> ch \<le> 122 then Some (uint ch - 97 + 10)
      else if 65 \<le> ch \<and> ch \<le> 90 then Some (uint ch - 65 + 10)
      else None)"

text \<open>\<open>val\<close> is a \<open>long\<close> of 32 bits; overflow wraps ("we don't properly detect overflow").\<close>

partial_function (option) strtol_digits :: "memory \<Rightarrow> u32 \<Rightarrow> u32 \<Rightarrow> int \<Rightarrow> (u32 \<times> u32) option" where
  "strtol_digits m s val base =
     (case digit_value (m s) of
        None \<Rightarrow> Some (val, s)
      | Some dig \<Rightarrow> if base \<le> dig then Some (val, s)
          else strtol_digits m (s + 1) (val * word_of_int base + word_of_int dig) base)"

definition strtol_sign :: "memory \<Rightarrow> u32 \<Rightarrow> bool \<times> u32" where
  "strtol_sign m s = (if m s = 43 then (False, s + 1) else if m s = 45 then (True, s + 1) else (False, s))"

definition strtol_prefix :: "memory \<Rightarrow> u32 \<Rightarrow> int \<Rightarrow> u32 \<times> int" where
  "strtol_prefix m s base =
     (if (base = 0 \<or> base = 16) \<and> m s = 48 \<and> m (s + 1) = 120 then (s + 2, 16)
      else if base = 0 \<and> m s = 48 then (s + 1, 8)
      else if base = 0 then (s, 10) else (s, base))"

text \<open>The value, and the pointer stored through \<open>endptr\<close>.\<close>

definition strtol :: "memory \<Rightarrow> u32 \<Rightarrow> int \<Rightarrow> (u32 \<times> u32) option" where
  "strtol m s base =
     Option.bind (skip_blanks m s) (\<lambda>s.
       let (neg, s) = strtol_sign m s; (s, base) = strtol_prefix m s base
       in map_option (\<lambda>(val, s). (if neg then - val else val, s)) (strtol_digits m s 0 base))"

end
