(* ===== verification/Printfmt.thy ===== *)
theory Printfmt
  imports CString
begin

text \<open>
  \<open>lib/printfmt.c\<close> and its two clients, \<open>kern/printf.c\<close> and \<open>lib/printf.c\<close>. The character
  sink \<open>putch\<close> is an argument, as in the code. A format is the list of its bytes before the
  terminator, a position in it an index; a variable argument list is a list of \<open>vararg\<close>, and
  reading one of another type is undefined.
\<close>

definition ascii :: "string \<Rightarrow> u8 list" where
  "ascii s = map of_char s"

datatype vararg = A_int u32 | A_quad u64 | A_str "u8 list option"

section \<open>Numbers\<close>

fun put_times :: "nat \<Rightarrow> (int \<Rightarrow> 'p \<Rightarrow> 'p) \<Rightarrow> int \<Rightarrow> 'p \<Rightarrow> 'p" where
  "put_times 0 putch ch p = p"
| "put_times (Suc n) putch ch p = put_times n putch ch (putch ch p)"

text \<open>The digits \<open>0123456789abcdef\<close>.\<close>

definition digit_char :: "nat \<Rightarrow> int" where
  "digit_char d = (if d < 10 then 48 + int d else 87 + int d)"

text \<open>Every call has base 8, 10 or 16; with a base below 2 the recursion would not end.\<close>

partial_function (option) printnum :: "(int \<Rightarrow> 'p \<Rightarrow> 'p) \<Rightarrow> 'p \<Rightarrow> nat \<Rightarrow> nat \<Rightarrow> int \<Rightarrow> int \<Rightarrow> 'p option" where
  "printnum putch p num base width padc =
     Option.bind
       (if base \<le> num then printnum putch p (num div base) base (width - 1) padc
        else Some (put_times (nat (width - 1)) putch padc p))
       (\<lambda>p. Some (putch (digit_char (num mod base)) p))"

definition getuint :: "vararg list \<Rightarrow> nat \<Rightarrow> (u64 \<times> vararg list) fallible" where
  "getuint ap lflag =
     (case ap of
        A_quad q # ap \<Rightarrow> if 2 \<le> lflag then Inr (q, ap) else Inl (KUndef ''va_arg'')
      | A_int w # ap \<Rightarrow> if 2 \<le> lflag then Inl (KUndef ''va_arg'') else Inr (ucast w, ap)
      | _ \<Rightarrow> Inl (KUndef ''va_arg''))"

definition getint :: "vararg list \<Rightarrow> nat \<Rightarrow> (u64 \<times> vararg list) fallible" where
  "getint ap lflag =
     (case ap of
        A_quad q # ap \<Rightarrow> if 2 \<le> lflag then Inr (q, ap) else Inl (KUndef ''va_arg'')
      | A_int w # ap \<Rightarrow> if 2 \<le> lflag then Inl (KUndef ''va_arg'') else Inr (scast w, ap)
      | _ \<Rightarrow> Inl (KUndef ''va_arg''))"

section \<open>Escape sequences\<close>

record flags =
  padc :: int
  width :: int
  precision :: int
  lflag :: nat
  altflag :: bool

definition no_flags :: flags where
  "no_flags = \<lparr>padc = 32, width = - 1, precision = - 1, lflag = 0, altflag = False\<rparr>"

definition char_at :: "u8 list \<Rightarrow> nat \<Rightarrow> u8" where
  "char_at fmt i = (if i < length fmt then fmt ! i else 0)"

definition process_precision :: "flags \<Rightarrow> flags" where
  "process_precision f = (if width f < 0 then f\<lparr>width := precision f, precision := - 1\<rparr> else f)"

text \<open>The digits of a width: \<open>i\<close> is the position after \<open>ch\<close>.\<close>

function parse_number :: "u8 list \<Rightarrow> u8 \<Rightarrow> nat \<Rightarrow> int \<Rightarrow> int \<times> nat" where
  "parse_number fmt ch i prec =
     (let prec = prec * 10 + uint ch - 48; ch' = char_at fmt i
      in if ch' < 48 \<or> 57 < ch' then (prec, i) else parse_number fmt ch' (i + 1) prec)"
  by pat_completeness auto

termination
  by (relation "measure (\<lambda>(fmt, ch, i, prec). length fmt - i)") (auto simp: char_at_def split: if_splits)

declare parse_number.simps [simp del]

text \<open>The flags and widths, after which the code jumps back to \<open>reswitch\<close>.\<close>

definition flag_step :: "u8 list \<Rightarrow> u8 \<Rightarrow> nat \<Rightarrow> flags \<Rightarrow> vararg list \<Rightarrow> (nat \<times> flags \<times> vararg list) fallible option" where
  "flag_step fmt ch i f ap =
     (if ch = 45 then Some (Inr (i, f\<lparr>padc := 45\<rparr>, ap))
      else if ch = 48 then Some (Inr (i, f\<lparr>padc := 48\<rparr>, ap))
      else if 49 \<le> ch \<and> ch \<le> 57
      then let (prec, i) = parse_number fmt ch i 0 in Some (Inr (i, process_precision (f\<lparr>precision := prec\<rparr>), ap))
      else if ch = 42
      then (case ap of A_int w # ap \<Rightarrow> Some (Inr (i, process_precision (f\<lparr>precision := sint w\<rparr>), ap))
              | _ \<Rightarrow> Some (Inl (KUndef ''va_arg'')))
      else if ch = 46 then Some (Inr (i, (if width f < 0 then f\<lparr>width := 0\<rparr> else f), ap))
      else if ch = 35 then Some (Inr (i, f\<lparr>altflag := True\<rparr>, ap))
      else if ch = 108 then Some (Inr (i, f\<lparr>lflag := lflag f + 1\<rparr>, ap))
      else None)"

definition error_string :: "int \<Rightarrow> string option" where
  "error_string err =
     (if err = 1 then Some ''unspecified error'' else if err = 2 then Some ''bad environment''
      else if err = 3 then Some ''invalid parameter'' else if err = 4 then Some ''out of memory''
      else if err = 5 then Some ''out of environments'' else if err = 6 then Some ''segmentation fault''
      else if err = 7 then Some ''env is not recving'' else if err = 8 then Some ''unexpected end of file''
      else None)"

definition put_number :: "(int \<Rightarrow> 'p \<Rightarrow> 'p) \<Rightarrow> u64 \<Rightarrow> nat \<Rightarrow> flags \<Rightarrow> 'p \<Rightarrow> 'p fallible" where
  "put_number putch num base f p =
     (case printnum putch p (unat num) base (width f) (padc f) of
        None \<Rightarrow> Inl (KUndef ''printnum'') | Some p \<Rightarrow> Inr p)"

text \<open>The characters of a string, with what is left of precision and width.\<close>

fun put_chars :: "(int \<Rightarrow> 'p \<Rightarrow> 'p) \<Rightarrow> bool \<Rightarrow> u8 list \<Rightarrow> int \<Rightarrow> int \<Rightarrow> 'p \<Rightarrow> 'p \<times> int" where
  "put_chars putch alt [] prec w p = (p, w)"
| "put_chars putch alt (ch # s) prec w p =
     (if prec < 0 \<or> 0 \<le> prec - 1
      then let prec' = (if prec < 0 then prec else prec - 1);
               c = (if alt \<and> (sint ch < 32 \<or> 126 < sint ch) then 63 else sint ch)
           in put_chars putch alt s prec' (w - 1) (putch c p)
      else (p, w))"

definition put_string :: "(int \<Rightarrow> 'p \<Rightarrow> 'p) \<Rightarrow> u8 list \<Rightarrow> flags \<Rightarrow> 'p \<Rightarrow> 'p" where
  "put_string putch s f p =
     (let n = (if precision f < 0 then length s else min (length s) (nat (precision f)));
          left = 0 < width f \<and> padc f \<noteq> 45;
          w = (if left then width f - int n else width f);
          p = (if left then put_times (nat w) putch (padc f) p else p);
          w = (if left then min w 0 else w);
          (p, w) = put_chars putch (altflag f) s (precision f) w p
      in put_times (nat w) putch 32 p)"

text \<open>
  The conversions proper. \<open>eh\<close> prints an error code: it is \<open>printfmt\<close> on one of two fixed
  formats, passed as an argument because \<open>printfmt\<close> is \<open>vprintfmt\<close> itself.
\<close>

definition conversion :: "(int \<Rightarrow> 'p \<Rightarrow> 'p) \<Rightarrow> (int \<Rightarrow> 'p \<Rightarrow> 'p fallible) \<Rightarrow> u8 \<Rightarrow> flags \<Rightarrow> vararg list \<Rightarrow> 'p
     \<Rightarrow> ('p \<times> vararg list) fallible option" where
  "conversion putch eh ch f ap p =
     (let number = (\<lambda>base (num, ap). andThen (put_number putch num base f p) (\<lambda>p. Inr (p, ap)))
      in if ch = 99 then Some (case ap of A_int w # ap \<Rightarrow> Inr (putch (sint w) p, ap) | _ \<Rightarrow> Inl (KUndef ''va_arg''))
      else if ch = 101
      then Some (case ap of A_int w # ap \<Rightarrow> andThen (eh \<bar>sint w\<bar> p) (\<lambda>p. Inr (p, ap)) | _ \<Rightarrow> Inl (KUndef ''va_arg''))
      else if ch = 115
      then Some (case ap of A_str s # ap \<Rightarrow>
                Inr (put_string putch (case s of None \<Rightarrow> ascii ''(null)'' | Some s \<Rightarrow> s) f p, ap)
              | _ \<Rightarrow> Inl (KUndef ''va_arg''))
      else if ch = 100
      then Some (andThen (getint ap (lflag f)) (\<lambda>(num, ap).
             if sint num < 0
             then andThen (put_number putch (- num) 10 f (putch 45 p)) (\<lambda>p. Inr (p, ap))
             else number 10 (num, ap)))
      else if ch = 117 then Some (andThen (getuint ap (lflag f)) (number 10))
      else if ch = 111 then Some (andThen (getuint ap (lflag f)) (number 8))
      else if ch = 112
      then Some (case ap of A_int w # ap \<Rightarrow>
                andThen (put_number putch (ucast w) 16 f (putch 120 (putch 48 p))) (\<lambda>p. Inr (p, ap))
              | _ \<Rightarrow> Inl (KUndef ''va_arg''))
      else if ch = 120 then Some (andThen (getuint ap (lflag f)) (number 16))
      else if ch = 37 then Some (Inr (putch 37 p, ap))
      else None)"

section \<open>The loop\<close>

text \<open>
  \<open>Lit i\<close>: copying at position \<open>i\<close>. \<open>Esc st k f\<close>: inside the escape whose \<open>%\<close> is just before
  \<open>st\<close>, about to read position \<open>st + k\<close>. An unknown escape prints the \<open>%\<close> and goes back to \<open>st\<close>.
\<close>

datatype phase = Lit nat | Esc nat nat flags

lemma parse_number_pos: "parse_number fmt ch i prec = (prec', j) \<Longrightarrow> i \<le> j"
  by (induction fmt ch i prec rule: parse_number.induct) (subst (asm) (2) parse_number.simps, force simp: Let_def split: if_splits)

lemma flag_step_pos: "flag_step fmt ch i f ap = Some (Inr (j, f', ap')) \<Longrightarrow> i \<le> j \<and> ch \<noteq> 0"
  by (auto simp: flag_step_def dest: parse_number_pos split: if_splits prod.splits list.splits vararg.splits)

lemma char_at_pos: "char_at fmt i \<noteq> 0 \<Longrightarrow> i < length fmt"
  by (simp add: char_at_def split: if_splits)

function (sequential) fmt_loop :: "(int \<Rightarrow> 'p \<Rightarrow> 'p) \<Rightarrow> (int \<Rightarrow> 'p \<Rightarrow> 'p fallible) \<Rightarrow> u8 list \<Rightarrow> phase
     \<Rightarrow> vararg list \<Rightarrow> 'p \<Rightarrow> 'p fallible" where
  "fmt_loop putch eh fmt (Lit i) ap p =
     (let ch = char_at fmt i
      in if ch = 37 then fmt_loop putch eh fmt (Esc (i + 1) 0 no_flags) ap p
         else if ch = 0 then Inr p
         else fmt_loop putch eh fmt (Lit (i + 1)) ap (putch (uint ch) p))"
| "fmt_loop putch eh fmt (Esc st k f) ap p =
     (let ch = char_at fmt (st + k); i = st + k + 1
      in case flag_step fmt ch i f ap of
           Some (Inl e) \<Rightarrow> Inl e
         | Some (Inr (j, f, ap)) \<Rightarrow> fmt_loop putch eh fmt (Esc st (j - st) f) ap p
         | None \<Rightarrow> (case conversion putch eh ch f ap p of
               Some (Inl e) \<Rightarrow> Inl e
             | Some (Inr (p, ap)) \<Rightarrow> fmt_loop putch eh fmt (Lit i) ap p
             | None \<Rightarrow> fmt_loop putch eh fmt (Lit st) ap (putch 37 p)))"
  by pat_completeness auto

termination
  by (relation "inv_image (less_than <*lex*> less_than)
      (\<lambda>(putch, eh, fmt, ph, ap, p). case ph of
          Lit i \<Rightarrow> (2 * (length fmt + 1 - i), 0)
        | Esc st k f \<Rightarrow> (2 * (length fmt + 1 - st) + 1, length fmt - (st + k)))")
    (auto dest!: flag_step_pos char_at_pos simp: char_at_def split: if_splits)

declare fmt_loop.simps [simp del]

text \<open>The inner \<open>printfmt\<close> calls have formats without \<open>%e\<close>, so their own handler is never used.\<close>

definition put_error :: "(int \<Rightarrow> 'p \<Rightarrow> 'p) \<Rightarrow> int \<Rightarrow> 'p \<Rightarrow> 'p fallible" where
  "put_error putch err p =
     (case error_string err of
        None \<Rightarrow> fmt_loop putch (\<lambda>_ p. Inr p) (ascii ''error %d'') (Lit 0) [A_int (word_of_int err)] p
      | Some s \<Rightarrow> fmt_loop putch (\<lambda>_ p. Inr p) (ascii ''%s'') (Lit 0) [A_str (Some (ascii s))] p)"

definition vprintfmt :: "(int \<Rightarrow> 'p \<Rightarrow> 'p) \<Rightarrow> 'p \<Rightarrow> u8 list \<Rightarrow> vararg list \<Rightarrow> 'p fallible" where
  "vprintfmt putch p fmt ap = fmt_loop putch (put_error putch) fmt (Lit 0) ap p"

definition printfmt :: "(int \<Rightarrow> 'p \<Rightarrow> 'p) \<Rightarrow> 'p \<Rightarrow> u8 list \<Rightarrow> vararg list \<Rightarrow> 'p fallible" where
  "printfmt putch p fmt ap = vprintfmt putch p fmt ap"

section \<open>Printing into a buffer\<close>

record sprintbuf =
  buf :: u32
  ebuf :: u32
  cnt :: int
  bytes :: memory

definition sprintputch :: "int \<Rightarrow> sprintbuf \<Rightarrow> sprintbuf" where
  "sprintputch ch b =
     (let b = b\<lparr>cnt := cnt b + 1\<rparr>
      in if buf b < ebuf b then b\<lparr>bytes := (bytes b)(buf b := word_of_int ch), buf := buf b + 1\<rparr> else b)"

text \<open>The result and the memory; \<open>-3\<close> is \<open>-E_INVAL\<close>.\<close>

definition vsnprintf :: "memory \<Rightarrow> u32 \<Rightarrow> int \<Rightarrow> u8 list \<Rightarrow> vararg list \<Rightarrow> (int \<times> memory) fallible" where
  "vsnprintf m b n fmt ap =
     (let sb = \<lparr>buf = b, ebuf = b + word_of_int n - 1, cnt = 0, bytes = m\<rparr>
      in if b = 0 \<or> n < 1 then Inr (- 3, m)
         else andThen (vprintfmt sprintputch sb fmt ap)
                (\<lambda>sb. Inr (cnt sb, (bytes sb)(buf sb := 0))))"

definition snprintf :: "memory \<Rightarrow> u32 \<Rightarrow> int \<Rightarrow> u8 list \<Rightarrow> vararg list \<Rightarrow> (int \<times> memory) fallible" where
  "snprintf m b n fmt ap = vsnprintf m b n fmt ap"

section \<open>Printing to the console\<close>

text \<open>\<open>kern/printf.c\<close>: characters go one by one to \<open>cputchar\<close>, here an argument.\<close>

definition kern_putch :: "(int \<Rightarrow> 'c \<Rightarrow> 'c) \<Rightarrow> int \<Rightarrow> 'c \<times> int \<Rightarrow> 'c \<times> int" where
  "kern_putch cputchar ch p = (cputchar ch (fst p), snd p + 1)"

definition kern_vcprintf :: "(int \<Rightarrow> 'c \<Rightarrow> 'c) \<Rightarrow> 'c \<Rightarrow> u8 list \<Rightarrow> vararg list \<Rightarrow> ('c \<times> int) fallible" where
  "kern_vcprintf cputchar c fmt ap = vprintfmt (kern_putch cputchar) (c, 0) fmt ap"

text \<open>
  \<open>lib/printf.c\<close>: a user environment collects up to 255 characters, then hands them to the
  system call \<open>sys_cputs\<close>. The record keeps the list of such calls made so far.
\<close>

record printbuf =
  idx :: nat
  pcnt :: int
  chars :: "u8 list"
  cputs :: "u8 list list"

definition user_putch :: "int \<Rightarrow> printbuf \<Rightarrow> printbuf" where
  "user_putch ch b =
     (let b = b\<lparr>chars := (chars b)[idx b := word_of_int ch], idx := idx b + 1\<rparr>;
          b = (if idx b = 256 - 1 then b\<lparr>cputs := cputs b @ [take (idx b) (chars b)], idx := 0\<rparr> else b)
      in b\<lparr>pcnt := pcnt b + 1\<rparr>)"

definition user_vcprintf :: "u8 list \<Rightarrow> u8 list \<Rightarrow> vararg list \<Rightarrow> (int \<times> u8 list list) fallible" where
  "user_vcprintf garbage fmt ap =
     andThen (vprintfmt user_putch \<lparr>idx = 0, pcnt = 0, chars = garbage, cputs = []\<rparr> fmt ap)
       (\<lambda>b. Inr (pcnt b, cputs b @ [take (idx b) (chars b)]))"

end
