(* ===== verification/Console.thy ===== *)
theory Console
  imports Printfmt
begin

text \<open>
  \<open>kern/console.c\<close> with \<open>kern/picirq.c\<close>: the serial, parallel, display and keyboard devices
  behind port reads and writes, and the circular input buffer. What the hardware answers is
  part of the state: a queue of bytes per port, and the byte a port gives when its queue is
  empty. Port writes are logged. A polling loop that the hardware could keep busy for ever is
  partial.
\<close>

section \<open>State and ports\<close>

record console =
  feed :: "u32 \<Rightarrow> u8 list"
  idle :: "u32 \<Rightarrow> u8"
  sent :: "(u32 \<times> u8) list"
  serial_exists :: bool
  addr_6845 :: u32
  crt_buf :: "nat \<Rightarrow> u16"
  crt_pos :: u16
  shift :: u32
  cons_buf :: "u8 list"
  rpos :: nat
  wpos :: nat
  irq_mask_8259A :: u16
  didinit :: bool

definition inb :: "u32 \<Rightarrow> console \<Rightarrow> u8 \<times> console" where
  "inb port s =
     (case feed s port of
        [] \<Rightarrow> (idle s port, s)
      | b # bs \<Rightarrow> (b, s\<lparr>feed := (feed s)(port := bs)\<rparr>))"

definition outb :: "u32 \<Rightarrow> u8 \<Rightarrow> console \<Rightarrow> console" where
  "outb port b s = s\<lparr>sent := sent s @ [(port, b)]\<rparr>"

definition delay :: "console \<Rightarrow> console" where
  "delay s = snd (inb 0x84 (snd (inb 0x84 (snd (inb 0x84 (snd (inb 0x84 s)))))))"

definition COM1 :: u32 where [simp]: "COM1 = 0x3F8"
definition COM_RX :: u32 where [simp]: "COM_RX = 0"
definition COM_TX :: u32 where [simp]: "COM_TX = 0"
definition COM_DLL :: u32 where [simp]: "COM_DLL = 0"
definition COM_DLM :: u32 where [simp]: "COM_DLM = 1"
definition COM_IER :: u32 where [simp]: "COM_IER = 1"
definition COM_IER_RDI :: u8 where [simp]: "COM_IER_RDI = 0x01"
definition COM_IIR :: u32 where [simp]: "COM_IIR = 2"
definition COM_FCR :: u32 where [simp]: "COM_FCR = 2"
definition COM_LCR :: u32 where [simp]: "COM_LCR = 3"
definition COM_LCR_DLAB :: u8 where [simp]: "COM_LCR_DLAB = 0x80"
definition COM_LCR_WLEN8 :: u8 where [simp]: "COM_LCR_WLEN8 = 0x03"
definition COM_MCR :: u32 where [simp]: "COM_MCR = 4"
definition COM_LSR :: u32 where [simp]: "COM_LSR = 5"
definition COM_LSR_DATA :: u8 where [simp]: "COM_LSR_DATA = 0x01"
definition COM_LSR_TXRDY :: u8 where [simp]: "COM_LSR_TXRDY = 0x20"

section \<open>The input buffer\<close>

definition CONSBUFSIZE :: nat where [simp]: "CONSBUFSIZE = 512"

text \<open>The store of one character, and its removal.\<close>

definition cons_store :: "u8 \<Rightarrow> console \<Rightarrow> console" where
  "cons_store c s =
     (let s = s\<lparr>cons_buf := (cons_buf s)[wpos s := c], wpos := wpos s + 1\<rparr>
      in if wpos s = CONSBUFSIZE then s\<lparr>wpos := 0\<rparr> else s)"

definition cons_take :: "console \<Rightarrow> u8 option \<times> console" where
  "cons_take s =
     (if rpos s \<noteq> wpos s
      then let c = cons_buf s ! rpos s; s = s\<lparr>rpos := rpos s + 1\<rparr>
           in (Some c, if rpos s = CONSBUFSIZE then s\<lparr>rpos := 0\<rparr> else s)
      else (None, s))"

text \<open>The device's \<open>proc\<close> returns \<open>-1\<close> when it has nothing, and 0 when no character is complete.\<close>

partial_function (option) cons_intr :: "(console \<Rightarrow> int \<times> console) \<Rightarrow> console \<Rightarrow> console option" where
  "cons_intr proc s =
     (let (c, s) = proc s
      in if c = - 1 then Some s
         else if c = 0 then cons_intr proc s
         else cons_intr proc (cons_store (word_of_int c) s))"

section \<open>Serial and parallel ports\<close>

definition serial_proc_data :: "console \<Rightarrow> int \<times> console" where
  "serial_proc_data s =
     (let (lsr, s) = inb (COM1 + COM_LSR) s
      in if lsr AND COM_LSR_DATA = 0 then (- 1, s)
         else let (c, s) = inb (COM1 + COM_RX) s in (uint c, s))"

definition serial_intr :: "console \<Rightarrow> console option" where
  "serial_intr s = (if serial_exists s then cons_intr serial_proc_data s else Some s)"

fun wait_port :: "u32 \<Rightarrow> u8 \<Rightarrow> nat \<Rightarrow> console \<Rightarrow> console" where
  "wait_port port ready 0 s = snd (inb port s)"
| "wait_port port ready (Suc n) s =
     (let (v, s) = inb port s in if v AND ready = 0 then wait_port port ready n (delay s) else s)"

definition serial_putc :: "u32 \<Rightarrow> console \<Rightarrow> console" where
  "serial_putc c s = outb (COM1 + COM_TX) (ucast c) (wait_port (COM1 + COM_LSR) COM_LSR_TXRDY 12800 s)"

definition serial_init :: "console \<Rightarrow> console" where
  "serial_init s =
     (let s = outb (COM1 + COM_FCR) 0 s;
          s = outb (COM1 + COM_LCR) COM_LCR_DLAB s;
          s = outb (COM1 + COM_DLL) 12 s;
          s = outb (COM1 + COM_DLM) 0 s;
          s = outb (COM1 + COM_LCR) (COM_LCR_WLEN8 AND NOT COM_LCR_DLAB) s;
          s = outb (COM1 + COM_MCR) 0 s;
          s = outb (COM1 + COM_IER) COM_IER_RDI s;
          (lsr, s) = inb (COM1 + COM_LSR) s;
          s = s\<lparr>serial_exists := lsr \<noteq> 0xFF\<rparr>
      in snd (inb (COM1 + COM_RX) (snd (inb (COM1 + COM_IIR) s))))"

definition lpt_putc :: "u32 \<Rightarrow> console \<Rightarrow> console" where
  "lpt_putc c s = outb 0x37A 0x08 (outb 0x37A 0x0D (outb 0x378 (ucast c) (wait_port 0x379 0x80 12800 s)))"

section \<open>The display\<close>

definition MONO_BASE :: u32 where [simp]: "MONO_BASE = 0x3B4"
definition CGA_BASE :: u32 where [simp]: "CGA_BASE = 0x3D4"
definition CRT_ROWS :: nat where [simp]: "CRT_ROWS = 25"
definition CRT_COLS :: nat where [simp]: "CRT_COLS = 80"
definition CRT_SIZE :: nat where [simp]: "CRT_SIZE = 2000"

text \<open>\<open>colour\<close>: the memory at the colour buffer answers the probe. \<open>crt_buf\<close> is the chosen buffer.\<close>

definition cga_init :: "bool \<Rightarrow> console \<Rightarrow> console" where
  "cga_init colour s =
     (let s = s\<lparr>addr_6845 := (if colour then CGA_BASE else MONO_BASE)\<rparr>;
          s = outb (addr_6845 s) 14 s;
          (hi, s) = inb (addr_6845 s + 1) s;
          s = outb (addr_6845 s) 15 s;
          (lo, s) = inb (addr_6845 s + 1) s
      in s\<lparr>crt_pos := push_bit 8 (ucast hi) OR ucast lo\<rparr>)"

definition crt_scroll :: "console \<Rightarrow> console" where
  "crt_scroll s =
     (if CRT_SIZE \<le> unat (crt_pos s)
      then s\<lparr>crt_buf := (\<lambda>i. if i < CRT_SIZE - CRT_COLS then crt_buf s (i + CRT_COLS)
                 else if i < CRT_SIZE then 0x0720 else crt_buf s i),
               crt_pos := crt_pos s - 80\<rparr>
      else s)"

definition crt_cursor :: "console \<Rightarrow> console" where
  "crt_cursor s =
     outb (addr_6845 s + 1) (ucast (crt_pos s)) (outb (addr_6845 s) 15
       (outb (addr_6845 s + 1) (ucast (drop_bit 8 (crt_pos s))) (outb (addr_6845 s) 14 s)))"

definition crt_return :: "console \<Rightarrow> console" where
  "crt_return s = s\<lparr>crt_pos := crt_pos s - crt_pos s mod 80\<rparr>"

text \<open>
  The body of \<open>cga_putc\<close>. A tab calls \<open>cons_putc(' ')\<close> five times, which comes back here with
  a space; so the tab action is an argument, and the inner calls never use theirs.
\<close>

definition cga_body :: "(console \<Rightarrow> console) \<Rightarrow> u32 \<Rightarrow> console \<Rightarrow> console" where
  "cga_body tab c s =
     (let c = (if c AND NOT 0xFF = 0 then c OR 0x0700 else c);
          k = c AND 0xFF;
          s = (if k = 8
               then (if 0 < crt_pos s
                     then let s = s\<lparr>crt_pos := crt_pos s - 1\<rparr>
                          in s\<lparr>crt_buf := (crt_buf s)(unat (crt_pos s) := ucast (c AND NOT 0xFF OR 32))\<rparr>
                     else s)
               else if k = 10 then crt_return (s\<lparr>crt_pos := crt_pos s + 80\<rparr>)
               else if k = 13 then crt_return s
               else if k = 9 then tab s
               else s\<lparr>crt_buf := (crt_buf s)(unat (crt_pos s) := ucast c), crt_pos := crt_pos s + 1\<rparr>)
      in crt_cursor (crt_scroll s))"

definition put_space :: "console \<Rightarrow> console" where
  "put_space s = cga_body (\<lambda>s. s) 32 (lpt_putc 32 (serial_putc 32 s))"

definition cga_putc :: "u32 \<Rightarrow> console \<Rightarrow> console" where
  "cga_putc c s = cga_body (\<lambda>s. put_space (put_space (put_space (put_space (put_space s))))) c s"

definition cons_putc :: "u32 \<Rightarrow> console \<Rightarrow> console" where
  "cons_putc c s = cga_putc c (lpt_putc c (serial_putc c s))"

definition cputchar :: "int \<Rightarrow> console \<Rightarrow> console" where
  "cputchar c s = cons_putc (word_of_int c) s"

text \<open>\<open>cprintf\<close> in the kernel.\<close>

definition cprintf :: "string \<Rightarrow> vararg list \<Rightarrow> console \<Rightarrow> console fallible" where
  "cprintf fmt ap s = andThen (kern_vcprintf cputchar s (ascii fmt) ap) (\<lambda>(s, n). Inr s)"

section \<open>The keyboard\<close>

definition KBSTATP :: u32 where [simp]: "KBSTATP = 0x64"
definition KBDATAP :: u32 where [simp]: "KBDATAP = 0x60"
definition KBS_DIB :: u8 where [simp]: "KBS_DIB = 0x01"
definition KBS_TERR :: u8 where [simp]: "KBS_TERR = 0x20"
definition KEY_HOME :: u8 where [simp]: "KEY_HOME = 0xE0"
definition KEY_END :: u8 where [simp]: "KEY_END = 0xE1"
definition KEY_UP :: u8 where [simp]: "KEY_UP = 0xE2"
definition KEY_DN :: u8 where [simp]: "KEY_DN = 0xE3"
definition KEY_LF :: u8 where [simp]: "KEY_LF = 0xE4"
definition KEY_RT :: u8 where [simp]: "KEY_RT = 0xE5"
definition KEY_PGUP :: u8 where [simp]: "KEY_PGUP = 0xE6"
definition KEY_PGDN :: u8 where [simp]: "KEY_PGDN = 0xE7"
definition KEY_INS :: u8 where [simp]: "KEY_INS = 0xE8"
definition KEY_DEL :: u8 where [simp]: "KEY_DEL = 0xE9"

definition SHIFT :: u32 where [simp]: "SHIFT = 1"
definition CTL :: u32 where [simp]: "CTL = 2"
definition ALT :: u32 where [simp]: "ALT = 4"
definition CAPSLOCK :: u32 where [simp]: "CAPSLOCK = 8"
definition NUMLOCK :: u32 where [simp]: "NUMLOCK = 16"
definition SCROLLLOCK :: u32 where [simp]: "SCROLLLOCK = 32"
definition E0ESC :: u32 where [simp]: "E0ESC = 64"

definition shiftcode :: "u8 \<Rightarrow> u32" where
  "shiftcode d =
     (if d = 0x1D then CTL else if d = 0x2A then SHIFT else if d = 0x36 then SHIFT
      else if d = 0x38 then ALT else if d = 0x9D then CTL else if d = 0xB8 then ALT else 0)"

definition togglecode :: "u8 \<Rightarrow> u32" where
  "togglecode d =
     (if d = 0x3A then CAPSLOCK else if d = 0x45 then NUMLOCK else if d = 0x46 then SCROLLLOCK else 0)"

text \<open>A table of 256 entries: a first row of codes, then single entries, zero elsewhere.\<close>

definition key_table :: "u8 list \<Rightarrow> (u8 \<times> u8) list \<Rightarrow> u8 \<Rightarrow> u8" where
  "key_table row entries d =
     (if unat d < length row then row ! unat d
      else case map_of entries d of None \<Rightarrow> 0 | Some c \<Rightarrow> c)"

definition normalmap :: "u8 \<Rightarrow> u8" where
  "normalmap = key_table
   [0, 27, 49, 50, 51, 52, 53, 54, 55, 56, 57, 48, 45, 61, 8, 9, 113, 119, 101, 114, 116, 121, 117,
    105, 111, 112, 91, 93, 10, 0, 97, 115, 100, 102, 103, 104, 106, 107, 108, 59, 39, 96, 0, 92,
    122, 120, 99, 118, 98, 110, 109, 44, 46, 47, 0, 42, 0, 32, 0, 0, 0, 0, 0, 0, 0, 0, 0, 0, 0,
    0, 0, 55, 56, 57, 45, 52, 53, 54, 43, 49, 50, 51, 48, 46, 0, 0, 0, 0]
     [(0xC7, KEY_HOME), (0x9C, 10), (0xB5, 47), (0xC8, KEY_UP), (0xC9, KEY_PGUP), (0xCB, KEY_LF),
      (0xCD, KEY_RT), (0xCF, KEY_END), (0xD0, KEY_DN), (0xD1, KEY_PGDN), (0xD2, KEY_INS), (0xD3, KEY_DEL)]"

definition shiftmap :: "u8 \<Rightarrow> u8" where
  "shiftmap = key_table
   [0, 27, 33, 64, 35, 36, 37, 94, 38, 42, 40, 41, 95, 43, 8, 9, 81, 87, 69, 82, 84, 89, 85, 73,
    79, 80, 123, 125, 10, 0, 65, 83, 68, 70, 71, 72, 74, 75, 76, 58, 34, 126, 0, 124, 90, 88, 67,
    86, 66, 78, 77, 60, 62, 63, 0, 42, 0, 32, 0, 0, 0, 0, 0, 0, 0, 0, 0, 0, 0, 0, 0, 55, 56, 57,
    45, 52, 53, 54, 43, 49, 50, 51, 48, 46, 0, 0, 0, 0]
     [(0xC7, KEY_HOME), (0x9C, 10), (0xB5, 47), (0xC8, KEY_UP), (0xC9, KEY_PGUP), (0xCB, KEY_LF),
      (0xCD, KEY_RT), (0xCF, KEY_END), (0xD0, KEY_DN), (0xD1, KEY_PGDN), (0xD2, KEY_INS), (0xD3, KEY_DEL)]"

definition ctlmap :: "u8 \<Rightarrow> u8" where
  "ctlmap = key_table
   [0, 0, 0, 0, 0, 0, 0, 0, 0, 0, 0, 0, 0, 0, 0, 0, 17, 23, 5, 18, 20, 25, 21, 9, 15, 16, 0, 0,
    13, 0, 1, 19, 4, 6, 7, 8, 10, 11, 12, 0, 0, 0, 0, 28, 26, 24, 3, 22, 2, 14, 13, 0, 0, 239, 0,
    0]
     [(0x97, KEY_HOME), (0xB5, 239), (0xC8, KEY_UP), (0xC9, KEY_PGUP), (0xCB, KEY_LF),
      (0xCD, KEY_RT), (0xCF, KEY_END), (0xD0, KEY_DN), (0xD1, KEY_PGDN), (0xD2, KEY_INS), (0xD3, KEY_DEL)]"

text \<open>The table for the control and shift bits; both together use the control map.\<close>

definition charcode :: "u32 \<Rightarrow> u8 \<Rightarrow> u8" where
  "charcode k = (if k = 0 then normalmap else if k = 1 then shiftmap else ctlmap)"

text \<open>The letter case after caps lock, and the scan code after the escape and modifier keys.\<close>

definition caps :: "u32 \<Rightarrow> u8 \<Rightarrow> u8" where
  "caps sh c =
     (if sh AND CAPSLOCK = 0 then c
      else if 97 \<le> c \<and> c \<le> 122 then c - 32
      else if 65 \<le> c \<and> c \<le> 90 then c + 32 else c)"

definition kbd_key :: "u8 \<Rightarrow> console \<Rightarrow> int \<times> console" where
  "kbd_key data s =
     (if data = 0xE0 then (0, s\<lparr>shift := shift s OR E0ESC\<rparr>)
      else if data AND 0x80 \<noteq> 0
      then let data = (if shift s AND E0ESC \<noteq> 0 then data else data AND 0x7F)
           in (0, s\<lparr>shift := shift s AND NOT (shiftcode data OR E0ESC)\<rparr>)
      else
        let (data, sh) = (if shift s AND E0ESC \<noteq> 0 then (data OR 0x80, shift s AND NOT E0ESC)
                          else (data, shift s));
            sh = (sh OR shiftcode data) XOR togglecode data;
            c = caps sh (charcode (sh AND (CTL OR SHIFT)) data);
            s = s\<lparr>shift := sh\<rparr>;
            s = (if NOT sh AND (CTL OR ALT) = 0 \<and> c = KEY_DEL
                 then (case cprintf ''Rebooting!\<newline>'' [] s of Inr s \<Rightarrow> outb 0x92 0x3 s | Inl _ \<Rightarrow> s)
                 else s)
        in (uint c, s))"

definition kbd_proc_data :: "console \<Rightarrow> int \<times> console" where
  "kbd_proc_data s =
     (let (stat, s) = inb KBSTATP s
      in if stat AND KBS_DIB = 0 then (- 1, s)
         else if stat AND KBS_TERR \<noteq> 0 then (- 1, s)
         else let (data, s) = inb KBDATAP s in kbd_key data s)"

definition kbd_intr :: "console \<Rightarrow> console option" where
  "kbd_intr s = cons_intr kbd_proc_data s"

section \<open>Interrupt mask (picirq.c)\<close>

definition IO_PIC1 :: u32 where [simp]: "IO_PIC1 = 0x20"
definition IO_PIC2 :: u32 where [simp]: "IO_PIC2 = 0xA0"
definition IRQ_SLAVE :: nat where [simp]: "IRQ_SLAVE = 2"

fun print_irqs :: "u16 \<Rightarrow> nat list \<Rightarrow> console \<Rightarrow> console fallible" where
  "print_irqs m [] s = Inr s"
| "print_irqs m (i # is) s =
     (if bit m i then print_irqs m is s
      else andThen (cprintf '' %d'' [A_int (word_of_nat i)] s) (print_irqs m is))"

definition irq_setmask_8259A :: "u16 \<Rightarrow> console \<Rightarrow> console fallible" where
  "irq_setmask_8259A m s =
     (let s = s\<lparr>irq_mask_8259A := m\<rparr>
      in if \<not> didinit s then Inr s
         else let s = outb (IO_PIC1 + 1) (ucast m) s;
                  s = outb (IO_PIC2 + 1) (ucast (drop_bit 8 m)) s
              in andThen (cprintf ''enabled interrupts:'' [] s) (\<lambda>s.
                 andThen (print_irqs m [0..<16] s) (\<lambda>s. cprintf ''\<newline>'' [] s)))"

fun outs :: "(u32 \<times> u8) list \<Rightarrow> console \<Rightarrow> console" where
  "outs [] s = s"
| "outs ((port, b) # ws) s = outs ws (outb port b s)"

definition pic_init :: "console \<Rightarrow> console fallible" where
  "pic_init s =
     (let s = s\<lparr>didinit := True\<rparr>;
          s = outs [(IO_PIC1 + 1, 0xFF), (IO_PIC2 + 1, 0xFF),
                    (IO_PIC1, 0x11), (IO_PIC1 + 1, 32), (IO_PIC1 + 1, 4), (IO_PIC1 + 1, 0x3),
                    (IO_PIC2, 0x11), (IO_PIC2 + 1, 40), (IO_PIC2 + 1, 2), (IO_PIC2 + 1, 0x01),
                    (IO_PIC1, 0x68), (IO_PIC1, 0x0a), (IO_PIC2, 0x68), (IO_PIC2, 0x0a)] s
      in if irq_mask_8259A s \<noteq> 0xFFFF then irq_setmask_8259A (irq_mask_8259A s) s else Inr s)"

section \<open>The console as a whole\<close>

definition kbd_init :: "console \<Rightarrow> console fallible option" where
  "kbd_init s = map_option (\<lambda>s. irq_setmask_8259A (irq_mask_8259A s AND NOT 2) s) (kbd_intr s)"

definition cons_init :: "bool \<Rightarrow> console \<Rightarrow> console fallible option" where
  "cons_init colour s =
     map_option (\<lambda>r. andThen r (\<lambda>s.
         let s = serial_init s
         in if \<not> serial_exists s then cprintf ''Serial port does not exist!\<newline>'' [] s else Inr s))
       (kbd_init (cga_init colour s))"

definition cons_getc :: "console \<Rightarrow> (int \<times> console) option" where
  "cons_getc s =
     Option.bind (serial_intr s) (\<lambda>s. Option.bind (kbd_intr s) (\<lambda>s.
       Some (case cons_take s of (Some c, s) \<Rightarrow> (uint c, s) | (None, s) \<Rightarrow> (0, s))))"

partial_function (option) getchar :: "console \<Rightarrow> (int \<times> console) option" where
  "getchar s = Option.bind (cons_getc s) (\<lambda>(c, s). if c = 0 then getchar s else Some (c, s))"

definition iscons :: "int \<Rightarrow> int" where
  "iscons fdnum = 1"

end
