(* ===== verification/Multiproc.thy ===== *)
theory Multiproc
  imports PageTables Console
begin

text \<open>
  Several processors: the configuration tables of the firmware (\<open>kern/mpconfig.c\<close>), the local
  interrupt controller (\<open>kern/lapic.c\<close>) and the start of the other processors (\<open>boot_aps\<close> and
  \<open>mp_main\<close> of \<open>kern/init.c\<close>). \<open>m\<close> is the physical memory by bytes; a pointer into it is a
  physical address, and \<open>KADDR\<close> only checks that the memory exists.
\<close>

section \<open>mpconfig.c\<close>

definition le16 :: "memory \<Rightarrow> u32 \<Rightarrow> u32" where
  "le16 m a = ucast (m a) + 256 * ucast (m (a + 1))"

definition le32 :: "memory \<Rightarrow> u32 \<Rightarrow> u32" where
  "le32 m a = le16 m a + 65536 * le16 m (a + 2)"

definition sig_at :: "memory \<Rightarrow> u32 \<Rightarrow> string \<Rightarrow> bool" where
  "sig_at m a sig \<longleftrightarrow> (\<forall>i<length sig. m (a + word_of_nat i) = of_char (sig ! i))"

fun sum_bytes :: "memory \<Rightarrow> u32 \<Rightarrow> nat \<Rightarrow> u8" where
  "sum_bytes m a 0 = 0"
| "sum_bytes m a (Suc n) = m a + sum_bytes m (a + 1) n"

text \<open>The fields of \<open>struct mp\<close>, \<open>struct mpconf\<close> and \<open>struct mpproc\<close>, by their offsets.\<close>

definition mp_physaddr :: "memory \<Rightarrow> u32 \<Rightarrow> u32" where "mp_physaddr m mp = le32 m (mp + 4)"
definition mp_type :: "memory \<Rightarrow> u32 \<Rightarrow> u8" where "mp_type m mp = m (mp + 11)"
definition mp_imcrp :: "memory \<Rightarrow> u32 \<Rightarrow> u8" where "mp_imcrp m mp = m (mp + 12)"
definition conf_length :: "memory \<Rightarrow> u32 \<Rightarrow> u32" where "conf_length m conf = le16 m (conf + 4)"
definition conf_version :: "memory \<Rightarrow> u32 \<Rightarrow> u8" where "conf_version m conf = m (conf + 6)"
definition conf_entry :: "memory \<Rightarrow> u32 \<Rightarrow> u32" where "conf_entry m conf = le16 m (conf + 34)"
definition conf_lapicaddr :: "memory \<Rightarrow> u32 \<Rightarrow> u32" where "conf_lapicaddr m conf = le32 m (conf + 36)"
definition conf_xlength :: "memory \<Rightarrow> u32 \<Rightarrow> u32" where "conf_xlength m conf = le16 m (conf + 40)"
definition conf_xchecksum :: "memory \<Rightarrow> u32 \<Rightarrow> u8" where "conf_xchecksum m conf = m (conf + 42)"
definition conf_entries :: "u32 \<Rightarrow> u32" where "conf_entries conf = conf + 44"
definition proc_flags :: "memory \<Rightarrow> u32 \<Rightarrow> u8" where "proc_flags m p = m (p + 3)"

definition MPPROC :: u8 where [simp]: "MPPROC = 0"
definition MPBUS :: u8 where [simp]: "MPBUS = 1"
definition MPIOAPIC :: u8 where [simp]: "MPIOAPIC = 2"
definition MPIOINTR :: u8 where [simp]: "MPIOINTR = 3"
definition MPLINTR :: u8 where [simp]: "MPLINTR = 4"
definition MPPROC_BOOT :: u8 where [simp]: "MPPROC_BOOT = 2"

definition is_mp :: "memory \<Rightarrow> u32 \<Rightarrow> bool" where
  "is_mp m a \<longleftrightarrow> sig_at m a ''_MP_'' \<and> sum_bytes m a 16 = 0"

text \<open>\<open>n\<close> structures of 16 bytes fit before the end.\<close>

fun mpsearch_loop :: "memory \<Rightarrow> u32 \<Rightarrow> nat \<Rightarrow> u32 option" where
  "mpsearch_loop m a 0 = None"
| "mpsearch_loop m a (Suc n) = (if is_mp m a then Some a else mpsearch_loop m (a + 16) n)"

definition mpsearch1 :: "kstate \<Rightarrow> memory \<Rightarrow> u32 \<Rightarrow> nat \<Rightarrow> u32 option fallible" where
  "mpsearch1 s m a len = andThen (KADDR s a) (\<lambda>_. andThen (KADDR s (a + word_of_nat len)) (\<lambda>_.
     Inr (mpsearch_loop m a ((len + 15) div 16))))"

definition mpsearch :: "kstate \<Rightarrow> memory \<Rightarrow> u32 option fallible" where
  "mpsearch s m = andThen (KADDR s 0x400) (\<lambda>_.
     let p = le16 m (0x400 + 0x0E);
         a = (if p \<noteq> 0 then push_bit 4 p else le16 m (0x400 + 0x13) * 1024 - 1024)
     in andThen (mpsearch1 s m a 1024) (\<lambda>mp. case mp of
          Some mp \<Rightarrow> Inr (Some mp)
        | None \<Rightarrow> mpsearch1 s m 0xF0000 0x10000))"

text \<open>The table, or the message that says why there is none.\<close>

datatype mp_config = No_table | Rejected string | Table u32 u32

definition mpconfig :: "kstate \<Rightarrow> memory \<Rightarrow> mp_config fallible" where
  "mpconfig s m = andThen (mpsearch s m) (\<lambda>mp. case mp of
     None \<Rightarrow> Inr No_table
   | Some mp \<Rightarrow>
       if mp_physaddr m mp = 0 \<or> mp_type m mp \<noteq> 0 then Inr (Rejected ''Default configurations not implemented'')
       else andThen (KADDR s (mp_physaddr m mp)) (\<lambda>_.
         let conf = mp_physaddr m mp in
         if \<not> sig_at m conf ''PCMP'' then Inr (Rejected ''Incorrect MP configuration table signature'')
         else if sum_bytes m conf (unat (conf_length m conf)) \<noteq> 0 then Inr (Rejected ''Bad MP configuration checksum'')
         else if conf_version m conf \<noteq> 1 \<and> conf_version m conf \<noteq> 4 then Inr (Rejected ''Unsupported MP version'')
         else if sum_bytes m (conf + conf_length m conf) (unat (conf_xlength m conf)) + conf_xchecksum m conf \<noteq> 0
         then Inr (Rejected ''Bad MP configuration extended checksum'')
         else Inr (Table mp conf)))"

text \<open>The globals of \<open>mpconfig.c\<close> beside \<open>cpus\<close>; \<open>bootcpu\<close> is an index into \<open>cpus\<close>.\<close>

record smp =
  bootcpu :: nat
  ismp :: bool
  ncpu :: nat
  lapicaddr :: u32

definition add_cpu :: "memory \<Rightarrow> u32 \<Rightarrow> smp \<times> kstate \<Rightarrow> smp \<times> kstate" where
  "add_cpu m p = (\<lambda>(g, s).
     let g = (if proc_flags m p AND MPPROC_BOOT \<noteq> 0 then g\<lparr>bootcpu := ncpu g\<rparr> else g) in
     if ncpu g < NCPU
     then (g\<lparr>ncpu := ncpu g + 1\<rparr>, s\<lparr>cpus := (cpus s)(ncpu g := (cpus s (ncpu g))\<lparr>cpu_id := word_of_nat (ncpu g)\<rparr>)\<rparr>)
     else (g, s))"

fun mp_entries :: "memory \<Rightarrow> nat \<Rightarrow> u32 \<Rightarrow> smp \<times> kstate \<Rightarrow> smp \<times> kstate" where
  "mp_entries m 0 p gs = gs"
| "mp_entries m (Suc n) p gs =
     (if m p = MPPROC then mp_entries m n (p + 20) (add_cpu m p gs)
      else if m p = MPBUS \<or> m p = MPIOAPIC \<or> m p = MPIOINTR \<or> m p = MPLINTR then mp_entries m n (p + 8) gs
      else ((fst gs)\<lparr>ismp := False\<rparr>, snd gs))"

text \<open>\<open>imcr\<close> is what port \<open>0x23\<close> answers; the result includes the bytes written to ports.\<close>

definition mp_init :: "u8 \<Rightarrow> memory \<Rightarrow> smp \<Rightarrow> kstate \<Rightarrow> (smp \<times> kstate \<times> (u32 \<times> u8) list) fallible" where
  "mp_init imcr m g s =
     (let g = g\<lparr>bootcpu := 0\<rparr> in
      andThen (mpconfig s m) (\<lambda>r. case r of
        Table mp conf \<Rightarrow>
          (let (g, s) = mp_entries m (unat (conf_entry m conf)) (conf_entries conf)
                 (g\<lparr>ismp := True, lapicaddr := conf_lapicaddr m conf\<rparr>, s)
           in if NCPU \<le> bootcpu g then Inl (KUndef ''bootcpu outside cpus'')
              else let s = s\<lparr>cpus := (cpus s)(bootcpu g := (cpus s (bootcpu g))\<lparr>cpu_status := CPU_STARTED\<rparr>)\<rparr> in
              if \<not> ismp g then Inr (g\<lparr>ncpu := 1, lapicaddr := 0\<rparr>, s, [])
              else Inr (g, s, if mp_imcrp m mp \<noteq> 0 then [(0x22, 0x70), (0x23, imcr OR 1)] else []))
      | _ \<Rightarrow> Inr (g, s, [])))"

section \<open>lapic.c\<close>

text \<open>
  The unit of one processor: whether it is mapped, its identification and version registers, what
  the interrupt command register answers (\<open>icr_busy\<close> more times "delivery pending", or for ever),
  and the log of the words written, with their register numbers.
\<close>

record apic =
  apic_mapped :: bool
  apic_id :: u32
  apic_version :: u32
  icr_busy :: "nat option"
  apic_log :: "(nat \<times> u32) list"

definition ID :: nat where [simp]: "ID = 8"
definition VER :: nat where [simp]: "VER = 12"
definition TPR :: nat where [simp]: "TPR = 32"
definition EOI :: nat where [simp]: "EOI = 44"
definition SVR :: nat where [simp]: "SVR = 60"
definition ENABLE :: u32 where [simp]: "ENABLE = 0x100"
definition ESR :: nat where [simp]: "ESR = 160"
definition ICRLO :: nat where [simp]: "ICRLO = 192"
definition INIT :: u32 where [simp]: "INIT = 0x500"
definition STARTUP :: u32 where [simp]: "STARTUP = 0x600"
definition ASSERT :: u32 where [simp]: "ASSERT = 0x4000"
definition LEVEL :: u32 where [simp]: "LEVEL = 0x8000"
definition BCAST :: u32 where [simp]: "BCAST = 0x80000"
definition OTHERS :: u32 where [simp]: "OTHERS = 0xC0000"
definition FIXED :: u32 where [simp]: "FIXED = 0"
definition ICRHI :: nat where [simp]: "ICRHI = 196"
definition TIMER :: nat where [simp]: "TIMER = 200"
definition X1 :: u32 where [simp]: "X1 = 0xB"
definition PERIODIC :: u32 where [simp]: "PERIODIC = 0x20000"
definition PCINT :: nat where [simp]: "PCINT = 208"
definition LINT0 :: nat where [simp]: "LINT0 = 212"
definition LINT1 :: nat where [simp]: "LINT1 = 216"
definition ERROR :: nat where [simp]: "ERROR = 220"
definition MASKED :: u32 where [simp]: "MASKED = 0x10000"
definition TICR :: nat where [simp]: "TICR = 224"
definition TDCR :: nat where [simp]: "TDCR = 248"

definition lapicw :: "nat \<Rightarrow> u32 \<Rightarrow> apic \<Rightarrow> apic" where
  "lapicw i v a = a\<lparr>apic_log := apic_log a @ [(i, v)]\<rparr>"

fun lapicws :: "(nat \<times> u32) list \<Rightarrow> apic \<Rightarrow> apic" where
  "lapicws [] a = a"
| "lapicws ((i, v) # ws) a = lapicws ws (lapicw i v a)"

text \<open>\<open>while (lapic[ICRLO] & DELIVS) ;\<close>\<close>

partial_function (option) wait_delivery :: "apic \<Rightarrow> apic option" where
  "wait_delivery a = (case icr_busy a of
       None \<Rightarrow> wait_delivery a
     | Some n \<Rightarrow> if n = 0 then Some a else wait_delivery (a\<lparr>icr_busy := Some (n - 1)\<rparr>))"

text \<open>\<open>boot\<close> says whether this is the boot processor; mapping the registers changes the kernel state.\<close>

definition lapic_registers :: "bool \<Rightarrow> apic \<Rightarrow> (nat \<times> u32) list" where
  "lapic_registers boot a =
     [(SVR, ENABLE OR 39), (TDCR, X1), (TIMER, PERIODIC OR 32), (TICR, 10000000)]
     @ (if boot then [] else [(LINT0, MASKED)]) @ [(LINT1, MASKED)]
     @ (if 4 \<le> (drop_bit 16 (apic_version a)) AND 0xFF then [(PCINT, MASKED)] else [])
     @ [(ERROR, 51), (ESR, 0), (ESR, 0), (EOI, 0), (ICRHI, 0), (ICRLO, BCAST OR INIT OR LEVEL)]"

definition lapic_init :: "bool \<Rightarrow> u32 \<Rightarrow> apic \<times> kstate \<Rightarrow> (apic \<times> kstate) fallible option" where
  "lapic_init boot pa = (\<lambda>(a, s).
     if pa = 0 then Some (Inr (a, s))
     else case mmio_map_region pa 4096 s of
         Inl e \<Rightarrow> Some (Inl e)
       | Inr (va, s) \<Rightarrow> map_option (\<lambda>a. Inr (lapicw TPR 0 a, s))
           (wait_delivery (lapicws (lapic_registers boot a) (a\<lparr>apic_mapped := True\<rparr>))))"

definition lapic_cpunum :: "apic \<Rightarrow> u32" where
  "lapic_cpunum a = (if apic_mapped a then drop_bit 24 (apic_id a) else 0)"

definition lapic_eoi :: "apic \<Rightarrow> apic" where
  "lapic_eoi a = (if apic_mapped a then lapicw EOI 0 a else a)"

text \<open>The clock chip is told about the warm reset, whose vector is two halfwords at \<open>0x467\<close>.\<close>

definition warm_reset :: "u32 \<Rightarrow> memory \<Rightarrow> memory" where
  "warm_reset addr m =
     (let v = (drop_bit 4 addr) AND 0xFFFF in
      m(0x467 := 0, 0x468 := 0, 0x469 := ucast v, 0x46A := ucast (drop_bit 8 v)))"

definition lapic_startap :: "u8 \<Rightarrow> u32 \<Rightarrow> apic \<times> memory \<Rightarrow> apic \<times> memory \<times> (u32 \<times> u8) list" where
  "lapic_startap apicid addr = (\<lambda>(a, m).
     let dest = push_bit 24 (ucast apicid); startup = [(ICRHI, dest), (ICRLO, STARTUP OR drop_bit 12 addr)] in
     (lapicws ([(ICRHI, dest), (ICRLO, INIT OR LEVEL OR ASSERT), (ICRLO, INIT OR LEVEL)] @ startup @ startup) a,
      warm_reset addr m, [(0x70, 0xF), (0x71, 0x0A)]))"

definition lapic_ipi :: "u32 \<Rightarrow> apic \<Rightarrow> apic option" where
  "lapic_ipi vector a = wait_delivery (lapicw ICRLO (OTHERS OR FIXED OR vector) a)"

section \<open>Starting the other processors (init.c)\<close>

text \<open>
  The boot processor walks over \<open>cpus\<close>: it publishes the stack of the next one in
  \<open>mpentry_kstack\<close>, starts it and waits until it says that it is up. A started processor takes its
  stack from \<open>mpentry_kstack\<close> (\<open>mpentry.S\<close>) and then, in \<open>mp_main\<close>, sets its own status. The
  processors run at their own speed. A stack is named by its index in \<open>percpu_kstacks\<close>.
\<close>

datatype bsp_at = Starts nat | Waits nat | Done
datatype ap_at = Off | Entry | Has_stack nat | Up nat

record boot_sys =
  mpentry_kstack :: nat
  bsp :: bsp_at
  ap :: "nat \<Rightarrow> ap_at"

text \<open>\<open>me\<close> is the boot processor and \<open>n\<close> the number of processors.\<close>

inductive boot_step :: "nat \<Rightarrow> nat \<Rightarrow> boot_sys \<Rightarrow> boot_sys \<Rightarrow> bool" for me n where
  skip_self: "bsp b = Starts me \<Longrightarrow> me < n \<Longrightarrow> boot_step me n b (b\<lparr>bsp := Starts (me + 1)\<rparr>)"
| start_ap: "bsp b = Starts c \<Longrightarrow> c < n \<Longrightarrow> c \<noteq> me \<Longrightarrow>
    boot_step me n b (b\<lparr>mpentry_kstack := c, bsp := Waits c, ap := (ap b)(c := Entry)\<rparr>)"
| seen_up: "bsp b = Waits c \<Longrightarrow> ap b c = Up k \<Longrightarrow> boot_step me n b (b\<lparr>bsp := Starts (c + 1)\<rparr>)"
| all_done: "bsp b = Starts c \<Longrightarrow> n \<le> c \<Longrightarrow> boot_step me n b (b\<lparr>bsp := Done\<rparr>)"
| take_stack: "ap b c = Entry \<Longrightarrow> boot_step me n b (b\<lparr>ap := (ap b)(c := Has_stack (mpentry_kstack b))\<rparr>)"
| say_up: "ap b c = Has_stack k \<Longrightarrow> boot_step me n b (b\<lparr>ap := (ap b)(c := Up k)\<rparr>)"

definition boot_begin :: "boot_sys \<Rightarrow> bool" where
  "boot_begin b \<longleftrightarrow> bsp b = Starts 0 \<and> ap b = (\<lambda>_. Off)"

end
