(* ===== verification/MultiprocProps.thy ===== *)
theory MultiprocProps
  imports Multiproc
begin

text \<open>
  The processors that \<open>mp_init\<close> counts are those in the table, and every processor that
  \<open>boot_aps\<close> starts gets a stack of its own.
\<close>

section \<open>Reading the table back\<close>

text \<open>An entry of the table and its bytes: 20 for a processor, 8 for the other kinds.\<close>

datatype mp_entry = Processor u8 u8 u8 "u8 list" | Other u8 "u8 list"

fun entry_bytes :: "mp_entry \<Rightarrow> u8 list" where
  "entry_bytes (Processor apicid version flags rest) = [0, apicid, version, flags] @ rest"
| "entry_bytes (Other t rest) = t # rest"

fun entry_ok :: "mp_entry \<Rightarrow> bool" where
  "entry_ok (Processor apicid version flags rest) \<longleftrightarrow> length rest = 16"
| "entry_ok (Other t rest) \<longleftrightarrow> length rest = 7 \<and> t \<in> {1, 2, 3, 4}"

text \<open>What the table says: for each processor, whether it is the boot processor.\<close>

fun boot_flags :: "mp_entry list \<Rightarrow> bool list" where
  "boot_flags [] = []"
| "boot_flags (Processor apicid version flags rest # es) = (flags AND 2 \<noteq> 0) # boot_flags es"
| "boot_flags (Other t rest # es) = boot_flags es"

text \<open>The place of the last processor with the flag, as far as there is room; \<open>d\<close> when there is none.\<close>

fun boot_index :: "nat \<Rightarrow> nat \<Rightarrow> bool list \<Rightarrow> nat" where
  "boot_index d k [] = d"
| "boot_index d k (f # fs) = boot_index (if f then min 8 k else d) (Suc k) fs"

definition bytes_at :: "memory \<Rightarrow> u32 \<Rightarrow> u8 list \<Rightarrow> bool" where
  "bytes_at m a bs \<longleftrightarrow> (\<forall>i<length bs. m (a + word_of_nat i) = bs ! i)"

lemma bytes_at_append: "bytes_at m a (xs @ ys) \<longleftrightarrow> bytes_at m a xs \<and> bytes_at m (a + word_of_nat (length xs)) ys"
proof -
  have "P i" if "\<forall>i<a. P i" "\<forall>i<b. P (a + i)" "i < a + b" for P :: "nat \<Rightarrow> bool" and a b i
    using that(1) that(2) [THEN spec, of "i - a"] that(3) by (cases "i < a") auto
  then have "(\<forall>i<a + b. P i) \<longleftrightarrow> (\<forall>i<a. P i) \<and> (\<forall>i<b. P (a + i))" for P :: "nat \<Rightarrow> bool" and a b
    by auto
  then show ?thesis by (simp add: bytes_at_def nth_append add.assoc)
qed

lemma bytes_at_Cons: "bytes_at m a (x # xs) \<longleftrightarrow> m a = x \<and> bytes_at m (a + 1) xs"
  using bytes_at_append [of m a "[x]" xs] by (simp add: bytes_at_def)

lemma mp_entries_counts:
  assumes "\<forall>e\<in>set es. entry_ok e" and "bytes_at m p (concat (map entry_bytes es))" and "ncpu g = min 8 k"
  shows "\<exists>g' s'. mp_entries m (length es) p (g, s) = (g', s') \<and> ncpu g' = min 8 (k + length (boot_flags es))
     \<and> bootcpu g' = boot_index (bootcpu g) k (boot_flags es) \<and> ismp g' = ismp g \<and> lapicaddr g' = lapicaddr g
     \<and> (\<forall>i. cpus s' i = (if min 8 k \<le> i \<and> i < ncpu g' then (cpus s i)\<lparr>cpu_id := word_of_nat i\<rparr> else cpus s i))"
  using assms
proof (induction es arbitrary: p g s k)
  case (Cons e es)
  show ?case
  proof (cases e)
    case (Processor apicid version flags rest)
    let ?gs = "add_cpu m p (g, s)"
    have b: "m p = 0" "proc_flags m p = flags" "bytes_at m (p + 20) (concat (map entry_bytes es))"
      using Cons.prems(1,2) by (simp_all add: Processor bytes_at_append bytes_at_Cons proc_flags_def add.assoc)
    have n: "ncpu (fst ?gs) = min 8 (Suc k)" "bootcpu (fst ?gs) = (if flags AND 2 \<noteq> 0 then min 8 k else bootcpu g)"
      "ismp (fst ?gs) = ismp g" "lapicaddr (fst ?gs) = lapicaddr g"
      "cpus (snd ?gs) i = (if i = k \<and> k < 8 then (cpus s i)\<lparr>cpu_id := word_of_nat i\<rparr> else cpus s i)" for i
      using Cons.prems(3) b(2) by (auto simp: add_cpu_def Let_def)
    from Cons.IH [of "p + 20" "fst ?gs" "Suc k" "snd ?gs"] Cons.prems(1) b(3) n(1) obtain g' s' where
      r: "mp_entries m (length es) (p + 20) ?gs = (g', s')" "ncpu g' = min 8 (Suc k + length (boot_flags es))"
        "bootcpu g' = boot_index (bootcpu (fst ?gs)) (Suc k) (boot_flags es)" "ismp g' = ismp g" "lapicaddr g' = lapicaddr g"
        "\<forall>i. cpus s' i = (if min 8 (Suc k) \<le> i \<and> i < ncpu g' then (cpus (snd ?gs) i)\<lparr>cpu_id := word_of_nat i\<rparr> else cpus (snd ?gs) i)"
      by (auto simp: n)
    have "cpus s' i = (if min 8 k \<le> i \<and> i < ncpu g' then (cpus s i)\<lparr>cpu_id := word_of_nat i\<rparr> else cpus s i)" for i
      using r(2,6) n(5) by (auto simp: min_def)
    then show ?thesis using r b(1) n by (simp add: Processor)
  next
    case (Other t rest)
    have b: "m p = t" "t \<in> {1, 2, 3, 4}" "bytes_at m (p + 8) (concat (map entry_bytes es))"
      using Cons.prems(1,2) by (simp_all add: Other bytes_at_append bytes_at_Cons add.assoc)
    then show ?thesis using Cons.IH [of "p + 8" g k s] Cons.prems(1,3) by (auto simp: Other)
  qed
qed auto

text \<open>
  C40. \<open>mp_init\<close> reads the table back: with a valid table of known entries it counts the
  processors, at most eight, numbers them in the order of the table, enables the multiprocessor
  mode and marks the flagged processor as started. When the flagged processor is the ninth or a
  later one, \<open>bootcpu\<close> points behind \<open>cpus\<close> and the mark is written there.
\<close>

theorem mp_init_counts:
  assumes "mpconfig s m = Inr (Table mp conf)" and "\<forall>e\<in>set es. entry_ok e" and "unat (conf_entry m conf) = length es"
    and "bytes_at m (conf_entries conf) (concat (map entry_bytes es))" and "ncpu g = 0"
  shows "if boot_index 0 0 (boot_flags es) < 8
    then \<exists>g' s' out. mp_init imcr m g s = Inr (g', s', out) \<and> ncpu g' = min 8 (length (boot_flags es)) \<and> ismp g'
      \<and> lapicaddr g' = conf_lapicaddr m conf \<and> bootcpu g' = boot_index 0 0 (boot_flags es)
      \<and> cpu_status (cpus s' (bootcpu g')) = CPU_STARTED \<and> (\<forall>i<ncpu g'. cpu_id (cpus s' i) = word_of_nat i)
    else mp_init imcr m g s = Inl (KUndef ''bootcpu outside cpus'')"
proof -
  let ?g = "g\<lparr>bootcpu := 0, ismp := True, lapicaddr := conf_lapicaddr m conf\<rparr>"
  from mp_entries_counts [OF assms(2,4), of ?g 0 s] assms(5) obtain g' s' where
    r: "mp_entries m (length es) (conf_entries conf) (?g, s) = (g', s')" "ncpu g' = min 8 (length (boot_flags es))"
      "bootcpu g' = boot_index 0 0 (boot_flags es)" "ismp g'" "lapicaddr g' = conf_lapicaddr m conf"
      "\<forall>i. cpus s' i = (if i < ncpu g' then (cpus s i)\<lparr>cpu_id := word_of_nat i\<rparr> else cpus s i)"
    by auto
  show ?thesis
  proof (cases "boot_index 0 0 (boot_flags es) < 8")
    case True
    let ?s = "s'\<lparr>cpus := (cpus s')(bootcpu g' := (cpus s' (bootcpu g'))\<lparr>cpu_status := CPU_STARTED\<rparr>)\<rparr>"
    have "\<exists>out. mp_init imcr m g s = Inr (g', ?s, out)"
      using r True unfolding mp_init_def assms(1) by (simp add: assms(3))
    moreover have "cpu_id (cpus ?s i) = word_of_nat i" if "i < ncpu g'" for i using r(6) that by simp
    moreover have "cpu_status (cpus ?s (bootcpu g')) = CPU_STARTED" by simp
    ultimately show ?thesis using r(2-5) True by metis
  next
    case False
    then show ?thesis using r unfolding mp_init_def assms(1) by (simp add: assms(3))
  qed
qed

definition demo_mp :: "u8 list" where
  "demo_mp = [0x5F, 0x4D, 0x50, 0x5F, 0, 0x10, 0, 0, 1, 4, 0x90, 0, 0, 0, 0, 0]"

definition demo_entries :: "mp_entry list" where
  "demo_entries = [Processor 0 0x14 1 (replicate 16 0), Processor 1 0x14 3 (replicate 16 0)]"

definition demo_conf :: "u8 list" where
  "demo_conf = [80, 67, 77, 80, 84, 0, 4, 107, 0, 0, 0, 0, 0, 0, 0, 0, 0, 0, 0, 0, 0, 0, 0, 0, 0, 0, 0, 0, 0, 0, 0, 0, 0, 0, 2, 0, 0, 0, 224, 254, 0, 0, 0, 0,
     0, 0, 20, 1, 0, 0, 0, 0, 0, 0, 0, 0, 0, 0, 0, 0, 0, 0, 0, 0,
     0, 1, 20, 3, 0, 0, 0, 0, 0, 0, 0, 0, 0, 0, 0, 0, 0, 0, 0, 0]"

text \<open>A machine with two processors; the table names the second as the boot processor.\<close>

definition demo_firmware :: memory where
  "demo_firmware a = (let n = unat a in
     if n = 0x40E then 0xC0 else if n = 0x40F then 0x9F
     else if 0x9FC00 \<le> n \<and> n < 0x9FC10 then demo_mp ! (n - 0x9FC00)
     else if 0x1000 \<le> n \<and> n < 0x1054 then demo_conf ! (n - 0x1000) else 0)"

lemma sum_bytes_at: "bytes_at m a bs \<Longrightarrow> sum_bytes m a (length bs) = sum_list bs"
  by (induction bs arbitrary: a) (simp_all add: bytes_at_Cons)

lemma byte_at: "bytes_at m a bs \<Longrightarrow> i < length bs \<Longrightarrow> m (a + word_of_nat i) = bs ! i"
  by (simp add: bytes_at_def)

lemma demo_bytes: "bytes_at demo_firmware 0x9FC00 demo_mp" "bytes_at demo_firmware 0x1000 demo_conf"
proof -
  have len: "length demo_mp = 16" "length demo_conf = 84" by (simp_all add: demo_mp_def demo_conf_def)
  have u: "unat (B + word_of_nat i :: u32) = unat B + i" if "i < 100" "unat B < 1000000" for B :: u32 and i
    using that by (simp add: unat_word_ariths unat_of_nat)
  show "bytes_at demo_firmware 0x9FC00 demo_mp" "bytes_at demo_firmware 0x1000 demo_conf"
    by (simp_all add: bytes_at_def demo_firmware_def len u Let_def)
qed

lemma demo_fields:
  "is_mp demo_firmware 0x9FC00" "mp_physaddr demo_firmware 0x9FC00 = 0x1000" "mp_type demo_firmware 0x9FC00 = 0"
  "sig_at demo_firmware 0x1000 ''PCMP''" "conf_length demo_firmware 0x1000 = 84" "conf_version demo_firmware 0x1000 = 4"
  "conf_xlength demo_firmware 0x1000 = 0" "conf_xchecksum demo_firmware 0x1000 = 0" "conf_entry demo_firmware 0x1000 = 2"
  "conf_lapicaddr demo_firmware 0x1000 = 0xFEE00000" "sum_bytes demo_firmware 0x1000 84 = 0"
proof -
  have mp: "demo_firmware (0x9FC00 + word_of_nat i) = demo_mp ! i" if "i < 16" for i
    using byte_at [OF demo_bytes(1)] that by (simp add: demo_mp_def)
  have conf: "demo_firmware (0x1000 + word_of_nat i) = demo_conf ! i" if "i < 84" for i
    using byte_at [OF demo_bytes(2)] that by (simp add: demo_conf_def)
  have len: "length demo_mp = 16" "length demo_conf = 84" by (simp_all add: demo_mp_def demo_conf_def)
  have "sum_bytes demo_firmware 0x9FC00 16 = sum_list demo_mp" using sum_bytes_at [OF demo_bytes(1)] unfolding len .
  moreover have "sum_bytes demo_firmware 0x1000 84 = sum_list demo_conf" using sum_bytes_at [OF demo_bytes(2)] unfolding len .
  moreover have "sum_list demo_mp = 0" "sum_list demo_conf = 0" by (simp_all add: demo_mp_def demo_conf_def)
  ultimately have sums: "sum_bytes demo_firmware 0x9FC00 16 = 0" "sum_bytes demo_firmware 0x1000 84 = 0" by (simp_all only:)
  have four: "i = 0 \<or> i = 1 \<or> i = 2 \<or> i = 3" if "i < 4" for i :: nat using that by arith
  have sig: "demo_mp ! i = of_char (''_MP_'' ! i)" "demo_conf ! i = of_char (''PCMP'' ! i)" if "i < 4" for i
    using four [OF that] by (auto simp: demo_mp_def demo_conf_def)
  have "sig_at demo_firmware 0x9FC00 ''_MP_''" "sig_at demo_firmware 0x1000 ''PCMP''"
    using mp conf sig by (simp_all add: sig_at_def)
  with sums show "is_mp demo_firmware 0x9FC00" "sig_at demo_firmware 0x1000 ''PCMP''" "sum_bytes demo_firmware 0x1000 84 = 0"
    unfolding is_mp_def by (simp_all only: simp_thms)
  show "mp_physaddr demo_firmware 0x9FC00 = 0x1000" "mp_type demo_firmware 0x9FC00 = 0"
    using mp [of 4] mp [of 5] mp [of 6] mp [of 7] mp [of 11] by (simp_all add: mp_physaddr_def mp_type_def le32_def le16_def demo_mp_def)
  show "conf_length demo_firmware 0x1000 = 84" "conf_version demo_firmware 0x1000 = 4"
    "conf_xlength demo_firmware 0x1000 = 0" "conf_xchecksum demo_firmware 0x1000 = 0" "conf_entry demo_firmware 0x1000 = 2"
    "conf_lapicaddr demo_firmware 0x1000 = 0xFEE00000"
    using conf [of 4] conf [of 5] conf [of 6] conf [of 40] conf [of 41] conf [of 42] conf [of 34] conf [of 35] conf [of 36] conf [of 37]
      conf [of 38] conf [of 39]
    by (simp_all add: conf_length_def conf_version_def conf_xlength_def conf_xchecksum_def conf_entry_def conf_lapicaddr_def
      le32_def le16_def demo_conf_def)
qed

lemma demo_mpconfig: "mpconfig boot_state demo_firmware = Inr (Table 0x9FC00 0x1000)"
proof -
  have "KADDR boot_state a = Inr (a + KERNBASE)" if "PGNUM a < 1024" for a using that by (simp add: KADDR_def boot_state_def)
  then have k: "\<exists>v. KADDR boot_state 0x400 = Inr v" "\<exists>v. KADDR boot_state 0x9FC00 = Inr v" "\<exists>v. KADDR boot_state 0xA0000 = Inr v"
    "\<exists>v. KADDR boot_state 0x1000 = Inr v" by (simp_all add: PGNUM_div)
  have "le16 demo_firmware 0x40E = 0x9FC0" by (simp add: le16_def demo_firmware_def)
  moreover have "mpsearch_loop demo_firmware 0x9FC00 64 = Some 0x9FC00"
    using demo_fields(1) by (simp add: numeral_eq_Suc)
  ultimately have "mpsearch boot_state demo_firmware = Inr (Some 0x9FC00)"
    using k(1-3) by (auto simp: mpsearch_def mpsearch1_def)
  then show ?thesis using k(4) demo_fields by (auto simp: mpconfig_def)
qed

theorem mp_init_counts_witness:
  "\<exists>g s out. mp_init 0 demo_firmware \<lparr>bootcpu = 0, ismp = False, ncpu = 0, lapicaddr = 0\<rparr> boot_state = Inr (g, s, out)
     \<and> ncpu g = 2 \<and> bootcpu g = 1 \<and> lapicaddr g = 0xFEE00000"
proof -
  have e: "\<forall>e\<in>set demo_entries. entry_ok e" "boot_flags demo_entries = [False, True]" "length demo_entries = 2"
    by (simp_all add: demo_entries_def)
  have "demo_conf = take 44 demo_conf @ concat (map entry_bytes demo_entries)"
    by (simp add: demo_conf_def demo_entries_def numeral_eq_Suc)
  then have "bytes_at demo_firmware 0x1000 (take 44 demo_conf @ concat (map entry_bytes demo_entries))"
    using demo_bytes(2) by simp
  then have "bytes_at demo_firmware (conf_entries 0x1000) (concat (map entry_bytes demo_entries))"
    by (simp add: bytes_at_append conf_entries_def) (simp add: demo_conf_def)
  from mp_init_counts [OF demo_mpconfig e(1) _ this, of "\<lparr>bootcpu = 0, ismp = False, ncpu = 0, lapicaddr = 0\<rparr>" 0]
  show ?thesis using e(2,3) demo_fields(9,10) by auto
qed

section \<open>A stack for each\<close>

definition up_or_off :: "bool \<Rightarrow> nat \<Rightarrow> ap_at \<Rightarrow> bool" where
  "up_or_off up i a \<longleftrightarrow> a = (if up then Up i else Off)"

definition boot_inv :: "nat \<Rightarrow> nat \<Rightarrow> boot_sys \<Rightarrow> bool" where
  "boot_inv me n b \<longleftrightarrow> (case bsp b of
      Starts c \<Rightarrow> \<forall>i. up_or_off (i < c \<and> i < n \<and> i \<noteq> me) i (ap b i)
    | Waits c \<Rightarrow> c < n \<and> c \<noteq> me \<and> (ap b c = Entry \<and> mpentry_kstack b = c \<or> ap b c = Has_stack c \<or> ap b c = Up c)
        \<and> (\<forall>i. i \<noteq> c \<longrightarrow> up_or_off (i < c \<and> i < n \<and> i \<noteq> me) i (ap b i))
    | Done \<Rightarrow> \<forall>i. up_or_off (i < n \<and> i \<noteq> me) i (ap b i))"

lemma boot_inv_begin: "boot_begin b \<Longrightarrow> boot_inv me n b"
  by (simp add: boot_begin_def boot_inv_def up_or_off_def)

text \<open>A processor on its way is the one the boot processor waits for.\<close>

lemma boot_inv_on_way:
  assumes "boot_inv me n b" and "ap b c \<noteq> Off" and "\<forall>k. ap b c \<noteq> Up k"
  shows "bsp b = Waits c"
proof (cases "bsp b")
  case (Starts d)
  then have "up_or_off (c < d \<and> c < n \<and> c \<noteq> me) c (ap b c)" using assms(1) by (simp add: boot_inv_def)
  then show ?thesis using assms(2,3) by (simp add: up_or_off_def split: if_splits)
next
  case (Waits d)
  then have "c \<noteq> d \<longrightarrow> up_or_off (c < d \<and> c < n \<and> c \<noteq> me) c (ap b c)" using assms(1) by (simp add: boot_inv_def)
  then show ?thesis using assms(2,3) Waits by (auto simp: up_or_off_def split: if_splits)
next
  case Done
  then have "up_or_off (c < n \<and> c \<noteq> me) c (ap b c)" using assms(1) by (simp add: boot_inv_def)
  then show ?thesis using assms(2,3) by (simp add: up_or_off_def split: if_splits)
qed

lemma up_or_off_later: "i = c \<longrightarrow> \<not> p \<Longrightarrow> up_or_off (i < c \<and> p) i a \<Longrightarrow> up_or_off (i < Suc c \<and> p) i a"
  by (cases "i = c") (auto simp: up_or_off_def less_Suc_eq)

lemma boot_inv_step: "boot_step me n b b' \<Longrightarrow> boot_inv me n b \<Longrightarrow> boot_inv me n b'"
proof (induction rule: boot_step.induct)
  case (skip_self b)
  then show ?case by (simp add: boot_inv_def) (metis up_or_off_later)
next
  case (start_ap b c)
  then show ?case by (simp add: boot_inv_def)
next
  case (seen_up b c k)
  then have "ap b c = Up c" "c < n" "c \<noteq> me" "\<forall>i. i \<noteq> c \<longrightarrow> up_or_off (i < c \<and> i < n \<and> i \<noteq> me) i (ap b i)"
    by (auto simp: boot_inv_def)
  then have "up_or_off (i < Suc c \<and> i < n \<and> i \<noteq> me) i (ap b i)" for i
    by (cases "i = c") (auto simp: up_or_off_def less_Suc_eq)
  then show ?case by (simp add: boot_inv_def)
next
  case (all_done b c)
  then have "up_or_off (i < n \<and> i \<noteq> me) i (ap b i)" for i
    by (cases "i < n") (auto simp: boot_inv_def up_or_off_def)
  then show ?case by (simp add: boot_inv_def)
next
  case (take_stack b c)
  then have "bsp b = Waits c" by (intro boot_inv_on_way) simp_all
  then show ?case using take_stack by (simp add: boot_inv_def)
next
  case (say_up b c k)
  then have "bsp b = Waits c" by (intro boot_inv_on_way) simp_all
  then show ?case using say_up by (simp add: boot_inv_def)
qed

lemma boot_inv_reach: "(boot_step me n)\<^sup>*\<^sup>* b b' \<Longrightarrow> boot_inv me n b \<Longrightarrow> boot_inv me n b'"
  by (induction rule: rtranclp_induct) (auto intro: boot_inv_step)



end
