(* ===== verification/Startup.thy ===== *)
theory Startup
  imports Loader MemInitProps MultiprocProps
begin

text \<open>
  The end of \<open>i386_init\<close> and of \<open>mp_main\<close> (\<open>kern/init.c\<close>): under the kernel lock the programs are
  created one after the other, then the scheduler leaves the kernel. From the invariant that
  \<open>mem_init\<close> and \<open>env_init\<close> establish, the first program runs in user mode with its image in place,
  and every other one waits, ready, with its own.
\<close>

section \<open>The code\<close>

text \<open>The \<open>ENV_CREATE\<close> lines, over the images of the user programs the build links in.\<close>

fun create_programs :: "image list \<Rightarrow> kstate \<Rightarrow> kstate fallible" where
  "create_programs [] s = Inr s"
| "create_programs (b # bs) s = andThen (env_create b ENV_TYPE_USER s) (create_programs bs)"

definition start_programs :: "sched_build \<Rightarrow> image list \<Rightarrow> kstate \<Rightarrow> unit kcall" where
  "start_programs build bs s = andThen (create_programs bs s) (sched_yield build)"

text \<open>
  \<open>boot_aps\<close> as the boot processor sees it: the entry code goes to the page at \<open>MPENTRY_PADDR\<close>, then
  every other processor of the table is started and awaited; \<open>up\<close> says which ones ever answer. What
  happens between the processors is the relation \<open>boot_step\<close> of theory \<open>Multiproc\<close>.
\<close>

fun copy_code :: "nat \<Rightarrow> u8 list \<Rightarrow> kstate \<Rightarrow> kstate" where
  "copy_code i [] s = s"
| "copy_code i (b # bs) s = copy_code (Suc i) bs
     (wr (7 + i div 4096) (i mod 4096 div 4) (set_byte (rd s (7 + i div 4096) (i mod 4096 div 4)) (i mod 4) b) s)"

definition boot_aps :: "u8 list \<Rightarrow> (nat \<Rightarrow> bool) \<Rightarrow> smp \<Rightarrow> kstate \<Rightarrow> kstate fallible option" where
  "boot_aps code up g s =
     (case KADDR s MPENTRY_PADDR of
        Inl e \<Rightarrow> Some (Inl e)
      | Inr _ \<Rightarrow>
          let s = copy_code 0 code s in
          if \<exists>c<ncpu g. c \<noteq> cpunum s \<and> \<not> up c then None
          else Some (Inr (s\<lparr>cpus := (\<lambda>c. if c < ncpu g \<and> c \<noteq> cpunum s
             then (cpus s c)\<lparr>cpu_status := CPU_STARTED\<rparr> else cpus s c)\<rparr>)))"

text \<open>
  What the kernel finds: the clock chip's memory, the addresses the linker chose, the firmware's
  memory, the interrupt controllers, the entry code of \<open>mpentry.S\<close>, and the other processors.
\<close>

record pc =
  pc_cmos :: "nat \<Rightarrow> u8"
  pc_end :: u32
  pc_stacks :: "nat \<Rightarrow> u32"
  pc_cr0 :: u32
  pc_imcr :: u8
  pc_bios :: memory
  pc_apic :: apic
  pc_entry :: "u8 list"
  pc_up :: "nat \<Rightarrow> bool"

definition on_success :: "'a fallible option \<Rightarrow> ('a \<Rightarrow> 'b fallible option) \<Rightarrow> 'b fallible option" where
  "on_success r f = (case r of None \<Rightarrow> None | Some (Inl e) \<Rightarrow> Some (Inl e) | Some (Inr x) \<Rightarrow> f x)"

text \<open>
  The calls of \<open>i386_init\<close> that change the kernel state, in order; \<open>cons_init\<close>, \<open>trap_init\<close> and \<open>pic_init\<close>
  set up devices and tables outside it, and are modelled in theories \<open>Console\<close> and \<open>Trap\<close>.
\<close>

definition i386_init :: "pc \<Rightarrow> sched_build \<Rightarrow> image list \<Rightarrow> kstate \<Rightarrow> unit kcall option" where
  "i386_init pc build bs s =
     on_success (Some (mem_init (pc_cmos pc) (pc_end pc) (pc_stacks pc) (pc_cr0 pc) s)) (\<lambda>(_, s).
     on_success (Some (mp_init (pc_imcr pc) (pc_bios pc) \<lparr>bootcpu = 0, ismp = False, ncpu = 0, lapicaddr = 0\<rparr> (env_init s))) (\<lambda>(g, s, _).
     on_success (lapic_init True (lapicaddr g) (pc_apic pc, s)) (\<lambda>(_, s).
     on_success (Some (lock_kernel s)) (\<lambda>(r, s).
       if r \<noteq> Returns () then Some (Inr (r, s))
       else on_success (boot_aps (pc_entry pc) (pc_up pc) g s) (\<lambda>s. Some (start_programs build bs s))))))"

text \<open>The start of another processor; its APIC, descriptor table and task segment are not here.\<close>

definition mp_main :: "sched_build \<Rightarrow> kstate \<Rightarrow> unit kcall" where
  "mp_main build s =
     (let s = lcr3 (kern_pgdir s) s;
          s = s\<lparr>cpus := (cpus s)(cpunum s := (cpus s (cpunum s))\<lparr>cpu_status := CPU_STARTED\<rparr>)\<rparr>
      in calls (lock_kernel s) (\<lambda>_. sched_yield build))"

text \<open>
  A processor that starts while another one is in the kernel waits at the lock, whatever the
  scheduler would do; one that finds the lock free leaves the kernel with the lock free again, or
  stays in the monitor.
\<close>

lemma mp_main_waits:
  "kernel_lock s = Some c \<Longrightarrow> c \<noteq> cpunum s \<Longrightarrow>
     \<exists>s'. mp_main build s = Inr (SpinsOnLock, s') \<and> envs s' = envs s \<and> kernel_lock s' = Some c"
  by (simp add: mp_main_def lock_kernel_def Let_def lcr3_def)

lemma mp_main_leaves:
  assumes inv: "kinv s fl el kx" and lock: "kernel_lock s = None" and cur: "curenv s = None"
    and live: "\<forall>e\<ge>1024. env_status (envs s e) = ENV_FREE"
  shows "\<exists>s'. (\<exists>e. mp_main build s = Inr (RunsEnv e, s') \<and> curenv s' = Some e \<and> kernel_lock s' = None
        \<and> env_status (envs s e) = ENV_RUNNABLE)
     \<or> mp_main build s = Inr (CpuHalts, s') \<and> curenv s' = None \<and> kernel_lock s' = None
     \<or> mp_main build s = Inr (InMonitor, s')"
proof -
  let ?s1 = "lcr3 (kern_pgdir s) s"
  let ?t = "?s1\<lparr>cpus := (cpus ?s1)(cpunum ?s1 := (cpus ?s1 (cpunum ?s1))\<lparr>cpu_status := CPU_STARTED\<rparr>),
     kernel_lock := Some (cpunum s)\<rparr>"
  define u where "u = ?t\<lparr>stats := (stats ?t)\<lparr>number_of_yields := number_of_yields (stats ?t) + 1\<rparr>\<rparr>"
  have run: "mp_main build s = pol.yields build u"
    using lock by (simp add: mp_main_def lock_kernel_def Let_def lcr3_def returns_def sched_yield_def pol.yields_def u_def)
  have u: "curenv u = None" "envs u = envs s" "kernel_lock u = Some (cpunum u)"
    using cur by (simp_all add: u_def curenv_def lcr3_def)
  then have start: "sched_start u < 1024" by (simp add: sched_start_def)
  have "env_pgdir (envs u e) \<noteq> None" if "env_status (envs u e) = ENV_RUNNABLE \<or> env_status (envs u e) = ENV_RUNNING" for e
  proof -
    have "e < 1024" using live that u(2) by (cases "e < 1024") auto
    then show ?thesis using inv that u(2) by (auto simp: kinv_def)
  qed
  from pol.yields_outcome [OF start u(3) this, of build] show ?thesis unfolding run u(1,2) by blast
qed

section \<open>Programs side by side\<close>

text \<open>Slot \<open>e\<close> holds the program \<open>b\<close> as \<open>env_create\<close> leaves it: registers, pages and bytes.\<close>

definition program_in :: "kstate \<Rightarrow> nat \<Rightarrow> image \<Rightarrow> bool" where
  "program_in s e b \<longleftrightarrow> env_tf (envs s e) = user_tf\<lparr>tf_eip := img32 b 24\<rparr>
     \<and> (\<exists>pd. env_pgdir (envs s e) = Some pd \<and> owns s pd (program_pages b)
          \<and> (\<forall>ph\<in>set (segments b). seg_loaded s pd b ph))"

lemma program_in_memory:
  assumes "env_tf (envs s' e) = env_tf (envs s e)" and "env_pgdir (envs s' e) = env_pgdir (envs s e)"
    and "\<And>pd N. env_pgdir (envs s e) = Some pd \<Longrightarrow> owns s pd N \<Longrightarrow> owns s' pd N
       \<and> (\<forall>va. PGNUM va \<in> N \<longrightarrow> user_byte s' pd va = user_byte s pd va)"
    and "program_in s e b"
  shows "program_in s' e b"
proof -
  obtain pd where pd: "env_pgdir (envs s e) = Some pd" "owns s pd (program_pages b)" "\<forall>ph\<in>set (segments b). seg_loaded s pd b ph"
    and tf: "env_tf (envs s e) = user_tf\<lparr>tf_eip := img32 b 24\<rparr>"
    using assms(4) by (auto simp: program_in_def)
  note k = assms(3) [OF pd(1,2)]
  have "seg_loaded s' pd b ph" if "ph \<in> set (segments b)" for ph
  proof -
    have "PGNUM x \<in> program_pages b" if x: "x \<in> span (p_va ph) (unat (p_memsz ph))" for x
      using span_pages [OF x] \<open>ph \<in> set (segments b)\<close> by (auto simp: program_pages_def seg_pages_def)
    then show ?thesis using k pd(3) that by (simp add: seg_loaded_def)
  qed
  then show ?thesis using k pd(1) tf assms(1,2) by (auto simp: program_in_def)
qed

text \<open>A program loaded later leaves the pages of the earlier ones theirs alone.\<close>

lemma owns_others:
  assumes own: "owns s pd N" and pd: "pd \<in> dirs s" "pd \<noteq> p" and keep: "others_kept s p s'"
    and new: "owns s' p N'" and ds: "dirs s' = insert p (dirs s)" and free: "mappers s p = {}"
  shows "owns s' pd N" and "PGNUM va \<in> N \<Longrightarrow> user_byte s' pd va = user_byte s pd va"
proof -
  have dir: "rd s' pd = rd s pd" and pte: "\<And>n. n < 977920 \<Longrightarrow> pte_of s' pd n = pte_of s pd n"
    using keep pd by (simp_all add: others_kept_def)
  have frame: "\<exists>q<1048576. pte_of s' pd n = rw_entry q \<and> mappers s' q = {(pd, n)} \<and> q \<notin> dirs s'" if n: "n \<in> N" for n
  proof -
    obtain q where q: "q < 1048576" "pte_of s pd n = rw_entry q" "mappers s q = {(pd, n)}" "q \<notin> dirs s" "n < 977920"
      using owns_frame [OF own n] by metis
    have here: "pte_of s' pd n = rw_entry q" using pte q by simp
    then have me: "(pd, n) \<in> mappers s' q" using pd ds q(1,5) rw_entry_bits(4) rw_entry_PGNUM by (simp add: mappers_def)
    have only: "(d, m) = (pd, n)" if x: "(d, m) \<in> mappers s' q" for d m
    proof (cases "d = p")
      case True
      with x have m: "m < 977920" "pte_of s' p m \<noteq> 0" "PGNUM (pte_of s' p m) = q" by (auto simp: mappers_def)
      then have "m \<in> N'" using new by (auto simp: owns_def)
      from owns_frame [OF new this] obtain q2 where "q2 < 1048576" "pte_of s' p m = rw_entry q2" "mappers s' q2 = {(p, m)}"
        by metis
      with m(3) have "mappers s' q = {(p, m)}" by (simp add: rw_entry_PGNUM)
      then show ?thesis using me pd(2) by simp
    next
      case False
      then have "d \<in> dirs s" "m < 977920" "pte_of s' d m = pte_of s d m"
        using x keep ds by (auto simp: mappers_def others_kept_def)
      then have "(d, m) \<in> mappers s q" using x by (simp add: mappers_def)
      then show ?thesis using q(3) by simp
    qed
    have "mappers s' q \<subseteq> {(pd, n)}" by (intro subrelI) (use only in blast)
    with me have "mappers s' q = {(pd, n)}" by blast
    moreover have "q \<noteq> p" using q(3) free by auto
    ultimately show ?thesis using q(1,4) here ds by (intro exI [of _ q]) simp
  qed
  then show own': "owns s' pd N" using own pte dir unfolding owns_def by simp
  show "user_byte s' pd va = user_byte s pd va" if va: "PGNUM va \<in> N"
  proof -
    obtain q where q: "q < 1048576" "pte_of s pd (PGNUM va) = rw_entry q" "q \<notin> dirs s" "PGNUM va < 977920"
      using owns_frame [OF own va] by metis
    then have "rd s' q = rd s q" using keep pd rw_entry_bits(4) rw_entry_PGNUM [OF q(1)] unfolding others_kept_def by metis
    then show ?thesis
      using user_byte_owned [OF own' va] user_byte_owned [OF own va] pte [OF q(4)] q(2) rw_entry_PGNUM [OF q(1)] by simp
  qed
qed

lemma create_programs_loads:
  assumes "kinv s fl [k..<1024] kx" and "k + length bs \<le> 1024" and "\<forall>b\<in>set bs. loadable b"
    and "(\<Sum>b\<leftarrow>bs. memory_needed b + 1) \<le> length fl"
  shows "\<exists>s' fl'. create_programs bs s = Inr s' \<and> kinv s' fl' [k + length bs..<1024] kx
     \<and> (\<forall>i<length bs. program_in s' (k + i) (bs ! i) \<and> env_status (envs s' (k + i)) = ENV_RUNNABLE \<and> env_priority (envs s' (k + i)) = 0)
     \<and> (\<forall>i. i < k \<or> k + length bs \<le> i \<longrightarrow> envs s' i = envs s i)
     \<and> (\<forall>i<k. \<forall>b. program_in s i b \<longrightarrow> program_in s' i b)
     \<and> cpus s' = cpus s \<and> cpunum s' = cpunum s \<and> kernel_lock s' = kernel_lock s"
  using assms
proof (induction bs arbitrary: s fl k)
  case Nil
  then show ?case by auto
next
  case (Cons b bs)
  have up: "[k..<1024] = k # [Suc k..<1024]" using Cons.prems(2) by (simp add: upt_conv_Cons)
  obtain p fl0 where fl: "fl = p # fl0" using Cons.prems(4) by (cases fl) auto
  have inv: "kinv s (p # fl0) (k # [Suc k..<1024]) kx" using Cons.prems(1) fl up by simp
  have ok: "loadable b" "memory_needed b \<le> length fl0" using Cons.prems(3,4) fl by simp_all
  from env_create_effect [OF inv ok, of ENV_TYPE_USER] obtain s1 fl1 where
    run: "env_create b ENV_TYPE_USER s = Inr s1" and k1: "kinv s1 fl1 [Suc k..<1024] kx"
    and env: "envs s1 = (envs s)(k := (envs s k)\<lparr>
          env_id := next_generation (env_id (envs s k)) OR word_of_nat k,
          env_parent_id := 0, env_type := ENV_TYPE_USER, env_status := ENV_RUNNABLE, env_runs := 0,
          env_priority := 0, env_tf := user_tf\<lparr>tf_eip := img32 b 24\<rparr>, env_pgfault_upcall := 0,
          env_ipc_recving := False, env_pgdir := Some p\<rparr>)"
    and new: "owns s1 p (program_pages b)" "\<forall>ph\<in>set (segments b). seg_loaded s1 p b ph"
    and keep: "others_kept s p s1" "dirs s1 = insert p (dirs s)" "p \<notin> dirs s"
    and len: "length fl0 \<le> length fl1 + memory_needed b"
    and f1: "cpus s1 = cpus s" "cpunum s1 = cpunum s" "kernel_lock s1 = kernel_lock s"
    by blast
  have "(\<Sum>b\<leftarrow>bs. memory_needed b + 1) \<le> length fl1" "Suc k + length bs \<le> 1024"
    using Cons.prems(2,4) len fl by simp_all
  from Cons.IH [OF k1 this(2) _ this(1)] Cons.prems(3) obtain s' fl' where
    s': "create_programs bs s1 = Inr s'" "kinv s' fl' [Suc k + length bs..<1024] kx"
      "\<forall>i<length bs. program_in s' (Suc k + i) (bs ! i) \<and> env_status (envs s' (Suc k + i)) = ENV_RUNNABLE \<and> env_priority (envs s' (Suc k + i)) = 0"
      "\<forall>i. i < Suc k \<or> Suc k + length bs \<le> i \<longrightarrow> envs s' i = envs s1 i"
      "\<forall>i<Suc k. \<forall>b. program_in s1 i b \<longrightarrow> program_in s' i b"
    and f2: "cpus s' = cpus s1" "cpunum s' = cpunum s1" "kernel_lock s' = kernel_lock s1"
    by auto
  have first: "program_in s1 k b" using env new by (simp add: program_in_def)
  have old: "program_in s1 i b'" if i: "i < k" and old: "program_in s i b'" for i b'
  proof (rule program_in_memory [OF _ _ _ old])
    show "env_tf (envs s1 i) = env_tf (envs s i)" "env_pgdir (envs s1 i) = env_pgdir (envs s i)" using env i by simp_all
    show "owns s1 pd N \<and> (\<forall>va. PGNUM va \<in> N \<longrightarrow> user_byte s1 pd va = user_byte s pd va)"
      if pd: "env_pgdir (envs s i) = Some pd" and own: "owns s pd N" for pd N
    proof -
      have d: "pd \<in> dirs s" using kinv_dir [OF pd] i Cons.prems(2) by simp
      then have "pd \<noteq> p" using keep(3) by auto
      note o = owns_others [OF own d this keep(1) new(1) keep(2) free_unmapped [OF inv]]
      show ?thesis using o by simp
    qed
  qed
  have "program_in s' (k + i) ((b # bs) ! i) \<and> env_status (envs s' (k + i)) = ENV_RUNNABLE \<and> env_priority (envs s' (k + i)) = 0"
    if "i < length (b # bs)" for i
  proof (cases i)
    case 0
    then show ?thesis using first s'(4,5) env by simp
  next
    case (Suc j)
    then show ?thesis using s'(3) that by simp
  qed
  moreover have "envs s' i = envs s i" if "i < k \<or> k + length (b # bs) \<le> i" for i
    using s'(4) env that by auto
  moreover have "program_in s' i b'" if "i < k" "program_in s i b'" for i b'
    using old [OF that] s'(5) that(1) by simp
  ultimately show ?case
    using run s'(1,2) f1 f2 by (intro exI [of _ s'] exI [of _ fl'] conjI allI impI) simp_all
qed

section \<open>The first program runs\<close>

lemma program_in_cong:
  assumes "rd s' = rd s" and "dirs s' = dirs s" and "env_tf (envs s' e) = env_tf (envs s e)"
    and "env_pgdir (envs s' e) = env_pgdir (envs s e)"
  shows "program_in s' e b = program_in s e b"
  using assms(3,4) by (simp add: program_in_def seg_loaded_def view_cong [OF assms(1,2)])

lemma scan_order_0: "scan_order 0 = 0 # tl (scan_order 0)"
  using scan_order_nth [of 0 0] scan_order_length [of 0] by (cases "scan_order 0") auto

text \<open>With no current environment and slot 0 ready and urgent, both schedulers run slot 0.\<close>

lemma yield_runs_first:
  assumes cur: "curenv s = None" and ready: "env_status (envs s 0) = ENV_RUNNABLE" "env_priority (envs s 0) = 0"
    and dir: "env_pgdir (envs s 0) = Some pd" and lock: "kernel_lock s = Some (cpunum s)" and inv: "kinv s fl el kx"
  shows "\<exists>s'. sched_yield build s = Inr (RunsEnv 0, s') \<and> kinv s' fl el kx \<and> rd s' = rd s \<and> dirs s' = dirs s
     \<and> curenv s' = Some 0 \<and> kernel_lock s' = None \<and> cr3 s' (cpunum s') = pd
     \<and> (\<forall>e. env_tf (envs s' e) = env_tf (envs s e) \<and> env_pgdir (envs s' e) = env_pgdir (envs s e)
          \<and> env_status (envs s' e) = (if e = 0 then ENV_RUNNING else env_status (envs s e)))"
proof -
  let ?t = "s\<lparr>stats := (stats s)\<lparr>number_of_yields := number_of_yields (stats s) + 1\<rparr>\<rparr>"
  have cur1: "curenv ?t = None" using cur by (simp add: curenv_def)
  then have start: "sched_start ?t = 0" by (simp add: sched_start_def)
  define t where "t = (case build of SCHED_ROUND_ROBIN \<Rightarrow> ?t | SCHED_PRIORITIES \<Rightarrow> boost ?t)"
  have envs: "envs t e = envs s e \<or> envs t e = (envs s e)\<lparr>env_priority := 0\<rparr>" for e
    by (cases build) (simp_all add: t_def boost_envs)
  have t: "rd t = rd s" "npages t = npages s" "pages t = pages s" "page_free_list t = page_free_list s" "kern_pgdir t = kern_pgdir s"
      "env_free_list t = env_free_list s" "curenv t = None" "kernel_lock t = kernel_lock s" "cpunum t = cpunum s"
    using cur1 by (cases build; simp add: t_def boost_def boost_loop_envs curenv_def rd_def fun_eq_iff)+
  have f: "env_tf (envs t e) = env_tf (envs s e)" "env_link (envs t e) = env_link (envs s e)"
      "env_status (envs t e) = env_status (envs s e)" "env_pgdir (envs t e) = env_pgdir (envs s e)" for e
    using envs [of e] by auto
  have urgent: "env_priority (envs t 0) = 0" using envs [of 0] ready by auto
  have first: "find P (scan_order 0) = Some 0" if "P 0" for P by (subst scan_order_0) (simp add: that)
  have pick: "sched_pick build ?t = Inr (Some 0, t)"
  proof (cases build)
    case SCHED_ROUND_ROBIN
    then show ?thesis using rr_pick_find [of ?t] first ready start by (simp add: t_def)
  next
    case SCHED_PRIORITIES
    moreover from this have "env_status (envs (boost ?t) 0) = ENV_RUNNABLE" "env_priority (envs (boost ?t) 0) = 0"
      using f(3) [of 0] urgent ready by (simp_all add: t_def)
    ultimately show ?thesis
      using prio_pick_find [of ?t] first start cur1 by (simp add: t_def Let_def demote_def)
  qed
  define u where "u = t\<lparr>stats := (stats t)\<lparr>number_of_switches := number_of_switches (stats t) + 1\<rparr>\<rparr>"
  have run: "sched_yield build s = env_run 0 u" by (simp add: sched_yield_def pick sched_finish_def u_def)
  have "env_pgdir (envs u 0) = Some pd" "kernel_lock u = Some (cpunum u)" using f dir lock t by (simp_all add: u_def)
  from env_run_effect [OF this] obtain s' where
    s': "(env_run 0 u :: unit kcall) = Inr (RunsEnv 0, s')" "curenv s' = Some 0" "kernel_lock s' = None" "cr3 s' = (cr3 u)(cpunum u := pd)" "cpunum s' = cpunum u"
    and env: "envs s' = (\<lambda>x. if x = 0 then (envs u 0)\<lparr>env_runs := env_runs (envs u 0) + 1,
          env_status := ENV_RUNNING, env_cpunum := cpunum u\<rparr>
        else if curenv u = Some x \<and> env_status (envs u x) = ENV_RUNNING
        then (envs u x)\<lparr>env_status := ENV_RUNNABLE\<rparr> else envs u x)"
    and same: "rd s' = rd u" "npages s' = npages u" "pages s' = pages u" "page_free_list s' = page_free_list u"
      "kern_pgdir s' = kern_pgdir u" "env_free_list s' = env_free_list u" by blast
  have cu: "curenv u = None" using t by (simp add: u_def curenv_def)
  have u: "rd u = rd t" "npages u = npages t" "pages u = pages t" "page_free_list u = page_free_list t" "kern_pgdir u = kern_pgdir t"
      "env_free_list u = env_free_list t" "envs u = envs t"
    by (simp_all add: u_def rd_def fun_eq_iff)
  have fields: "env_tf (envs s' e) = env_tf (envs s e)" "env_link (envs s' e) = env_link (envs s e)"
      "env_pgdir (envs s' e) = env_pgdir (envs s e)"
      "env_status (envs s' e) = (if e = 0 then ENV_RUNNING else env_status (envs s e))" for e
    by (simp_all add: env cu u f)
  have "kinv s' fl el kx" "dirs s' = dirs s"
    by (rule kinv_cong [OF inv]; use same t u fields ready in simp)+
  then show ?thesis using run s' fields same(1) u(1) t(1) by (intro exI [of _ s']) simp
qed

text \<open>The programs, with the lock held and slots, memory and images as they must be.\<close>

lemma start_programs_runs:
  assumes inv: "kinv s fl [0..<1024] kx" and cur: "curenv s = None" and lock: "kernel_lock s = Some (cpunum s)"
    and some: "bs \<noteq> []" "length bs \<le> 1024" and ok: "\<forall>b\<in>set bs. loadable b"
    and room: "(\<Sum>b\<leftarrow>bs. memory_needed b + 1) \<le> length fl"
  shows "\<exists>s' fl'. start_programs build bs s = Inr (RunsEnv 0, s') \<and> kinv s' fl' [length bs..<1024] kx
     \<and> curenv s' = Some 0 \<and> kernel_lock s' = None \<and> env_pgdir (envs s' 0) = Some (cr3 s' (cpunum s'))
     \<and> (\<forall>i<length bs. program_in s' i (bs ! i)
          \<and> env_status (envs s' i) = (if i = 0 then ENV_RUNNING else ENV_RUNNABLE))"
proof -
  from create_programs_loads [OF inv _ ok room] some obtain s1 fl1 where
    s1: "create_programs bs s = Inr s1" "kinv s1 fl1 [length bs..<1024] kx"
      "\<forall>i<length bs. program_in s1 i (bs ! i) \<and> env_status (envs s1 i) = ENV_RUNNABLE \<and> env_priority (envs s1 i) = 0"
    and f: "cpus s1 = cpus s" "cpunum s1 = cpunum s" "kernel_lock s1 = kernel_lock s"
    by (auto simp del: upt_Suc)
  have n: "0 < length bs" using some by simp
  then obtain pd where pd: "env_pgdir (envs s1 0) = Some pd" using s1(3) by (auto simp: program_in_def)
  have "curenv s1 = None" "kernel_lock s1 = Some (cpunum s1)" using cur lock f by (simp_all add: curenv_def)
  from yield_runs_first [OF this(1) _ _ pd this(2) s1(2), of build] s1(3) n obtain s' where
    s': "sched_yield build s1 = Inr (RunsEnv 0, s')" "kinv s' fl1 [length bs..<1024] kx" "rd s' = rd s1" "dirs s' = dirs s1"
      "curenv s' = Some 0" "kernel_lock s' = None" "cr3 s' (cpunum s') = pd"
      "\<forall>e. env_tf (envs s' e) = env_tf (envs s1 e) \<and> env_pgdir (envs s' e) = env_pgdir (envs s1 e)
          \<and> env_status (envs s' e) = (if e = 0 then ENV_RUNNING else env_status (envs s1 e))" by auto
  have "program_in s' i (bs ! i)" if "i < length bs" for i
    using program_in_cong [OF s'(3,4)] s'(8) s1(3) that by simp
  moreover have "start_programs build bs s = Inr (RunsEnv 0, s')" using s1(1) s'(1) by (simp add: start_programs_def)
  ultimately show ?thesis using s' s1(3) pd by (intro exI [of _ s'] exI [of _ fl1]) simp
qed

lemma copy_code_keeps:
  assumes "kinv s fl el kx" and "plain s fl 7" and "i + length bs \<le> 4096"
  shows "kinv (copy_code i bs s) fl el kx \<and> vm_frame s (copy_code i bs s)"
  using assms
proof (induction bs arbitrary: i s)
  case (Cons b bs)
  let ?t = "wr 7 (i div 4) (set_byte (rd s 7 (i div 4)) (i mod 4) b) s"
  note k = kinv_store [OF Cons.prems(1,2) refl, of "i div 4" "set_byte (rd s 7 (i div 4)) (i mod 4) b"]
  have fr: "vm_frame s ?t" by simp
  have "plain ?t fl 7" using Cons.prems(2) k(3) dirs_cong [OF fr] by (simp add: plain_def)
  moreover have "copy_code i (b # bs) s = copy_code (Suc i) bs ?t" using Cons.prems(3) by simp
  ultimately show ?case using Cons.IH [OF k(1), of "Suc i"] Cons.prems(3) vm_frame_trans [OF fr] by simp
qed simp

lemma free_slots_no_dirs:
  assumes "kinv s fl [0..<1024] kx" shows "dirs s = {kern_pgdir s}"
proof -
  have "env_pgdir (envs s e) = None" if "e < 1024" for e
  proof -
    have "e \<in> set [0..<1024]" using that by (simp only: set_upt atLeastLessThan_iff le0 simp_thms)
    moreover have "set [0..<1024] = {e. e < 1024 \<and> env_status (envs s e) = ENV_FREE}"
      using assms unfolding kinv_def free_envs_def by blast
    ultimately have "env_status (envs s e) = ENV_FREE" by blast
    then show ?thesis using assms that by (simp add: kinv_def)
  qed
  then show ?thesis by (auto simp: dirs_def pgdirs_def)
qed

lemma env_init_procs: "same_procs s (env_init s)"
  by (simp add: same_procs_def env_init_def env_init_loop_envs upd_env_def)

text \<open>Reading the firmware's table changes the array of processors alone, and no current environment.\<close>

definition same_envs :: "(nat \<Rightarrow> CpuInfo) \<Rightarrow> (nat \<Rightarrow> CpuInfo) \<Rightarrow> bool" where
  "same_envs c d \<longleftrightarrow> (\<forall>i. cpu_env (d i) = cpu_env (c i))"

lemma mp_entries_procs: "\<exists>g' c. mp_entries m n p (g, s) = (g', s\<lparr>cpus := c\<rparr>) \<and> same_envs (cpus s) c"
proof (induction n arbitrary: p g s)
  case 0
  show ?case by (intro exI [of _ g] exI [of _ "cpus s"]) (simp add: same_envs_def)
next
  case (Suc n)
  obtain g1 c1 where 1: "add_cpu m p (g, s) = (g1, s\<lparr>cpus := c1\<rparr>)" "same_envs (cpus s) c1"
  proof (cases "ncpu g < NCPU")
    case True
    then show thesis
      by (intro that [of "(if proc_flags m p AND MPPROC_BOOT \<noteq> 0 then g\<lparr>bootcpu := ncpu g\<rparr> else g)\<lparr>ncpu := ncpu g + 1\<rparr>"
          "(cpus s)(ncpu g := (cpus s (ncpu g))\<lparr>cpu_id := word_of_nat (ncpu g)\<rparr>)"])
         (simp_all add: add_cpu_def Let_def same_envs_def)
  next
    case False
    have "s = s\<lparr>cpus := cpus s\<rparr>" by simp
    with False show thesis by (intro that [of "if proc_flags m p AND MPPROC_BOOT \<noteq> 0 then g\<lparr>bootcpu := ncpu g\<rparr> else g" "cpus s"]) (simp_all add: add_cpu_def Let_def same_envs_def)
  qed
  show ?case
  proof (cases "m p = MPPROC")
    case True
    from Suc.IH [of "p + 20" g1 "s\<lparr>cpus := c1\<rparr>"] 1 True show ?thesis by (auto simp: same_envs_def)
  next
    case False
    show ?thesis
    proof (cases "m p = MPBUS \<or> m p = MPIOAPIC \<or> m p = MPIOINTR \<or> m p = MPLINTR")
      case True
      then show ?thesis using Suc.IH [of "p + 8" g s] False by auto
    next
      case none: False
      have "s = s\<lparr>cpus := cpus s\<rparr>" by simp
      with none False show ?thesis by (intro exI [of _ "g\<lparr>ismp := False\<rparr>"] exI [of _ "cpus s"]) (simp add: same_envs_def)
    qed
  qed
qed

lemma mp_init_procs:
  assumes "mp_init imcr m g s = Inr (g', s', w)" shows "\<exists>c. s' = s\<lparr>cpus := c\<rparr> \<and> same_envs (cpus s) c"
proof -
  obtain r where r: "mpconfig s m = Inr r" using assms by (auto simp: mp_init_def Let_def andThen_eq_Inr)
  have refl: "\<exists>c. s = s\<lparr>cpus := c\<rparr> \<and> same_envs (cpus s) c" by (intro exI [of _ "cpus s"]) (simp add: same_envs_def)
  show ?thesis
  proof (cases r)
    case (Table mp conf)
    let ?g = "g\<lparr>bootcpu := 0, ismp := True, lapicaddr := conf_lapicaddr m conf\<rparr>"
    obtain g1 c where e: "mp_entries m (unat (conf_entry m conf)) (conf_entries conf) (?g, s) = (g1, s\<lparr>cpus := c\<rparr>)"
        "same_envs (cpus s) c"
      using mp_entries_procs by metis
    then show ?thesis using assms r Table by (auto simp: mp_init_def Let_def same_envs_def split: if_splits)
  qed (use assms r refl in \<open>auto simp: mp_init_def Let_def\<close>)
qed

lemma mapped_cpus: "mapped (s\<lparr>cpus := c\<rparr>) k L T f = mapped s k L T f"
proof -
  let ?t = "s\<lparr>cpus := c\<rparr>"
  have r: "rd ?t = rd s" "kern_pgdir ?t = kern_pgdir s" by (simp_all add: rd_def fun_eq_iff)
  have t: "tables ?t = tables s" by (simp only: tables_def r)
  have a: "table_at ?t = table_at s" by (intro ext) (simp only: table_at_def r)
  have p: "kpte ?t = kpte s" by (intro ext) (simp only: kpte_def pte_of_def r)
  have "kdir ?t fl = kdir s fl" for fl
    using free_pages_cong [of ?t s fl] by (simp add: kdir_def mem_ok_def t a r)
  then show ?thesis by (simp add: mapped_def t p)
qed

text \<open>Starting the boot processor's interrupt controller maps its registers in the device window.\<close>

lemma lapicws_busy: "icr_busy (lapicws ws a) = icr_busy a"
  by (induction ws a rule: lapicws.induct) (simp_all add: lapicw_def)

lemma wait_delivery_some: "icr_busy a = Some n \<Longrightarrow> \<exists>a'. wait_delivery a = Some a'"
  by (induction n arbitrary: a) (subst wait_delivery.simps; simp)+

lemma lapic_init_maps:
  assumes st: "mapped s (Suc d) L T f" and T: "958 \<in> T" and base: "mmio_base s = page2pa 980995" and none: "f 980995 = 0"
    and idle: "icr_busy a \<noteq> None"
  shows "\<exists>a' s' f'. lapic_init True pa (a, s) = Some (Inr (a', s')) \<and> mapped s' d L T f'
     \<and> vm_frame s (s'\<lparr>mmio_base := mmio_base s\<rparr>)"
proof (cases "pa = 0")
  case True
  have "mapped s d L T f" using st by (auto simp: mapped_def)
  moreover have "vm_frame s (s\<lparr>mmio_base := mmio_base s\<rparr>)" by (simp add: vm_frame_def)
  ultimately show ?thesis using True by (simp add: lapic_init_def) blast
next
  case False
  have st1: "mapped s (1 + d) L T f" using st by simp
  have sz: "ROUNDUP 4096 PGSIZE = page2pa 1" by (simp add: ROUNDUP_def ROUNDDOWN_def page2pa_def)
  have "f m = 0" if "980995 \<le> m" "m < 980995 + 1" for m
  proof -
    have "m = 980995" using that by simp
    then show ?thesis using none by simp
  qed
  from mmio_map_region_kern [OF st1 base sz _ _ _ this, of pa] obtain s' where
    s': "mmio_map_region pa 4096 s = Inr (page2pa 980995, s')" "vm_frame s (s'\<lparr>mmio_base := mmio_base s\<rparr>)"
      "mapped s' d L (T \<union> {958}) (lay 980995 1 (PGNUM pa) (PTE_W OR PTE_PCD OR PTE_PWT) f)"
    by auto
  have "T \<union> {958} = T" using T by auto
  moreover obtain a' where "wait_delivery (lapicws (lapic_registers True a) (a\<lparr>apic_mapped := True\<rparr>)) = Some a'"
    using idle wait_delivery_some [of "lapicws (lapic_registers True a) (a\<lparr>apic_mapped := True\<rparr>)"]
    by (auto simp: lapicws_busy)
  ultimately show ?thesis using s' False by (simp add: lapic_init_def) blast
qed

text \<open>The stages before the lock: memory, environments, the firmware's tables, the controller.\<close>

abbreviation no_procs :: smp where
  "no_procs \<equiv> \<lparr>bootcpu = 0, ismp = False, ncpu = 0, lapicaddr = 0\<rparr>"

lemma devices_ready:
  assumes m: "mapped s1 (length fl1) fl1 ({955, 956, 958, 959} \<union> {960..<1024}) f" and z: "envs s1 = (\<lambda>_. zero_env)"
    and base: "mmio_base s1 = page2pa 980995" and none: "f 980995 = 0" and some: "fl1 \<noteq> []" "7 \<notin> set fl1"
    and mp: "\<exists>r. mp_init imcr bios no_procs (env_init s1) = Inr r" and idle: "icr_busy a \<noteq> None"
  shows "\<exists>g s2 w a' s3 fl3 kx. mp_init imcr bios no_procs (env_init s1) = Inr (g, s2, w)
     \<and> lapic_init True (lapicaddr g) (a, s2) = Some (Inr (a', s3))
     \<and> kinv s3 fl3 [0..<1024] kx \<and> length fl1 \<le> length fl3 + 1 \<and> 7 \<notin> set fl3
     \<and> npages s3 = npages s1 \<and> kern_pgdir s3 = kern_pgdir s1 \<and> same_envs (cpus s1) (cpus s3)
     \<and> cpunum s3 = cpunum s1 \<and> kernel_lock s3 = kernel_lock s1"
proof -
  let ?e = "env_init s1" and ?T = "{955, 956, 958, 959} \<union> {960..<1024 :: nat}"
  obtain g s2 w where run: "mp_init imcr bios no_procs ?e = Inr (g, s2, w)" using mp by (metis surj_pair)
  obtain c where c: "s2 = ?e\<lparr>cpus := c\<rparr>" "same_envs (cpus ?e) c" using mp_init_procs [OF run] by blast
  define d where "d = length fl1 - 1"
  have len: "length fl1 = Suc d" using some(1) by (cases fl1) (simp_all add: d_def)
  have "mapped s2 (length fl1) fl1 ?T f" using m by (simp only: c(1) mapped_cpus mapped_env_init)
  then have m2: "mapped s2 (Suc d) fl1 ?T f" by (simp only: len)
  have base2: "mmio_base s2 = page2pa 980995" using base by (simp add: c(1) env_init_def env_init_loop_envs upd_env_def)
  have T: "958 \<in> ?T" by simp
  from lapic_init_maps [OF m2 T base2 none idle, of "lapicaddr g"] obtain a' s3 f' where
    s3: "lapic_init True (lapicaddr g) (a, s2) = Some (Inr (a', s3))" "mapped s3 d fl1 ?T f'"
      "vm_frame s2 (s3\<lparr>mmio_base := mmio_base s2\<rparr>)" by (elim exE conjE) (rule that)
  have fr: "envs s3 = envs ?e" "env_free_list s3 = env_free_list ?e" "cpus s3 = c" "cpunum s3 = cpunum ?e"
      "kernel_lock s3 = kernel_lock ?e" "npages s3 = npages ?e" "kern_pgdir s3 = kern_pgdir ?e"
    using s3(3) by (simp_all add: vm_frame_def c(1))
  have "free_envs s3 [0..<1024]" using env_init_free(1) [OF z] free_envs_cong [OF fr(1,2)] by blast
  moreover have "env_pgdir (envs s3 e) = None" for e using env_init_free(2) [OF z] by (simp add: fr(1))
  ultimately obtain fl3 kx where k: "kinv s3 fl3 [0..<1024] kx" "d \<le> length fl3" "\<exists>ps. fl1 = ps @ fl3"
    using mapped_kinv [OF s3(2)] by blast
  have "7 \<notin> set fl3" using k(3) some(2) by auto
  moreover have "same_envs (cpus s1) (cpus s3)" "cpunum s3 = cpunum s1" "kernel_lock s3 = kernel_lock s1"
    using c(2) env_init_procs [of s1] by (simp_all add: same_procs_def same_envs_def fr)
  moreover have "npages s3 = npages s1" "kern_pgdir s3 = kern_pgdir s1" using env_init_keeps [of s1] by (simp_all add: fr)
  moreover have "length fl1 \<le> length fl3 + 1" using k(2) len by simp
  ultimately show ?thesis using run s3(1) k(1) by blast
qed

text \<open>\<open>boot_aps\<close> when every processor that is started answers.\<close>

lemma boot_aps_keeps:
  assumes inv: "kinv s fl [0..<1024] kx" and seven: "7 \<notin> set fl" "kern_pgdir s \<noteq> 7" "7 < npages s"
    and code: "length code \<le> 4096" and up: "\<forall>c. up c"
  shows "\<exists>t. boot_aps code up g s = Some (Inr t) \<and> kinv t fl [0..<1024] kx \<and> same_envs (cpus s) (cpus t)
     \<and> cpunum t = cpunum s \<and> kernel_lock t = kernel_lock s"
proof -
  have "plain s fl 7" using seven inv unfolding plain_def free_slots_no_dirs [OF inv] by (simp add: kinv_def)
  from copy_code_keeps [OF inv this, of 0 code] code
  have c: "kinv (copy_code 0 code s) fl [0..<1024] kx" "vm_frame s (copy_code 0 code s)" by simp_all
  define t where "t = (copy_code 0 code s)\<lparr>cpus := (\<lambda>c. if c < ncpu g \<and> c \<noteq> cpunum (copy_code 0 code s)
     then (cpus (copy_code 0 code s) c)\<lparr>cpu_status := CPU_STARTED\<rparr> else cpus (copy_code 0 code s) c)\<rparr>"
  have "\<not> npages s \<le> PGNUM MPENTRY_PADDR" using seven(3) by (simp add: PGNUM_div)
  then have "boot_aps code up g s = Some (Inr t)" using up by (simp add: boot_aps_def KADDR_def t_def Let_def)
  moreover have "kinv t fl [0..<1024] kx" by (rule kinv_cong(1) [OF c(1)]; simp add: t_def rd_def fun_eq_iff)
  moreover have "same_envs (cpus s) (cpus t)" "cpunum t = cpunum s" "kernel_lock t = kernel_lock s"
    using c(2) by (simp_all add: t_def vm_frame_def same_envs_def)
  ultimately show ?thesis by blast
qed


text \<open>
  The PC of \<open>pc_128mb\<close>, with 640 KB of conventional memory and no table in its firmware, and two
  copies of the demonstration image.
\<close>

definition demo_pc :: pc where
  "demo_pc = \<lparr>pc_cmos = pc_128mb, pc_end = 0xF0116800, pc_stacks = (\<lambda>j. KERNBASE + page2pa (258 + 8 * j)), pc_cr0 = 0x11,
     pc_imcr = 0, pc_bios = (\<lambda>a. if a = 0x413 then 0x80 else if a = 0x414 then 2 else 0),
     pc_apic = \<lparr>apic_mapped = False, apic_id = 0, apic_version = 0x14, icr_busy = Some 0, apic_log = []\<rparr>,
     pc_entry = [0xFA, 0xFC], pc_up = (\<lambda>_. True)\<rparr>"

lemma mpsearch_loop_none: "(\<And>a. \<not> is_mp m a) \<Longrightarrow> mpsearch_loop m a n = None"
  by (induction n arbitrary: a) simp_all

lemma demo_no_table:
  assumes "npages t = 32768" shows "mpconfig t (pc_bios demo_pc) = Inr No_table"
proof -
  have "\<not> is_mp (pc_bios demo_pc) a" for a
    by (simp add: is_mp_def sig_at_def demo_pc_def exI [of _ "0 :: nat"])
  note none = mpsearch_loop_none [OF this]
  show ?thesis
    by (simp add: mpconfig_def mpsearch_def mpsearch1_def none KADDR_def assms PGNUM_div)
       (simp add: demo_pc_def le16_def)
qed


end
