(* ===== verification/ForkLab.thy ===== *)
theory ForkLab
  imports Prelude
begin

text \<open>
  The two programs of \<open>Fork\<close>: \<open>primes.c\<close>, a sieve whose stages are processes joined by pipes,
  and \<open>xargs.c\<close>, which runs a command on its input lines in batches. The operating system
  delivers the bytes of a pipe in order and ends it when its last writer has closed it; what may
  go wrong, and where, is an argument.
\<close>

section \<open>primes.c\<close>

text \<open>
  Standard output of the C library. To a terminal a line is written when it is complete; to a
  file or a pipe bytes are kept until the buffer of \<open>BUFSIZ\<close> bytes is full or the process
  exits. The result is what is written now and what stays in the buffer.
\<close>

datatype stdio = Terminal | Buffered nat

fun put_line :: "stdio \<Rightarrow> string \<Rightarrow> string \<Rightarrow> string \<times> string" where
  "put_line Terminal buf l = (buf @ l, [])"
| "put_line (Buffered cap) buf l =
     (if length (buf @ l) \<le> cap then ([], buf @ l) else (take cap (buf @ l), drop cap (buf @ l)))"

text \<open>\<open>printf("primo %d\n", p)\<close> for the positive numbers of the sieve.\<close>

fun show_nat :: "nat \<Rightarrow> string" where
  "show_nat n = (if n < 10 then [char_of (48 + n)] else show_nat (n div 10) @ [char_of (48 + n mod 10)])"

declare show_nat.simps [simp del]

definition prime_line :: "int \<Rightarrow> string" where
  "prime_line p = ''primo '' @ show_nat (nat p) @ [char_of (10 :: nat)]"

text \<open>
  \<open>pipe_fails\<close> and \<open>fork_fails\<close> say at which stage the call fails. A stage whose reader is gone
  is killed by \<open>SIGPIPE\<close> at its next write; whether it still had something to write is
  \<open>killed\<close>. Its buffer is then lost.
\<close>

record os =
  pipe_fails :: "nat \<Rightarrow> bool"
  fork_fails :: "nat \<Rightarrow> bool"
  killed :: "nat \<Rightarrow> bool"

text \<open>What the next stage reads: the candidates that pass the test.\<close>

fun send_primes_candidates :: "int list \<Rightarrow> int \<Rightarrow> int list" where
  "send_primes_candidates [] p = []"
| "send_primes_candidates (n # ns) p =
     (if n mod p \<noteq> 0 then n # send_primes_candidates ns p else send_primes_candidates ns p)"

lemma send_primes_candidates_filter: "send_primes_candidates ns p = filter (\<lambda>n. n mod p \<noteq> 0) ns"
  by (induction ns) auto

text \<open>
  A stage with its input: what it and its descendants write, and whether it was killed. The
  child starts with a copy of the unwritten bytes, and the parent waits for it.
\<close>

function receive_numbers :: "os \<Rightarrow> stdio \<Rightarrow> nat \<Rightarrow> string \<Rightarrow> int list \<Rightarrow> string \<times> bool" where
  "receive_numbers os out d buf [] = (buf, False)"
| "receive_numbers os out d buf (p # ns) =
     (let (now, buf) = put_line out buf (prime_line p) in
      if pipe_fails os d \<or> fork_fails os d then (now @ buf, True)
      else let (rest, broken) = receive_numbers os out (d + 1) buf (send_primes_candidates ns p);
               dead = (broken \<and> killed os d)
           in (now @ rest @ (if dead then [] else buf), dead))"
  by pat_completeness auto
termination
  by (relation "measure (\<lambda>(_, _, _, _, ns). length ns)")
    (auto simp: send_primes_candidates_filter le_imp_less_Suc)

fun send_numbers :: "int \<Rightarrow> int \<Rightarrow> nat \<Rightarrow> int list" where
  "send_numbers p n 0 = []"
| "send_numbers p n (Suc k) = (if p \<le> n then p # send_numbers (p + 1) n k else [])"

datatype exit_status = Exit nat | Sigpipe

text \<open>
  \<open>main\<close> with \<open>n = atoi(argv[1])\<close>; \<open>boot\<close> tells which of its own calls fails. \<open>SUCCESS\<close> is 0,
  \<open>ERROR_ARGS\<close> 1, \<open>ERROR_PIPE\<close> 2, \<open>ERROR_FORK\<close> 3. For the largest \<open>int\<close> the counter of
  \<open>send_numbers\<close> overflows.
\<close>

definition primes_main :: "bool \<times> bool \<times> bool \<Rightarrow> os \<Rightarrow> stdio \<Rightarrow> nat \<Rightarrow> int \<Rightarrow> (string \<times> exit_status) fallible" where
  "primes_main boot os out argc n =
     (let (no_pipe, no_fork, main_killed) = boot in
      if argc < 2 then Inr ([], Exit 1)
      else if no_pipe then Inr ([], Exit 2)
      else if no_fork then Inr ([], Exit 3)
      else if n = 2147483647 then Inl (KUndef ''signed overflow'')
      else let (written, broken) = receive_numbers os out 0 [] (send_numbers 2 n (nat (n - 1)))
           in Inr (written, if broken \<and> main_killed then Sigpipe else Exit 0))"

text \<open>The specification.\<close>

definition is_prime :: "int \<Rightarrow> bool" where
  "is_prime m \<longleftrightarrow> 2 \<le> m \<and> (\<forall>q\<in>{2..<m}. m mod q \<noteq> 0)"

definition primes_upto :: "int \<Rightarrow> int list" where
  "primes_upto n = filter is_prime [2..n]"

lemma send_numbers_upto: "nat (n - p + 1) \<le> k \<Longrightarrow> send_numbers p n k = [p..n]"
  by (induction p n k rule: send_numbers.induct) (auto simp: upto.simps)

text \<open>The numbers the stages print, whatever happens to the output.\<close>

function sieve :: "int list \<Rightarrow> int list" where
  "sieve [] = []"
| "sieve (p # ns) = p # sieve (send_primes_candidates ns p)"
  by pat_completeness auto
termination by (relation "measure length") (auto simp: send_primes_candidates_filter le_imp_less_Suc)

definition unmarked :: "int \<Rightarrow> int \<Rightarrow> int list" where
  "unmarked a n = filter (\<lambda>m. \<forall>q\<in>{2..<a}. m mod q \<noteq> 0) [a..n]"

lemma below_next: "2 \<le> a \<Longrightarrow> {2..<a + 1} = insert a {2..<a :: int}"
  by auto

lemma unmarked_prime:
  assumes "is_prime a" and "a \<le> n"
  shows "\<exists>ns. unmarked a n = a # ns \<and> send_primes_candidates ns a = unmarked (a + 1) n"
proof -
  have a: "2 \<le> a" using assms(1) by (simp add: is_prime_def)
  have "unmarked a n = a # filter (\<lambda>m. \<forall>q\<in>{2..<a}. m mod q \<noteq> 0) [a + 1..n]"
    using assms by (simp add: unmarked_def is_prime_def upto.simps [of a n])
  then show ?thesis
    unfolding send_primes_candidates_filter filter_filter unmarked_def [of "a + 1"] below_next [OF a]
    by (intro exI conjI, assumption) (auto intro: filter_cong)
qed

lemma composite_factor:
  assumes "\<not> is_prime a" and "2 \<le> a"
  shows "\<exists>q\<in>{2..<a}. a mod q = 0"
  using assms by (simp add: is_prime_def)

lemma mod_factor: "m mod a = 0 \<Longrightarrow> a mod q = 0 \<Longrightarrow> m mod q = 0" for a q m :: int
  by (meson dvd_eq_mod_eq_0 dvd_trans)

lemma unmarked_composite:
  assumes "\<not> is_prime a" and a: "2 \<le> a"
  shows "unmarked a n = unmarked (a + 1) n"
proof -
  from composite_factor [OF assms] obtain q where q: "q \<in> {2..<a}" "a mod q = 0" by (rule bexE)
  have skip: "(\<forall>q\<in>{2..<a + 1}. m mod q \<noteq> 0) = (\<forall>q\<in>{2..<a}. m mod q \<noteq> 0)" for m
    unfolding below_next [OF a] ball_simps using mod_factor [of m a q] q by metis
  have out: "(\<forall>q\<in>{2..<a}. a mod q \<noteq> 0) = False" using q by metis
  show ?thesis
  proof (cases "a \<le> n")
    case True
    then have "[a..n] = a # [a + 1..n]" by (simp add: upto.simps [of a n])
    then show ?thesis unfolding unmarked_def skip by (simp only: filter.simps out if_False)
  qed (simp add: unmarked_def)
qed

lemma sieve_unmarked: "2 \<le> a \<Longrightarrow> sieve (unmarked a n) = filter is_prime [a..n]"
proof (induction "nat (n + 1 - a)" arbitrary: a)
  case 0
  then show ?case by (simp add: unmarked_def)
next
  case (Suc k)
  then have IH: "sieve (unmarked (a + 1) n) = filter is_prime [a + 1..n]" and an: "a \<le> n" by simp_all
  show ?case
  proof (cases "is_prime a")
    case True
    from unmarked_prime [OF True an] obtain ns where "unmarked a n = a # ns"
      "send_primes_candidates ns a = unmarked (a + 1) n" by blast
    then show ?thesis using True an IH by (simp add: upto.simps [of a n])
  next
    case False
    then show ?thesis using Suc.prems an IH by (simp add: unmarked_composite upto.simps [of a n])
  qed
qed

lemma sieve_primes: "sieve (send_numbers 2 n (nat (n - 1))) = primes_upto n"
proof -
  have "unmarked 2 n = [2..n]" by (simp add: unmarked_def)
  then show ?thesis using sieve_unmarked [of 2 n] by (simp add: send_numbers_upto primes_upto_def)
qed

text \<open>The stages that get to run.\<close>

fun running :: "os \<Rightarrow> nat \<Rightarrow> int list \<Rightarrow> int list" where
  "running os d [] = []"
| "running os d (p # ps) = p # (if pipe_fails os d \<or> fork_fails os d then [] else running os (d + 1) ps)"

lemma running_take:
  "running os d ps = (case first_from (\<lambda>i. pipe_fails os i \<or> fork_fails os i) d (length ps) of
     None \<Rightarrow> ps | Some k \<Rightarrow> take (Suc (k - d)) ps)"
proof (induction os d ps rule: running.induct)
  case (2 os d p ps)
  have "Suc (k - Suc d) = k - d" if "first_from (\<lambda>i. pipe_fails os i \<or> fork_fails os i) (Suc d) n = Some k" for k n
    using that by (auto simp: first_from_Some)
  with 2 show ?case by (auto split: option.splits)
qed simp

lemma terminal_output:
  "fst (receive_numbers os Terminal d [] ns) = concat (map prime_line (running os d (sieve ns)))"
proof (induction "length ns" arbitrary: ns d rule: less_induct)
  case less
  show ?case
  proof (cases ns)
    case (Cons p ms)
    have "length (send_primes_candidates ms p) < length ns"
      by (simp add: Cons send_primes_candidates_filter le_imp_less_Suc)
    from less.hyps [OF this, of "d + 1"] show ?thesis by (simp add: Cons split_beta)
  qed simp
qed

text \<open>
  C36. On a terminal, \<open>primes n\<close> prints exactly the primes up to \<open>n\<close>, one per line and in
  order; when a stage cannot create its pipe or its child, the lines up to that stage are
  printed, and no others.
\<close>

theorem primes_terminal:
  assumes "2 \<le> argc" and "n < 2147483647"
  shows "\<exists>status. primes_main (False, False, mk) os Terminal argc n = Inr
     (concat (map prime_line (case first_from (\<lambda>i. pipe_fails os i \<or> fork_fails os i) 0 (length (primes_upto n)) of
        None \<Rightarrow> primes_upto n | Some k \<Rightarrow> take (Suc k) (primes_upto n))), status)"
  using assms terminal_output [of os 0 "send_numbers 2 n (nat (n - 1))"]
  by (auto simp: primes_main_def split_beta sieve_primes running_take cong: option.case_cong)

theorem primes_terminal_witness:
  "\<exists>status. primes_main (False, False, False) \<lparr>pipe_fails = (\<lambda>d. d = 1), fork_fails = (\<lambda>_. False), killed = (\<lambda>_. False)\<rparr> Terminal 2 10
     = Inr (prime_line 2 @ prime_line 3, status)"
proof -
  have "primes_upto 10 = [2, 3, 5, 7]" by code_simp
  then show ?thesis
    using primes_terminal [of 2 10 False "\<lparr>pipe_fails = (\<lambda>d. d = 1), fork_fails = (\<lambda>_. False), killed = (\<lambda>_. False)\<rparr>"]
    by (simp add: numeral_eq_Suc)
qed

text \<open>
  Into a file or a pipe. Every process inherits the unwritten lines of its ancestors and writes
  them again when it exits; the last stage, which prints nothing of its own, comes first.
\<close>

lemma buffered_output:
  assumes "\<And>d. \<not> pipe_fails os d" and "\<And>d. \<not> fork_fails os d"
    and "length (buf @ concat (map prime_line (sieve ns))) \<le> cap"
  shows "receive_numbers os (Buffered cap) d buf ns =
     (concat (map (\<lambda>k. buf @ concat (map prime_line (take k (sieve ns))))
        (length (sieve ns) # rev [1..<Suc (length (sieve ns))])), False)"
  using assms(3)
proof (induction "length ns" arbitrary: ns d buf rule: less_induct)
  case less
  show ?case
  proof (cases ns)
    case Nil
    then show ?thesis by simp
  next
    case (Cons p ms)
    let ?ms = "send_primes_candidates ms p" and ?buf = "buf @ prime_line p"
    have shorter: "length ?ms < length ns" by (simp add: Cons send_primes_candidates_filter le_imp_less_Suc)
    have "length (?buf @ concat (map prime_line (sieve ?ms))) \<le> cap" using less.prems by (simp add: Cons)
    note IH = less.hyps [OF shorter this, of "d + 1"]
    have "[1..<Suc (Suc k)] = 1 # map Suc [1..<Suc k]" for k
      by (simp add: map_Suc_upt upt_conv_Cons del: upt_Suc)
    then have "rev [1..<Suc (Suc k)] = map Suc (rev [1..<Suc k]) @ [1]" for k by (simp add: rev_map del: upt_Suc)
    then show ?thesis using IH less.prems assms(1,2)
      by (simp add: Cons split_beta comp_def del: upt_Suc)
  qed
qed

text \<open>
  C37. With its output in a file or a pipe, and as long as the lines fit the buffer of the C
  library, \<open>primes n\<close> writes every prime once more for each stage behind it: first all the lines,
  from the stage that reads nothing, then all of them, all but the last, and so on.
\<close>

theorem primes_buffered_repeats:
  assumes "2 \<le> argc" and "n < 2147483647" and "length (concat (map prime_line (primes_upto n))) \<le> cap"
    and "\<And>d. \<not> pipe_fails os d" and "\<And>d. \<not> fork_fails os d"
  shows "primes_main (False, False, mk) os (Buffered cap) argc n = Inr
     (concat (map (\<lambda>k. concat (map prime_line (take k (primes_upto n))))
        (length (primes_upto n) # rev [1..<Suc (length (primes_upto n))])), Exit 0)"
  using assms buffered_output [of os "[]" "send_numbers 2 n (nat (n - 1))" cap 0]
  by (simp add: primes_main_def sieve_primes del: upt_Suc)

theorem primes_buffered_repeats_witness:
  "primes_main (False, False, False) \<lparr>pipe_fails = (\<lambda>_. False), fork_fails = (\<lambda>_. False), killed = (\<lambda>_. False)\<rparr>
     (Buffered 4096) 2 4 = Inr (prime_line 2 @ prime_line 3 @ prime_line 2 @ prime_line 3 @ prime_line 2, Exit 0)"
proof -
  have p: "primes_upto 4 = [2, 3]" by code_simp
  have "length (concat (map prime_line (primes_upto 4))) \<le> 4096" unfolding p by code_simp
  then show ?thesis
    using primes_buffered_repeats [of 2 4 4096 "\<lparr>pipe_fails = (\<lambda>_. False), fork_fails = (\<lambda>_. False), killed = (\<lambda>_. False)\<rparr>" False]
    by (simp add: p)
qed

section \<open>xargs.c\<close>

text \<open>
  \<open>buffer\<close> has \<open>nargs + 2\<close> slots for the command, the arguments and the final null. A run of the
  command receives the slots up to the first null. \<open>fork_ok k\<close> says whether the \<open>k\<close>-th \<open>fork\<close>
  succeeds; when it fails the program exits. The result is the list of runs and the exit status.
\<close>

type_synonym argbuf = "string option list"

definition buf_set :: "nat \<Rightarrow> string option \<Rightarrow> argbuf \<Rightarrow> argbuf fallible" where
  "buf_set i v buf = (if i < length buf then Inr (buf[i := v]) else Inl (KUndef ''outside buffer''))"

fun exec_argv :: "argbuf \<Rightarrow> string list fallible" where
  "exec_argv [] = Inl (KUndef ''argv without null'')"
| "exec_argv (None # buf) = Inr []"
| "exec_argv (Some a # buf) = andThen (exec_argv buf) (\<lambda>as. Inr (a # as))"

text \<open>A line as \<open>getline\<close> returns it, never empty; \<open>chomp\<close> overwrites a final newline.\<close>

definition chomp :: "string \<Rightarrow> string" where
  "chomp line = (if last line = char_of (10 :: nat) then butlast line else line)"

fun process_input :: "nat \<Rightarrow> (nat \<Rightarrow> bool) \<Rightarrow> string list list \<Rightarrow> argbuf \<Rightarrow> nat \<Rightarrow> string list \<Rightarrow> (string list list \<times> nat) fallible" where
  "process_input nargs fork_ok done buf num_args [] =
     (if 0 < num_args
      then andThen (buf_set (num_args + 1) None buf) (\<lambda>buf.
           if \<not> fork_ok (length done) then Inr (done, 2)
           else andThen (exec_argv buf) (\<lambda>argv. Inr (done @ [argv], 0)))
      else Inr (done, 0))"
| "process_input nargs fork_ok done buf num_args (line # lines) =
     andThen (buf_set (num_args + 1) (Some (chomp line)) buf) (\<lambda>buf.
       let num_args = num_args + 1 in
       if num_args = nargs
       then if \<not> fork_ok (length done) then Inr (done, 2)
            else andThen (exec_argv buf) (\<lambda>argv. process_input nargs fork_ok (done @ [argv]) buf 0 lines)
       else process_input nargs fork_ok done buf num_args lines)"

definition xargs_main :: "nat \<Rightarrow> (nat \<Rightarrow> bool) \<Rightarrow> string list \<Rightarrow> string list \<Rightarrow> (string list list \<times> nat) fallible" where
  "xargs_main nargs fork_ok argv lines =
     (case argv of
        _ # command # _ \<Rightarrow>
          andThen (buf_set 0 (Some command) (replicate (nargs + 2) None)) (\<lambda>buf.
            process_input nargs fork_ok [] buf 0 lines)
      | _ \<Rightarrow> Inr ([], 1))"

function batches :: "nat \<Rightarrow> 'a list \<Rightarrow> 'a list list" where
  "batches n xs = (if n = 0 \<or> xs = [] then [] else take n xs # batches n (drop n xs))"
  by pat_completeness auto
termination by (relation "measure (\<lambda>(_, xs). length xs)") auto

declare batches.simps [simp del]

lemma batches_Nil [simp]: "batches n [] = []"
  by (simp add: batches.simps)

lemma batches_full: "0 < n \<Longrightarrow> length xs = n \<Longrightarrow> batches n (xs @ ys) = xs # batches n ys"
  by (subst batches.simps) auto

lemma batches_short: "xs \<noteq> [] \<Longrightarrow> length xs < n \<Longrightarrow> batches n xs = [xs]"
  by (subst batches.simps) auto

text \<open>While a batch is read the buffer holds the command and the arguments so far.\<close>

definition holds_args :: "nat \<Rightarrow> string \<Rightarrow> string list \<Rightarrow> argbuf \<Rightarrow> bool" where
  "holds_args nargs command args buf \<longleftrightarrow> length buf = nargs + 2 \<and> buf ! (nargs + 1) = None
     \<and> take (length args + 1) buf = map Some (command # args)"

lemma holds_args_set:
  assumes "holds_args nargs command args buf" and "length args < nargs"
  shows "\<exists>buf'. buf_set (length args + 1) (Some a) buf = Inr buf' \<and> holds_args nargs command (args @ [a]) buf'"
proof -
  have "length args + 1 < length buf" using assms by (simp add: holds_args_def)
  then show ?thesis using assms
    by (auto simp: holds_args_def buf_set_def take_Suc_conv_app_nth [of "Suc (length args)"] take_update_cancel)
qed

lemma exec_argv_take: "take n buf = map Some args \<Longrightarrow> n = length args \<Longrightarrow> n < length buf \<Longrightarrow> buf ! n = None
    \<Longrightarrow> exec_argv buf = Inr args"
proof (induction buf arbitrary: n args)
  case (Cons b buf)
  then show ?case by (cases n; cases args) auto
qed simp

lemma holds_args_exec:
  assumes "holds_args nargs command args buf" and "length args = nargs"
  shows "exec_argv buf = Inr (command # args)" and "holds_args nargs command [] buf"
  using assms exec_argv_take [of "nargs + 1" buf "command # args"]
  by (auto simp: holds_args_def take_Suc hd_map) (cases buf; auto)+

lemma holds_args_last:
  assumes "holds_args nargs command args buf" and "length args < nargs"
  shows "\<exists>buf'. buf_set (length args + 1) None buf = Inr buf' \<and> exec_argv buf' = Inr (command # args)"
  using assms exec_argv_take [of "length args + 1" "buf[length args + 1 := None]" "command # args"]
  by (auto simp: holds_args_def buf_set_def)

lemma process_input_batches:
  assumes "0 < nargs" and "\<And>k. fork_ok k" and "holds_args nargs command args buf" and "length args < nargs"
  shows "process_input nargs fork_ok done buf (length args) lines =
     Inr (done @ map ((#) command) (batches nargs (args @ map chomp lines)), 0)"
  using assms(3,4)
proof (induction lines arbitrary: args buf "done")
  case Nil
  then show ?case
    using holds_args_last [OF Nil] assms(1,2) by (cases args) (auto simp: batches_short)
next
  case (Cons line lines)
  from holds_args_set [OF Cons.prems, of "chomp line"] obtain buf' where
    buf': "buf_set (length args + 1) (Some (chomp line)) buf = Inr buf'" "holds_args nargs command (args @ [chomp line]) buf'"
    by blast
  show ?case
  proof (cases "length (args @ [chomp line]) = nargs")
    case True
    from holds_args_exec [OF buf'(2) True] Cons.IH [of "[]" buf' "done @ [command # args @ [chomp line]]"] assms(1,2) buf'(1) True
    show ?thesis using batches_full [of nargs "args @ [chomp line]" "map chomp lines"] by simp
  next
    case False
    then have "length (args @ [chomp line]) < nargs" using Cons.prems(2) by simp
    from Cons.IH [OF buf'(2) this, of "done"] buf'(1) False show ?thesis by simp
  qed
qed

text \<open>
  \<open>xargs command\<close> with any batch size runs the command once for each batch of that many
  input lines, without their newlines, the last batch possibly shorter; it never writes outside
  its buffer and every argument list it passes ends in a null.
\<close>

theorem xargs_runs_batches:
  assumes "0 < nargs" and "\<And>k. fork_ok k"
  shows "xargs_main nargs fork_ok (prog # command # rest) lines =
     Inr (map ((#) command) (batches nargs (map chomp lines)), 0)"
proof -
  have "holds_args nargs command [] (Some command # replicate (nargs + 1) None)"
    by (simp add: holds_args_def nth_Cons')
  from process_input_batches [of nargs fork_ok command "[]" _ "[]" lines, OF assms this] assms(1)
  show ?thesis by (simp add: xargs_main_def buf_set_def)
qed

theorem xargs_runs_batches_witness:
  "xargs_main 2 (\<lambda>_. True) [''xargs'', ''echo''] [''a'' @ [char_of (10 :: nat)], ''b'' @ [char_of (10 :: nat)], ''c''] =
     Inr ([[''echo'', ''a'', ''b''], [''echo'', ''c'']], 0)"
proof -
  have "batches 2 (map chomp [''a'' @ [char_of (10 :: nat)], ''b'' @ [char_of (10 :: nat)], ''c'']) = [[''a'', ''b''], [''c'']]"
    by code_simp
  then show ?thesis
    using xargs_runs_batches [of 2 "\<lambda>_. True" "''xargs''" "''echo''" "[]"
      "[''a'' @ [char_of (10 :: nat)], ''b'' @ [char_of (10 :: nat)], ''c'']"] by simp
qed

end
