(* ===== verification/Monitor.thy ===== *)
theory Monitor
  imports Trap Console "HOL-Library.Signed_Division"
begin

text \<open>
  The kernel monitor: the line editor \<open>lib/readline.c\<close>, the command interpreter
  \<open>kern/monitor.c\<close>, and the printing of a trap frame, \<open>print_trapframe\<close> of \<open>kern/trap.c\<close>.
  \<open>getc\<close> and \<open>putc\<close> are the terminal below, which the kernel and user programs have different
  versions of; output goes through the formatted printing of the kernel. A C string in a buffer
  is the bytes from its first index up to a null.
\<close>

section \<open>Printing to a terminal\<close>

definition tprintf :: "(int \<Rightarrow> 'c \<Rightarrow> 'c) \<Rightarrow> string \<Rightarrow> vararg list \<Rightarrow> 'c \<Rightarrow> 'c fallible" where
  "tprintf putc fmt ap s = andThen (kern_vcprintf putc s (ascii fmt) ap) (\<lambda>(s, n). Inr s)"

fun tprints :: "(int \<Rightarrow> 'c \<Rightarrow> 'c) \<Rightarrow> (string \<times> vararg list) list \<Rightarrow> 'c \<Rightarrow> 'c fallible" where
  "tprints putc [] s = Inr s"
| "tprints putc ((fmt, ap) # xs) s = andThen (tprintf putc fmt ap s) (tprints putc xs)"

definition sarg :: "string \<Rightarrow> vararg" where
  "sarg x = A_str (Some (ascii x))"

definition line :: "string \<Rightarrow> string" where
  "line x = x @ [char_of (10 :: nat)]"

definition print_regs :: "PushRegs \<Rightarrow> (string \<times> vararg list) list" where
  "print_regs r =
    [(line ''  edi  0x%08x'', [A_int (reg_edi r)]), (line ''  esi  0x%08x'', [A_int (reg_esi r)]),
     (line ''  ebp  0x%08x'', [A_int (reg_ebp r)]), (line ''  oesp 0x%08x'', [A_int (reg_oesp r)]),
     (line ''  ebx  0x%08x'', [A_int (reg_ebx r)]), (line ''  edx  0x%08x'', [A_int (reg_edx r)]),
     (line ''  ecx  0x%08x'', [A_int (reg_ecx r)]), (line ''  eax  0x%08x'', [A_int (reg_eax r)])]"

text \<open>\<open>at\<close> is the address of the frame, \<open>cr2\<close> is given when the frame is \<open>last_tf\<close>.\<close>

definition print_trapframe :: "u32 \<Rightarrow> nat \<Rightarrow> u32 option \<Rightarrow> Trapframe \<Rightarrow> (string \<times> vararg list) list" where
  "print_trapframe at cpu cr2 tf =
    [(line ''TRAP frame at %p from CPU %d'', [A_int at, A_int (word_of_nat cpu)])] @ print_regs (tf_regs tf) @
    [(line ''  es   0x----%04x'', [A_int (ucast (tf_es tf))]), (line ''  ds   0x----%04x'', [A_int (ucast (tf_ds tf))]),
     (line ''  trap 0x%08x %s'', [A_int (tf_trapno tf), sarg (trapname (tf_trapno tf))])] @
    (case cr2 of Some va \<Rightarrow> if tf_trapno tf = T_PGFLT then [(line ''  cr2  0x%08x'', [A_int va])] else [] | None \<Rightarrow> []) @
    [(''  err  0x%08x'', [A_int (tf_err tf)]),
     (if tf_trapno tf = T_PGFLT
      then (line '' [%s, %s, %s]'', [sarg (if tf_err tf AND 4 \<noteq> 0 then ''user'' else ''kernel''),
        sarg (if tf_err tf AND 2 \<noteq> 0 then ''write'' else ''read''),
        sarg (if tf_err tf AND 1 \<noteq> 0 then ''protection'' else ''not-present'')])
      else (line '''', [])),
     (line ''  eip  0x%08x'', [A_int (tf_eip tf)]), (line ''  cs   0x----%04x'', [A_int (ucast (tf_cs tf))]),
     (line ''  flag 0x%08x'', [A_int (tf_eflags tf)])] @
    (if tf_cs tf AND 3 \<noteq> 0
     then [(line ''  esp  0x%08x'', [A_int (tf_esp tf)]), (line ''  ss   0x----%04x'', [A_int (ucast (tf_ss tf))])] else [])"

section \<open>lib/readline.c\<close>

definition READLINE_BUFLEN :: nat where [simp]: "READLINE_BUFLEN = 1024"

definition echo :: "bool \<Rightarrow> (int \<Rightarrow> 'c \<Rightarrow> 'c) \<Rightarrow> int \<Rightarrow> 'c \<Rightarrow> 'c" where
  "echo echoing putc c s = (if echoing then putc c s else s)"

text \<open>The loop; the result is the error code that stopped it, if any.\<close>

partial_function (option) readline_loop ::
  "('c \<Rightarrow> (int \<times> 'c) option) \<Rightarrow> (int \<Rightarrow> 'c \<Rightarrow> 'c) \<Rightarrow> bool \<Rightarrow> nat \<Rightarrow> u8 list \<Rightarrow> 'c \<Rightarrow> (int option \<times> u8 list \<times> 'c) option"
where
  "readline_loop getc putc echoing i bf s =
     Option.bind (getc s) (\<lambda>(c, s).
       if c < 0 then Some (Some c, bf, s)
       else if (c = 8 \<or> c = 127) \<and> 0 < i then readline_loop getc putc echoing (i - 1) bf (echo echoing putc 8 s)
       else if 32 \<le> c \<and> i < READLINE_BUFLEN - 1
       then readline_loop getc putc echoing (i + 1) (bf[i := word_of_int c]) (echo echoing putc c s)
       else if c = 10 \<or> c = 13 then Some (None, bf[i := 0], echo echoing putc 10 s)
       else readline_loop getc putc echoing i bf s)"

text \<open>The result is false for the null pointer; otherwise the line is in the buffer.\<close>

definition readline :: "('c \<Rightarrow> (int \<times> 'c) option) \<Rightarrow> (int \<Rightarrow> 'c \<Rightarrow> 'c) \<Rightarrow> bool \<Rightarrow> string option \<Rightarrow> u8 list \<Rightarrow> 'c \<Rightarrow> (bool \<times> u8 list \<times> 'c) fallible option" where
  "readline getc putc echoing prompt bf s =
     (case (case prompt of None \<Rightarrow> Inr s | Some p \<Rightarrow> tprintf putc ''%s'' [sarg p] s) of
        Inl e \<Rightarrow> Some (Inl e)
      | Inr s \<Rightarrow> map_option (\<lambda>(r, bf, s). case r of
            None \<Rightarrow> Inr (True, bf, s)
          | Some c \<Rightarrow> andThen (tprintf putc (line ''read error: %e'') [A_int (word_of_int c)] s) (\<lambda>s. Inr (False, bf, s)))
          (readline_loop getc putc echoing 0 bf s))"

section \<open>kern/monitor.c\<close>

datatype command = Mon_help | Mon_kerninfo

definition commands :: "(string \<times> string \<times> command) list" where
  "commands = [(''help'', ''Display this list of commands'', Mon_help),
     (''kerninfo'', ''Display information about the kernel'', Mon_kerninfo)]"

definition mon_help :: "(string \<times> vararg list) list" where
  "mon_help = map (\<lambda>(name, desc, _). (line ''%s - %s'', [sarg name, sarg desc])) commands"

text \<open>The addresses the linker chooses.\<close>

record ksyms =
  sym_start :: u32
  sym_entry :: u32
  sym_etext :: u32
  sym_edata :: u32
  sym_end :: u32

definition kib :: "u32 \<Rightarrow> u32" where
  "kib n = word_of_int ((sint (ROUNDUP n 1024)) sdiv 1024)"

definition mon_kerninfo :: "ksyms \<Rightarrow> (string \<times> vararg list) list" where
  "mon_kerninfo k =
    [(line ''Special kernel symbols:'', []),
     (line ''  _start                  %08x (phys)'', [A_int (sym_start k)]),
     (line ''  entry  %08x (virt)  %08x (phys)'', [A_int (sym_entry k), A_int (sym_entry k - KERNBASE)]),
     (line ''  etext  %08x (virt)  %08x (phys)'', [A_int (sym_etext k), A_int (sym_etext k - KERNBASE)]),
     (line ''  edata  %08x (virt)  %08x (phys)'', [A_int (sym_edata k), A_int (sym_edata k - KERNBASE)]),
     (line ''  end    %08x (virt)  %08x (phys)'', [A_int (sym_end k), A_int (sym_end k - KERNBASE)]),
     (line ''Kernel executable memory footprint: %dKB'', [A_int (kib (sym_end k - sym_entry k))])]"

definition MON_MAXARGS :: nat where [simp]: "MON_MAXARGS = 16"

definition whitespace :: "u8 \<Rightarrow> bool" where
  "whitespace c \<longleftrightarrow> c \<in> {9, 13, 10, 32}"

function gobble :: "u8 list \<Rightarrow> nat \<Rightarrow> u8 list \<times> nat" where
  "gobble bf p = (if char_at bf p \<noteq> 0 \<and> whitespace (char_at bf p) then gobble (bf[p := 0]) (p + 1) else (bf, p))"
  by pat_completeness auto
termination
  by (relation "measure (\<lambda>(bf, p). length bf - p)") (auto simp: char_at_def split: if_splits)

function skip_word :: "u8 list \<Rightarrow> nat \<Rightarrow> nat" where
  "skip_word bf p = (if char_at bf p \<noteq> 0 \<and> \<not> whitespace (char_at bf p) then skip_word bf (p + 1) else p)"
  by pat_completeness auto
termination
  by (relation "measure (\<lambda>(bf, p). length bf - p)") (auto simp: char_at_def split: if_splits)

declare gobble.simps [simp del] skip_word.simps [simp del]

lemma gobble_le: "gobble bf p = (bf', p') \<Longrightarrow> p \<le> p' \<and> length bf' = length bf"
proof (induction bf p arbitrary: bf' p' rule: gobble.induct)
  case (1 bf p)
  then show ?case by (subst (asm) gobble.simps) (fastforce split: if_splits)
qed

lemma gobble_stops: "gobble bf p = (bf', p') \<Longrightarrow> char_at bf' p' \<noteq> 0 \<Longrightarrow> \<not> whitespace (char_at bf' p')"
proof (induction bf p rule: gobble.induct)
  case (1 bf p)
  then show ?case by (subst (asm) (2) gobble.simps) (auto split: if_splits)
qed

lemma skip_word_le: "p \<le> skip_word bf p"
proof (induction bf p rule: skip_word.induct)
  case (1 bf p)
  then show ?case by (subst skip_word.simps) (auto dest: Suc_leD)
qed

text \<open>The arguments, as indices into the buffer; \<open>None\<close> when there are too many.\<close>

function parse_args :: "u8 list \<Rightarrow> nat \<Rightarrow> nat list \<Rightarrow> (u8 list \<times> nat list) option" where
  "parse_args bf p argv =
     (let (bf, p) = gobble bf p in
      if char_at bf p = 0 then Some (bf, argv)
      else if length argv = MON_MAXARGS - 1 then None
      else parse_args bf (skip_word bf p) (argv @ [p]))"
  by pat_completeness auto
termination
proof (relation "measure (\<lambda>(bf, p, argv). length bf - p)", goal_cases)
  case (2 bf p argv g bf' p')
  then have g: "gobble bf p = (bf', p')" by simp
  have "p \<le> p'" "length bf' = length bf" using gobble_le [OF g] by simp_all
  moreover have "p' < length bf'" using 2 by (auto simp: char_at_def split: if_splits)
  moreover have "p' < skip_word bf' p'"
    using gobble_stops [OF g] 2 skip_word_le [of "p' + 1" bf'] by (subst skip_word.simps) auto
  ultimately show ?case by simp
qed simp

declare parse_args.simps [simp del]

definition c_string :: "u8 list \<Rightarrow> nat \<Rightarrow> u8 list" where
  "c_string bf p = takeWhile (\<lambda>c. c \<noteq> 0) (drop p bf)"

definition run_command :: "(int \<Rightarrow> 'c \<Rightarrow> 'c) \<Rightarrow> ksyms \<Rightarrow> command \<Rightarrow> 'c \<Rightarrow> (int \<times> 'c) fallible" where
  "run_command putc k c s =
     andThen (tprints putc (case c of Mon_help \<Rightarrow> mon_help | Mon_kerninfo \<Rightarrow> mon_kerninfo k) s) (\<lambda>s. Inr (0, s))"

definition mon_runcmd :: "(int \<Rightarrow> 'c \<Rightarrow> 'c) \<Rightarrow> ksyms \<Rightarrow> u8 list \<Rightarrow> 'c \<Rightarrow> (int \<times> u8 list \<times> 'c) fallible" where
  "mon_runcmd putc k bf s =
     (case parse_args bf 0 [] of
        None \<Rightarrow> andThen (tprintf putc (line ''Too many arguments (max %d)'') [A_int (word_of_nat MON_MAXARGS)] s) (\<lambda>s. Inr (0, bf, s))
      | Some (bf, []) \<Rightarrow> Inr (0, bf, s)
      | Some (bf, p # argv) \<Rightarrow>
          (case find (\<lambda>(name, _, _). ascii name = c_string bf p) commands of
             Some (_, _, c) \<Rightarrow> andThen (run_command putc k c s) (\<lambda>(r, s). Inr (r, bf, s))
           | None \<Rightarrow> andThen (tprintf putc (line (''Unknown command '' @ [char_of (39::nat)] @ ''%s'' @ [char_of (39::nat)])) [A_str (Some (c_string bf p))] s) (\<lambda>s. Inr (0, bf, s))))"

partial_function (option) monitor_loop ::
  "('c \<Rightarrow> (int \<times> 'c) option) \<Rightarrow> (int \<Rightarrow> 'c \<Rightarrow> 'c) \<Rightarrow> ksyms \<Rightarrow> u8 list \<Rightarrow> 'c \<Rightarrow> (u8 list \<times> 'c) fallible option"
where
  "monitor_loop getc putc k bf s =
     Option.bind (readline getc putc True (Some ''K> '') bf s) (\<lambda>r. case r of
       Inl e \<Rightarrow> Some (Inl e)
     | Inr (got, bf, s) \<Rightarrow>
         if got
         then (case mon_runcmd putc k bf s of
                 Inl e \<Rightarrow> Some (Inl e)
               | Inr (r, bf, s) \<Rightarrow> if r < 0 then Some (Inr (bf, s)) else monitor_loop getc putc k bf s)
         else monitor_loop getc putc k bf s)"

text \<open>\<open>tf\<close> is what \<open>print_trapframe\<close> prints when a frame is given.\<close>

definition monitor :: "('c \<Rightarrow> (int \<times> 'c) option) \<Rightarrow> (int \<Rightarrow> 'c \<Rightarrow> 'c) \<Rightarrow> ksyms \<Rightarrow> (string \<times> vararg list) list \<Rightarrow> u8 list \<Rightarrow> 'c \<Rightarrow> (u8 list \<times> 'c) fallible option" where
  "monitor getc putc k tf bf s =
     (case tprints putc ([(line ''Welcome to the JOS kernel monitor!'', []),
         (line (''Type '' @ [char_of (39::nat)] @ ''help'' @ [char_of (39::nat)] @ '' for a list of commands.''), [])] @ tf) s of
        Inl e \<Rightarrow> Some (Inl e)
      | Inr s \<Rightarrow> monitor_loop getc putc k bf s)"

section \<open>Panics\<close>

text \<open>
  \<open>_panic\<close> and \<open>_warn\<close> of \<open>kern/init.c\<close>: a first panic prints its message, any panic ends in the
  monitor for ever. \<open>panicstr\<close> says whether there was one before.
\<close>

definition report :: "string \<Rightarrow> string \<Rightarrow> vararg list \<Rightarrow> string \<Rightarrow> vararg list \<Rightarrow> string \<Rightarrow> (string \<times> vararg list) list" where
  "report before what where_args fmt ap after = [(before @ what, where_args), (fmt, ap), (after, [])]"

partial_function (option) panic_loop ::
  "('c \<Rightarrow> (int \<times> 'c) option) \<Rightarrow> (int \<Rightarrow> 'c \<Rightarrow> 'c) \<Rightarrow> ksyms \<Rightarrow> u8 list \<Rightarrow> 'c \<Rightarrow> (u8 list \<times> 'c) fallible option"
where
  "panic_loop getc putc k bf s =
     Option.bind (monitor getc putc k [] bf s) (\<lambda>r. case r of
       Inl e \<Rightarrow> Some (Inl e)
     | Inr (bf, s) \<Rightarrow> panic_loop getc putc k bf s)"

definition kernel_panic ::
  "('c \<Rightarrow> (int \<times> 'c) option) \<Rightarrow> (int \<Rightarrow> 'c \<Rightarrow> 'c) \<Rightarrow> ksyms \<Rightarrow> bool \<Rightarrow> nat \<Rightarrow> string \<Rightarrow> u32 \<Rightarrow> string \<Rightarrow> vararg list
     \<Rightarrow> u8 list \<Rightarrow> 'c \<Rightarrow> (u8 list \<times> 'c) fallible option" where
  "kernel_panic getc putc k panicstr cpu file ln fmt ap bf s =
     (case (if panicstr then Inr s
            else tprints putc (report (line ''>>>'') ''>>> kernel panic on CPU %d at %s:%d: ''
                   [A_int (word_of_nat cpu), sarg file, A_int ln] fmt ap (line [] @ line ''>>>'')) s) of
        Inl e \<Rightarrow> Some (Inl e)
      | Inr s \<Rightarrow> panic_loop getc putc k bf s)"

definition kernel_warn :: "(int \<Rightarrow> 'c \<Rightarrow> 'c) \<Rightarrow> string \<Rightarrow> u32 \<Rightarrow> string \<Rightarrow> vararg list \<Rightarrow> 'c \<Rightarrow> 'c fallible" where
  "kernel_warn putc file ln fmt ap =
     tprints putc (report [] ''kernel warning at %s:%d: '' [sarg file, A_int ln] fmt ap (line []))"

end
