(* ===== verification/MonitorProps.thy ===== *)
theory MonitorProps
  imports Monitor
begin

text \<open>
  What the line editor leaves in its buffer, how the interpreter splits a line into arguments,
  and that the monitor is a one-way street.
\<close>

section \<open>Editing a line\<close>

text \<open>A terminal with a list of keys to come; waiting for one more is waiting for ever.\<close>

type_synonym tty = "int list \<times> int list"

fun tty_getc :: "tty \<Rightarrow> (int \<times> tty) option" where
  "tty_getc ([], out) = None"
| "tty_getc (c # cs, out) = Some (c, (cs, out))"

definition tty_putc :: "int \<Rightarrow> tty \<Rightarrow> tty" where
  "tty_putc c t = (fst t, snd t @ [c])"

text \<open>The specification: one key on the line, and what is echoed.\<close>

definition edit :: "u8 list \<Rightarrow> int \<Rightarrow> u8 list" where
  "edit l c = (if (c = 8 \<or> c = 127) \<and> l \<noteq> [] then butlast l
     else if 32 \<le> c \<and> length l < 1023 then l @ [word_of_int c] else l)"

definition echoed :: "u8 list \<Rightarrow> int \<Rightarrow> int list" where
  "echoed l c = (if (c = 8 \<or> c = 127) \<and> l \<noteq> [] then [8] else if 32 \<le> c \<and> length l < 1023 then [c] else [])"

fun echoes :: "u8 list \<Rightarrow> int list \<Rightarrow> int list" where
  "echoes l [] = [10]"
| "echoes l (c # cs) = echoed l c @ echoes (edit l c) cs"

lemma length_edit: "length l \<le> 1023 \<Longrightarrow> length (edit l c) \<le> 1023"
  by (auto simp: edit_def)

lemma readline_loop_edits:
  assumes "length bf = 1024" and "\<forall>c\<in>set keys. 0 \<le> c \<and> c \<noteq> 10 \<and> c \<noteq> 13" and "e = 10 \<or> e = 13"
    and "length l \<le> 1023" and "take (length l) bf = l"
  shows "\<exists>bf'. readline_loop tty_getc tty_putc echoing (length l) bf (keys @ e # rest, out)
       = Some (None, bf', (rest, if echoing then out @ echoes l keys else out))
     \<and> length bf' = 1024 \<and> length (foldl edit l keys) \<le> 1023
     \<and> take (Suc (length (foldl edit l keys))) bf' = foldl edit l keys @ [0]"
  using assms
proof (induction keys arbitrary: l bf out)
  case Nil
  have "take (Suc (length l)) (bf[length l := 0]) = l @ [0]"
    using Nil.prems(1,4,5) by (simp add: take_Suc_conv_app_nth)
  then show ?case using Nil.prems by (subst readline_loop.simps) (auto simp: echo_def tty_putc_def)
next
  case (Cons c cs)
  let ?bf = "if 32 \<le> c \<and> length l < 1023 \<and> \<not> ((c = 8 \<or> c = 127) \<and> l \<noteq> []) then bf[length l := word_of_int c] else bf"
  have step: "readline_loop tty_getc tty_putc echoing (length l) bf ((c # cs) @ e # rest, out)
     = readline_loop tty_getc tty_putc echoing (length (edit l c)) ?bf (cs @ e # rest, if echoing then out @ echoed l c else out)"
    using Cons.prems by (subst readline_loop.simps) (auto simp: echo_def tty_putc_def edit_def echoed_def)
  have "take (length (edit l c)) ?bf = edit l c"
  proof (cases "(c = 8 \<or> c = 127) \<and> l \<noteq> []")
    case True
    have "take (length l - 1) bf = butlast l" using Cons.prems(5) by (metis butlast_take diff_le_self butlast_conv_take take_take min.absorb1)
    then show ?thesis using True by (auto simp: edit_def)
  qed (use Cons.prems in \<open>auto simp: edit_def take_Suc_conv_app_nth\<close>)
  then show ?case
    using Cons.IH [of ?bf "edit l c" "if echoing then out @ echoed l c else out"] Cons.prems length_edit [of l c]
    unfolding step by (auto split: if_splits)
qed

lemma edit_nonzero:
  assumes "\<forall>c\<in>set keys. 0 < c \<and> c < 256" and "0 \<notin> set l" shows "0 \<notin> set (foldl edit l keys)"
  using assms
proof (induction keys arbitrary: l)
  case (Cons c cs)
  have "(word_of_int c :: u8) \<noteq> 0"
    using Cons.prems(1) by (simp add: word_of_int_eq_0_iff zdvd_not_zless)
  then have "0 \<notin> set (edit l c)" using Cons.prems(2) by (auto simp: edit_def dest: in_set_butlastD)
  then show ?case using Cons by simp
qed simp

text \<open>
  C38. \<open>readline\<close> at a terminal: for any keys up to the end of the line it returns, what it has
  echoed is the editing of the line, at most 1023 characters are kept, and the buffer holds the
  edited line as a C string; the keys behind the end of the line are left for the next call.
\<close>

theorem readline_edits:
  assumes "length bf = 1024" and "\<forall>c\<in>set keys. 0 < c \<and> c < 256 \<and> c \<noteq> 10 \<and> c \<noteq> 13" and "e = 10 \<or> e = 13"
  shows "\<exists>bf'. readline tty_getc tty_putc True None bf (keys @ e # rest, out) = Some (Inr (True, bf', (rest, out @ echoes [] keys)))
     \<and> length bf' = 1024 \<and> length (foldl edit [] keys) \<le> 1023 \<and> c_string bf' 0 = foldl edit [] keys"
proof -
  let ?l = "foldl edit [] keys"
  have keys: "\<forall>c\<in>set keys. 0 \<le> c \<and> c \<noteq> 10 \<and> c \<noteq> 13" using assms(2) by auto
  from readline_loop_edits [OF assms(1) keys assms(3), of "[]" True rest out] obtain bf' where
    b: "readline_loop tty_getc tty_putc True 0 bf (keys @ e # rest, out) = Some (None, bf', (rest, out @ echoes [] keys))"
      "length bf' = 1024" "length ?l \<le> 1023" "take (Suc (length ?l)) bf' = ?l @ [0]"
    by auto
  have "0 \<notin> set ?l" using assms(2) by (intro edit_nonzero) auto
  then have "takeWhile (\<lambda>c. c \<noteq> 0) (?l @ [0] @ drop (Suc (length ?l)) bf') = ?l"
    by (subst takeWhile_append2) auto
  moreover have "bf' = ?l @ [0] @ drop (Suc (length ?l)) bf'" using append_take_drop_id [of "Suc (length ?l)" bf'] b(4) by simp
  ultimately have "c_string bf' 0 = ?l" by (simp add: c_string_def)
  then show ?thesis using b by (simp add: readline_def)
qed

text \<open>"hep", a backspace, "lp": the line is "help". Backspace on the empty line is ignored, delete is not.\<close>

theorem readline_edits_witness:
  "\<exists>bf'. readline tty_getc tty_putc True None (replicate 1024 0) ([104, 101, 112, 8, 108, 112, 13, 120], [])
      = Some (Inr (True, bf', ([120], [104, 101, 112, 8, 108, 112, 10])))
    \<and> length bf' = 1024 \<and> c_string bf' 0 = [104, 101, 108, 112]"
  using readline_edits [of "replicate 1024 0" "[104, 101, 112, 8, 108, 112]" 13 "[120]" "[]"]
  by (simp add: edit_def echoed_def)

lemma delete_on_empty_line: "edit [] 8 = [] \<and> edit [] 127 = [127]"
  by (simp add: edit_def)

section \<open>Splitting a line\<close>

text \<open>The words between whitespace.\<close>

function line_words :: "u8 list \<Rightarrow> u8 list list" where
  "line_words [] = []"
| "line_words (c # cs) = (if whitespace c then line_words cs
     else takeWhile (\<lambda>c. \<not> whitespace c) (c # cs) # line_words (dropWhile (\<lambda>c. \<not> whitespace c) (c # cs)))"
  by pat_completeness auto
termination
  by (relation "measure length") (auto simp: le_imp_less_Suc length_dropWhile_le)

definition zap :: "u8 list \<Rightarrow> u8 list" where
  "zap = map (\<lambda>c. if whitespace c then 0 else c)"

lemma fields_skip: "line_words cs = line_words (dropWhile whitespace cs)"
  by (induction cs) auto

text \<open>The buffer while its first \<open>p\<close> bytes are done.\<close>

lemma gobble_zaps:
  assumes "0 \<notin> set xs" and "p \<le> length xs" and "bf = zap (take p xs) @ drop p xs"
  shows "\<exists>q. gobble bf p = (zap (take q xs) @ drop q xs, q) \<and> p \<le> q \<and> q \<le> length xs
     \<and> drop q xs = dropWhile whitespace (drop p xs)"
  using assms
proof (induction "length xs - p" arbitrary: p bf)
  case 0
  then show ?case by (subst gobble.simps) (auto simp: char_at_def zap_def)
next
  case (Suc n)
  then have p: "p < length xs" by simp
  have at: "char_at bf p = xs ! p" using Suc.prems p by (simp add: char_at_def zap_def nth_append)
  have ne: "xs ! p \<noteq> 0" using Suc.prems(1) p by (metis nth_mem)
  have d: "drop p xs = xs ! p # drop (Suc p) xs" using p by (simp add: Cons_nth_drop_Suc)
  show ?case
  proof (cases "whitespace (xs ! p)")
    case True
    have "bf[p := 0] = zap (take (Suc p) xs) @ drop (Suc p) xs"
      using Suc.prems p True by (simp add: d zap_def take_Suc_conv_app_nth list_update_append)
    moreover have "n = length xs - Suc p" "Suc p \<le> length xs" using Suc.hyps(2) p by simp_all
    ultimately obtain q where
      "gobble (bf[p := 0]) (Suc p) = (zap (take q xs) @ drop q xs, q)" "Suc p \<le> q" "q \<le> length xs"
      "drop q xs = dropWhile whitespace (drop (Suc p) xs)"
      using Suc.hyps(1) [OF _ Suc.prems(1)] by blast
    then show ?thesis using True at ne by (subst gobble.simps) (auto simp: d)
  next
    case False
    then show ?thesis using at ne Suc.prems by (subst gobble.simps) (auto simp: d)
  qed
qed

lemma skip_word_at:
  assumes "0 \<notin> set xs" and "p \<le> length xs" and "\<And>i. p \<le> i \<Longrightarrow> char_at bf i = char_at xs i"
  shows "skip_word bf p = p + length (takeWhile (\<lambda>c. \<not> whitespace c) (drop p xs))"
  using assms(2,3)
proof (induction "length xs - p" arbitrary: p)
  case 0
  then show ?case by (subst skip_word.simps) (simp add: char_at_def)
next
  case (Suc n)
  then have p: "p < length xs" by simp
  have at: "char_at bf p = xs ! p" using Suc.prems p by (simp add: char_at_def)
  have ne: "xs ! p \<noteq> 0" using assms(1) p by (metis nth_mem)
  have d: "drop p xs = xs ! p # drop (Suc p) xs" using p by (simp add: Cons_nth_drop_Suc)
  show ?case using Suc.hyps(1) [of "Suc p"] Suc.hyps(2) Suc.prems at ne p by (subst skip_word.simps) (auto simp: d)
qed

lemma c_string_zapped:
  assumes "0 \<notin> set xs" and "p \<le> length xs"
  shows "c_string (zap xs) p = takeWhile (\<lambda>c. \<not> whitespace c) (drop p xs)"
proof -
  have "takeWhile (\<lambda>c. c \<noteq> 0) (zap ys) = takeWhile (\<lambda>c. \<not> whitespace c) ys" if "0 \<notin> set ys" for ys
    using that by (induction ys) (auto simp: zap_def)
  moreover have "0 \<notin> set (drop p xs)" using assms(1) by (auto dest: in_set_dropD)
  moreover have "drop p (zap xs) = zap (drop p xs)" by (simp add: zap_def drop_map)
  ultimately show ?thesis by (simp add: c_string_def)
qed

lemma zap_word: "\<forall>c\<in>set w. \<not> whitespace c \<Longrightarrow> zap w = w"
  by (induction w) (auto simp: zap_def)

lemma parse_args_fields:
  assumes "0 \<notin> set xs" and "p \<le> length xs" and "bf = zap (take p xs) @ drop p xs"
  shows "\<exists>new. map (c_string (zap xs)) new = line_words (drop p xs)
     \<and> (\<forall>argv. length argv \<le> 15 \<longrightarrow> parse_args bf p argv =
          (if length argv + length new \<le> 15 then Some (zap xs, argv @ new) else None))"
  using assms(2,3)
proof (induction "length xs - p" arbitrary: p bf rule: less_induct)
  case less
  from gobble_zaps [OF assms(1) less.prems] obtain q where
    g: "gobble bf p = (zap (take q xs) @ drop q xs, q)" and q: "p \<le> q" "q \<le> length xs" and d: "drop q xs = dropWhile whitespace (drop p xs)"
    by blast
  let ?bf = "zap (take q xs) @ drop q xs"
  have at: "char_at ?bf i = char_at xs i" if "q \<le> i" for i using that q(2) by (auto simp: char_at_def zap_def nth_append)
  have f: "line_words (drop p xs) = line_words (drop q xs)" using fields_skip [of "drop p xs"] d by simp
  show ?case
  proof (cases "q = length xs")
    case True
    then have "parse_args bf p argv = Some (zap xs, argv)" for argv
      using g by (subst parse_args.simps) (simp add: char_at_def zap_def)
    then show ?thesis using f True by (intro exI [of _ "[]"]) simp
  next
    case False
    then have lt: "q < length xs" using q(2) by simp
    have nz: "char_at ?bf q \<noteq> 0" using at [of q] lt assms(1) by (simp add: char_at_def) (metis nth_mem)
    have nw: "\<not> whitespace (xs ! q)" using gobble_stops [OF g nz] at [of q] lt by (simp add: char_at_def)
    let ?w = "takeWhile (\<lambda>c. \<not> whitespace c) (drop q xs)"
    let ?p = "q + length ?w"
    have sk: "skip_word ?bf q = ?p" by (rule skip_word_at [OF assms(1) q(2) at])
    have hd: "drop q xs = xs ! q # drop (Suc q) xs" using lt by (simp add: Cons_nth_drop_Suc)
    have w: "length ?w > 0" using nw by (simp add: hd)
    have dp: "drop ?p xs = dropWhile (\<lambda>c. \<not> whitespace c) (drop q xs)"
      by (simp add: dropWhile_eq_drop add.commute [of q])
    have le: "?p \<le> length xs" using length_takeWhile_le [of "\<lambda>c. \<not> whitespace c" "drop q xs"] q(2) by simp
    have "take ?p xs = take q xs @ ?w" by (simp add: take_add takeWhile_eq_take [symmetric])
    then have "zap (take ?p xs) = zap (take q xs) @ ?w" using zap_word [of ?w] by (auto simp: zap_def dest: set_takeWhileD)
    moreover have "drop q xs = ?w @ drop ?p xs" unfolding dp by simp
    ultimately have bf: "?bf = zap (take ?p xs) @ drop ?p xs" by simp
    have lt2: "length xs - ?p < length xs - p" using w lt q by linarith
    from less.hyps [OF lt2 le bf] obtain new where
      new: "map (c_string (zap xs)) new = line_words (drop ?p xs)"
        "\<forall>argv. length argv \<le> 15 \<longrightarrow> parse_args ?bf ?p argv = (if length argv + length new \<le> 15 then Some (zap xs, argv @ new) else None)"
      by blast
    have "line_words (drop q xs) = ?w # line_words (drop ?p xs)" 
      using line_words.simps(2) [of "xs ! q" "drop (Suc q) xs"] nw unfolding hd [symmetric] dp by (simp only: if_False)
    then have "map (c_string (zap xs)) (q # new) = line_words (drop p xs)"
      using new(1) f c_string_zapped [OF assms(1) q(2)] by simp
    moreover have "parse_args bf p argv = (if length argv + length (q # new) \<le> 15 then Some (zap xs, argv @ q # new) else None)"
      if "length argv \<le> 15" for argv
      using that g nz sk new(2) by (subst parse_args.simps) auto
    ultimately show ?thesis by blast
  qed
qed

text \<open>
  The interpreter splits a line of any content at its whitespace: up to fifteen arguments
  become, in order, C strings in the line's own buffer, whose whitespace it overwrites; a line
  with more is refused without running anything.
\<close>

theorem parse_args_correct:
  assumes "0 \<notin> set xs"
  shows "(length (line_words xs) \<le> 15 \<longrightarrow> (\<exists>argv. parse_args xs 0 [] = Some (zap xs, argv)
        \<and> map (c_string (zap xs)) argv = line_words xs))
     \<and> (15 < length (line_words xs) \<longrightarrow> parse_args xs 0 [] = None
        \<and> mon_runcmd putc k xs s = andThen (tprintf putc (line ''Too many arguments (max %d)'') [A_int 16] s) (\<lambda>s. Inr (0, xs, s)))"
proof -
  have z: "xs = zap (take 0 xs) @ drop 0 xs" by (simp add: zap_def)
  from parse_args_fields [OF assms _ z] obtain new where
    new: "map (c_string (zap xs)) new = line_words xs"
      "\<forall>argv. length argv \<le> 15 \<longrightarrow> parse_args xs 0 argv = (if length argv + length new \<le> 15 then Some (zap xs, argv @ new) else None)"
    by auto
  have len: "length (line_words xs) = length new" using new(1) by (metis length_map)
  have p: "parse_args xs 0 [] = (if length new \<le> 15 then Some (zap xs, new) else None)" using new(2) by simp
  show ?thesis using new(1) p by (auto simp: len mon_runcmd_def)
qed

theorem parse_args_correct_witness:
  "\<exists>argv. parse_args (ascii ''  ker info '') 0 [] = Some (zap (ascii ''  ker info ''), argv)
     \<and> map (c_string (zap (ascii ''  ker info ''))) argv = [ascii ''ker'', ascii ''info'']"
  using parse_args_correct [of "ascii ''  ker info ''"]
  by (simp add: ascii_def whitespace_def)

section \<open>No way out\<close>

lemma mon_runcmd_zero: "mon_runcmd putc k bf s = Inr (r, bf', s') \<Longrightarrow> r = 0"
  by (auto simp: mon_runcmd_def run_command_def kfault_simps split: option.splits prod.splits list.splits)

lemma monitor_loop_stuck: assumes "monitor_loop getc putc k bf s = Some r" shows "\<exists>e. r = Inl e"
proof (rule monitor_loop.raw_induct [where P = "\<lambda>getc putc k bf s r. \<exists>e. r = Inl e"], goal_cases)
  case (1 f getc putc k bf s r)
  note IH = 1(1) and run = 1(2)
  show ?case
  proof (cases "readline getc putc True (Some ''K> '') bf s")
    case (Some y)
    show ?thesis
    proof (cases y)
      case (Inr z)
      obtain got bf' s' where z: "z = (got, bf', s')" by (cases z) auto
      note run = run [unfolded Some bind.simps Inr z sum.case prod.case]
      show ?thesis
      proof (cases "got \<and> isl (mon_runcmd putc k bf' s')")
        case True
        then show ?thesis using run by (auto simp: isl_def)
      next
        case False
        then show ?thesis using run IH by (cases "mon_runcmd putc k bf' s'") (auto split: if_splits dest: mon_runcmd_zero)
      qed
    qed (use run Some in auto)
  qed (use run in simp)
qed (fact assms)

lemma monitor_stuck: "monitor getc putc k tf bf s \<noteq> Some (Inr r)"
  using monitor_loop_stuck [of getc putc k bf _ "Inr r"]
  by (auto simp: monitor_def split: sum.splits)

text \<open>
  A panic, the first or a later one, never gives control back either.
\<close>

lemma panic_never_returns: "kernel_panic getc putc k panicstr cpu file ln fmt ap bf s \<noteq> Some (Inr r)"
proof -
  have "panic_loop getc putc k bf' s' \<noteq> Some (Inr r)" for bf' s'
    using monitor_stuck [of getc putc k "[]" bf' s']
    by (subst panic_loop.simps) (auto simp: bind_eq_Some_conv split: sum.splits)
  then show ?thesis by (auto simp: kernel_panic_def split: sum.splits)
qed

text \<open>
  C39. The monitor never gives control back: whatever is typed, \<open>monitor\<close> does not return
  normally, because no command of its table returns a negative number. A breakpoint, or a kernel
  with nothing left to run, ends there.
\<close>

theorem monitor_never_returns: "monitor getc putc k tf bf s \<noteq> Some (Inr r)"
  by (rule monitor_stuck)

end
