(* ===== verification/Kdebug.thy ===== *)
theory Kdebug
  imports UserMem
begin

text \<open>
  \<open>kern/kdebug.c\<close> and \<open>inc/stab.h\<close>: the search of the debugging tables for the file, function
  and line of an instruction. Reading an entry or a byte of a name may fault, because the
  tables of a user program lie in user memory; a table is therefore the pair of its readers.
\<close>

section \<open>Entries\<close>

record Stab =
  n_strx :: u32
  n_type :: u8
  n_other :: u8
  n_desc :: u16
  n_value :: u32

definition N_FUN :: u8 where [simp]: "N_FUN = 0x24"
definition N_SLINE :: u8 where [simp]: "N_SLINE = 0x44"
definition N_SO :: u8 where [simp]: "N_SO = 0x64"
definition N_SOL :: u8 where [simp]: "N_SOL = 0x84"
definition N_PSYM :: u8 where [simp]: "N_PSYM = 0xA0"

type_synonym stab_reader = "int \<Rightarrow> Stab fallible"

section \<open>The binary search\<close>

text \<open>\<open>while (m >= l && stabs[m].n_type != type) m--;\<close>\<close>

function search_back :: "stab_reader \<Rightarrow> u8 \<Rightarrow> int \<Rightarrow> int \<Rightarrow> int fallible" where
  "search_back stabs type l m =
     (if l \<le> m
      then andThen (stabs m) (\<lambda>e. if n_type e \<noteq> type then search_back stabs type l (m - 1) else Inr m)
      else Inr m)"
  by pat_completeness auto
termination by (relation "measure (\<lambda>(_, _, l, m). nat (m + 1 - l))") auto

declare search_back.simps [simp del]

lemma search_back_bound: "search_back stabs type l m = Inr k \<Longrightarrow> k \<le> m"
proof (induction stabs type l m rule: search_back.induct)
  case (1 stabs type l m)
  then show ?case by (subst (asm) (2) search_back.simps) (force simp: andThen_eq_Inr split: if_splits)
qed

lemma search_back_reads:
  "search_back stabs type l m = Inr k \<Longrightarrow> l \<le> k \<Longrightarrow> \<exists>e. stabs k = Inr e \<and> n_type e = type"
proof (induction stabs type l m rule: search_back.induct)
  case (1 stabs type l m)
  then show ?case
    by (subst (asm) (2) search_back.simps) (auto simp: andThen_eq_Inr split: if_splits)
qed

text \<open>
  The state of the loop besides \<open>l\<close> and \<open>r\<close>: the two results, \<open>any_matches\<close> and \<open>addr\<close>. The
  step says how it goes on; indices are never negative where the search reads, so \<open>(l + r) / 2\<close>
  is \<open>div\<close>.
\<close>

record search =
  region_left :: int
  region_right :: int
  any_matches :: bool
  s_addr :: u32

definition search_step :: "stab_reader \<Rightarrow> u8 \<Rightarrow> int \<Rightarrow> int \<Rightarrow> search \<Rightarrow> (int \<times> int \<times> search) fallible" where
  "search_step stabs type l r s =
     (let true_m = (l + r) div 2 in
      andThen (search_back stabs type l true_m) (\<lambda>m.
        if m < l then Inr (true_m + 1, r, s)
        else andThen (stabs m) (\<lambda>e.
          let s = s\<lparr>any_matches := True\<rparr> in
          if n_value e < s_addr s then Inr (true_m + 1, r, s\<lparr>region_left := m\<rparr>)
          else if n_value e > s_addr s then Inr (l, m - 1, s\<lparr>region_right := m - 1\<rparr>)
          else Inr (m, r, s\<lparr>region_left := m, s_addr := s_addr s + 1\<rparr>))))"

text \<open>
  Every round narrows the range, except an exact match at its lower end: that one moves the
  address past the entry, and the next round narrows the range.
\<close>

definition stands_on :: "stab_reader \<Rightarrow> u8 \<Rightarrow> int \<Rightarrow> int \<Rightarrow> search \<Rightarrow> bool" where
  "stands_on stabs type l r s \<longleftrightarrow>
     search_back stabs type l ((l + r) div 2) = Inr l \<and> (\<exists>e. stabs l = Inr e \<and> n_value e = s_addr s)"

lemma search_step_shrinks:
  assumes "l \<le> r" and "search_step stabs type l r s = Inr (l', r', s')"
  shows "nat (r' + 1 - l') < nat (r + 1 - l)
     \<or> l' = l \<and> r' = r \<and> stands_on stabs type l r s \<and> \<not> stands_on stabs type l r s'"
proof -
  let ?t = "(l + r) div 2"
  have t: "l \<le> ?t" "?t \<le> r" using assms(1) by auto
  from assms(2) obtain m where m: "search_back stabs type l ?t = Inr m"
    by (auto simp: search_step_def Let_def andThen_eq_Inr)
  have mt: "m \<le> ?t" by (rule search_back_bound [OF m])
  show ?thesis
  proof (cases "m < l")
    case True
    then show ?thesis using assms m t by (auto simp: search_step_def Let_def)
  next
    case False
    then obtain e where e: "stabs m = Inr e" using search_back_reads [OF m] by auto
    consider "n_value e < s_addr s" | "s_addr s < n_value e" | "n_value e = s_addr s" by force
    then show ?thesis
    proof cases
      case 3
      then have r: "l' = m" "r' = r" "s_addr s' = s_addr s + 1"
        using assms m e False by (auto simp: search_step_def Let_def)
      show ?thesis
      proof (cases "m = l")
        case True
        then show ?thesis using r e m 3 by (auto simp: stands_on_def)
      next
        case ne: False
        then show ?thesis using r False mt t by auto
      qed
    next
      case 2
      then have "\<not> n_value e < s_addr s" by simp
      then show ?thesis using 2 assms m e False t mt by (simp add: search_step_def Let_def)
    qed (use assms m e False t mt in \<open>auto simp: search_step_def Let_def\<close>)
  qed
qed

function search_loop :: "stab_reader \<Rightarrow> u8 \<Rightarrow> int \<Rightarrow> int \<Rightarrow> search \<Rightarrow> search fallible" where
  "search_loop stabs type l r s =
     (if l \<le> r
      then case search_step stabs type l r s of
             Inl f \<Rightarrow> Inl f
           | Inr (l, r, s) \<Rightarrow> search_loop stabs type l r s
      else Inr s)"
  by pat_completeness auto
termination
  by (relation "inv_image (less_than <*lex*> less_than)
      (\<lambda>(stabs, type, l, r, s). (nat (r + 1 - l), if stands_on stabs type l r s then 1 else 0))")
    (auto dest!: search_step_shrinks)

declare search_loop.simps [simp del]

text \<open>\<open>for (l = *region_right; l > *region_left && stabs[l].n_type != type; l--)\<close>\<close>

function last_of_type :: "stab_reader \<Rightarrow> u8 \<Rightarrow> int \<Rightarrow> int \<Rightarrow> int fallible" where
  "last_of_type stabs type left l =
     (if left < l
      then andThen (stabs l) (\<lambda>e. if n_type e \<noteq> type then last_of_type stabs type left (l - 1) else Inr l)
      else Inr l)"
  by pat_completeness auto
termination by (relation "measure (\<lambda>(_, _, left, l). nat (l - left))") auto

declare last_of_type.simps [simp del]

definition stab_binsearch :: "stab_reader \<Rightarrow> int \<Rightarrow> int \<Rightarrow> u8 \<Rightarrow> u32 \<Rightarrow> (int \<times> int) fallible" where
  "stab_binsearch stabs left right type addr =
     andThen (search_loop stabs type left right
         \<lparr>region_left = left, region_right = right, any_matches = False, s_addr = addr\<rparr>) (\<lambda>s.
       if \<not> any_matches s then Inr (region_left s, region_left s - 1)
       else andThen (last_of_type stabs type (region_left s) (region_right s)) (\<lambda>l.
         Inr (l, region_right s)))"

section \<open>debuginfo_eip\<close>

text \<open>A name is the literal \<open><unknown>\<close> or an offset in the string table.\<close>

datatype dname = Unknown | Name u32

record Eipdebuginfo =
  eip_file :: dname
  eip_line :: int
  eip_fn_name :: dname
  eip_fn_namelen :: int
  eip_fn_addr :: u32
  eip_fn_narg :: nat

text \<open>\<open>str_len\<close> is \<open>stabstr_end - stabstr\<close>, \<open>str_order\<close> whether \<open>stabstr < stabstr_end\<close>.\<close>

record debug_tables =
  stab_at :: stab_reader
  stab_count :: int
  str_at :: "u32 \<Rightarrow> u8 fallible"
  str_len :: u32
  str_order :: bool

text \<open>\<open>strfind(name, ':') - name\<close>: the fuel is the length of the table, which ends in a null.\<close>

fun name_length :: "(u32 \<Rightarrow> u8 fallible) \<Rightarrow> u32 \<Rightarrow> int \<Rightarrow> nat \<Rightarrow> int fallible" where
  "name_length get p k 0 = Inr k"
| "name_length get p k (Suc n) =
     andThen (get p) (\<lambda>c. if c = 0 \<or> c = 58 then Inr k else name_length get (p + 1) (k + 1) n)"

text \<open>The walk back to the file name of the line, and the count of the parameters.\<close>

function file_of_line :: "stab_reader \<Rightarrow> int \<Rightarrow> int \<Rightarrow> int fallible" where
  "file_of_line stabs lfile lline =
     (if lfile \<le> lline
      then andThen (stabs lline) (\<lambda>e.
             if n_type e \<noteq> N_SOL \<and> (n_type e \<noteq> N_SO \<or> n_value e = 0)
             then file_of_line stabs lfile (lline - 1) else Inr lline)
      else Inr lline)"
  by pat_completeness auto
termination by (relation "measure (\<lambda>(_, lfile, lline). nat (lline + 1 - lfile))") auto

function count_params :: "stab_reader \<Rightarrow> int \<Rightarrow> int \<Rightarrow> nat \<Rightarrow> nat fallible" where
  "count_params stabs lline rfun n =
     (if lline < rfun
      then andThen (stabs lline) (\<lambda>e.
             if n_type e = N_PSYM then count_params stabs (lline + 1) rfun (n + 1) else Inr n)
      else Inr n)"
  by pat_completeness auto
termination by (relation "measure (\<lambda>(_, lline, rfun, _). nat (rfun - lline))") auto

declare file_of_line.simps [simp del] count_params.simps [simp del]

definition no_info :: "u32 \<Rightarrow> Eipdebuginfo" where
  "no_info addr = \<lparr>eip_file = Unknown, eip_line = 0, eip_fn_name = Unknown, eip_fn_namelen = 9,
     eip_fn_addr = addr, eip_fn_narg = 0\<rparr>"

text \<open>What follows the choice of the tables, from the check of the string table on.\<close>

definition debuginfo_tables :: "debug_tables \<Rightarrow> u32 \<Rightarrow> Eipdebuginfo \<Rightarrow> (int \<times> Eipdebuginfo) fallible" where
  "debuginfo_tables t addr info =
     (if \<not> str_order t then Inr (- 1, info)
      else andThen (str_at t (str_len t - 1)) (\<lambda>z.
      if z \<noteq> 0 then Inr (- 1, info)
      else andThen (stab_binsearch (stab_at t) 0 (stab_count t - 1) N_SO addr) (\<lambda>(lfile, rfile).
      if lfile = 0 then Inr (- 1, info)
      else andThen (stab_binsearch (stab_at t) lfile rfile N_FUN addr) (\<lambda>(lfun, rfun).
      andThen (if lfun \<le> rfun
          then andThen (stab_at t lfun) (\<lambda>e.
                 Inr (info\<lparr>eip_fn_name := (if n_strx e < str_len t then Name (n_strx e) else eip_fn_name info),
                        eip_fn_addr := n_value e\<rparr>, addr - n_value e, lfun, rfun))
          else Inr (info\<lparr>eip_fn_addr := addr\<rparr>, addr, lfile, rfile)) (\<lambda>(info, addr, lline, rline).
      andThen (case eip_fn_name info of
          Unknown \<Rightarrow> Inr 9
        | Name p \<Rightarrow> name_length (str_at t) p 0 (unat (str_len t))) (\<lambda>len.
      let info = info\<lparr>eip_fn_namelen := len\<rparr> in
      andThen (stab_binsearch (stab_at t) lline rline N_SLINE addr) (\<lambda>(lline, rline).
      andThen (if lline \<le> rline
          then andThen (stab_at t lline) (\<lambda>e. Inr (info\<lparr>eip_line := uint (n_desc e)\<rparr>))
          else Inr info) (\<lambda>info.
      andThen (file_of_line (stab_at t) lfile lline) (\<lambda>lline.
      andThen (if lfile \<le> lline
          then andThen (stab_at t lline) (\<lambda>e.
                 Inr (if n_strx e < str_len t then info\<lparr>eip_file := Name (n_strx e)\<rparr> else info))
          else Inr info) (\<lambda>info.
      andThen (if lfun < rfun then count_params (stab_at t) (lfun + 1) rfun 0 else Inr 0) (\<lambda>n.
      Inr (0, info\<lparr>eip_fn_narg := n\<rparr>))))))))))))"

text \<open>
  Words and entries of a user program's tables, through the page tables. A \<open>struct Stab\<close> has 12
  bytes. The length given to the second check is the number of entries, as in the code.
\<close>

definition load32 :: "u32 \<Rightarrow> kstate \<Rightarrow> u32 fallible" where
  "load32 va s =
     andThen (load8 va s) (\<lambda>a. andThen (load8 (va + 1) s) (\<lambda>b.
     andThen (load8 (va + 2) s) (\<lambda>c. andThen (load8 (va + 3) s) (\<lambda>d.
       Inr (ucast a OR push_bit 8 (ucast b) OR push_bit 16 (ucast c) OR push_bit 24 (ucast d))))))"

definition user_stab :: "kstate \<Rightarrow> u32 \<Rightarrow> stab_reader" where
  "user_stab s base i =
     (let p = base + 12 * word_of_int i in
      andThen (load32 p s) (\<lambda>strx. andThen (load32 (p + 4) s) (\<lambda>w. andThen (load32 (p + 8) s) (\<lambda>v.
        Inr \<lparr>n_strx = strx, n_type = ucast w, n_other = ucast (drop_bit 8 w),
             n_desc = ucast (drop_bit 16 w), n_value = v\<rparr>))))"

definition USTABDATA :: u32 where [simp]: "USTABDATA = 0x200000"

definition user_tables :: "nat \<Rightarrow> kstate \<Rightarrow> (debug_tables option \<times> kstate) fallible" where
  "user_tables pd s =
     andThen (user_mem_check pd USTABDATA 16 0 s) (\<lambda>(r, s). case r of Inl _ \<Rightarrow> Inr (None, s) | Inr _ \<Rightarrow>
     andThen (load32 USTABDATA s) (\<lambda>stabs. andThen (load32 (USTABDATA + 4) s) (\<lambda>stab_end.
     andThen (load32 (USTABDATA + 8) s) (\<lambda>str. andThen (load32 (USTABDATA + 12) s) (\<lambda>str_end.
     let count = sint (stab_end - stabs) div 12 in
     andThen (user_mem_check pd stabs (word_of_int count) 0 s) (\<lambda>(r, s). case r of Inl _ \<Rightarrow> Inr (None, s) | Inr _ \<Rightarrow>
     andThen (user_mem_check pd str (str_end - str) 0 s) (\<lambda>(r, s). case r of Inl _ \<Rightarrow> Inr (None, s) | Inr _ \<Rightarrow>
       Inr (Some \<lparr>stab_at = user_stab s stabs, stab_count = count, str_at = (\<lambda>i. load8 (str + i) s),
              str_len = str_end - str, str_order = str < str_end\<rparr>, s))))))))"

text \<open>The kernel's own tables are laid out by the linker: \<open>kt\<close>.\<close>

definition debuginfo_eip :: "debug_tables \<Rightarrow> u32 \<Rightarrow> kstate \<Rightarrow> ((int \<times> Eipdebuginfo) \<times> kstate) fallible" where
  "debuginfo_eip kt addr s =
     (if ULIM \<le> addr then andThen (debuginfo_tables kt addr (no_info addr)) (\<lambda>r. Inr (r, s))
      else case curenv s of
        None \<Rightarrow> Inl (KUndef ''null curenv'')
      | Some e \<Rightarrow> (case env_pgdir (envs s e) of
          None \<Rightarrow> Inl (KUndef ''null env_pgdir'')
        | Some pd \<Rightarrow> andThen (user_tables pd s) (\<lambda>(t, s).
            case t of
              None \<Rightarrow> Inr ((- 1, no_info addr), s)
            | Some t \<Rightarrow> andThen (debuginfo_tables t addr (no_info addr)) (\<lambda>r. Inr (r, s)))))"

end
