(* ===== verification/KdebugProps.thy ===== *)
theory KdebugProps
  imports Kdebug
begin

text \<open>
  The binary search of \<open>kern/kdebug.c\<close> on a table whose entries of the wanted type are in order:
  what it finds, that it reads nothing outside the range it was given, and where it departs from
  its comment.
\<close>

section \<open>The three loops on a readable table\<close>

text \<open>\<open>readable\<close>: every entry of the range can be read, and \<open>tab\<close> lists what is there.\<close>

definition readable :: "stab_reader \<Rightarrow> (int \<Rightarrow> Stab) \<Rightarrow> int \<Rightarrow> int \<Rightarrow> bool" where
  "readable stabs tab left right \<longleftrightarrow> (\<forall>i. left \<le> i \<and> i \<le> right \<longrightarrow> stabs i = Inr (tab i))"

definition in_order :: "(int \<Rightarrow> Stab) \<Rightarrow> u8 \<Rightarrow> int \<Rightarrow> int \<Rightarrow> bool" where
  "in_order tab type left right \<longleftrightarrow> (\<forall>i j. left \<le> i \<and> i < j \<and> j \<le> right
     \<and> n_type (tab i) = type \<and> n_type (tab j) = type \<longrightarrow> n_value (tab i) \<le> n_value (tab j))"

lemma search_back_spec:
  assumes "readable stabs tab l m"
  shows "\<exists>k. search_back stabs type l m = Inr k \<and> k \<le> m
     \<and> (\<forall>i. l \<le> i \<and> k < i \<and> i \<le> m \<longrightarrow> n_type (tab i) \<noteq> type) \<and> (l \<le> k \<longrightarrow> n_type (tab k) = type)"
  using assms
proof (induction stabs type l m rule: search_back.induct)
  case (1 stabs type l m)
  show ?case
  proof (cases "l \<le> m \<and> n_type (tab m) \<noteq> type")
    case True
    with 1 obtain k where k: "search_back stabs type l (m - 1) = Inr k" "k \<le> m - 1"
        "\<forall>i. l \<le> i \<and> k < i \<and> i \<le> m - 1 \<longrightarrow> n_type (tab i) \<noteq> type" "l \<le> k \<longrightarrow> n_type (tab k) = type"
      by (force simp: readable_def)
    have "n_type (tab i) \<noteq> type" if "l \<le> i" "k < i" "i \<le> m" for i
      using that k(3) True by (cases "i = m") auto
    then show ?thesis using True 1(2) k by (subst search_back.simps) (auto simp: readable_def)
  next
    case False
    then show ?thesis using 1(2) by (subst search_back.simps) (auto simp: readable_def)
  qed
qed

lemma last_of_type_spec:
  assumes "readable stabs tab (left + 1) l"
    and "\<And>i. k < i \<Longrightarrow> i \<le> l \<Longrightarrow> n_type (tab i) \<noteq> type"
    and "k = left \<or> left < k \<and> n_type (tab k) = type" and "k \<le> l"
  shows "last_of_type stabs type left l = Inr k"
  using assms
proof (induction stabs type left l rule: last_of_type.induct)
  case (1 stabs type left l)
  show ?case
  proof (cases "k = l")
    case True
    then show ?thesis using 1(2,4) by (subst last_of_type.simps) (auto simp: readable_def)
  next
    case False
    then have ne: "left < l" "n_type (tab l) \<noteq> type" using 1(3,4,5) by auto
    have "last_of_type stabs type left (l - 1) = Inr k"
      by (rule 1(1) [OF ne]) (use 1(2-5) False in \<open>auto simp: readable_def\<close>)
    then show ?thesis using False 1(2-5) by (subst last_of_type.simps) (auto simp: readable_def)
  qed
qed

section \<open>The invariant of the search\<close>

text \<open>
  \<open>found\<close> are the entries of the type inside the range, \<open>before\<close> those of them that start at or
  before the address.
\<close>

definition found :: "(int \<Rightarrow> Stab) \<Rightarrow> u8 \<Rightarrow> int \<Rightarrow> int \<Rightarrow> int set" where
  "found tab type left right = {i. left \<le> i \<and> i \<le> right \<and> n_type (tab i) = type}"

definition starts_by :: "(int \<Rightarrow> Stab) \<Rightarrow> u32 \<Rightarrow> int \<Rightarrow> bool" where
  "starts_by tab addr i \<longleftrightarrow> n_value (tab i) \<le> addr"

text \<open>
  Left of \<open>l\<close> everything starts by the address, right of \<open>r\<close> nothing does; the left result is the
  last entry before \<open>l\<close> (or the bound it started with), the right result is \<open>r\<close>. \<open>addr\<close> has been
  moved on by one at an exact match.
\<close>

definition search_inv :: "(int \<Rightarrow> Stab) \<Rightarrow> u8 \<Rightarrow> int \<Rightarrow> int \<Rightarrow> u32 \<Rightarrow> int \<Rightarrow> int \<Rightarrow> search \<Rightarrow> bool" where
  "search_inv tab type left right addr l r s \<longleftrightarrow>
     left \<le> l \<and> r \<le> right \<and> l \<le> r + 1 \<and> region_right s = r
     \<and> (\<forall>i \<in> found tab type left right. i < l \<longrightarrow> starts_by tab addr i)
     \<and> (r < right \<longrightarrow> r + 1 \<in> found tab type left right \<and> \<not> starts_by tab addr (r + 1))
     \<and> (if region_left s \<in> found tab type left right \<and> starts_by tab addr (region_left s)
        then region_left s \<le> l \<and> (\<forall>i \<in> found tab type left right. i < l \<longrightarrow> i \<le> region_left s)
        else region_left s = left \<and> (\<forall>i \<in> found tab type left right. l \<le> i))
     \<and> (any_matches s \<longleftrightarrow> r < right \<or> s_addr s \<noteq> addr \<or> (\<exists>i \<in> found tab type left right. i < l))
     \<and> (s_addr s = addr \<or> s_addr s = addr + 1 \<and> (\<exists>i \<in> found tab type left right. n_value (tab i) = addr))"


lemma addr_next: "addr < 0xFFFFFFFF \<Longrightarrow> v < addr + 1 \<longleftrightarrow> v \<le> addr" for v addr :: u32
proof -
  assume "addr < 0xFFFFFFFF"
  then have "unat (addr + 1) = unat addr + 1" by (simp add: unat_plus_if' word_less_nat_alt)
  then show ?thesis by (simp add: word_less_nat_alt word_le_nat_alt less_Suc_eq_le)
qed

lemma search_step_inv:
  assumes tab: "readable stabs tab left right" "in_order tab type left right"
    and addr: "addr < 0xFFFFFFFF" "\<forall>i \<in> found tab type left right. n_value (tab i) \<noteq> addr + 1"
    and inv: "search_inv tab type left right addr l r s" and lr: "l \<le> r"
  shows "\<exists>l' r' s'. search_step stabs type l r s = Inr (l', r', s') \<and> search_inv tab type left right addr l' r' s'"
proof -
  let ?t = "(l + r) div 2" and ?F = "found tab type left right"
  have t: "l \<le> ?t" "?t \<le> r" using lr by auto
  have b: "left \<le> l" "r \<le> right" using inv by (auto simp: search_inv_def)
  have "readable stabs tab l ?t" using tab(1) t b by (auto simp: readable_def)
  from search_back_spec [OF this, of type] obtain m where m: "search_back stabs type l ?t = Inr m" "m \<le> ?t"
    and none: "\<And>i. l \<le> i \<Longrightarrow> m < i \<Longrightarrow> i \<le> ?t \<Longrightarrow> i \<notin> ?F" and hit: "l \<le> m \<Longrightarrow> n_type (tab m) = type"
    by (auto simp: found_def)
  show ?thesis
  proof (cases "m < l")
    case True
    have keep: "i \<le> ?t \<longleftrightarrow> i < l" if "i \<in> ?F" for i using none [of i] that True t by force
    then have keep': "?t < i \<longleftrightarrow> l \<le> i" "?t + 1 \<le> i \<longleftrightarrow> l \<le> i" if "i \<in> ?F" for i using that by force+
    have "search_inv tab type left right addr (?t + 1) r s"
      using inv t unfolding search_inv_def by (simp add: keep keep' cong: ball_cong bex_cong) (auto split: if_splits)
    then show ?thesis using m True by (simp add: search_step_def)
  next
    case False
    then have mF: "m \<in> ?F" using hit m(2) t b by (simp add: found_def)
    have e: "stabs m = Inr (tab m)" using tab(1) mF by (simp add: readable_def found_def)
    have up: "n_value (tab m) \<le> n_value (tab i)" if "i \<in> ?F" "m < i" for i
      using tab(2) that mF by (auto simp: in_order_def found_def)
    have down: "n_value (tab i) \<le> n_value (tab m)" if "i \<in> ?F" "i < m" for i
      using tab(2) that mF by (auto simp: in_order_def found_def)
    have sa: "s_addr s = addr \<or> s_addr s = addr + 1" using inv by (auto simp: search_inv_def)
    have ne: "n_value (tab m) \<noteq> addr + 1" using addr(2) mF by blast
    have le_t: "i \<le> m" if "i \<in> ?F" "i < ?t + 1" for i using none [of i] that False by force
    consider (lt) "n_value (tab m) < s_addr s" | (gt) "s_addr s < n_value (tab m)" | (eq) "n_value (tab m) = s_addr s"
      by force
    then show ?thesis
    proof cases
      case lt
      then have m_by: "n_value (tab m) \<le> addr" using sa addr_next [OF addr(1), of "n_value (tab m)"] by auto
      then have "starts_by tab addr i" if "i \<in> ?F" "i < ?t + 1" for i
        using le_t [OF that] down [of i] that by (cases "i = m") (auto simp: starts_by_def)
      then have "search_inv tab type left right addr (?t + 1) r (s\<lparr>any_matches := True, region_left := m\<rparr>)"
        using inv m_by mF le_t m(2) t unfolding search_inv_def starts_by_def by auto
      then show ?thesis using m False e lt by (simp add: search_step_def)
    next
      case gt
      then have "\<not> starts_by tab addr m"
        using sa ne addr_next [OF addr(1), of "n_value (tab m)"] by (auto simp: starts_by_def)
      then have "search_inv tab type left right addr l (m - 1) (s\<lparr>any_matches := True, region_right := m - 1\<rparr>)"
        using inv mF False m(2) t b unfolding search_inv_def by auto
      moreover have "\<not> n_value (tab m) < s_addr s" using gt by simp
      ultimately show ?thesis using m False e gt by (simp add: search_step_def)
    next
      case eq
      then have ea: "s_addr s = addr" "n_value (tab m) = addr" using sa ne by auto
      have "starts_by tab addr i" if "i \<in> ?F" "i < m" for i using down [OF that] ea by (simp add: starts_by_def)
      then have "search_inv tab type left right addr m r
          (s\<lparr>any_matches := True, region_left := m, s_addr := s_addr s + 1\<rparr>)"
        using inv mF False m(2) t ea unfolding search_inv_def starts_by_def by auto
      then show ?thesis using m False e eq by (simp add: search_step_def)
    qed
  qed
qed

lemma search_loop_inv:
  assumes "readable stabs tab left right" "in_order tab type left right"
    and "addr < 0xFFFFFFFF" "\<forall>i \<in> found tab type left right. n_value (tab i) \<noteq> addr + 1"
    and "search_inv tab type left right addr l r s"
  shows "\<exists>l' r' s'. search_loop stabs type l r s = Inr s' \<and> search_inv tab type left right addr l' r' s' \<and> r' < l'"
  using assms
proof (induction stabs type l r s rule: search_loop.induct)
  case (1 stabs type l r s)
  show ?case
  proof (cases "l \<le> r")
    case True
    from search_step_inv [OF 1(2-6) True] obtain l' r' s' where
      st: "search_step stabs type l r s = Inr (l', r', s')" "search_inv tab type left right addr l' r' s'" by blast
    from 1(1) [OF True st(1) refl refl 1(2-5) st(2)] show ?thesis
      using True st(1) by (subst search_loop.simps) simp
  next
    case False
    then show ?thesis using 1(6) by (subst search_loop.simps) (auto simp: not_le)
  qed
qed

lemma search_end:
  assumes inv: "search_inv tab type left right addr l r s" and lr: "l = r + 1"
  shows "r = right \<or> r + 1 \<in> found tab type left right \<and> \<not> starts_by tab addr (r + 1)"
    and "in_order tab type left right \<Longrightarrow> i \<in> found tab type left right \<Longrightarrow> starts_by tab addr i \<Longrightarrow> i < l"
    and "any_matches s \<longleftrightarrow> found tab type left right \<noteq> {}"
    and "region_left s \<in> found tab type left right \<and> starts_by tab addr (region_left s)
      \<Longrightarrow> region_left s \<le> l \<and> (\<forall>i \<in> found tab type left right. i < l \<longrightarrow> i \<le> region_left s)"
    and "\<not> (region_left s \<in> found tab type left right \<and> starts_by tab addr (region_left s))
      \<Longrightarrow> region_left s = left \<and> (\<forall>i \<in> found tab type left right. l \<le> i)"
proof -
  let ?F = "found tab type left right"
  show right: "r = right \<or> r + 1 \<in> ?F \<and> \<not> starts_by tab addr (r + 1)"
    using inv by (auto simp: search_inv_def)
  have "any_matches s \<longleftrightarrow> r \<noteq> right \<or> s_addr s \<noteq> addr \<or> (\<exists>i\<in>?F. i < l)"
    using inv by (auto simp: search_inv_def)
  moreover have "s_addr s \<noteq> addr \<Longrightarrow> ?F \<noteq> {}" using inv by (auto simp: search_inv_def)
  moreover have "i < l" if "i \<in> ?F" "r = right" for i using that lr by (simp add: found_def)
  ultimately show "any_matches s \<longleftrightarrow> ?F \<noteq> {}" using right by blast
  have "starts_by tab addr i \<Longrightarrow> i < l" if "in_order tab type left right" "i \<in> ?F" for i
  proof (rule ccontr)
    assume i: "starts_by tab addr i" "\<not> i < l"
    have "i \<le> right" using that by (simp add: found_def)
    then have r: "r + 1 \<in> ?F" "\<not> starts_by tab addr (r + 1)" using right i lr by auto
    with i have "r + 1 < i" using lr by (cases "i = r + 1") auto
    with that r(1) have "n_value (tab (r + 1)) \<le> n_value (tab i)" by (auto simp: in_order_def found_def)
    with i r(2) show False by (auto simp: starts_by_def)
  qed
  then show "in_order tab type left right \<Longrightarrow> i \<in> ?F \<Longrightarrow> starts_by tab addr i \<Longrightarrow> i < l" by blast
  have "if region_left s \<in> ?F \<and> starts_by tab addr (region_left s)
      then region_left s \<le> l \<and> (\<forall>i \<in> ?F. i < l \<longrightarrow> i \<le> region_left s)
      else region_left s = left \<and> (\<forall>i \<in> ?F. l \<le> i)"
    using inv unfolding search_inv_def by blast
  then show "region_left s \<in> ?F \<and> starts_by tab addr (region_left s)
      \<Longrightarrow> region_left s \<le> l \<and> (\<forall>i \<in> ?F. i < l \<longrightarrow> i \<le> region_left s)"
    and "\<not> (region_left s \<in> ?F \<and> starts_by tab addr (region_left s))
      \<Longrightarrow> region_left s = left \<and> (\<forall>i \<in> ?F. l \<le> i)" by presburger+
qed

lemma last_of_found:
  assumes "readable stabs tab left right" and "left \<le> lo" "lo \<le> r" "r \<le> right"
    and none: "\<And>i. i \<in> found tab type left right \<Longrightarrow> i \<le> r \<Longrightarrow> i \<le> lo"
  shows "last_of_type stabs type lo r = Inr lo"
proof (rule last_of_type_spec [where k = lo and tab = tab])
  show "readable stabs tab (lo + 1) r" using assms by (simp add: readable_def)
  show "n_type (tab i) \<noteq> type" if "lo < i" "i \<le> r" for i
  proof
    assume "n_type (tab i) = type"
    then have "i \<in> found tab type left right" using that assms by (simp add: found_def)
    then show False using none [of i] that by simp
  qed
qed (use assms in simp_all)

text \<open>What the last loop makes of it.\<close>

lemma search_finish:
  assumes inv: "search_inv tab type left right addr l r s" and lr: "l = r + 1"
    and tab: "readable stabs tab left right"
  defines "F \<equiv> found tab type left right" and "rl \<equiv> region_left s"
  shows "rl \<in> F \<and> starts_by tab addr rl \<Longrightarrow> \<forall>i\<in>F. i < l \<longrightarrow> i \<le> rl"
    and "rl \<in> F \<and> starts_by tab addr rl \<Longrightarrow> rl \<le> r"
    and "rl \<in> F \<and> starts_by tab addr rl \<Longrightarrow> last_of_type stabs type rl r = Inr rl"
    and "\<not> (rl \<in> F \<and> starts_by tab addr rl) \<Longrightarrow> \<forall>i\<in>F. l \<le> i"
    and "\<not> (rl \<in> F \<and> starts_by tab addr rl) \<Longrightarrow> last_of_type stabs type rl r = Inr (min left r)"
proof -
  have rr: "r \<le> right" using inv by (simp add: search_inv_def)
  note right = search_end(1) [OF inv lr, folded F_def]
  {
    assume in_: "rl \<in> F \<and> starts_by tab addr rl"
    then have le_l: "rl \<le> l" and last: "\<forall>i\<in>F. i < l \<longrightarrow> i \<le> rl"
      using search_end(4) [OF inv lr, folded F_def rl_def] by blast+
    have "r + 1 \<in> F \<Longrightarrow> \<not> starts_by tab addr (r + 1)" using right by (auto simp: F_def found_def)
    then have "rl \<noteq> r + 1" using in_ by metis
    then have le: "rl \<le> r" using le_l lr by simp
    have ge: "left \<le> rl" using in_ by (simp add: F_def found_def)
    have "last_of_type stabs type rl r = Inr rl"
      by (rule last_of_found [OF tab ge le rr]) (use last lr [symmetric] in \<open>unfold F_def, simp\<close>)
    with last le show "\<forall>i\<in>F. i < l \<longrightarrow> i \<le> rl" "rl \<le> r" "last_of_type stabs type rl r = Inr rl" by blast+
  }
  assume "\<not> (rl \<in> F \<and> starts_by tab addr rl)"
  then have none: "rl = left" "\<forall>i\<in>F. l \<le> i" using search_end(5) [OF inv lr, folded F_def rl_def] by blast+
  then show "\<forall>i\<in>F. l \<le> i" by blast
  show "last_of_type stabs type rl r = Inr (min left r)"
  proof (cases "left \<le> r")
    case True
    have "last_of_type stabs type left r = Inr left"
      by (rule last_of_found [OF tab _ True rr]) (use none(2) lr in \<open>force simp: F_def\<close>)+
    then show ?thesis using True none(1) by simp
  next
    case False
    then show ?thesis by (subst last_of_type.simps) (simp add: none(1))
  qed
qed

text \<open>
  C34. \<open>stab_binsearch\<close> ends without a fault whenever the entries of its range can be read, so it
  reads no entry outside the range. With the entries of the type in order, and none that starts
  exactly one byte after the address: if some entry starts by the address, the result is the
  last such entry, and the right bound is just before the next entry of the type. If there is no
  entry of the type the right result is left of the left one; but if all of them start after the
  address, the two results do not say so.
\<close>

theorem stab_binsearch_correct:
  assumes tab: "readable stabs tab left right" "in_order tab type left right" and range: "left \<le> right + 1"
    and addr: "addr < 0xFFFFFFFF" "\<forall>i \<in> found tab type left right. n_value (tab i) \<noteq> addr + 1"
  defines "F \<equiv> found tab type left right"
  shows "\<exists>l r. stab_binsearch stabs left right type addr = Inr (l, r)
     \<and> (F = {} \<longrightarrow> l = left \<and> r = left - 1)
     \<and> (\<forall>k \<in> F. starts_by tab addr k \<and> (\<forall>i \<in> F. starts_by tab addr i \<longrightarrow> i \<le> k) \<longrightarrow>
          l = k \<and> k \<le> r \<and> (\<forall>i \<in> F. k < i \<longrightarrow> r < i) \<and> (r = right \<or> r + 1 \<in> F))
     \<and> (F \<noteq> {} \<and> (\<forall>i \<in> F. \<not> starts_by tab addr i) \<longrightarrow> r + 1 \<in> F \<and> (\<forall>i \<in> F. r < i) \<and> l = min left r)"
proof -
  let ?s = "\<lparr>region_left = left, region_right = right, any_matches = False, s_addr = addr\<rparr>"
  have "search_inv tab type left right addr left right ?s"
    using range by (auto simp: search_inv_def found_def)
  from search_loop_inv [OF tab addr this] obtain l r s where
    run: "search_loop stabs type left right ?s = Inr s" and inv: "search_inv tab type left right addr l r s"
    and end_: "r < l" by blast
  have lr: "l = r + 1" using inv end_ by (simp add: search_inv_def)
  let ?rl = "region_left s"
  note right = search_end(1) [OF inv lr, folded F_def]
    and any = search_end(3) [OF inv lr, folded F_def]
  have le_start: "k < l" if "k \<in> F" "starts_by tab addr k" for k
    using search_end(2) [OF inv lr tab(2)] that by (simp add: F_def)
  have rr: "r \<le> right" using inv by (simp add: search_inv_def)
  show ?thesis
  proof (cases "F = {}")
    case True
    then have "?rl = left" using inv by (auto simp: search_inv_def F_def)
    then show ?thesis using True any run by (simp add: stab_binsearch_def)
  next
    case some: False
    have res: "stab_binsearch stabs left right type addr = Inr (k, r)" if "last_of_type stabs type ?rl r = Inr k" for k
      using that run any some inv by (simp add: stab_binsearch_def search_inv_def)
    show ?thesis
    proof (cases "?rl \<in> F \<and> starts_by tab addr ?rl")
      case True
      note fin = search_finish(1-3) [OF inv lr tab(1), folded F_def, OF True]
      then have last: "\<And>i. i \<in> F \<Longrightarrow> i < l \<Longrightarrow> i \<le> ?rl" and le: "?rl \<le> r" by blast+
      from fin(3) have run: "stab_binsearch stabs left right type addr = Inr (?rl, r)" by (rule res)
      have "?rl = k \<and> k \<le> r \<and> (\<forall>i \<in> F. k < i \<longrightarrow> r < i) \<and> (r = right \<or> r + 1 \<in> F)"
        if k: "k \<in> F" "starts_by tab addr k \<and> (\<forall>i \<in> F. starts_by tab addr i \<longrightarrow> i \<le> k)" for k
      proof -
        have "k = ?rl" using le_start [of k] last [of k] k True by (meson order.antisym)
        moreover have "r < i" if "i \<in> F" "?rl < i" for i using last [OF that(1)] that lr by force
        moreover have "r = right \<or> r + 1 \<in> F" using right by blast
        ultimately show ?thesis using le by blast
      qed
      moreover have "\<not> (\<forall>i\<in>F. \<not> starts_by tab addr i)" using True by blast
      ultimately show ?thesis using run some by (intro exI [of _ ?rl] exI [of _ r] conjI ballI impI) simp_all
    next
      case False
      note fin = search_finish(4,5) [OF inv lr tab(1), folded F_def, OF False]
      then have none: "\<And>i. i \<in> F \<Longrightarrow> r < i" using lr by force
      then have "r + 1 \<in> F" using some right by (force simp: F_def found_def)
      from fin(2) have run: "stab_binsearch stabs left right type addr = Inr (min left r, r)" by (rule res)
      have no: "\<not> starts_by tab addr k" if "k \<in> F" for k
      proof
        assume "starts_by tab addr k"
        with le_start [OF that] none [OF that] lr show False by simp
      qed
      show ?thesis
        by (intro exI [of _ "min left r"] exI [of _ r] conjI ballI impI)
          (use run some no none \<open>r + 1 \<in> F\<close> in simp_all)
    qed
  qed
qed


text \<open>Two lines of eight and ten bytes, and one of a single byte between them.\<close>

definition demo_lines :: "int \<Rightarrow> Stab" where
  "demo_lines i = \<lparr>n_strx = 0, n_type = (if i = 2 then N_PSYM else N_SLINE), n_other = 0, n_desc = word_of_int (40 + i),
     n_value = (if i = 0 then 0 else if i = 1 then 8 else if i = 3 then 9 else 19)\<rparr>"

theorem stab_binsearch_correct_witness:
  "\<exists>r. stab_binsearch (\<lambda>i. if 0 \<le> i \<and> i \<le> 4 then Inr (demo_lines i) else Inl (KUndef ''outside'')) 0 4 N_SLINE 12 = Inr (3, r)"
proof -
  let ?st = "\<lambda>i. if 0 \<le> i \<and> i \<le> 4 then Inr (demo_lines i) else Inl (KUndef ''outside'')"
  have r: "{i. 0 \<le> i \<and> i \<le> (4 :: int)} = {0, 1, 2, 3, 4}" by auto
  have f: "found demo_lines N_SLINE 0 4 = {0, 1, 3, 4}" using r by (auto simp: found_def demo_lines_def)
  have "readable ?st demo_lines 0 4" by (simp add: readable_def)
  moreover have "in_order demo_lines N_SLINE 0 4" by (auto simp: in_order_def demo_lines_def)
  ultimately show ?thesis
    using stab_binsearch_correct [of ?st demo_lines 0 4 N_SLINE 12] unfolding f
    by (auto simp: demo_lines_def starts_by_def)
qed

text \<open>
  An entry that starts exactly one byte after the address is taken for it, when the search looks
  at the entry of the address first: after an exact match the address is moved on by one and
  compared again.
\<close>

lemma next_byte_is_taken:
  "stab_binsearch (\<lambda>i. Inr (demo_lines i)) 1 3 N_SLINE 8 = Inr (3, 3)"
  by (simp add: stab_binsearch_def search_loop.simps search_step_def search_back.simps last_of_type.simps
      demo_lines_def)

end
