(* ===== verification/Spinlock.thy ===== *)
theory Spinlock
  imports Envs
begin

text \<open>
  \<open>kern/spinlock.c\<close>: the big kernel lock between several processors. Every access to the shared
  lock that another processor can observe is a step of its own; the steps of different
  processors interleave in any order. The processors run arbitrary code between the calls: they
  may call \<open>spin_lock\<close> while they hold the lock, or \<open>spin_unlock\<close> when they do not. The kernel
  theories use the lock as one field of the state (\<open>lock_kernel\<close>, \<open>unlock_kernel\<close>); the last
  theorem says that this is what the steps implement.
\<close>

section \<open>The lock\<close>

record spinlock =
  locked :: u32
  lock_name :: string
  lock_cpu :: "nat option"
  pcs :: "u32 list"

text \<open>The \<open>%ebp\<close> chain of at most \<open>n\<close> frames, read through \<open>mem\<close>, padded with zeros.\<close>

fun get_caller_pcs :: "(u32 \<Rightarrow> u32) \<Rightarrow> u32 \<Rightarrow> nat \<Rightarrow> u32 list" where
  "get_caller_pcs mem ebp 0 = []"
| "get_caller_pcs mem ebp (Suc n) =
     (if ebp = 0 \<or> ebp < ULIM then replicate (Suc n) 0
      else mem (ebp + 4) # get_caller_pcs mem (mem ebp) n)"

definition holding :: "nat \<Rightarrow> spinlock \<Rightarrow> bool" where
  "holding cpu lk \<longleftrightarrow> locked lk \<noteq> 0 \<and> lock_cpu lk = Some cpu"

definition spin_initlock :: "string \<Rightarrow> spinlock \<Rightarrow> spinlock" where
  "spin_initlock name lk = lk\<lparr>locked := 0, lock_name := name, lock_cpu := None\<rparr>"

text \<open>\<open>xchg\<close> of \<open>inc/x86.h\<close> on the word of the lock.\<close>

definition xchg :: "u32 \<Rightarrow> spinlock \<Rightarrow> u32 \<times> spinlock" where
  "xchg v lk = (locked lk, lk\<lparr>locked := v\<rparr>)"

section \<open>The steps of the processors\<close>

text \<open>
  \<open>frames\<close> is the memory with a processor's stack and its \<open>%ebp\<close>, as of its last call.
  Where a processor is. The argument of the places outside the critical lines records whether
  its last \<open>spin_lock\<close> has returned without a matching \<open>spin_unlock\<close>. \<open>holding\<close> reads the two
  fields one after the other.
\<close>

datatype place =
    Running bool | Lock_call bool | Lock_cpu bool | Spinning | Record_cpu | Record_pcs
  | Unlock_call bool | Unlock_cpu bool | Report bool | Clear_pcs | Clear_cpu | Release | Stopped bool

record machine =
  lk :: spinlock
  place :: "nat \<Rightarrow> place"
  frames :: "nat \<Rightarrow> (u32 \<Rightarrow> u32) \<times> u32"

definition go :: "nat \<Rightarrow> place \<Rightarrow> machine \<Rightarrow> machine" where
  "go c p m = m\<lparr>place := (place m)(c := p)\<rparr>"

definition set_lk :: "spinlock \<Rightarrow> machine \<Rightarrow> machine" where
  "set_lk l m = m\<lparr>lk := l\<rparr>"

inductive spin_step :: "nat \<Rightarrow> machine \<Rightarrow> machine \<Rightarrow> bool" where
  call_lock: "place m c = Running h
    \<Longrightarrow> spin_step c m (go c (Lock_call h) (m\<lparr>frames := (frames m)(c := fr)\<rparr>))"
| lock_free: "place m c = Lock_call h \<Longrightarrow> locked (lk m) = 0 \<Longrightarrow> spin_step c m (go c Spinning m)"
| lock_busy: "place m c = Lock_call h \<Longrightarrow> locked (lk m) \<noteq> 0 \<Longrightarrow> spin_step c m (go c (Lock_cpu h) m)"
| lock_other: "place m c = Lock_cpu h \<Longrightarrow> lock_cpu (lk m) \<noteq> Some c \<Longrightarrow> spin_step c m (go c Spinning m)"
| lock_twice: "place m c = Lock_cpu h \<Longrightarrow> lock_cpu (lk m) = Some c \<Longrightarrow> spin_step c m (go c (Stopped h) m)"
| spin: "place m c = Spinning \<Longrightarrow> xchg 1 (lk m) = (old, l) \<Longrightarrow> old \<noteq> 0
    \<Longrightarrow> spin_step c m (set_lk l m)"
| acquire: "place m c = Spinning \<Longrightarrow> xchg 1 (lk m) = (old, l) \<Longrightarrow> old = 0
    \<Longrightarrow> spin_step c m (go c Record_cpu (set_lk l m))"
| record_cpu: "place m c = Record_cpu
    \<Longrightarrow> spin_step c m (go c Record_pcs (set_lk ((lk m)\<lparr>lock_cpu := Some c\<rparr>) m))"
| record_pcs: "place m c = Record_pcs
    \<Longrightarrow> spin_step c m (go c (Running True) (set_lk ((lk m)\<lparr>pcs := get_caller_pcs (fst (frames m c)) (snd (frames m c)) 10\<rparr>) m))"
| call_unlock: "place m c = Running h \<Longrightarrow> spin_step c m (go c (Unlock_call h) m)"
| unlock_free: "place m c = Unlock_call h \<Longrightarrow> locked (lk m) = 0 \<Longrightarrow> spin_step c m (go c (Report h) m)"
| unlock_busy: "place m c = Unlock_call h \<Longrightarrow> locked (lk m) \<noteq> 0 \<Longrightarrow> spin_step c m (go c (Unlock_cpu h) m)"
| unlock_other: "place m c = Unlock_cpu h \<Longrightarrow> lock_cpu (lk m) \<noteq> Some c \<Longrightarrow> spin_step c m (go c (Report h) m)"
| unlock_mine: "place m c = Unlock_cpu h \<Longrightarrow> lock_cpu (lk m) = Some c \<Longrightarrow> spin_step c m (go c Clear_pcs m)"
| report: "place m c = Report h \<Longrightarrow> spin_step c m (go c (Stopped h) m)"
| clear_pcs: "place m c = Clear_pcs
    \<Longrightarrow> spin_step c m (go c Clear_cpu (set_lk ((lk m)\<lparr>pcs := (pcs (lk m))[0 := 0]\<rparr>) m))"
| clear_cpu: "place m c = Clear_cpu
    \<Longrightarrow> spin_step c m (go c Release (set_lk ((lk m)\<lparr>lock_cpu := None\<rparr>) m))"
| release: "place m c = Release \<Longrightarrow> xchg 0 (lk m) = (old, l)
    \<Longrightarrow> spin_step c m (go c (Running False) (set_lk l m))"

text \<open>From the initial lock with every processor outside, in any interleaving.\<close>

definition spin_start :: "(nat \<Rightarrow> (u32 \<Rightarrow> u32) \<times> u32) \<Rightarrow> machine" where
  "spin_start fr = \<lparr>lk = spin_initlock ''kernel_lock'' \<lparr>locked = 0, lock_name = [], lock_cpu = None, pcs = replicate 10 0\<rparr>,
     place = (\<lambda>_. Running False), frames = fr\<rparr>"

inductive spin_reach :: "machine \<Rightarrow> bool" where
  start: "spin_reach (spin_start fr)"
| step: "spin_reach m \<Longrightarrow> spin_step c m m' \<Longrightarrow> spin_reach m'"

section \<open>The invariant\<close>

fun held :: "place \<Rightarrow> bool" where
  "held (Running h) = h"
| "held (Lock_call h) = h"
| "held (Lock_cpu h) = h"
| "held Spinning = False"
| "held Record_cpu = True"
| "held Record_pcs = True"
| "held (Unlock_call h) = h"
| "held (Unlock_cpu h) = h"
| "held (Report h) = h"
| "held Clear_pcs = True"
| "held Clear_cpu = True"
| "held Release = True"
| "held (Stopped h) = h"

definition recorded :: "place \<Rightarrow> bool" where
  "recorded p \<longleftrightarrow> held p \<and> p \<noteq> Record_cpu \<and> p \<noteq> Release"

definition lock_inv :: "machine \<Rightarrow> bool" where
  "lock_inv m \<longleftrightarrow>
     (\<forall>c d. held (place m c) \<and> held (place m d) \<longrightarrow> c = d)
     \<and> (locked (lk m) \<noteq> 0 \<longleftrightarrow> (\<exists>c. held (place m c)))
     \<and> (\<forall>c. lock_cpu (lk m) = Some c \<longleftrightarrow> recorded (place m c))
     \<and> (\<forall>c. place m c \<noteq> Report True)"

lemma set_lk_place [simp]: "place (set_lk l m) = place m"
  by (simp add: set_lk_def)

lemma frames_place [simp]: "place (m\<lparr>frames := f\<rparr>) = place m" "lk (m\<lparr>frames := f\<rparr>) = lk m"
  by simp_all

lemma lock_inv_frames [simp]: "lock_inv (m\<lparr>frames := f\<rparr>) \<longleftrightarrow> lock_inv m"
  by (simp add: lock_inv_def)

lemma lock_inv_cpu: "lock_inv m \<Longrightarrow> lock_cpu (lk m) = Some c \<Longrightarrow> held (place m c)"
  unfolding lock_inv_def recorded_def by blast

lemma lock_inv_held:
  "lock_inv m \<Longrightarrow> held (place m c) \<Longrightarrow> locked (lk m) \<noteq> 0 \<and> (\<forall>d. held (place m d) \<longleftrightarrow> d = c)"
  by (auto simp: lock_inv_def)

lemma lock_inv_start: "lock_inv (spin_start fr)"
  by (simp add: lock_inv_def spin_start_def spin_initlock_def recorded_def)

text \<open>A move of one processor that neither takes nor gives the lock.\<close>

lemma lock_inv_go:
  assumes "lock_inv m" and "held p = held (place m c)" and "recorded p = recorded (place m c)" and "p \<noteq> Report True"
  shows "lock_inv (go c p m)"
  using assms by (auto simp: lock_inv_def go_def)

lemma lock_inv_step: "spin_step c m m' \<Longrightarrow> lock_inv m \<Longrightarrow> lock_inv m'"
proof (induction rule: spin_step.induct)
  case (spin m c old l)
  then show ?case by (auto simp: lock_inv_def set_lk_def xchg_def)
next
  case (acquire m c old l)
  then have none: "\<not> held (place m d)" for d by (auto simp: lock_inv_def xchg_def)
  then have "lock_cpu (lk m) = None"
    using acquire by (cases "lock_cpu (lk m)") (auto simp: lock_inv_def recorded_def)
  with none acquire show ?case by (auto simp: lock_inv_def go_def set_lk_def xchg_def recorded_def)
next
  case (record_cpu m c)
  with lock_inv_held [of m c] have "locked (lk m) \<noteq> 0" "\<And>d. held (place m d) \<longleftrightarrow> d = c" by simp_all
  with record_cpu show ?case by (auto simp: lock_inv_def go_def set_lk_def recorded_def)
next
  case (clear_cpu m c)
  with lock_inv_held [of m c] have "locked (lk m) \<noteq> 0" "\<And>d. held (place m d) \<longleftrightarrow> d = c" by simp_all
  with clear_cpu show ?case by (auto simp: lock_inv_def go_def set_lk_def recorded_def)
next
  case (release m c old l)
  with lock_inv_held [of m c] have none: "\<And>d. held (place m d) \<longleftrightarrow> d = c" by simp
  then have "lock_cpu (lk m) = None"
    using release by (cases "lock_cpu (lk m)") (auto simp: lock_inv_def recorded_def)
  with none release show ?case by (auto simp: lock_inv_def go_def set_lk_def xchg_def recorded_def)
next
  case (lock_free m c h)
  then have "\<not> h" using lock_inv_held [of m c] by auto
  with lock_free show ?case by (intro lock_inv_go) (auto simp: recorded_def)
next
  case (lock_other m c h)
  then have "\<not> h" by (auto simp: lock_inv_def recorded_def)
  with lock_other show ?case by (intro lock_inv_go) (auto simp: recorded_def)
next
  case (unlock_free m c h)
  then have "\<not> h" using lock_inv_held [of m c] by auto
  with unlock_free show ?case by (intro lock_inv_go) (auto simp: recorded_def)
next
  case (unlock_other m c h)
  then have "\<not> h" by (auto simp: lock_inv_def recorded_def)
  with unlock_other show ?case by (intro lock_inv_go) (auto simp: recorded_def)
next
  case (unlock_mine m c h)
  then have h using lock_inv_cpu [of m c] by simp
  with unlock_mine show ?case by (intro lock_inv_go) (auto simp: recorded_def)
next
  case (record_pcs m c)
  with lock_inv_held [of m c] have "locked (lk m) \<noteq> 0" "\<And>d. held (place m d) \<longleftrightarrow> d = c" by simp_all
  with record_pcs show ?case by (auto simp: lock_inv_def go_def set_lk_def recorded_def)
next
  case (clear_pcs m c)
  with lock_inv_held [of m c] have "locked (lk m) \<noteq> 0" "\<And>d. held (place m d) \<longleftrightarrow> d = c" by simp_all
  with clear_pcs show ?case by (auto simp: lock_inv_def go_def set_lk_def recorded_def)
qed (auto intro!: lock_inv_go simp: recorded_def)

lemma lock_inv_reach: "spin_reach m \<Longrightarrow> lock_inv m"
  by (induction rule: spin_reach.induct) (auto intro: lock_inv_start lock_inv_step)

text \<open>
  C13. In every interleaving of any number of processors, whatever they call in between: at most
  one processor holds the lock; whoever \<open>spin_lock\<close> has returned to passes the test
  \<open>holding\<close>; only that processor reaches the lines of \<open>spin_unlock\<close> that release the lock; and a
  processor that holds the lock is never told that it does not.
\<close>

theorem spin_mutual_exclusion:
  assumes "spin_reach m"
  shows "(held (place m c) \<and> held (place m d) \<longrightarrow> c = d)
     \<and> (place m c = Running True \<longrightarrow> holding c (lk m))
     \<and> (place m c \<in> {Clear_pcs, Clear_cpu, Release} \<longrightarrow> (\<forall>d. held (place m d) \<longleftrightarrow> d = c))
     \<and> (locked (lk m) = 0 \<longleftrightarrow> (\<forall>d. \<not> held (place m d)))
     \<and> place m c \<noteq> Report True"
proof -
  note inv = lock_inv_reach [OF assms]
  note h = lock_inv_held [OF inv, of c]
  have "holding c (lk m)" if "place m c = Running True"
    using that h inv by (simp add: holding_def recorded_def lock_inv_def)
  moreover have "\<forall>d. held (place m d) \<longleftrightarrow> d = c" if "place m c \<in> {Clear_pcs, Clear_cpu, Release}"
    using that h by auto
  ultimately show ?thesis using inv unfolding lock_inv_def by blast
qed

text \<open>Processor 0 has the lock, processor 1 spins.\<close>

lemma contended: "\<exists>m. spin_reach m \<and> place m 0 = Running True \<and> place m 1 = Spinning"
proof -
  let ?fr = "(\<lambda>_. 0, 0) :: (u32 \<Rightarrow> u32) \<times> u32"
  let ?m0 = "spin_start (\<lambda>_. ?fr)"
  let ?c1 = "go 1 (Lock_call False) (?m0\<lparr>frames := (frames ?m0)(1 := ?fr)\<rparr>)"
  let ?m1 = "go 1 Spinning ?c1"
  let ?c2 = "go 0 (Lock_call False) (?m1\<lparr>frames := (frames ?m1)(0 := ?fr)\<rparr>)"
  let ?m2 = "go 0 Spinning ?c2"
  let ?m3 = "go 0 Record_cpu (set_lk ((lk ?m2)\<lparr>locked := 1\<rparr>) ?m2)"
  let ?m4 = "go 0 Record_pcs (set_lk ((lk ?m3)\<lparr>lock_cpu := Some 0\<rparr>) ?m3)"
  let ?m5 = "go 0 (Running True) (set_lk ((lk ?m4)\<lparr>pcs := get_caller_pcs (fst (frames ?m4 0)) (snd (frames ?m4 0)) 10\<rparr>) ?m4)"
  note d = go_def set_lk_def spin_start_def spin_initlock_def
  have "spin_reach ?m0" by (rule start)
  then have "spin_reach ?c1" by (rule step) (rule call_lock, simp add: d)
  then have "spin_reach ?m1" by (rule step) (rule lock_free [where h = False], simp_all add: d)
  then have "spin_reach ?c2" by (rule step) (rule call_lock, simp add: d)
  then have "spin_reach ?m2" by (rule step) (rule lock_free [where h = False], simp_all add: d)
  then have "spin_reach ?m3" by (rule step) (rule acquire [where old = 0], simp_all add: d xchg_def)
  then have "spin_reach ?m4" by (rule step) (rule record_cpu, simp add: go_def)
  then have "spin_reach ?m5" by (rule step) (rule record_pcs, simp add: go_def)
  moreover have "place ?m5 0 = Running True" "place ?m5 1 = Spinning" by (simp_all add: go_def set_lk_def)
  ultimately show ?thesis by blast
qed

theorem spin_mutual_exclusion_witness:
  "\<exists>m. spin_reach m \<and> place m 1 = Spinning \<and> holding 0 (lk m) \<and> locked (lk m) \<noteq> 0"
proof -
  from contended obtain m where m: "spin_reach m" "place m 0 = Running True" "place m 1 = Spinning" by blast
  with spin_mutual_exclusion [OF m(1), of 0 0] show ?thesis by (intro exI [of _ m]) (simp add: holding_def)
qed

section \<open>One field of the kernel state\<close>

text \<open>The kernel theories see only who holds the lock.\<close>

definition lock_abs :: "machine \<Rightarrow> kstate \<Rightarrow> bool" where
  "lock_abs m s \<longleftrightarrow> (\<forall>c. kernel_lock s = Some c \<longleftrightarrow> held (place m c))"

lemma lock_abs_None: "lock_abs m s \<Longrightarrow> (\<And>d. \<not> held (place m d)) \<Longrightarrow> kernel_lock s = None"
  by (cases "kernel_lock s") (auto simp: lock_abs_def)

lemma held_go: "held (place (go c p (set_lk l m)) d) = (if d = c then held p else held (place m d))"
    "held (place (go c p m) d) = (if d = c then held p else held (place m d))"
  by (simp_all add: go_def set_lk_def)

text \<open>
  C35. The steps refine the atomic lock of the kernel model. A step of processor \<open>c\<close> either
  leaves the holder alone, or is the successful exchange, where \<open>lock_kernel\<close> takes the lock, or
  is the last exchange of \<open>spin_unlock\<close>, where \<open>unlock_kernel\<close> gives it back. A processor that
  locks twice or unlocks what it does not hold stops, where \<open>lock_kernel\<close> and \<open>unlock_kernel\<close>
  panic.
\<close>

theorem spin_refines_atomic:
  assumes "spin_reach m" and "spin_step c m m'" and "lock_abs m s" and "cpunum s = c"
  shows "if place m c = Spinning \<and> place m' c = Record_cpu
     then \<exists>s'. lock_kernel s = returns () s' \<and> lock_abs m' s'
     else if place m c = Release then \<exists>s'. unlock_kernel s = Inr s' \<and> lock_abs m' s'
     else lock_abs m' s \<and> (\<forall>h. place m' c = Stopped h \<and> place m c \<noteq> Stopped h \<longrightarrow>
       (if place m c = Report h then \<exists>e. unlock_kernel s = Inl e else \<exists>e. lock_kernel s = Inl e))"
  using assms(2,1,3,4)
proof (induction rule: spin_step.induct)
  case (acquire m c old l)
  then have none: "\<not> held (place m d)" for d using lock_inv_reach [of m] by (auto simp: lock_inv_def xchg_def)
  then have "lock_kernel s = returns () (s\<lparr>kernel_lock := Some (cpunum s)\<rparr>)"
    using lock_abs_None [OF acquire(5)] by (simp add: lock_kernel_def)
  moreover have "lock_abs (go c Record_cpu (set_lk l m)) (s\<lparr>kernel_lock := Some (cpunum s)\<rparr>)"
    using none acquire(6) by (auto simp: lock_abs_def held_go)
  ultimately show ?case using acquire(1) by (auto simp: go_def)
next
  case (release m c old l)
  then have "kernel_lock s = Some (cpunum s)" by (simp add: lock_abs_def)
  moreover have "\<And>d. held (place m d) \<longleftrightarrow> d = c" using lock_inv_held [OF lock_inv_reach, of m c] release by simp
  ultimately show ?case using release by (auto simp: unlock_kernel_def lock_abs_def held_go)
next
  case (report m c h)
  then have "\<not> h" using lock_inv_reach [of m] by (auto simp: lock_inv_def)
  then have "kernel_lock s \<noteq> Some (cpunum s)" using report by (simp add: lock_abs_def)
  then show ?case using report by (auto simp: unlock_kernel_def lock_abs_def held_go go_def)
next
  case (lock_twice m c h)
  then have "held (place m c)" using lock_inv_cpu [OF lock_inv_reach, of m c] by simp
  then have "kernel_lock s = Some (cpunum s)" using lock_twice by (simp add: lock_abs_def)
  then show ?case using lock_twice by (auto simp: lock_kernel_def lock_abs_def held_go)
next
  case (lock_free m c h)
  then have "\<not> h" using lock_inv_held [OF lock_inv_reach, of m c] by auto
  then show ?case using lock_free by (auto simp: lock_abs_def held_go go_def)
next
  case (lock_other m c h)
  then have "\<not> h" using lock_inv_reach [of m] by (auto simp: lock_inv_def recorded_def)
  then show ?case using lock_other by (auto simp: lock_abs_def held_go go_def)
next
  case (unlock_mine m c h)
  then have h using lock_inv_cpu [OF lock_inv_reach, of m c] by simp
  then show ?case using unlock_mine by (auto simp: lock_abs_def held_go go_def)
qed (auto simp: lock_abs_def held_go go_def set_lk_def)

text \<open>Processor 0 finds the lock free and takes it.\<close>

lemma uncontended: "\<exists>m m'. spin_reach m \<and> spin_step 0 m m' \<and> lock_abs m (boot_state\<lparr>kernel_lock := None\<rparr>)
   \<and> place m 0 = Spinning \<and> place m' 0 = Record_cpu"
proof -
  let ?m0 = "spin_start (\<lambda>_. (\<lambda>_. 0, 0))"
  let ?c1 = "go 0 (Lock_call False) (?m0\<lparr>frames := (frames ?m0)(0 := (\<lambda>_. 0, 0))\<rparr>)"
  let ?m1 = "go 0 Spinning ?c1"
  let ?m2 = "go 0 Record_cpu (set_lk ((lk ?m1)\<lparr>locked := 1\<rparr>) ?m1)"
  note d = go_def set_lk_def spin_start_def spin_initlock_def
  have "spin_reach ?m0" by (rule start)
  then have "spin_reach ?c1" by (rule step) (rule call_lock, simp add: d)
  then have "spin_reach ?m1" by (rule step) (rule lock_free [where h = False], simp_all add: d)
  moreover have "spin_step 0 ?m1 ?m2" by (rule acquire [where old = 0]) (simp_all add: d xchg_def)
  moreover have "lock_abs ?m1 (boot_state\<lparr>kernel_lock := None\<rparr>)" by (simp add: lock_abs_def d)
  moreover have "place ?m1 0 = Spinning" "place ?m2 0 = Record_cpu" by (simp_all add: go_def)
  ultimately show ?thesis by blast
qed

theorem spin_refines_atomic_witness:
  "\<exists>m m' s'. spin_step 0 m m' \<and> lock_kernel (boot_state\<lparr>kernel_lock := None\<rparr>) = returns () s' \<and> lock_abs m' s'
     \<and> place m' 0 = Record_cpu"
proof -
  from uncontended obtain m m' where m: "spin_reach m" "spin_step 0 m m'" "lock_abs m (boot_state\<lparr>kernel_lock := None\<rparr>)"
    "place m 0 = Spinning" "place m' 0 = Record_cpu" by blast
  have "cpunum (boot_state\<lparr>kernel_lock := None\<rparr>) = 0" by (simp add: boot_state_def)
  with spin_refines_atomic [OF m(1-3)] m show ?thesis by auto
qed

end
