(* ===== verification/Fisopfs.thy ===== *)
theory Fisopfs
  imports Prelude
begin

text \<open>
  The FUSE file system of \<open>TPs/FileSystem/fisopfs\<close>: one superblock of 1024 inodes, names
  looked up by their last component. \<open>utils.c\<close> has the table operations, \<open>fisopfs.c\<close> the
  callbacks. A \<open>char[N]\<close> that holds a name is the string before its terminator; the file
  contents are all 1024 bytes. \<open>KUndef\<close> marks the copies and scans that leave a buffer.
\<close>

section \<open>The superblock (inode.h, superblock.h)\<close>

definition MAX_DATA_SIZE :: nat where [simp]: "MAX_DATA_SIZE = 1024"

definition MAX_PATH_LENGTH :: nat where [simp]: "MAX_PATH_LENGTH = 256"

definition MAX_INODES :: nat where [simp]: "MAX_INODES = 1024"

definition MAX_DIRECTORY_SIZE :: nat where [simp]: "MAX_DIRECTORY_SIZE = 1024"

definition ROOT_PATH :: string where [simp]: "ROOT_PATH = ''/''"

datatype InodeType = REGULAR | DIRECTORY

datatype InodeState = FREE | OCCUPIED

record Inode =
  i_type :: InodeType
  i_mode :: nat
  i_size :: nat
  i_uid :: nat
  i_gid :: nat
  last_access :: int
  last_modification :: int
  creation_time :: int
  i_path :: string
  content :: string
  directory_path :: string

record Superblock =
  inodes :: "nat \<Rightarrow> Inode"
  inodes_states :: "nat \<Rightarrow> InodeState"

definition NUL :: char where "NUL = CHR 0x00"

definition zero_inode :: Inode where
  "zero_inode = \<lparr>i_type = REGULAR, i_mode = 0, i_size = 0, i_uid = 0, i_gid = 0, last_access = 0,
     last_modification = 0, creation_time = 0, i_path = '''', content = replicate 1024 NUL,
     directory_path = ''''\<rparr>"

text \<open>The caller's identity and the clock: \<open>getuid()\<close>, \<open>getgid()\<close>, \<open>time(NULL)\<close>.\<close>

record caller =
  uid_of :: nat
  gid_of :: nat
  now :: int

text \<open>\<open>MINUS_ONE\<close> is the bare \<open>return -1\<close>.\<close>

datatype errno = ENOENT | ENOTDIR | EINVAL | EISDIR | EEXIST | ENOSPC | ENAMETOOLONG | EFBIG
  | EACCES | ENOTEMPTY | MINUS_ONE

type_synonym 'a fsop = "((errno + 'a) \<times> Superblock) fallible"

definition throw :: "errno \<Rightarrow> Superblock \<Rightarrow> 'a fsop" where
  "throw e sb = Inr (Inl e, sb)"

definition done_with :: "'a \<Rightarrow> Superblock \<Rightarrow> 'a fsop" where
  "done_with x sb = Inr (Inr x, sb)"

definition set_inode :: "nat \<Rightarrow> Inode \<Rightarrow> Superblock \<Rightarrow> Superblock" where
  "set_inode i n sb = sb\<lparr>inodes := (inodes sb)(i := n)\<rparr>"

definition set_state :: "nat \<Rightarrow> InodeState \<Rightarrow> Superblock \<Rightarrow> Superblock" where
  "set_state i st sb = sb\<lparr>inodes_states := (inodes_states sb)(i := st)\<rparr>"

lemma set_inode_fields [simp]:
  "inodes (set_inode i n sb) = (inodes sb)(i := n)" "inodes_states (set_inode i n sb) = inodes_states sb"
  "inodes (set_state i st sb) = inodes sb" "inodes_states (set_state i st sb) = (inodes_states sb)(i := st)"
  by (simp_all add: set_inode_def set_state_def)

section \<open>Paths and table operations (utils.c)\<close>

definition get_filename_from_path :: "string \<Rightarrow> string option" where
  "get_filename_from_path path =
     (if path = '''' then None else Some (rev (takeWhile (\<lambda>c. c \<noteq> CHR ''/'') (rev path))))"

definition get_parent_path_from_path :: "string \<Rightarrow> string" where
  "get_parent_path_from_path p =
     (if CHR ''/'' \<in> set p then rev (tl (dropWhile (\<lambda>c. c \<noteq> CHR ''/'') (rev p))) else '''')"

fun next_free_loop :: "nat \<Rightarrow> nat \<Rightarrow> string \<Rightarrow> Superblock \<Rightarrow> errno + nat" where
  "next_free_loop i 0 path sb = Inl ENOSPC"
| "next_free_loop i (Suc n) path sb =
     (if i_path (inodes sb i) = path then Inl EEXIST
      else if inodes_states sb i = FREE then Inr i
      else next_free_loop (Suc i) n path sb)"

definition next_free_inode_index :: "string \<Rightarrow> Superblock \<Rightarrow> errno + nat" where
  "next_free_inode_index path sb = next_free_loop 0 MAX_INODES path sb"

text \<open>
  \<open>strlen(path) - 1\<close> is unsigned, so an empty path is too long. The name goes into a buffer of
  256 bytes; for a regular file the path without its first character does too.
\<close>

definition new_inode :: "caller \<Rightarrow> string \<Rightarrow> nat \<Rightarrow> InodeType \<Rightarrow> Superblock \<Rightarrow> unit fsop" where
  "new_inode c path mode type sb =
     (if path = '''' \<or> MAX_DATA_SIZE < length path - 1 then throw ENAMETOOLONG sb
      else case get_filename_from_path path of
        None \<Rightarrow> throw MINUS_ONE sb
      | Some filename \<Rightarrow>
          (case next_free_inode_index filename sb of
             Inl e \<Rightarrow> throw e sb
           | Inr free_inode_index \<Rightarrow>
               if MAX_PATH_LENGTH \<le> length filename then Inl (KUndef ''strcpy past path'')
               else if type = REGULAR \<and> MAX_PATH_LENGTH \<le> length path - 1
               then Inl (KUndef ''memcpy past parent_path'')
               else let parent = get_parent_path_from_path (tl path);
                        dir = (if type = REGULAR then (if parent = '''' then ROOT_PATH else parent) else ROOT_PATH);
                        n = \<lparr>i_type = type, i_mode = mode, i_size = 0, i_uid = uid_of c, i_gid = gid_of c,
                             last_access = now c, last_modification = now c, creation_time = now c,
                             i_path = filename, content = replicate 1024 NUL, directory_path = dir\<rparr>
                    in done_with () (set_state free_inode_index OCCUPIED (set_inode free_inode_index n sb))))"

definition build_root_directory :: "caller \<Rightarrow> Superblock \<Rightarrow> Superblock" where
  "build_root_directory c sb =
     set_state 0 OCCUPIED (set_inode 0 \<lparr>i_type = DIRECTORY, i_mode = 16877, i_size = MAX_DIRECTORY_SIZE,
       i_uid = 1717, i_gid = gid_of c, last_access = now c, last_modification = now c,
       creation_time = now c, i_path = ROOT_PATH, content = replicate 1024 NUL, directory_path = ''''\<rparr> sb)"

definition build_superblock :: "caller \<Rightarrow> Superblock" where
  "build_superblock c =
     build_root_directory c \<lparr>inodes = (\<lambda>_. zero_inode), inodes_states = (\<lambda>_. FREE)\<rparr>"

definition get_inode_index :: "string \<Rightarrow> Superblock \<Rightarrow> nat option" where
  "get_inode_index path sb =
     (if path = '''' then None
      else if path = ROOT_PATH then Some 0
      else case get_filename_from_path path of
        None \<Rightarrow> None
      | Some filename \<Rightarrow>
          first_from (\<lambda>i. inodes_states sb i = OCCUPIED \<and> i_path (inodes sb i) = filename) 0 MAX_INODES)"

definition is_child_inode :: "Inode \<Rightarrow> Inode \<Rightarrow> bool" where
  "is_child_inode dir_inode child_inode \<longleftrightarrow> directory_path child_inode = i_path dir_inode"

definition get_files_in_directory :: "string \<Rightarrow> Superblock \<Rightarrow> nat list" where
  "get_files_in_directory path_dir sb =
     filter (\<lambda>i. Some (directory_path (inodes sb i)) = get_filename_from_path path_dir) [0..<MAX_INODES]"

section \<open>The callbacks (fisopfs.c)\<close>

record stat =
  st_ino :: nat
  st_uid :: nat
  st_atime :: int
  st_mtime :: int
  st_ctime :: int
  st_size :: nat
  st_gid :: nat
  st_nlink :: nat
  st_mode :: nat

definition fisopfs_getattr :: "string \<Rightarrow> Superblock \<Rightarrow> errno + stat" where
  "fisopfs_getattr path sb =
     (case get_inode_index path sb of
        None \<Rightarrow> Inl ENOENT
      | Some k \<Rightarrow>
          let inode = inodes sb k in
          Inr \<lparr>st_ino = k, st_uid = i_uid inode, st_atime = last_access inode,
            st_mtime = last_modification inode, st_ctime = creation_time inode, st_size = i_size inode,
            st_gid = i_gid inode,
            st_nlink = (if i_type inode = REGULAR then 1 else 2),
            st_mode = (if i_type inode = REGULAR then 33188 else 16877)\<rparr>)"

text \<open>The names given to \<open>filler\<close>, and the result; the access time is set on a copy.\<close>

definition fisopfs_readdir :: "string \<Rightarrow> Superblock \<Rightarrow> string list \<times> (errno + unit)" where
  "fisopfs_readdir path sb =
     (case get_inode_index path sb of
        None \<Rightarrow> ([''.'', ''..''], Inl ENOENT)
      | Some k \<Rightarrow>
          let dir_inode = inodes sb k in
          if i_type dir_inode \<noteq> DIRECTORY then ([''.'', ''..''], Inl ENOTDIR)
          else ([''.'', ''..''] @ map (\<lambda>i. i_path (inodes sb i))
                  (filter (\<lambda>i. inodes_states sb i = OCCUPIED \<and> is_child_inode dir_inode (inodes sb i)) [1..<MAX_INODES]),
                Inr ()))"

definition fisopfs_read :: "caller \<Rightarrow> string \<Rightarrow> nat \<Rightarrow> int \<Rightarrow> Superblock \<Rightarrow> string fsop" where
  "fisopfs_read c path size_wanted offset sb =
     (if offset < 0 then throw EINVAL sb
      else case get_inode_index path sb of
        None \<Rightarrow> throw ENOENT sb
      | Some k \<Rightarrow>
          let inode = inodes sb k; off = nat offset in
          if i_type inode = DIRECTORY then throw EISDIR sb
          else if i_size inode \<le> off then done_with '''' sb
          else let bytes_to_read = (if i_size inode < off + size_wanted then i_size inode - off else size_wanted)
               in if MAX_DATA_SIZE < off + bytes_to_read then Inl (KUndef ''memcpy past content'')
                  else done_with (take bytes_to_read (drop off (content inode)))
                         (set_inode k (inode\<lparr>last_access := now c\<rparr>) sb))"

definition fisopfs_create :: "caller \<Rightarrow> string \<Rightarrow> nat \<Rightarrow> Superblock \<Rightarrow> unit fsop" where
  "fisopfs_create c path mode sb = new_inode c path mode REGULAR sb"

definition fisopfs_mkdir :: "caller \<Rightarrow> string \<Rightarrow> nat \<Rightarrow> Superblock \<Rightarrow> unit fsop" where
  "fisopfs_mkdir c path mode sb = new_inode c path mode DIRECTORY sb"

definition fisopfs_rmdir :: "string \<Rightarrow> Superblock \<Rightarrow> unit fsop" where
  "fisopfs_rmdir path sb =
     (case get_inode_index path sb of
        None \<Rightarrow> throw ENOENT sb
      | Some k \<Rightarrow>
          if i_type (inodes sb k) \<noteq> DIRECTORY then throw ENOTDIR sb
          else if get_files_in_directory path sb \<noteq> [] then throw ENOTEMPTY sb
          else done_with () (set_inode k zero_inode (set_state k FREE sb)))"

definition fisopfs_unlink :: "string \<Rightarrow> Superblock \<Rightarrow> unit fsop" where
  "fisopfs_unlink path sb =
     (case get_inode_index path sb of
        None \<Rightarrow> throw ENOENT sb
      | Some k \<Rightarrow>
          if i_type (inodes sb k) \<noteq> REGULAR then throw EISDIR sb
          else done_with () (set_state k FREE (set_inode k zero_inode sb)))"

text \<open>The file disk holds a whole superblock, or does not exist.\<close>

definition fisopfs_init :: "caller \<Rightarrow> Superblock option \<Rightarrow> Superblock" where
  "fisopfs_init c disk = (case disk of None \<Rightarrow> build_superblock c | Some sb \<Rightarrow> sb)"

definition fisopfs_destroy :: "Superblock \<Rightarrow> Superblock option" where
  "fisopfs_destroy sb = Some sb"

definition fisopfs_flush :: "Superblock \<Rightarrow> Superblock option" where
  "fisopfs_flush sb = fisopfs_destroy sb"

text \<open>\<open>strlen\<close> over the contents: \<open>None\<close> when no terminator is inside the buffer.\<close>

definition strlen_content :: "string \<Rightarrow> nat option" where
  "strlen_content s = (if NUL \<in> set s then Some (length (takeWhile (\<lambda>ch. ch \<noteq> NUL) s)) else None)"

definition overwrite :: "nat \<Rightarrow> string \<Rightarrow> string \<Rightarrow> string" where
  "overwrite off bytes s = take off s @ bytes @ drop (off + length bytes) s"

text \<open>
  The offset of a write is never negative (FUSE rejects such a request). \<open>write_at\<close> is the
  code after the file has been looked up or created.
\<close>

definition write_at :: "caller \<Rightarrow> string \<Rightarrow> string \<Rightarrow> nat \<Rightarrow> Superblock \<Rightarrow> nat fsop" where
  "write_at c path bytes offset sb =
     (case get_inode_index path sb of
        None \<Rightarrow> throw ENOENT sb
      | Some k \<Rightarrow>
          let inode = inodes sb k in
          if i_size inode < offset then throw EINVAL sb
          else if i_type inode \<noteq> REGULAR then throw EACCES sb
          else let new = overwrite offset bytes (content inode) in
            (case strlen_content new of
               None \<Rightarrow> Inl (KUndef ''strlen past content'')
             | Some len \<Rightarrow>
                 done_with (length bytes) (set_inode k (inode\<lparr>content := new[len := NUL],
                   last_access := now c, last_modification := now c, i_size := len\<rparr>) sb)))"

definition fisopfs_write :: "caller \<Rightarrow> string \<Rightarrow> string \<Rightarrow> nat \<Rightarrow> Superblock \<Rightarrow> nat fsop" where
  "fisopfs_write c path bytes offset sb =
     (if MAX_DATA_SIZE < offset + length bytes then throw EFBIG sb
      else case get_inode_index path sb of
        Some _ \<Rightarrow> write_at c path bytes offset sb
      | None \<Rightarrow> andThen (fisopfs_create c path 33204 sb)
          (\<lambda>(r, sb). case r of Inl e \<Rightarrow> throw e sb | Inr _ \<Rightarrow> write_at c path bytes offset sb))"

definition fisopfs_utimens :: "string \<Rightarrow> int \<Rightarrow> int \<Rightarrow> Superblock \<Rightarrow> unit fsop" where
  "fisopfs_utimens path atime mtime sb =
     (case get_inode_index path sb of
        None \<Rightarrow> throw ENOENT sb
      | Some k \<Rightarrow> done_with () (set_inode k ((inodes sb k)\<lparr>last_access := atime, last_modification := mtime\<rparr>) sb))"

text \<open>The two clearing loops of \<open>truncate\<close>: \<open>for (i = a; i < b; i++) content[i] = 0\<close>.\<close>

fun clear_loop :: "nat \<Rightarrow> nat \<Rightarrow> string \<Rightarrow> string" where
  "clear_loop i 0 s = s"
| "clear_loop i (Suc n) s = clear_loop (Suc i) n (s[i := NUL])"

definition clear_range :: "nat \<Rightarrow> nat \<Rightarrow> string \<Rightarrow> string" where
  "clear_range a b s = clear_loop a (b - a) s"

definition fisopfs_truncate :: "caller \<Rightarrow> string \<Rightarrow> nat \<Rightarrow> Superblock \<Rightarrow> unit fsop" where
  "fisopfs_truncate c path new_size sb =
     (if MAX_DATA_SIZE < new_size then throw EINVAL sb
      else case get_inode_index path sb of
        None \<Rightarrow> throw ENOENT sb
      | Some k \<Rightarrow>
          let inode = inodes sb k in
          if i_type inode \<noteq> REGULAR then throw EISDIR sb
          else if new_size = 0
          then done_with () (set_inode k (inode\<lparr>content := clear_range 0 MAX_DATA_SIZE (content inode),
                 i_size := 0, last_modification := now c\<rparr>) sb)
          else (case strlen_content (content inode) of
              None \<Rightarrow> Inl (KUndef ''strlen past content'')
            | Some len \<Rightarrow>
                let content_size = len + 1; min_size = min new_size content_size;
                    s1 = clear_range min_size content_size (content inode);
                    s2 = clear_range content_size new_size s1;
                    s3 = (if new_size < content_size then s2[new_size := NUL] else s2)
                in done_with () (set_inode k (inode\<lparr>content := s3, i_size := new_size,
                     last_modification := now c\<rparr>) sb)))"

end
