(* ===== verification/FisopfsProps.thy ===== *)
theory FisopfsProps
  imports Fisopfs
begin

text \<open>
  The file system's invariant and its preservation by every callback, lookup after create,
  read after write, truncation, and the duplicate names its table search admits.
\<close>

section \<open>Names and slots\<close>

lemma filename_no_slash: "get_filename_from_path p = Some f \<Longrightarrow> CHR ''/'' \<notin> set f"
  by (auto simp: get_filename_from_path_def split: if_splits dest: set_takeWhileD)

lemma next_free_loop_Inr:
  "next_free_loop i n path sb = Inr k \<Longrightarrow> i \<le> k \<and> k < i + n \<and> inodes_states sb k = FREE
     \<and> (\<forall>j. i \<le> j \<and> j \<le> k \<longrightarrow> i_path (inodes sb j) \<noteq> path) \<and> (\<forall>j. i \<le> j \<and> j < k \<longrightarrow> inodes_states sb j = OCCUPIED)"
proof (induction n arbitrary: i)
  case (Suc n)
  show ?case
  proof (cases "inodes_states sb i = FREE")
    case True
    with Suc.prems have "i_path (inodes sb i) \<noteq> path" "k = i" by (auto split: if_splits)
    with True show ?thesis by auto
  next
    case False
    with Suc.prems have ne: "i_path (inodes sb i) \<noteq> path" and "next_free_loop (Suc i) n path sb = Inr k"
      by (auto split: if_splits)
    from Suc.IH [OF this(2)] have ih: "Suc i \<le> k" "k < Suc i + n" "inodes_states sb k = FREE"
      "\<forall>j. Suc i \<le> j \<and> j \<le> k \<longrightarrow> i_path (inodes sb j) \<noteq> path" "\<forall>j. Suc i \<le> j \<and> j < k \<longrightarrow> inodes_states sb j = OCCUPIED"
      by blast+
    have "inodes_states sb i = OCCUPIED" using False by (cases "inodes_states sb i") simp_all
    with ih ne show ?thesis by (metis Suc_leI Suc_leD add_Suc_shift le_neq_implies_less)
  qed
qed simp

lemma next_free_Inr:
  assumes "next_free_inode_index path sb = Inr k"
  shows "k < 1024" "inodes_states sb k = FREE" "\<And>j. j \<le> k \<Longrightarrow> i_path (inodes sb j) \<noteq> path"
    "\<And>j. j < k \<Longrightarrow> inodes_states sb j = OCCUPIED"
  using next_free_loop_Inr [of 0 1024 path sb k] assms by (simp_all add: next_free_inode_index_def)

lemma get_inode_index_Some:
  assumes "get_inode_index path sb = Some k"
  shows "k < 1024" "path \<noteq> '''' " "path = ROOT_PATH \<longrightarrow> k = 0"
    "path \<noteq> ROOT_PATH \<longrightarrow> inodes_states sb k = OCCUPIED \<and> get_filename_from_path path = Some (i_path (inodes sb k))"
  using assms by (auto simp: get_inode_index_def first_from_Some split: if_splits option.splits)

section \<open>The invariant\<close>

text \<open>
  Free slots are zeroed; every file has a whole content buffer and a size inside it; slot 0 is
  the root directory, and no other entry has a slash in its name or an empty name.
\<close>

definition fs_wf :: "Superblock \<Rightarrow> bool" where
  "fs_wf sb \<longleftrightarrow> (\<forall>i<1024. length (content (inodes sb i)) = 1024 \<and> i_size (inodes sb i) \<le> 1024
       \<and> (inodes_states sb i = FREE \<longrightarrow> inodes sb i = zero_inode)
       \<and> (0 < i \<and> inodes_states sb i = OCCUPIED \<longrightarrow> i_path (inodes sb i) \<noteq> '''' \<and> CHR ''/'' \<notin> set (i_path (inodes sb i))))
     \<and> inodes_states sb 0 = OCCUPIED \<and> i_type (inodes sb 0) = DIRECTORY
     \<and> i_path (inodes sb 0) = ROOT_PATH \<and> directory_path (inodes sb 0) = ''''"

lemma fs_wf_build: "fs_wf (build_superblock c)"
  by (simp add: fs_wf_def build_superblock_def build_root_directory_def zero_inode_def)

lemma fs_wf_slot:
  assumes "fs_wf sb" and "k < 1024"
  shows "length (content (inodes sb k)) = 1024" and "i_size (inodes sb k) \<le> 1024"
  using assms by (simp_all add: fs_wf_def)

text \<open>A path other than the root's never resolves to slot 0.\<close>

lemma not_root_slot:
  assumes wf: "fs_wf sb" and look: "get_inode_index path sb = Some k" and path: "path \<noteq> ROOT_PATH"
  shows "0 < k"
proof (rule ccontr)
  assume "\<not> 0 < k"
  then have "get_filename_from_path path = Some ROOT_PATH"
    using get_inode_index_Some(4) [OF look] path wf by (auto simp: fs_wf_def)
  then show False using filename_no_slash by fastforce
qed

lemma fs_wf_update:
  assumes wf: "fs_wf sb" and k: "k < 1024"
    and n: "length (content n) = 1024" "i_size n \<le> 1024" "i_path n = i_path (inodes sb k)"
      "i_type n = i_type (inodes sb k)" "directory_path n = directory_path (inodes sb k)"
    and occ: "inodes_states sb k = OCCUPIED"
  shows "fs_wf (set_inode k n sb)"
  using assms by (auto simp: fs_wf_def)

lemma fs_wf_free:
  assumes wf: "fs_wf sb" and k: "0 < k"
  shows "fs_wf (set_inode k zero_inode (set_state k FREE sb))" and "fs_wf (set_state k FREE (set_inode k zero_inode sb))"
  using assms by (auto simp: fs_wf_def zero_inode_def)

lemma looked_up_occupied:
  assumes wf: "fs_wf sb" and look: "get_inode_index path sb = Some k"
  shows "k < 1024 \<and> inodes_states sb k = OCCUPIED"
  using get_inode_index_Some [OF look] wf by (cases "path = ROOT_PATH") (auto simp: fs_wf_def)

section \<open>Creating\<close>

lemma fs_wf_new_inode:
  assumes wf: "fs_wf sb" and run: "new_inode c path mode type sb = Inr (r, sb')"
  shows "fs_wf sb'"
proof (cases r)
  case (Inl e)
  with run have "sb' = sb"
    by (auto simp: new_inode_def throw_def done_with_def Let_def split: if_splits option.splits sum.splits)
  with wf show ?thesis by simp
next
  case (Inr u)
  with run obtain filename k n where k: "get_filename_from_path path = Some filename"
      "next_free_inode_index filename sb = Inr k" "sb' = set_state k OCCUPIED (set_inode k n sb)"
      "i_path n = filename" "length (content n) = 1024" "i_size n = 0"
    by (auto simp: new_inode_def throw_def done_with_def Let_def split: if_splits option.splits sum.splits)
  note f = next_free_Inr [OF k(2)]
  have "k \<noteq> 0" using f(2) wf by (metis InodeState.distinct(1) fs_wf_def)
  moreover have "inodes sb k = zero_inode" using f wf by (simp add: fs_wf_def)
  then have "filename \<noteq> ''''" using f(3) [of k] by (auto simp: zero_inode_def)
  moreover have "CHR ''/'' \<notin> set filename" by (rule filename_no_slash [OF k(1)])
  ultimately show ?thesis using wf k by (auto simp: fs_wf_def)
qed

text \<open>
  C26. A successful create (or mkdir) takes a free slot, and from then on the path resolves to
  exactly that slot: a new, empty inode with the last component of the path as its name and
  the requested type. All other slots are as before.
\<close>

theorem new_inode_lookup:
  assumes wf: "fs_wf sb" and run: "new_inode c path mode type sb = Inr (Inr (), sb')" and path: "path \<noteq> ROOT_PATH"
  shows "\<exists>k<MAX_INODES. inodes_states sb k = FREE \<and> get_inode_index path sb' = Some k
     \<and> i_type (inodes sb' k) = type \<and> i_size (inodes sb' k) = 0 \<and> inodes_states sb' k = OCCUPIED
     \<and> Some (i_path (inodes sb' k)) = get_filename_from_path path
     \<and> (\<forall>j. j \<noteq> k \<longrightarrow> inodes sb' j = inodes sb j \<and> inodes_states sb' j = inodes_states sb j)"
proof -
  from run obtain filename k n where k: "get_filename_from_path path = Some filename"
      "next_free_inode_index filename sb = Inr k" "sb' = set_state k OCCUPIED (set_inode k n sb)"
      "i_path n = filename" "i_size n = 0" "i_type n = type" and ne: "path \<noteq> ''''"
    by (auto simp: new_inode_def throw_def done_with_def Let_def split: if_splits option.splits sum.splits)
  note f = next_free_Inr [OF k(2)]
  have "get_inode_index path sb' = Some k"
    using f k ne path by (auto simp: get_inode_index_def first_from_Some)
  then show ?thesis using f k by auto
qed

text \<open>The inode that a creation writes, and the run that writes it.\<close>

definition fresh_inode :: "caller \<Rightarrow> string \<Rightarrow> nat \<Rightarrow> InodeType \<Rightarrow> string \<Rightarrow> Inode" where
  "fresh_inode c path mode type filename =
     (let parent = get_parent_path_from_path (tl path) in
      \<lparr>i_type = type, i_mode = mode, i_size = 0, i_uid = uid_of c, i_gid = gid_of c, last_access = now c,
        last_modification = now c, creation_time = now c, i_path = filename, content = replicate 1024 NUL,
        directory_path = (if type = REGULAR then (if parent = '''' then ROOT_PATH else parent) else ROOT_PATH)\<rparr>)"

lemma fresh_inode_fields [simp]:
  "i_type (fresh_inode c path mode type f) = type" "i_size (fresh_inode c path mode type f) = 0"
  "i_path (fresh_inode c path mode type f) = f" "content (fresh_inode c path mode type f) = replicate 1024 NUL"
  by (simp_all add: fresh_inode_def Let_def)

lemma next_free_loop_eq:
  "i \<le> k \<Longrightarrow> k < i + n \<Longrightarrow> inodes_states sb k = FREE \<Longrightarrow> (\<And>j. i \<le> j \<Longrightarrow> j < k \<Longrightarrow> inodes_states sb j = OCCUPIED)
     \<Longrightarrow> (\<And>j. i \<le> j \<Longrightarrow> j \<le> k \<Longrightarrow> i_path (inodes sb j) \<noteq> f) \<Longrightarrow> next_free_loop i n f sb = Inr k"
proof (induction n arbitrary: i)
  case (Suc n)
  then show ?case by (cases "i = k") auto
qed simp

lemma new_inode_run:
  assumes "k < 1024" "inodes_states sb k = FREE" "\<And>j. j < k \<Longrightarrow> inodes_states sb j = OCCUPIED"
    and "\<And>j. j \<le> k \<Longrightarrow> i_path (inodes sb j) \<noteq> f"
    and "get_filename_from_path path = Some f" "length path \<le> 256" "length f < 256"
  shows "new_inode c path mode type sb = Inr (Inr (), set_state k OCCUPIED (set_inode k (fresh_inode c path mode type f) sb))"
proof -
  have "next_free_inode_index f sb = Inr k"
    using assms(1-4) by (auto simp: next_free_inode_index_def intro!: next_free_loop_eq)
  moreover have "path \<noteq> ''''" using assms(5) by (auto simp: get_filename_from_path_def)
  ultimately show ?thesis using assms(5-)
    by (auto simp: new_inode_def fresh_inode_def Let_def done_with_def set_state_def set_inode_def)
qed

text \<open>A mounted file system with one file in it.\<close>

definition demo_caller :: caller where
  "demo_caller = \<lparr>uid_of = 1000, gid_of = 1000, now = 7\<rparr>"

definition demo_sb :: Superblock where
  "demo_sb = build_superblock demo_caller"

definition demo_file :: Superblock where
  "demo_file = set_state 1 OCCUPIED (set_inode 1 (fresh_inode demo_caller ''/a'' 420 REGULAR ''a'') demo_sb)"

lemma demo_slots [simp]:
  "inodes_states demo_sb 0 = OCCUPIED" "0 < i \<Longrightarrow> inodes_states demo_sb i = FREE" "i_path (inodes demo_sb 0) = ''/''"
  "0 < i \<Longrightarrow> inodes demo_sb i = zero_inode"
  by (simp_all add: demo_sb_def build_superblock_def build_root_directory_def)

lemma zero_path [simp]: "i_path zero_inode = ''''"
  by (simp add: zero_inode_def)

lemma demo_names [simp]:
  "get_filename_from_path ''/a'' = Some ''a''" "get_filename_from_path ''/b'' = Some ''b''"
  by (simp_all add: get_filename_from_path_def)

lemma demo_create: "new_inode demo_caller ''/a'' 420 REGULAR demo_sb = Inr (Inr (), demo_file)"
  unfolding demo_file_def by (rule new_inode_run) (auto simp: le_Suc_eq)

lemma demo_file_lookup: "get_inode_index ''/a'' demo_file = Some 1"
  by (auto simp: get_inode_index_def first_from_Some less_Suc_eq demo_file_def)

lemma demo_file_wf: "fs_wf demo_file"
  by (rule fs_wf_new_inode [OF _ demo_create]) (simp add: demo_sb_def fs_wf_build)

theorem new_inode_lookup_witness:
  "\<exists>k. new_inode demo_caller ''/a'' 420 REGULAR demo_sb = Inr (Inr (), demo_file) \<and> get_inode_index ''/a'' demo_file = Some k"
  using new_inode_lookup [OF _ demo_create] demo_create by (auto simp: demo_sb_def fs_wf_build)

section \<open>Preservation\<close>

lemma fisopfs_read_wf:
  assumes wf: "fs_wf sb" and run: "fisopfs_read c path n off sb = Inr (r, sb')"
  shows "fs_wf sb'"
proof -
  have "sb' = sb \<or> (\<exists>k. get_inode_index path sb = Some k \<and> sb' = set_inode k ((inodes sb k)\<lparr>last_access := now c\<rparr>) sb)"
    using run by (auto simp: fisopfs_read_def throw_def done_with_def Let_def split: if_splits option.splits)
  then show ?thesis using wf looked_up_occupied [OF wf] fs_wf_slot [OF wf] by (auto intro!: fs_wf_update)
qed

lemma fisopfs_rmdir_Inr:
  "fisopfs_rmdir path sb = Inr (r, sb') \<Longrightarrow> sb' = sb \<and> r \<noteq> Inr () \<or> (\<exists>k. get_inode_index path sb = Some k
     \<and> i_type (inodes sb k) = DIRECTORY \<and> get_files_in_directory path sb = [] \<and> r = Inr ()
     \<and> sb' = set_inode k zero_inode (set_state k FREE sb))"
  by (cases "i_type (inodes sb (the (get_inode_index path sb)))")
    (auto simp: fisopfs_rmdir_def throw_def done_with_def split: if_splits option.splits)

text \<open>The root is never removed: its own entry counts as a file of the directory with the empty name.\<close>

lemma root_not_empty:
  assumes "fs_wf sb"
  shows "get_files_in_directory ROOT_PATH sb \<noteq> []"
proof -
  have "0 \<in> set (get_files_in_directory ROOT_PATH sb)"
    using assms by (simp add: get_files_in_directory_def fs_wf_def get_filename_from_path_def)
  then show ?thesis by auto
qed

lemma fisopfs_rmdir_wf:
  assumes wf: "fs_wf sb" and run: "fisopfs_rmdir path sb = Inr (r, sb')"
  shows "fs_wf sb'"
  using fisopfs_rmdir_Inr [OF run] wf
proof (elim disjE)
  assume "\<exists>k. get_inode_index path sb = Some k \<and> i_type (inodes sb k) = DIRECTORY \<and> get_files_in_directory path sb = []
     \<and> r = Inr () \<and> sb' = set_inode k zero_inode (set_state k FREE sb)"
  then obtain k where k: "get_inode_index path sb = Some k" "get_files_in_directory path sb = []"
    "sb' = set_inode k zero_inode (set_state k FREE sb)" by blast
  then have "path \<noteq> ROOT_PATH" using root_not_empty [OF wf] by auto
  then show ?thesis using fs_wf_free(1) [OF wf not_root_slot [OF wf k(1)]] k(3) by simp
qed simp

lemma fisopfs_unlink_wf:
  assumes wf: "fs_wf sb" and run: "fisopfs_unlink path sb = Inr (r, sb')"
  shows "fs_wf sb'"
proof -
  have "sb' = sb \<or> (\<exists>k. get_inode_index path sb = Some k \<and> i_type (inodes sb k) = REGULAR
      \<and> sb' = set_state k FREE (set_inode k zero_inode sb))"
    using run by (auto simp: fisopfs_unlink_def throw_def done_with_def split: if_splits option.splits)
  moreover have "0 < k" if "i_type (inodes sb k) = REGULAR" for k
    using that wf by (cases k) (auto simp: fs_wf_def)
  ultimately show ?thesis using fs_wf_free(2) [OF wf] wf by auto
qed

lemma write_at_Inr:
  "write_at c path bytes off sb = Inr (Inr n, sb') \<Longrightarrow> \<exists>k len. n = length bytes
     \<and> get_inode_index path sb = Some k \<and> off \<le> i_size (inodes sb k) \<and> i_type (inodes sb k) = REGULAR
     \<and> strlen_content (overwrite off bytes (content (inodes sb k))) = Some len
     \<and> sb' = set_inode k ((inodes sb k)\<lparr>content := (overwrite off bytes (content (inodes sb k)))[len := NUL],
             last_access := now c, last_modification := now c, i_size := len\<rparr>) sb"
  by (auto simp: write_at_def throw_def done_with_def Let_def split: if_splits option.splits)

lemma write_at_error: "write_at c path bytes off sb = Inr (Inl e, sb') \<Longrightarrow> sb' = sb"
  by (auto simp: write_at_def throw_def done_with_def Let_def split: if_splits option.splits)

text \<open>A write that returns is a \<open>write_at\<close> on the superblock, after a create if need be.\<close>

lemma fisopfs_write_Inr:
  assumes "fisopfs_write c path bytes off sb = Inr (Inr n, sb')"
  shows "off + length bytes \<le> 1024 \<and> (\<exists>sb1. write_at c path bytes off sb1 = Inr (Inr n, sb')
     \<and> (sb1 = sb \<or> get_inode_index path sb = None \<and> new_inode c path 33204 REGULAR sb = Inr (Inr (), sb1)))"
  using assms by (auto simp: fisopfs_write_def fisopfs_create_def andThen_def throw_def done_with_def
      split: if_splits option.splits sum.splits)

lemma fisopfs_write_Inl:
  assumes "fisopfs_write c path bytes off sb = Inr (Inl e, sb')"
  shows "sb' = sb \<or> (\<exists>r. new_inode c path 33204 REGULAR sb = Inr (r, sb'))"
  using assms by (auto simp: fisopfs_write_def fisopfs_create_def andThen_def throw_def done_with_def
      split: if_splits option.splits sum.splits dest!: write_at_error)

lemma strlen_content_Some:
  "strlen_content s = Some len \<Longrightarrow> len < length s \<and> s ! len = NUL \<and> take len s = takeWhile (\<lambda>ch. ch \<noteq> NUL) s"
  using nth_length_takeWhile [of "\<lambda>ch. ch \<noteq> NUL" s] length_takeWhile_le [of "\<lambda>ch. ch \<noteq> NUL" s]
  by (auto simp: strlen_content_def takeWhile_eq_take [symmetric] split: if_splits)
    (metis (full_types) length_takeWhile_le order_le_imp_less_or_eq set_takeWhileD takeWhile_eq_all_conv takeWhile_eq_take take_all)+

lemma length_overwrite [simp]: "off + length bytes \<le> length s \<Longrightarrow> length (overwrite off bytes s) = length s"
  by (simp add: overwrite_def)

lemma write_at_wf:
  assumes wf: "fs_wf sb" and run: "write_at c path bytes off sb = Inr (Inr n, sb')" and len: "off + length bytes \<le> 1024"
  shows "fs_wf sb'"
proof -
  from write_at_Inr [OF run] obtain k l where k: "get_inode_index path sb = Some k"
    "strlen_content (overwrite off bytes (content (inodes sb k))) = Some l"
    "sb' = set_inode k ((inodes sb k)\<lparr>content := (overwrite off bytes (content (inodes sb k)))[l := NUL],
             last_access := now c, last_modification := now c, i_size := l\<rparr>) sb" by blast
  note o = looked_up_occupied [OF wf k(1)]
  then have "length (content (inodes sb k)) = 1024" using fs_wf_slot(1) [OF wf] by blast
  then show ?thesis unfolding k(3) using o strlen_content_Some [OF k(2)] len by (intro fs_wf_update [OF wf]) auto
qed

lemma fisopfs_write_wf:
  assumes wf: "fs_wf sb" and run: "fisopfs_write c path bytes off sb = Inr (r, sb')"
  shows "fs_wf sb'"
proof (cases r)
  case (Inl e)
  then show ?thesis using fisopfs_write_Inl [of c path bytes off sb e sb'] run wf fs_wf_new_inode [OF wf] by blast
next
  case (Inr n)
  then show ?thesis using fisopfs_write_Inr [of c path bytes off sb n sb'] run wf fs_wf_new_inode [OF wf] write_at_wf
    by blast
qed

lemma length_clear_loop [simp]: "length (clear_loop i n s) = length s"
  by (induction n arbitrary: i s) auto

lemma length_clear_range [simp]: "length (clear_range a b s) = length s"
  by (simp add: clear_range_def)

lemma nth_clear_loop: "j < length s \<Longrightarrow> clear_loop i n s ! j = (if i \<le> j \<and> j < i + n then NUL else s ! j)"
  by (induction n arbitrary: i s) (auto simp: nth_list_update)

lemma nth_clear_range: "j < length s \<Longrightarrow> clear_range a b s ! j = (if a \<le> j \<and> j < b then NUL else s ! j)"
  by (auto simp: clear_range_def nth_clear_loop)

text \<open>The contents after a truncation.\<close>

definition truncated :: "nat \<Rightarrow> string \<Rightarrow> string" where
  "truncated n s = (let l = length (takeWhile (\<lambda>ch. ch \<noteq> NUL) s) + 1; m = min n l;
       s2 = clear_range l n (clear_range m l s) in if n < l then s2[n := NUL] else s2)"

lemma length_truncated [simp]: "length (truncated n s) = length s"
  by (simp add: truncated_def Let_def)

lemma fisopfs_truncate_Inr:
  assumes "fisopfs_truncate c path n sb = Inr (Inr u, sb')"
  shows "n \<le> 1024 \<and> (\<exists>k s. get_inode_index path sb = Some k \<and> i_type (inodes sb k) = REGULAR
    \<and> (n = 0 \<and> s = clear_range 0 1024 (content (inodes sb k))
       \<or> 0 < n \<and> NUL \<in> set (content (inodes sb k)) \<and> s = truncated n (content (inodes sb k)))
    \<and> sb' = set_inode k ((inodes sb k)\<lparr>content := s, i_size := n, last_modification := now c\<rparr>) sb)"
  using assms by (auto simp: fisopfs_truncate_def throw_def done_with_def Let_def truncated_def strlen_content_def
      split: if_splits option.splits)

lemma fisopfs_truncate_wf:
  assumes wf: "fs_wf sb" and run: "fisopfs_truncate c path n sb = Inr (r, sb')"
  shows "fs_wf sb'"
proof (cases r)
  case (Inl e)
  with run have "sb' = sb" by (auto simp: fisopfs_truncate_def throw_def done_with_def Let_def split: if_splits option.splits)
  with wf show ?thesis by simp
next
  case (Inr u)
  from fisopfs_truncate_Inr [OF run [unfolded Inr]] obtain k s where k: "n \<le> 1024" "get_inode_index path sb = Some k"
    "n = 0 \<and> s = clear_range 0 1024 (content (inodes sb k))
       \<or> 0 < n \<and> NUL \<in> set (content (inodes sb k)) \<and> s = truncated n (content (inodes sb k))"
    "sb' = set_inode k ((inodes sb k)\<lparr>content := s, i_size := n, last_modification := now c\<rparr>) sb"
    by blast
  note o = looked_up_occupied [OF wf k(2)]
  then show ?thesis unfolding k(4) using k(1,3) fs_wf_slot(1) [OF wf] by (intro fs_wf_update [OF wf]) auto
qed

lemma fisopfs_utimens_wf:
  assumes wf: "fs_wf sb" and run: "fisopfs_utimens path a m sb = Inr (r, sb')"
  shows "fs_wf sb'"
proof -
  have "sb' = sb \<or> (\<exists>k. get_inode_index path sb = Some k
      \<and> sb' = set_inode k ((inodes sb k)\<lparr>last_access := a, last_modification := m\<rparr>) sb)"
    using run by (auto simp: fisopfs_utimens_def throw_def done_with_def split: option.splits)
  then show ?thesis using wf looked_up_occupied [OF wf] fs_wf_slot [OF wf] by (auto intro!: fs_wf_update)
qed

section \<open>Every sequence of callbacks\<close>

text \<open>A mounted file system: one callback after another, and a restart from the saved disk.\<close>

inductive fs_step :: "Superblock \<Rightarrow> Superblock \<Rightarrow> bool" where
  step_create: "new_inode c path mode type sb = Inr (r, sb') \<Longrightarrow> fs_step sb sb'"
| step_read: "fisopfs_read c path n off sb = Inr (r', sb') \<Longrightarrow> fs_step sb sb'"
| step_write: "fisopfs_write c path bytes woff sb = Inr (w, sb') \<Longrightarrow> fs_step sb sb'"
| step_truncate: "fisopfs_truncate c path n sb = Inr (r, sb') \<Longrightarrow> fs_step sb sb'"
| step_unlink: "fisopfs_unlink path sb = Inr (r, sb') \<Longrightarrow> fs_step sb sb'"
| step_rmdir: "fisopfs_rmdir path sb = Inr (r, sb') \<Longrightarrow> fs_step sb sb'"
| step_utimens: "fisopfs_utimens path a m sb = Inr (r, sb') \<Longrightarrow> fs_step sb sb'"
| step_remount: "fs_step sb (fisopfs_init c (fisopfs_destroy sb))"

inductive fs_reach :: "Superblock \<Rightarrow> bool" where
  reach_mount: "fs_reach (fisopfs_init c None)"
| reach_step: "fs_reach sb \<Longrightarrow> fs_step sb sb' \<Longrightarrow> fs_reach sb'"

lemma fs_step_wf: "fs_step sb sb' \<Longrightarrow> fs_wf sb \<Longrightarrow> fs_wf sb'"
  by (erule fs_step.cases)
    (auto intro: fs_wf_new_inode fisopfs_read_wf fisopfs_write_wf fisopfs_truncate_wf fisopfs_unlink_wf
      fisopfs_rmdir_wf fisopfs_utimens_wf simp: fisopfs_init_def fisopfs_destroy_def)

lemma fs_reach_wf: "fs_reach sb \<Longrightarrow> fs_wf sb"
  by (induction rule: fs_reach.induct) (auto intro: fs_step_wf simp: fisopfs_init_def fs_wf_build)


lemma demo_reach: "fs_reach demo_file"
proof -
  have "fs_reach demo_sb" using reach_mount [of demo_caller] by (simp add: fisopfs_init_def demo_sb_def)
  then show ?thesis by (rule reach_step) (rule step_create [OF demo_create])
qed


lemma new_inode_size:
  assumes wf: "fs_wf sb" and run: "new_inode c path mode type sb = Inr (Inr (), sb')" and path: "path \<noteq> ROOT_PATH"
    and look: "get_inode_index path sb' = Some k"
  shows "i_size (inodes sb' k) = 0"
proof -
  from run obtain f i n where i: "get_filename_from_path path = Some f" "next_free_inode_index f sb = Inr i"
      "sb' = set_state i OCCUPIED (set_inode i n sb)" "i_path n = f" "i_size n = 0"
    by (auto simp: new_inode_def throw_def done_with_def Let_def split: if_splits option.splits sum.splits)
  then have "k = i"
    using next_free_Inr [OF i(2)] look path
    by (auto simp: get_inode_index_def first_from_Some split: if_splits)
  with i show ?thesis by simp
qed

section \<open>Reading what was written\<close>

lemma length_takeWhile_less: "x \<in> set s \<Longrightarrow> \<not> P x \<Longrightarrow> length (takeWhile P s) < length s"
  by (induction s) auto

lemma strlen_overwrite:
  assumes "strlen_content (overwrite off bytes s) = Some l" and "NUL \<notin> set (take off s)" and "off \<le> length s"
  shows "if NUL \<in> set bytes then l = off + length (takeWhile (\<lambda>ch. ch \<noteq> NUL) bytes) else off + length bytes \<le> l"
proof -
  have "takeWhile (\<lambda>ch. ch \<noteq> NUL) (take off s @ r) = take off s @ takeWhile (\<lambda>ch. ch \<noteq> NUL) r" for r
    using assms(2) by (intro takeWhile_append2) auto
  then show ?thesis using assms by (auto simp: strlen_content_def overwrite_def takeWhile_append split: if_splits)
qed

lemma read_after_write_at:
  assumes wf: "fs_wf sb" and run: "write_at c path bytes off sb = Inr (Inr n, sb')" and len: "off + length bytes \<le> 1024"
    and look: "get_inode_index path sb = Some k" and asc: "NUL \<notin> set (take off (content (inodes sb k)))"
  shows "\<exists>sb''. fisopfs_read c' path (length bytes) (int off) sb' = Inr (Inr (takeWhile (\<lambda>ch. ch \<noteq> NUL) bytes), sb'')"
proof -
  let ?s = "content (inodes sb k)" let ?tw = "takeWhile (\<lambda>ch. ch \<noteq> NUL) bytes"
  from write_at_Inr [OF run] look obtain l where w: "i_type (inodes sb k) = REGULAR"
    "strlen_content (overwrite off bytes ?s) = Some l"
    "sb' = set_inode k ((inodes sb k)\<lparr>content := (overwrite off bytes ?s)[l := NUL],
             last_access := now c, last_modification := now c, i_size := l\<rparr>) sb" by auto
  have s: "length ?s = 1024" using fs_wf_slot(1) [OF wf] looked_up_occupied [OF wf look] by blast
  note new = strlen_content_Some [OF w(2)]
  then have upd: "(overwrite off bytes ?s)[l := NUL] = overwrite off bytes ?s" by (metis list_update_id)
  have look': "get_inode_index path sb' = Some k"
    using look by (auto simp: w(3) get_inode_index_def first_from_Some split: if_splits option.splits)
  have get: "take m (drop off (overwrite off bytes ?s)) = take m bytes" if "m \<le> length bytes" for m
    using that s len by (simp add: overwrite_def)
  show ?thesis
  proof (cases "NUL \<in> set bytes")
    case True
    then have l: "l = off + length ?tw" using strlen_overwrite [OF w(2) asc] len s by simp
    have "length ?tw < length bytes"
      using True by (rule length_takeWhile_less) simp
    moreover have "take (length ?tw) bytes = ?tw" by (rule takeWhile_eq_take [symmetric])
    ultimately show ?thesis using w(1) len get [of "length ?tw"] look'
      by (cases "?tw = []") (auto simp: fisopfs_read_def w(3) upd [unfolded l] done_with_def Let_def l)
  next
    case False
    then have l: "off + length bytes \<le> l" using strlen_overwrite [OF w(2) asc] len s by simp
    then have "bytes = [] \<or> off < l" by (cases bytes) auto
    moreover have tw: "?tw = bytes" using False unfolding takeWhile_eq_all_conv by blast
    ultimately show ?thesis unfolding tw using l w(1) len get [of "length bytes"] look'
      by (auto simp: fisopfs_read_def w(3) upd done_with_def Let_def)
  qed
qed

text \<open>
  C25. A write to a text file (no null byte before the offset), then a read of the same range,
  returns what was written up to its first null byte: the size is recomputed with \<open>strlen\<close>, so
  text comes back whole and binary data is cut, although the write reports all its bytes.
\<close>

theorem write_then_read:
  assumes wf: "fs_wf sb" and run: "fisopfs_write c path bytes off sb = Inr (Inr n, sb')"
    and asc: "\<forall>k. get_inode_index path sb = Some k \<longrightarrow> NUL \<notin> set (take off (content (inodes sb k)))"
    and path: "path \<noteq> ROOT_PATH"
  shows "n = length bytes \<and> (\<exists>sb''. fisopfs_read c' path (length bytes) (int off) sb'
            = Inr (Inr (takeWhile (\<lambda>ch. ch \<noteq> NUL) bytes), sb''))"
proof -
  from fisopfs_write_Inr [OF run] obtain sb1 where len: "off + length bytes \<le> 1024"
    and w: "write_at c path bytes off sb1 = Inr (Inr n, sb')"
    and sb1: "sb1 = sb \<or> get_inode_index path sb = None \<and> new_inode c path 33204 REGULAR sb = Inr (Inr (), sb1)" by blast
  from write_at_Inr [OF w] obtain k where n: "n = length bytes" and k: "get_inode_index path sb1 = Some k"
    and off: "off \<le> i_size (inodes sb1 k)" by blast
  have wf1: "fs_wf sb1" using sb1 wf fs_wf_new_inode [OF wf] by blast
  have "NUL \<notin> set (take off (content (inodes sb1 k)))"
    using sb1
  proof
    assume "sb1 = sb" with asc k show ?thesis by simp
  next
    assume new: "get_inode_index path sb = None \<and> new_inode c path 33204 REGULAR sb = Inr (Inr (), sb1)"
    then have "i_size (inodes sb1 k) = 0" using new_inode_size [OF wf _ path] k by blast
    with off show ?thesis by simp
  qed
  with n read_after_write_at [OF wf1 w len k] show ?thesis by blast
qed

theorem write_then_read_witness:
  "\<exists>sb' sb''. fisopfs_write demo_caller ''/a'' [CHR ''h'', CHR ''i'', NUL, CHR ''x''] 0 demo_file = Inr (Inr 4, sb')
     \<and> fisopfs_read demo_caller ''/a'' 4 0 sb' = Inr (Inr ''hi'', sb'')"
proof -
  have "\<exists>sb'. fisopfs_write demo_caller ''/a'' [CHR ''h'', CHR ''i'', NUL, CHR ''x''] 0 demo_file = Inr (Inr 4, sb')"
    using demo_file_lookup
    by (auto simp: fisopfs_write_def write_at_def demo_file_def overwrite_def strlen_content_def done_with_def Let_def
        simp del: replicate.simps)
  then obtain sb' where run: "fisopfs_write demo_caller ''/a'' [CHR ''h'', CHR ''i'', NUL, CHR ''x''] 0 demo_file = Inr (Inr 4, sb')"
    by blast
  from write_then_read [OF demo_file_wf run] run show ?thesis by (auto simp: NUL_def eval_nat_numeral)
qed

section \<open>Truncation\<close>

lemma strlen_prefix:
  assumes "i < length (takeWhile (\<lambda>ch. ch \<noteq> NUL) s)"
  shows "takeWhile (\<lambda>ch. ch \<noteq> NUL) s ! i = s ! i"
  using assms by (simp add: takeWhile_nth)

lemma take_truncated:
  assumes "NUL \<in> set s" and "n \<le> length s"
  shows "take n (truncated n s) = take n (takeWhile (\<lambda>ch. ch \<noteq> NUL) s @ replicate n NUL)"
proof (rule nth_equalityI)
  let ?tw = "takeWhile (\<lambda>ch. ch \<noteq> NUL) s"
  show "length (take n (truncated n s)) = length (take n (?tw @ replicate n NUL))" using assms by simp
  fix i assume "i < length (take n (truncated n s))"
  then have i: "i < n" "i < length s" using assms by auto
  have lt: "length ?tw < length s" using assms(1) by (rule length_takeWhile_less) simp
  have "s ! length ?tw = NUL" using nth_length_takeWhile [OF lt] by simp
  then show "take n (truncated n s) ! i = take n (?tw @ replicate n NUL) ! i"
    using i lt strlen_prefix [of i s]
    by (cases "i = length ?tw") (auto simp: truncated_def Let_def nth_append nth_clear_range nth_list_update)
qed

text \<open>
  After a truncation to \<open>n\<close> bytes, a read of \<open>n\<close> bytes returns the old text followed by
  null bytes, cut to \<open>n\<close>: shrinking keeps a prefix, growing pads with zeros.
\<close>

theorem truncate_then_read:
  assumes wf: "fs_wf sb" and run: "fisopfs_truncate c path n sb = Inr (Inr (), sb')"
    and look: "get_inode_index path sb = Some k"
  shows "\<exists>sb''. fisopfs_read c' path n 0 sb'
     = Inr (Inr (take n (takeWhile (\<lambda>ch. ch \<noteq> NUL) (content (inodes sb k)) @ replicate n NUL)), sb'')"
proof -
  from fisopfs_truncate_Inr [OF run] look obtain s where t: "n \<le> 1024" "i_type (inodes sb k) = REGULAR"
    "n \<noteq> 0 \<Longrightarrow> NUL \<in> set (content (inodes sb k)) \<and> s = truncated n (content (inodes sb k))"
    "sb' = set_inode k ((inodes sb k)\<lparr>content := s, i_size := n, last_modification := now c\<rparr>) sb" by auto
  have "length (content (inodes sb k)) = 1024" using fs_wf_slot(1) [OF wf] looked_up_occupied [OF wf look] by blast
  then have s: "n \<noteq> 0 \<Longrightarrow> take n s = take n (takeWhile (\<lambda>ch. ch \<noteq> NUL) (content (inodes sb k)) @ replicate n NUL)"
    using t(1,3) take_truncated by auto
  have "get_inode_index path sb' = Some k"
    using look by (auto simp: t(4) get_inode_index_def first_from_Some split: if_splits option.splits)
  with s t(1,2) show ?thesis by (cases "n = 0") (auto simp: fisopfs_read_def done_with_def Let_def t(4))
qed

theorem truncate_then_read_witness:
  "\<exists>sb' sb''. fisopfs_truncate demo_caller ''/a'' 2 demo_file = Inr (Inr (), sb')
     \<and> fisopfs_read demo_caller ''/a'' 2 0 sb' = Inr (Inr [NUL, NUL], sb'')"
proof -
  have c: "content (inodes demo_file (Suc 0)) = replicate 1024 NUL" by (simp add: demo_file_def)
  have "i_type (inodes demo_file (Suc 0)) = REGULAR" by (simp add: demo_file_def)
  then obtain sb' where run: "fisopfs_truncate demo_caller ''/a'' 2 demo_file = Inr (Inr (), sb')"
    using demo_file_lookup
    by (simp add: fisopfs_truncate_def done_with_def Let_def c strlen_content_def)
  have "takeWhile (\<lambda>ch. ch \<noteq> NUL) (content (inodes demo_file (Suc 0))) = []"
    unfolding c by (subst takeWhile_replicate) simp
  then show ?thesis
    using truncate_then_read [OF demo_file_wf run demo_file_lookup [unfolded One_nat_def], of demo_caller] run
    by (auto simp: numeral_eq_Suc)
qed

section \<open>Duplicate names\<close>

text \<open>
  The search for a free slot stops at the first one, before it has seen the names behind:
  after \<open>create /a\<close>, \<open>create /b\<close> and \<open>unlink /a\<close>, a second \<open>create /b\<close> succeeds, and the table
  has two entries called \<open>b\<close>, of which only the first can be reached.
\<close>

theorem duplicate_names_reachable:
  "\<exists>sb. fs_reach sb \<and> i_path (inodes sb 1) = i_path (inodes sb 2) \<and> inodes_states sb 1 = OCCUPIED
     \<and> inodes_states sb 2 = OCCUPIED \<and> get_inode_index ''/b'' sb = Some 1"
proof -
  let ?b = "fresh_inode demo_caller ''/b'' 420 REGULAR ''b''"
  let ?two = "set_state 2 OCCUPIED (set_inode 2 ?b demo_file)"
  let ?gone = "set_state 1 FREE (set_inode 1 zero_inode ?two)"
  let ?final = "set_state 1 OCCUPIED (set_inode 1 ?b ?gone)"
  have "new_inode demo_caller ''/b'' 420 REGULAR demo_file = Inr (Inr (), ?two)"
    by (rule new_inode_run) (auto simp: demo_file_def numeral_2_eq_2 le_Suc_eq less_Suc_eq)
  then have two: "fs_reach ?two" by (intro reach_step [OF demo_reach] step_create)
  have "get_inode_index ''/a'' ?two = Some 1"
    by (auto simp: get_inode_index_def first_from_Some less_Suc_eq demo_file_def)
  then have "fisopfs_unlink ''/a'' ?two = Inr (Inr (), ?gone)"
    by (simp add: fisopfs_unlink_def done_with_def demo_file_def)
  then have gone: "fs_reach ?gone" by (intro reach_step [OF two] step_unlink)
  have "new_inode demo_caller ''/b'' 420 REGULAR ?gone = Inr (Inr (), ?final)"
    by (rule new_inode_run) (auto simp: demo_file_def le_Suc_eq less_Suc_eq)
  then have "fs_reach ?final" by (intro reach_step [OF gone] step_create)
  moreover have "get_inode_index ''/b'' ?final = Some 1"
    by (auto simp: get_inode_index_def first_from_Some less_Suc_eq demo_file_def)
  ultimately show ?thesis by (intro exI [of _ ?final]) simp
qed

end
