(* ===== verification/CStringProps.thy ===== *)
theory CStringProps
  imports CString
begin

text \<open>
  What the string routines promise: the scans against lists of characters, comparison against
  the lexicographic order, and block moves against a simultaneous copy, overlap included.
\<close>

section \<open>Strings in memory\<close>

primrec str_at :: "memory \<Rightarrow> u32 \<Rightarrow> u8 list \<Rightarrow> bool" where
  "str_at m s [] \<longleftrightarrow> m s = 0"
| "str_at m s (x # xs) \<longleftrightarrow> x \<noteq> 0 \<and> m s = x \<and> str_at m (s + 1) xs"

lemma strlen_loop_at: "str_at m s xs \<Longrightarrow> strlen_loop m s n = Some (n + length xs)"
  by (induction xs arbitrary: s n) (simp_all add: strlen_loop.simps)

lemma strlen_at: "str_at m s xs \<Longrightarrow> strlen m s = Some (length xs)"
  by (simp add: strlen_def strlen_loop_at)

lemma strnlen_loop_at: "str_at m s xs \<Longrightarrow> strnlen_loop m s k n = n + min k (length xs)"
proof (induction k arbitrary: s xs n)
  case (Suc k)
  then show ?case by (cases xs) auto
qed simp

lemma strnlen_at: "str_at m s xs \<Longrightarrow> strnlen m s k = min k (length xs)"
  by (simp add: strnlen_def strnlen_loop_at)

text \<open>The order on strings: the first differing character decides, a prefix comes first.\<close>

fun str_diff :: "u8 list \<Rightarrow> u8 list \<Rightarrow> int" where
  "str_diff [] [] = 0"
| "str_diff [] (y # ys) = - uint y"
| "str_diff (x # xs) [] = uint x"
| "str_diff (x # xs) (y # ys) = (if x = y then str_diff xs ys else uint x - uint y)"

lemma strcmp_at: "str_at m p xs \<Longrightarrow> str_at m q ys \<Longrightarrow> strcmp m p q = Some (str_diff xs ys)"
proof (induction xs ys arbitrary: p q rule: str_diff.induct)
  case (4 x xs y ys)
  then show ?case by (cases "x = y") (simp_all add: strcmp.simps [of m p])
qed (simp_all add: strcmp.simps)

lemma str_diff_sign:
  assumes "0 \<notin> set xs" and "0 \<notin> set ys"
  shows "(str_diff xs ys = 0 \<longleftrightarrow> xs = ys) \<and> (str_diff xs ys < 0 \<longleftrightarrow> (xs, ys) \<in> lexord {(a, b). a < b})"
  using assms
proof (induction xs ys rule: str_diff.induct)
  case (2 y ys)
  then have "0 < uint y" by (simp add: less_le uint_0_iff)
  then show ?case by simp
next
  case (3 x xs)
  then have "0 < uint x" by (simp add: less_le uint_0_iff)
  then show ?case by simp
next
  case (4 x xs y ys)
  then show ?case by (auto simp: word_less_def word_uint_eq_iff)
qed simp

lemma str_at_nonzero: "str_at m s xs \<Longrightarrow> 0 \<notin> set xs"
  by (induction xs arbitrary: s) auto

text \<open>
  \<open>strcmp\<close> on two terminated strings returns; the result is zero exactly for equal
  strings, and negative exactly when the first comes before the second in the lexicographic
  order of unsigned characters.
\<close>

theorem strcmp_correct:
  assumes "str_at m p xs" and "str_at m q ys"
  shows "\<exists>r. strcmp m p q = Some r \<and> (r = 0 \<longleftrightarrow> xs = ys)
     \<and> (r < 0 \<longleftrightarrow> (xs, ys) \<in> lexord {(a, b). a < b})"
  using strcmp_at [OF assms] str_diff_sign [OF str_at_nonzero [OF assms(1)] str_at_nonzero [OF assms(2)]] by auto

text \<open>The strings \<open>ab\<close> at 16 and \<open>b\<close> at 32.\<close>

definition demo_memory :: memory where
  "demo_memory = (\<lambda>_. 0)(16 := 97, 17 := 98, 32 := 98)"

theorem strcmp_correct_witness:
  "\<exists>r. strcmp demo_memory 16 32 = Some r \<and> r < 0"
proof -
  have "str_at demo_memory 16 [97, 98]" "str_at demo_memory 32 [98]" by (simp_all add: demo_memory_def)
  from strcmp_correct [OF this] show ?thesis by auto
qed

section \<open>Block moves\<close>

text \<open>
  Addresses of a block that does not wrap are written \<open>at a\<close> with \<open>a < 2 ^ 32\<close>, so that
  offsets are compared as numbers.
\<close>

definition at :: "nat \<Rightarrow> u32" where
  "at a = word_of_nat a"

lemma at_diff: "a < 2 ^ 32 \<Longrightarrow> d < 2 ^ 32 \<Longrightarrow> unat (at a - at d) = (if d \<le> a then a - d else 2 ^ 32 + a - d)"
  by (auto simp: at_def unat_sub_if' unat_of_nat take_bit_nat_eq_self)

lemma at_add: "at a + word_of_nat b = at (a + b)"
  by (simp add: at_def)

lemma at_less: "a < 2 ^ 32 \<Longrightarrow> b < 2 ^ 32 \<Longrightarrow> at a < at b \<longleftrightarrow> a < b"
  by (simp add: at_def word_less_nat_alt unat_of_nat take_bit_nat_eq_self)

lemma at_unat: "at (unat a) = a"
  by (simp add: at_def)

lemma unat_bound: "unat (a :: u32) < 2 ^ 32"
  using unsigned_less [of a] by simp

text \<open>An address is in a block.\<close>

definition within :: "nat \<Rightarrow> nat \<Rightarrow> nat \<Rightarrow> bool" where
  "within a d n \<longleftrightarrow> d \<le> a \<and> a < d + n"

lemma within_empty [simp]: "\<not> within a d 0"
  by (simp add: within_def)

lemma stos_at:
  assumes "a < 2 ^ 32" and "d + b \<le> 2 ^ 32"
  shows "stos b val m (at d) (at a) = (if within a d b then val (a - d) else m (at a))"
proof (cases "b = 0")
  case False
  then have "unat (at a - at d) = (if d \<le> a then a - d else 2 ^ 32 + a - d)" using assms by (intro at_diff) auto
  then show ?thesis using assms by (auto simp: stos_def within_def)
qed (simp add: stos_def)

lemma movs_at:
  assumes "a < 2 ^ 32" and "d + b \<le> 2 ^ 32"
  shows "movs b m (at d) (at s) (at a) = (if within a d b then m (at (s + (a - d))) else m (at a))"
  using assms by (simp add: movs_def stos_at at_add)

lemma rep_movs_up_at:
  assumes a: "a < 2 ^ 32" and "d + n * b \<le> 2 ^ 32" and "s + n * b \<le> 2 ^ 32" and "\<not> (s < d \<and> d < s + n * b)"
  shows "rep_movs_up b m (at d) (at s) n (at a) = (if within a d (n * b) then m (at (s + (a - d))) else m (at a))"
  using assms(2-)
proof (induction n arbitrary: m d s)
  case (Suc n)
  let ?m = "movs b m (at d) (at s)"
  have get: "?m (at x) = (if within x d b then m (at (s + (x - d))) else m (at x))" if "x < 2 ^ 32" for x
    using movs_at [OF that] Suc.prems(1) by simp
  have ih: "rep_movs_up b ?m (at (d + b)) (at (s + b)) n (at a)
      = (if within a (d + b) (n * b) then ?m (at (s + b + (a - (d + b)))) else ?m (at a))"
    by (rule Suc.IH) (use Suc.prems in auto)
  have "?m (at (s + b + (a - (d + b)))) = m (at (s + (a - d)))" if "within a (d + b) (n * b)"
  proof -
    have "s + (a - d) < 2 ^ 32" "\<not> within (s + (a - d)) d b" and eq: "s + b + (a - (d + b)) = s + (a - d)"
      using that Suc.prems by (auto simp: within_def)
    then show ?thesis unfolding eq using get by simp
  qed
  with ih get [OF a] show ?case using Suc.prems by (auto simp: at_add within_def)
qed simp

lemma rep_movs_down_at:
  assumes a: "a < 2 ^ 32" and "d + n * b \<le> 2 ^ 32" and "s < d"
  shows "rep_movs_down b m (at (d + n * b) - word_of_nat b) (at (s + n * b) - word_of_nat b) n (at a)
     = (if within a d (n * b) then m (at (s + (a - d))) else m (at a))"
  using assms(2-)
proof (induction n arbitrary: m)
  case (Suc n)
  let ?m = "movs b m (at (d + n * b)) (at (s + n * b))"
  have top: "at (x + Suc n * b) - word_of_nat b = at (x + n * b)" for x by (simp add: at_def)
  have get: "?m (at x) = (if within x (d + n * b) b then m (at (s + n * b + (x - (d + n * b)))) else m (at x))"
    if "x < 2 ^ 32" for x
    using movs_at [OF that, of "d + n * b" b m "s + n * b"] Suc.prems(1) by (simp add: add_ac)
  have ih: "rep_movs_down b ?m (at (d + n * b) - word_of_nat b) (at (s + n * b) - word_of_nat b) n (at a)
      = (if within a d (n * b) then ?m (at (s + (a - d))) else ?m (at a))"
    by (rule Suc.IH) (use Suc.prems in auto)
  have "?m (at (s + (a - d))) = m (at (s + (a - d)))" if "within a d (n * b)"
    using that Suc.prems a get [of "s + (a - d)"] by (auto simp: within_def)
  with ih get [OF a] show ?case using Suc.prems unfolding top by (auto simp: within_def)
qed simp

lemma memmove_at:
  assumes "a < 2 ^ 32" and "d + n < 2 ^ 32" and "s + n < 2 ^ 32"
  shows "memmove m (at d) (at s) n (at a) = (if within a d n then m (at (s + (a - d))) else m (at a))"
proof -
  have n4: "n div 4 * 4 = n" if "n mod 4 = 0" using that by auto
  have lt: "at s < at d \<longleftrightarrow> s < d" "at d < at (s + n) \<longleftrightarrow> d < s + n" using assms by (simp_all add: at_less)
  show ?thesis
  proof (cases "s < d \<and> d < s + n")
    case True
    have down: "rep_movs_down b m (at (d + n) - word_of_nat b) (at (s + n) - word_of_nat b) (n div b) (at a)
        = (if within a d n then m (at (s + (a - d))) else m (at a))" if "n div b * b = n" for b
      using rep_movs_down_at [of a d "n div b" b s m] that assms True by simp
    show ?thesis using down [of 4] down [of 1] n4 True by (simp add: memmove_def at_add lt Let_def)
  next
    case False
    have up: "rep_movs_up b m (at d) (at s) (n div b) (at a)
        = (if within a d n then m (at (s + (a - d))) else m (at a))" if "n div b * b = n" for b
      using rep_movs_up_at [of a d "n div b" b s m] that assms False by simp
    have "(at s < at d \<and> at d < at (s + n)) = False" using False lt by simp
    then have "memmove m (at d) (at s) n = (if aligned4 (at s) \<and> aligned4 (at d) \<and> n mod 4 = 0
        then rep_movs_up 4 m (at d) (at s) (n div 4) else rep_movs_up 1 m (at d) (at s) n)"
      by (simp only: memmove_def at_add Let_def if_False)
    then show ?thesis using up [of 4] up [of 1] n4 by simp
  qed
qed

text \<open>
  C12. \<open>memmove\<close> (and \<open>memcpy\<close>, which is the same function) copies as if through a temporary:
  every byte of the destination gets the byte the source had before the call, whatever the
  overlap, direction and alignment, and no other byte changes. The blocks must end below the
  top of memory.
\<close>

theorem memmove_correct:
  assumes "unat dst + n < 2 ^ 32" and "unat src + n < 2 ^ 32"
  shows "memmove m dst src n a
     = (if unat dst \<le> unat a \<and> unat a < unat dst + n then m (src + (a - dst)) else m a)"
proof -
  have "memmove m (at (unat dst)) (at (unat src)) n (at (unat a))
      = (if within (unat a) (unat dst) n then m (at (unat src + (unat a - unat dst))) else m (at (unat a)))"
    using assms by (intro memmove_at unat_bound) auto
  moreover have "at (unat src + (unat a - unat dst)) = src + (a - dst)" if "unat dst \<le> unat a"
    using that by (simp add: at_def of_nat_diff)
  ultimately show ?thesis by (simp add: within_def at_unat)
qed

theorem memmove_correct_witness:
  "memmove demo_memory 17 16 2 17 = 97 \<and> memmove demo_memory 17 16 2 18 = 98"
  using memmove_correct [of 17 2 16 demo_memory 17] memmove_correct [of 17 2 16 demo_memory 18]
  by (simp add: demo_memory_def)

section \<open>Filling\<close>

lemma rep_stos_at:
  assumes "a < 2 ^ 32" and "d + n * b \<le> 2 ^ 32" and "\<And>j. j < b \<Longrightarrow> val j = x"
  shows "rep_stos b val m (at d) n (at a) = (if within a d (n * b) then x else m (at a))"
  using assms(2)
proof (induction n arbitrary: m d)
  case (Suc n)
  have "rep_stos b val m (at d) (Suc n) (at a)
      = (if within a (d + b) (n * b) then x else stos b val m (at d) (at a))"
    using Suc.IH [of "d + b" "stos b val m (at d)"] Suc.prems by (simp add: at_add)
  then show ?case using stos_at [OF assms(1), of d b val m] Suc.prems assms(3) by (auto simp: within_def)
qed simp

lemma fill_pattern:
  assumes "j < 4"
  shows "byte_of (push_bit 24 (c AND 0xFF) OR push_bit 16 (c AND 0xFF) OR push_bit 8 (c AND 0xFF) OR (c AND 0xFF)) j
     = ucast (c :: u32)"
proof -
  have ff: "bit (0xFF :: u32) i \<longleftrightarrow> i < 8" for i
    using bit_mask_iff [where 'a = u32, of 8 i] by (auto simp: mask_eq_exp_minus_1)
  have ff8: "bit (0xFF :: int) i \<longleftrightarrow> i < 8" for i
    using bit_mask_iff [where 'a = int, of 8 i] by (simp add: mask_eq_exp_minus_1)
  have "j = 0 \<or> j = 1 \<or> j = 2 \<or> j = 3" using assms by auto
  then show ?thesis
    by (elim disjE) (auto simp: byte_of_def ff ff8 bit_simps intro!: bit_word_eqI)
qed

text \<open>\<open>memset\<close> fills exactly its block with the low byte of \<open>c\<close>, on the word path as on the byte path.\<close>

lemma memset_at:
  assumes "unat v + n \<le> 2 ^ 32"
  shows "memset m v c n a = (if unat v \<le> unat a \<and> unat a < unat v + n then ucast c else m a)"
proof -
  have n4: "n div 4 * 4 = n" if "n mod 4 = 0" using that by auto
  have "rep_stos 4 (byte_of (push_bit 24 (c AND 0xFF) OR push_bit 16 (c AND 0xFF) OR push_bit 8 (c AND 0xFF) OR (c AND 0xFF)))
      m (at (unat v)) (n div 4) (at (unat a)) = (if within (unat a) (unat v) n then ucast c else m (at (unat a)))"
    if "n mod 4 = 0"
    using rep_stos_at [OF unat_bound, of "unat v" "n div 4" 4, OF _ fill_pattern] assms n4 [OF that] by simp
  moreover have "rep_stos 1 (\<lambda>_. ucast c) m (at (unat v)) n (at (unat a))
      = (if within (unat a) (unat v) n then ucast c else m (at (unat a)))"
    using rep_stos_at [OF unat_bound, of "unat v" n 1 "\<lambda>_. ucast c" "ucast c" m a] assms by simp
  ultimately show ?thesis by (auto simp: memset_def Let_def within_def at_unat)
qed

end
