(* ===== verification/PrintfmtProps.thy ===== *)
theory PrintfmtProps
  imports Printfmt CStringProps
begin

text \<open>
  What formatted printing promises whatever the sink: a map between sinks carries over to the
  whole of \<open>vprintfmt\<close>, so its output is one sequence of characters; a buffer receives a prefix
  of it and a terminator; the system calls of a user environment carry exactly that sequence;
  and \<open>strtol\<close> reads back the number that \<open>printnum\<close> wrote.
\<close>

section \<open>Numbers\<close>

fun digits_of :: "nat \<Rightarrow> nat \<Rightarrow> nat list" where
  "digits_of base n = (if n < base \<or> base < 2 then [n mod base] else digits_of base (n div base) @ [n mod base])"

declare digits_of.simps [simp del]

lemma put_times_fold: "put_times n f ch p = fold f (replicate n ch) p"
  by (induction n arbitrary: p) simp_all

lemma digits_nonempty: "0 < length (digits_of base n)"
  by (subst digits_of.simps) simp

text \<open>\<open>printnum\<close> returns for every base above 1, having sent the padding and then the digits.\<close>

lemma printnum_eq:
  assumes "2 \<le> base"
  shows "printnum f p n base w pc = Some (fold f (replicate (nat (w - int (length (digits_of base n)))) pc
     @ map (\<lambda>d. digit_char d) (digits_of base n)) p)"
proof (induction n arbitrary: w rule: less_induct)
  case (less n)
  show ?case
  proof (cases "n < base")
    case True
    with assms show ?thesis by (simp add: printnum.simps [of f p n] digits_of.simps [of base n] put_times_fold)
  next
    case False
    with assms have "n div base < n" by (intro div_less_dividend) auto
    from less.IH [OF this, of "w - 1"] False assms show ?thesis
      by (simp add: printnum.simps [of f p n] digits_of.simps [of base n] algebra_simps)
  qed
qed

section \<open>Maps between sinks\<close>

text \<open>\<open>h\<close> maps the states of sink \<open>g\<close> to those of \<open>f\<close>, character by character.\<close>

locale sink_map =
  fixes h :: "'q \<Rightarrow> 'p"
    and g :: "int \<Rightarrow> 'q \<Rightarrow> 'q"
    and f :: "int \<Rightarrow> 'p \<Rightarrow> 'p"
  assumes sink: "f c (h x) = h (g c x)"
begin

lemma fold_sink: "fold f xs (h x) = h (fold g xs x)"
  by (induction xs arbitrary: x) (simp_all add: sink)

lemma put_times_sink: "put_times n f ch (h x) = h (put_times n g ch x)"
  by (simp add: put_times_fold fold_sink del: fold_replicate)

lemma put_chars_sink: "put_chars f alt s prec w (h x) = map_prod h id (put_chars g alt s prec w x)"
  by (induction s arbitrary: prec w x) (simp_all add: sink Let_def)

lemma put_string_sink: "put_string f s fl (h x) = h (put_string g s fl x)"
  by (simp add: put_string_def Let_def put_times_sink put_chars_sink case_prod_beta)

lemma put_number_sink: "2 \<le> base \<Longrightarrow> put_number f n base fl (h x) = map_sum id h (put_number g n base fl x)"
  by (simp add: put_number_def printnum_eq fold_sink del: fold_append)

lemma conversion_sink:
  assumes eh: "\<And>e x. eh' e (h x) = map_sum id h (eh e x)"
  shows "conversion f eh' ch fl ap (h x) = map_option (map_sum id (map_prod h id)) (conversion g eh ch fl ap x)"
proof -
  have num: "andThen (put_number f n b fl (h y)) (\<lambda>p. Inr (p, r))
      = map_sum id (map_prod h id) (andThen (put_number g n b fl y) (\<lambda>p. Inr (p, r)))" if "2 \<le> b" for n b y r
    by (simp add: put_number_sink [OF that] andThen_def split: sum.split)
  have err: "andThen (eh' e (h y)) (\<lambda>p. Inr (p, r)) = map_sum id (map_prod h id) (andThen (eh e y) (\<lambda>p. Inr (p, r)))"
    for e y r by (simp add: eh andThen_def split: sum.split)
  have bind: "andThen r (\<lambda>(num, ap). k num ap) = map_sum id (map_prod h id) (andThen r (\<lambda>(num, ap). k' num ap))"
    if "\<And>num ap. k num ap = map_sum id (map_prod h id) (k' num ap)" for r :: "(u64 \<times> vararg list) fallible" and k k'
    by (cases r) (auto simp: that)
  show ?thesis unfolding conversion_def Let_def
    by (auto simp: sink num err put_string_sink intro!: bind split: list.split vararg.split)
qed

lemma fmt_loop_sink:
  assumes eh: "\<And>e x. eh' e (h x) = map_sum id h (eh e x)"
  shows "fmt_loop f eh' fmt ph ap (h x) = map_sum id h (fmt_loop g eh fmt ph ap x)"
proof -
  have "g' = g \<Longrightarrow> eg = eh \<Longrightarrow> fmt_loop f eh' fmt ph ap (h x) = map_sum id h (fmt_loop g eh fmt ph ap x)" for g' eg
  proof (induction g' eg fmt ph ap x rule: fmt_loop.induct [case_names Lit Esc])
    case (Lit g' eg fmt i ap p)
    then show ?case unfolding fmt_loop.simps(1) [of f eh' fmt i ap "h p"] fmt_loop.simps(1) [of g eh fmt i ap p]
      by (simp add: sink Let_def)
  next
    case (Esc g' eg fmt st k fl ap p)
    then show ?case
      unfolding fmt_loop.simps(2) [of f eh' fmt st k fl ap "h p"] fmt_loop.simps(2) [of g eh fmt st k fl ap p]
      by (simp add: conversion_sink [of eh' eh, OF eh] sink Let_def split: option.split sum.split prod.split)
  qed
  then show ?thesis by blast
qed

lemma put_error_sink: "put_error f e (h x) = map_sum id h (put_error g e x)"
  by (auto simp: put_error_def intro!: fmt_loop_sink split: option.split)

lemma vprintfmt_sink: "vprintfmt f (h x) fmt ap = map_sum id h (vprintfmt g x fmt ap)"
  unfolding vprintfmt_def by (rule fmt_loop_sink) (rule put_error_sink)

end

declare printnum.simps [code]

section \<open>The output of a format\<close>

definition collect :: "int \<Rightarrow> int list \<Rightarrow> int list" where
  "collect c xs = xs @ [c]"

text \<open>The characters a format produces, as one list.\<close>

definition formatted :: "u8 list \<Rightarrow> vararg list \<Rightarrow> int list fallible" where
  "formatted fmt ap = vprintfmt collect [] fmt ap"

interpretation trace: sink_map "\<lambda>xs. fold f xs p" collect f for f p
  by unfold_locales (simp add: collect_def)

lemma vprintfmt_output: "vprintfmt f p fmt ap = map_sum id (\<lambda>xs. fold f xs p) (formatted fmt ap)"
  using trace.vprintfmt_sink [of f "[]" p fmt ap] by (simp add: formatted_def)

text \<open>What every sink keeps, printing keeps.\<close>

lemma vprintfmt_keeps:
  assumes "\<And>c x. P x \<Longrightarrow> P (f c x)" and "P p" and "vprintfmt f p fmt ap = Inr q"
  shows "P q"
proof -
  have "P (fold f xs p)" for xs using assms(1,2) by (induction xs arbitrary: p) auto
  with assms(3) show ?thesis by (cases "formatted fmt ap") (auto simp: vprintfmt_output)
qed

text \<open>Evaluation of a format, one character at a time.\<close>

lemma fmt_steps:
  "char_at fmt i = 0 \<Longrightarrow> fmt_loop f e fmt (Lit i) ap p = Inr p"
  "char_at fmt i \<noteq> 37 \<Longrightarrow> char_at fmt i \<noteq> 0
     \<Longrightarrow> fmt_loop f e fmt (Lit i) ap p = fmt_loop f e fmt (Lit (Suc i)) ap (f (uint (char_at fmt i)) p)"
  "char_at fmt i = 37 \<Longrightarrow> fmt_loop f e fmt (Lit i) ap p = fmt_loop f e fmt (Esc (Suc i) 0 no_flags) ap p"
  "flag_step fmt (char_at fmt (st + k)) (Suc (st + k)) fl ap = None
     \<Longrightarrow> fmt_loop f e fmt (Esc st k fl) ap p =
       (case conversion f e (char_at fmt (st + k)) fl ap p of
          Some (Inl e) \<Rightarrow> Inl e
        | Some (Inr (p, ap)) \<Rightarrow> fmt_loop f e fmt (Lit (Suc (st + k))) ap p
        | None \<Rightarrow> fmt_loop f e fmt (Lit st) ap (f 37 p))"
  by (simp_all add: fmt_loop.simps Let_def)

section \<open>Into a buffer\<close>

primrec store_bytes :: "memory \<Rightarrow> u32 \<Rightarrow> u8 list \<Rightarrow> memory" where
  "store_bytes m b [] = m"
| "store_bytes m b (x # xs) = store_bytes (m(b := x)) (b + 1) xs"

lemma store_bytes_snoc: "store_bytes m b (xs @ [x]) = (store_bytes m b xs)(b + word_of_nat (length xs) := x)"
  by (induction xs arbitrary: m b) (simp_all add: add_ac)

lemma fold_sprintputch:
  assumes "unat b + r < 2 ^ 32"
  shows "fold sprintputch xs \<lparr>buf = b, ebuf = b + word_of_nat r, cnt = c, bytes = m\<rparr>
     = \<lparr>buf = b + word_of_nat (min r (length xs)), ebuf = b + word_of_nat r, cnt = c + int (length xs),
        bytes = store_bytes m b (map word_of_int (take r xs))\<rparr>"
  using assms
proof (induction xs arbitrary: b r c m)
  case (Cons x xs)
  show ?case
  proof (cases r)
    case 0
    with Cons.IH [of b 0 "c + 1" m] Cons.prems show ?thesis by (simp add: sprintputch_def Let_def)
  next
    case (Suc k)
    have b1: "unat (b + 1) = unat b + 1" and lt: "b < b + word_of_nat (Suc k)"
      using Cons.prems Suc by (simp_all add: unat_plus_if' word_less_nat_alt unat_of_nat take_bit_nat_eq_self)
    from lt have "sprintputch x \<lparr>buf = b, ebuf = b + word_of_nat r, cnt = c, bytes = m\<rparr>
        = \<lparr>buf = b + 1, ebuf = (b + 1) + word_of_nat k, cnt = c + 1, bytes = m(b := word_of_int x)\<rparr>"
      by (simp add: sprintputch_def Let_def Suc add_ac)
    moreover have "unat (b + 1) + k < 2 ^ 32" using Cons.prems b1 Suc by simp
    note Cons.IH [OF this, of "c + 1" "m(b := word_of_int x)"]
    ultimately show ?thesis by (simp add: Suc add_ac del: fun_upd_apply)
  qed
qed simp

text \<open>
  C28. \<open>vsnprintf\<close> refines "format, then copy": for a buffer of \<open>n\<close> bytes it writes the first
  \<open>n - 1\<close> characters of the output and a terminator, nothing else, and returns the length of the
  whole output; a bad format fails in both.
\<close>

theorem vsnprintf_correct:
  assumes "1 \<le> n" and "b \<noteq> 0" and "unat b + nat n \<le> 2 ^ 32"
  shows "vsnprintf m b n fmt ap
     = map_sum id (\<lambda>xs. (int (length xs), store_bytes m b (map word_of_int (take (nat n - 1) xs) @ [0])))
         (formatted fmt ap)"
proof -
  obtain k where "nat n = Suc k" using assms(1) by (cases "nat n") auto
  then have n: "n = int (Suc k)" by linarith
  have room: "unat b + k < 2 ^ 32" using assms(3) n by simp
  have "vprintfmt sprintputch \<lparr>buf = b, ebuf = b + word_of_nat k, cnt = 0, bytes = m\<rparr> fmt ap
      = map_sum id (\<lambda>xs. \<lparr>buf = b + word_of_nat (min k (length xs)), ebuf = b + word_of_nat k, cnt = int (length xs),
          bytes = store_bytes m b (map word_of_int (take k xs))\<rparr>) (formatted fmt ap)"
    by (simp add: vprintfmt_output fold_sprintputch [OF room])
  moreover have "nat (1 + int k) = Suc k" by simp
  ultimately show ?thesis using assms(2)
    by (cases "formatted fmt ap") (simp_all add: vsnprintf_def n store_bytes_snoc min.commute)
qed

theorem vsnprintf_correct_witness:
  "vsnprintf (\<lambda>_. 255) 100 3 (ascii ''%d!'') [A_int 42]
     = Inr (3, store_bytes (\<lambda>_. 255) 100 [52, 50, 0])"
proof -
  have num: "printnum collect [] 42 10 (- 1) 32 = Some [52, 50]"
    by (simp add: printnum_eq digits_of.simps digit_char_def collect_def)
  have conv: "conversion collect (put_error collect) 100 no_flags [A_int 42] [] = Some (Inr ([52, 50], []))"
    by (simp add: conversion_def Let_def getint_def no_flags_def put_number_def num)
  have flag: "flag_step [37, 100, 33] 100 k f a = None" for k f a by (simp add: flag_step_def)
  have chars: "char_at [37, 100, 33] 0 = 37" "char_at [37, 100, 33] (Suc 0) = 100"
    "char_at [37, 100, 33] (Suc (Suc 0)) = 33" "char_at [37, 100, 33] (Suc (Suc (Suc 0))) = 0"
    by (simp_all add: char_at_def)
  have fmt: "ascii ''%d!'' = [37, 100, 33]" by (simp add: ascii_def)
  have "fmt_loop collect (put_error collect) [37, 100, 33] (Lit 0) [A_int 42] []
      = fmt_loop collect (put_error collect) [37, 100, 33] (Esc (Suc 0) 0 no_flags) [A_int 42] []"
    by (simp add: fmt_steps(3) chars)
  also have "\<dots> = fmt_loop collect (put_error collect) [37, 100, 33] (Lit (Suc (Suc 0))) [] [52, 50]"
    by (simp add: fmt_steps(4) chars flag conv)
  also have "\<dots> = Inr [52, 50, 33]" by (simp add: fmt_steps(1,2) chars collect_def)
  finally have "formatted (ascii ''%d!'') [A_int 42] = Inr [52, 50, 33]"
    by (simp add: formatted_def vprintfmt_def fmt)
  with vsnprintf_correct [of 3 100 "\<lambda>_. 255" "ascii ''%d!''" "[A_int 42]"] show ?thesis by simp
qed

section \<open>Through system calls\<close>

text \<open>The characters handed over so far, and those still in the buffer.\<close>

definition handed :: "printbuf \<Rightarrow> u8 list" where
  "handed b = concat (cputs b) @ take (idx b) (chars b)"

definition batched :: "printbuf \<Rightarrow> bool" where
  "batched b \<longleftrightarrow> length (chars b) = 256 \<and> idx b < 255 \<and> (\<forall>c\<in>set (cputs b). length c = 255)"

lemma take_put: "i < length xs \<Longrightarrow> n = Suc i \<Longrightarrow> take n (xs[i := x]) = take i xs @ [x]"
  by (simp add: take_Suc_conv_app_nth)

lemma user_putch_step:
  assumes "batched b"
  shows "batched (user_putch ch b) \<and> handed (user_putch ch b) = handed b @ [word_of_int ch]
     \<and> pcnt (user_putch ch b) = pcnt b + 1"
  using assms by (auto simp: batched_def handed_def user_putch_def Let_def take_put)

lemma user_fold:
  assumes "batched b"
  shows "batched (fold user_putch xs b) \<and> handed (fold user_putch xs b) = handed b @ map word_of_int xs
     \<and> pcnt (fold user_putch xs b) = pcnt b + int (length xs)"
  using assms
proof (induction xs arbitrary: b)
  case (Cons x xs)
  with user_putch_step [OF Cons.prems, of x] show ?case by simp
qed simp

text \<open>
  C29. \<open>cprintf\<close> in a user environment returns the number of characters of the output, and its
  system calls carry exactly these characters, in order: full batches of 255, then one shorter
  batch; the 256-byte buffer is never overrun.
\<close>

theorem user_cprintf_correct:
  assumes "length garbage = 256"
  shows "case formatted fmt ap of
       Inl e \<Rightarrow> user_vcprintf garbage fmt ap = Inl e
     | Inr xs \<Rightarrow> \<exists>full rest. user_vcprintf garbage fmt ap = Inr (int (length xs), full @ [rest])
         \<and> (\<forall>c\<in>set full. length c = 255) \<and> length rest < 255 \<and> concat (full @ [rest]) = map word_of_int xs"
proof (cases "formatted fmt ap")
  case (Inr xs)
  let ?b = "fold user_putch xs \<lparr>idx = 0, pcnt = 0, chars = garbage, cputs = []\<rparr>"
  have "batched \<lparr>idx = 0, pcnt = 0, chars = garbage, cputs = []\<rparr>" using assms by (simp add: batched_def)
  from user_fold [OF this, of xs] have "batched ?b" "handed ?b = map word_of_int xs" "pcnt ?b = int (length xs)"
    by (simp_all add: handed_def)
  then show ?thesis using Inr
    by (auto simp: user_vcprintf_def vprintfmt_output batched_def handed_def intro!: exI [of _ "cputs ?b"])
qed (simp add: user_vcprintf_def vprintfmt_output)

theorem user_cprintf_correct_witness:
  "\<exists>full rest. user_vcprintf (replicate 256 0) (ascii ''hi'') [] = Inr (2, full @ [rest]) \<and> concat (full @ [rest]) = [104, 105]"
proof -
  have "formatted (ascii ''hi'') [] = Inr [104, 105]"
    by (simp add: formatted_def vprintfmt_def fmt_steps ascii_def char_at_def collect_def)
  with user_cprintf_correct [of "replicate 256 0" "ascii ''hi''" "[]"] show ?thesis by auto
qed

section \<open>Reading back\<close>

lemma digits_of_less: "2 \<le> base \<Longrightarrow> d \<in> set (digits_of base n) \<Longrightarrow> d < base"
proof (induction n rule: less_induct)
  case (less n)
  show ?case
  proof (cases "n < base")
    case False
    with less.prems(1) have "n div base < n" by (intro div_less_dividend) auto
    note ih = less.IH [OF this less.prems(1)]
    from less.prems False have "d \<in> set (digits_of base (n div base)) \<or> d = n mod base"
      by (subst (asm) digits_of.simps) auto
    with ih less.prems(1) show ?thesis by auto
  qed (use less in \<open>simp add: digits_of.simps\<close>)
qed

definition value_of :: "nat \<Rightarrow> u32 \<Rightarrow> nat list \<Rightarrow> u32" where
  "value_of base = foldl (\<lambda>v d. v * word_of_nat base + word_of_nat d)"

lemma value_of_append: "value_of base v (xs @ ys) = value_of base (value_of base v xs) ys"
  by (simp add: value_of_def)

lemma value_of_digits: "2 \<le> base \<Longrightarrow> value_of base 0 (digits_of base n) = word_of_nat n"
proof (induction n rule: less_induct)
  case (less n)
  show ?case
  proof (cases "n < base")
    case False
    with less.prems have "n div base < n" by (intro div_less_dividend) auto
    from less.IH [OF this less.prems] False less.prems
    have "value_of base 0 (digits_of base n) = word_of_nat (n div base) * word_of_nat base + word_of_nat (n mod base)"
      by (subst digits_of.simps) (simp add: value_of_append value_of_def)
    also have "\<dots> = word_of_nat (n div base * base + n mod base)" by (simp only: of_nat_add of_nat_mult)
    finally show ?thesis by (simp only: div_mult_mod_eq)
  qed (use less in \<open>simp add: digits_of.simps value_of_def\<close>)
qed

lemma value_of_zeros: "value_of base 0 (replicate k 0) = 0"
  by (induction k) (simp_all add: value_of_def)

abbreviation digit_byte :: "nat \<Rightarrow> u8" where
  "digit_byte d \<equiv> word_of_int (digit_char d)"

lemma digit_byte:
  assumes "d < 16"
  shows "digit_value (digit_byte d) = Some (int d)" "digit_byte d \<noteq> 32" "digit_byte d \<noteq> 9" "digit_byte d \<noteq> 43"
    "digit_byte d \<noteq> 45" "digit_byte d \<noteq> 120" "digit_byte d \<noteq> 0"
proof -
  have "d = 0 \<or> d = 1 \<or> d = 2 \<or> d = 3 \<or> d = 4 \<or> d = 5 \<or> d = 6 \<or> d = 7 \<or> d = 8 \<or> d = 9 \<or> d = 10
      \<or> d = 11 \<or> d = 12 \<or> d = 13 \<or> d = 14 \<or> d = 15" using assms by arith
  then have "digit_value (digit_byte d) = Some (int d) \<and> digit_byte d \<notin> {32, 9, 43, 45, 120, 0}"
    by (elim disjE) (simp_all add: digit_value_def digit_char_def)
  then show "digit_value (digit_byte d) = Some (int d)" "digit_byte d \<noteq> 32" "digit_byte d \<noteq> 9"
    "digit_byte d \<noteq> 43" "digit_byte d \<noteq> 45" "digit_byte d \<noteq> 120" "digit_byte d \<noteq> 0"
    by simp_all
qed

lemma strtol_digits_at:
  assumes "str_at m s (map digit_byte ds)" and "\<forall>d\<in>set ds. d < base" and "base \<le> 16"
  shows "strtol_digits m s v (int base) = Some (value_of base v ds, s + word_of_nat (length ds))"
  using assms(1,2)
proof (induction ds arbitrary: s v)
  case Nil
  then show ?case by (simp add: strtol_digits.simps [of m s] digit_value_def value_of_def)
next
  case (Cons d ds)
  then have "d < base" by simp
  with assms(3) digit_byte(1) [of d] Cons show ?case
    by (simp add: strtol_digits.simps [of m s] value_of_def add_ac)
qed

lemma skip_blanks_at:
  assumes "x \<noteq> 32" and "x \<noteq> 9"
  shows "str_at m s (replicate k 32 @ x # xs)
     \<Longrightarrow> skip_blanks m s = Some (s + word_of_nat k) \<and> str_at m (s + word_of_nat k) (x # xs)"
proof (induction k arbitrary: s)
  case 0
  with assms show ?case by (simp add: skip_blanks.simps [of m s])
next
  case (Suc k)
  then show ?case using Suc.IH [of "s + 1"] by (simp add: skip_blanks.simps [of m s] add_ac)
qed

text \<open>A string of digits, with blanks before it, is read as its value.\<close>

lemma strtol_at:
  assumes str: "str_at m s (replicate k 32 @ map digit_byte ds)" and ds: "ds \<noteq> []" "\<forall>d\<in>set ds. d < base"
    and base: "0 < base" "base \<le> 16"
  shows "strtol m s (int base) = Some (value_of base 0 ds, s + word_of_nat (k + length ds))"
proof -
  obtain d ds' where eq: "ds = d # ds'" using ds by (cases ds) auto
  have d: "d < 16" using ds base eq by auto
  let ?t = "s + word_of_nat k"
  from skip_blanks_at [of "digit_byte d" m s k "map digit_byte ds'"] str eq digit_byte [OF d]
  have skip: "skip_blanks m s = Some ?t" and at: "str_at m ?t (map digit_byte ds)" by simp_all
  have "m (?t + 1) \<noteq> 120"
  proof (cases ds')
    case Nil
    with at eq show ?thesis by simp
  next
    case (Cons e es)
    with ds base eq have "e < 16" by auto
    with at eq Cons digit_byte(6) [of e] show ?thesis by auto
  qed
  with at eq digit_byte [OF d] base have "strtol_sign m ?t = (False, ?t)" "strtol_prefix m ?t (int base) = (?t, int base)"
    by (auto simp: strtol_sign_def strtol_prefix_def)
  with skip strtol_digits_at [OF at ds(2) base(2)] show ?thesis by (simp add: strtol_def add_ac)
qed

text \<open>
  C27. \<open>strtol\<close> reads back what \<open>printnum\<close> wrote: for every base from 2 to 16 and every field
  width, with blank or zero padding, the value is the number printed (modulo \<open>2 ^ 32\<close>, the
  width of \<open>long\<close>) and the end pointer is the end of the string.
\<close>

theorem strtol_printnum:
  assumes base: "2 \<le> base" "base \<le> 16" and pad: "pc = 32 \<or> pc = 48"
    and out: "printnum collect [] n base w pc = Some out" and str: "str_at m s (map word_of_int out)"
  shows "strtol m s (int base) = Some (word_of_nat n, s + word_of_nat (length out))"
proof -
  let ?k = "nat (w - int (length (digits_of base n)))" let ?ds = "digits_of base n"
  have "fold collect xs ys = ys @ xs" for xs ys by (induction xs arbitrary: ys) (simp_all add: collect_def)
  with out base have o: "out = replicate ?k pc @ map digit_char ?ds"
    by (simp add: printnum_eq del: fold_replicate fold_append)
  have less: "\<forall>d\<in>set ?ds. d < base" using digits_of_less [OF base(1)] by blast
  have ne: "?ds \<noteq> []" using digits_nonempty by force
  from pad show ?thesis
  proof
    assume "pc = 32"
    with str o have "str_at m s (replicate ?k 32 @ map digit_byte ?ds)" by (simp add: comp_def)
    from strtol_at [OF this ne less] base show ?thesis by (simp add: value_of_digits o)
  next
    assume "pc = 48"
    with str o have "str_at m s (replicate 0 32 @ map digit_byte (replicate ?k 0 @ ?ds))"
      by (simp add: comp_def digit_char_def)
    moreover have "replicate ?k 0 @ ?ds \<noteq> []" "\<forall>d\<in>set (replicate ?k 0 @ ?ds). d < base" "0 < base"
      using base less ne by auto
    ultimately have "strtol m s (int base)
        = Some (value_of base 0 (replicate ?k 0 @ ?ds), s + word_of_nat (0 + length (replicate ?k 0 @ ?ds)))"
      using base(2) by (rule strtol_at)
    with base show ?thesis by (simp add: value_of_digits value_of_append value_of_zeros o)
  qed
qed

theorem strtol_printnum_witness:
  "strtol ((\<lambda>_. 0)(16 := 48, 17 := 48, 18 := 50, 19 := 97)) 16 16 = Some (42, 20)"
proof -
  have "printnum collect [] 42 16 4 48 = Some [48, 48, 50, 97]"
    by code_simp
  from strtol_printnum [OF _ _ _ this, of "(\<lambda>_. 0)(16 := 48, 17 := 48, 18 := 50, 19 := 97)" 16] show ?thesis by simp
qed

end
