(* ===== verification/ConsoleProps.thy ===== *)
theory ConsoleProps
  imports Console PrintfmtProps
begin

text \<open>
  The console's input buffer refines a bounded queue; the display's cursor never leaves the
  screen; the keyboard's modifier state is what the keys held down say.
\<close>

section \<open>A bounded byte queue\<close>

text \<open>
  What a client of the buffer relies on: storing appends while there is room, taking removes
  the oldest, and the two touch nothing else of the contents.
\<close>

locale byte_queue =
  fixes store :: "'b \<Rightarrow> 's \<Rightarrow> 's"
    and remove :: "'s \<Rightarrow> 'b option \<times> 's"
    and contents :: "'s \<Rightarrow> 'b list"
    and ok :: "'s \<Rightarrow> bool"
    and room :: nat
  assumes ok_store: "ok s \<Longrightarrow> ok (store c s)"
    and ok_remove: "ok s \<Longrightarrow> ok (snd (remove s))"
    and contents_store: "ok s \<Longrightarrow> length (contents s) < room \<Longrightarrow> contents (store c s) = contents s @ [c]"
    and remove_Nil: "ok s \<Longrightarrow> contents s = [] \<Longrightarrow> remove s = (None, s)"
    and remove_Cons: "ok s \<Longrightarrow> contents s = c # cs \<Longrightarrow> fst (remove s) = Some c \<and> contents (snd (remove s)) = cs"
begin

primrec remove_all :: "nat \<Rightarrow> 's \<Rightarrow> 'b option list" where
  "remove_all 0 s = []"
| "remove_all (Suc n) s = fst (remove s) # remove_all n (snd (remove s))"

lemma contents_fold:
  assumes "ok s" and "length (contents s) + length cs \<le> room"
  shows "ok (fold store cs s) \<and> contents (fold store cs s) = contents s @ cs"
  using assms
proof (induction cs arbitrary: s)
  case (Cons c cs)
  then have "contents (store c s) = contents s @ [c]" by (intro contents_store) auto
  with Cons.IH [of "store c s"] Cons.prems ok_store show ?case by simp
qed simp

lemma remove_all_contents: "ok s \<Longrightarrow> remove_all (length (contents s)) s = map Some (contents s)"
proof (induction "contents s" arbitrary: s)
  case Nil
  then show ?case by (metis length_0_conv list.map_disc_iff remove_all.simps(1))
next
  case (Cons c cs)
  from remove_Cons [OF Cons.prems Cons.hyps(2) [symmetric]] ok_remove [OF Cons.prems] Cons.hyps(1) [of "snd (remove s)"]
  show ?case unfolding Cons.hyps(2) [symmetric] by simp
qed

primrec after :: "nat \<Rightarrow> 's \<Rightarrow> 's" where
  "after 0 s = s"
| "after (Suc n) s = after n (snd (remove s))"

lemma remove_all_snoc: "remove_all (Suc n) s = remove_all n s @ [fst (remove (after n s))]"
  by (induction n arbitrary: s) simp_all

lemma after_contents: "ok s \<Longrightarrow> ok (after (length (contents s)) s) \<and> contents (after (length (contents s)) s) = []"
proof (induction "contents s" arbitrary: s)
  case (Cons c cs)
  from remove_Cons [OF Cons.prems Cons.hyps(2) [symmetric]] ok_remove [OF Cons.prems] Cons.hyps(1) [of "snd (remove s)"]
  show ?case unfolding Cons.hyps(2) [symmetric] by simp
qed (metis after.simps(1) length_0_conv)

text \<open>First in, first out, and nothing more.\<close>

lemma fifo:
  assumes "ok s" and "contents s = []" and "length cs \<le> room"
  shows "remove_all (Suc (length cs)) (fold store cs s) = map Some cs @ [None]"
proof -
  from contents_fold [OF assms(1)] assms have f: "ok (fold store cs s)" "contents (fold store cs s) = cs" by simp_all
  show ?thesis
    using remove_all_contents [OF f(1)] after_contents [OF f(1)] f(2) remove_Nil unfolding remove_all_snoc by simp
qed

end

section \<open>The circular buffer\<close>

definition ring_ok :: "console \<Rightarrow> bool" where
  "ring_ok s \<longleftrightarrow> length (cons_buf s) = 512 \<and> rpos s < 512 \<and> wpos s < 512"

definition ring_size :: "nat \<Rightarrow> nat \<Rightarrow> nat" where
  "ring_size r w = (if r \<le> w then w - r else w + 512 - r)"

definition queued :: "console \<Rightarrow> u8 list" where
  "queued s = map (\<lambda>k. cons_buf s ! ((rpos s + k) mod 512)) [0..<ring_size (rpos s) (wpos s)]"

lemma wrap: "k < 1024 \<Longrightarrow> k mod (512 :: nat) = (if k < 512 then k else k - 512)"
  by (simp add: mod_if)

lemma ring_store:
  assumes "ring_ok s"
  shows "ring_ok (cons_store c s)"
    and "length (queued s) < 511 \<Longrightarrow> queued (cons_store c s) = queued s @ [c]"
    and "length (queued s) = 511 \<Longrightarrow> queued (cons_store c s) = []"
proof -
  let ?w = "if wpos s + 1 = 512 then 0 else wpos s + 1"
  have st: "rpos (cons_store c s) = rpos s" "wpos (cons_store c s) = ?w"
      "cons_buf (cons_store c s) = (cons_buf s)[wpos s := c]"
    by (simp_all add: cons_store_def Let_def)
  show "ring_ok (cons_store c s)" using assms by (auto simp: ring_ok_def st)
  show "queued (cons_store c s) = queued s @ [c]" if "length (queued s) < 511"
  proof -
    have size: "ring_size (rpos s) ?w = Suc (ring_size (rpos s) (wpos s))"
      using that assms by (auto simp: queued_def ring_size_def ring_ok_def)
    have last: "(rpos s + ring_size (rpos s) (wpos s)) mod 512 = wpos s"
      using assms by (auto simp: ring_size_def ring_ok_def)
    have ne: "wpos s \<noteq> (rpos s + k) mod 512" if "k < ring_size (rpos s) (wpos s)" for k
      using that assms by (auto simp: ring_size_def ring_ok_def wrap split: if_splits)
    have "queued (cons_store c s) = map (\<lambda>k. (cons_buf s)[wpos s := c] ! ((rpos s + k) mod 512))
        [0..<Suc (ring_size (rpos s) (wpos s))]"
      unfolding queued_def st size ..
    then show ?thesis using assms last ne by (auto simp: queued_def ring_ok_def)
  qed
  show "queued (cons_store c s) = []" if "length (queued s) = 511"
    using that assms by (auto simp: queued_def st ring_size_def ring_ok_def split: if_splits)
qed

lemma ring_take_Nil: "ring_ok s \<Longrightarrow> queued s = [] \<Longrightarrow> cons_take s = (None, s)"
  by (auto simp: queued_def ring_size_def ring_ok_def cons_take_def split: if_splits)

lemma ring_take_Cons:
  assumes ok: "ring_ok s" and q: "queued s = c # cs"
  shows "fst (cons_take s) = Some c \<and> queued (snd (cons_take s)) = cs"
proof -
  let ?r = "if rpos s + 1 = 512 then 0 else rpos s + 1"
  from q have ne: "rpos s \<noteq> wpos s" by (auto simp: queued_def ring_size_def)
  then have st: "fst (cons_take s) = Some (cons_buf s ! rpos s)" "rpos (snd (cons_take s)) = ?r"
      "wpos (snd (cons_take s)) = wpos s" "cons_buf (snd (cons_take s)) = cons_buf s"
    by (simp_all add: cons_take_def Let_def)
  have size: "ring_size (rpos s) (wpos s) = Suc (ring_size ?r (wpos s))"
    using ok ne by (auto simp: ring_size_def ring_ok_def)
  have step: "(?r + k) mod 512 = (rpos s + Suc k) mod 512" for k
    by (auto simp: mod_simps)
  have "queued s = cons_buf s ! rpos s # queued (snd (cons_take s))"
    using ok by (simp add: queued_def st size step upt_conv_Cons map_Suc_upt [symmetric] ring_ok_def del: upt_Suc)
  with q st(1) show ?thesis by simp
qed

lemma ring_take_ok: "ring_ok s \<Longrightarrow> ring_ok (snd (cons_take s))"
  by (auto simp: ring_ok_def cons_take_def Let_def)

interpretation ring: byte_queue cons_store cons_take queued ring_ok 511
  by unfold_locales (auto simp: ring_store ring_take_ok ring_take_Nil ring_take_Cons)

text \<open>
  C30. The console buffer is a first-in first-out queue of 511 characters: starting empty, any
  sequence of at most 511 characters is taken out in order, and the next take finds nothing.
  One character more and the write position meets the read position: the whole buffer is lost.
\<close>

theorem console_buffer_fifo:
  assumes "ring_ok s" and "queued s = []"
  shows "if length cs \<le> 511
     then ring.remove_all (Suc (length cs)) (fold cons_store cs s) = map Some cs @ [None]
     else length cs = 512 \<longrightarrow> fst (cons_take (fold cons_store cs s)) = None"
proof (cases "length cs \<le> 511")
  case True
  with ring.fifo [OF assms] show ?thesis by simp
next
  case False
  show ?thesis
  proof (cases cs rule: rev_cases)
    case (snoc bs b)
    have "fst (cons_take (cons_store b (fold cons_store bs s))) = None" if "length bs = 511"
      using ring.contents_fold [OF assms(1), of bs] assms(2) that
        ring_store(1,3) [of "fold cons_store bs s" b] ring_take_Nil by simp
    with False snoc show ?thesis by simp
  qed (use False in simp)
qed

text \<open>An idle machine with the serial line ready and an empty buffer.\<close>

definition demo_console :: console where
  "demo_console = \<lparr>feed = (\<lambda>_. []), idle = (\<lambda>_. 0xA0), sent = [], serial_exists = False, addr_6845 = 0x3D4,
     crt_buf = (\<lambda>_. 0x0720), crt_pos = 0, shift = 0, cons_buf = replicate 512 0, rpos = 510, wpos = 510,
     irq_mask_8259A = 0xFFFB, didinit = False\<rparr>"

theorem console_buffer_fifo_witness:
  "ring.remove_all 4 (fold cons_store [104, 105, 33] demo_console) = [Some 104, Some 105, Some 33, None]"
proof -
  have "ring_ok demo_console \<and> queued demo_console = []"
    by (simp add: ring_ok_def queued_def ring_size_def demo_console_def)
  with console_buffer_fifo [of demo_console "[104, 105, 33]"] show ?thesis by (simp add: eval_nat_numeral)
qed

section \<open>The cursor\<close>

text \<open>Port traffic does not touch the screen.\<close>

definition screen :: "console \<Rightarrow> (nat \<Rightarrow> u16) \<times> u16" where
  "screen s = (crt_buf s, crt_pos s)"

lemma screen_inb [simp]: "screen (snd (inb p s)) = screen s"
  by (simp add: inb_def screen_def split: list.split)

lemma screen_outb [simp]: "screen (outb p b s) = screen s"
  by (simp add: outb_def screen_def)

lemma screen_wait [simp]: "screen (wait_port p r n s) = screen s"
  by (induction n arbitrary: s) (auto simp: delay_def case_prod_beta)

lemma screen_ports [simp]: "screen (serial_putc c s) = screen s" "screen (lpt_putc c s) = screen s"
  by (simp_all add: serial_putc_def lpt_putc_def)

lemma screen_cursor [simp]: "screen (crt_cursor s) = screen s"
  by (simp add: crt_cursor_def)

text \<open>The cursor is on the screen, and nothing behind the buffer has been written.\<close>

definition on_screen :: "(nat \<Rightarrow> u16) \<Rightarrow> console \<Rightarrow> bool" where
  "on_screen beyond s \<longleftrightarrow> unat (crt_pos s) < 2000 \<and> (\<forall>i\<ge>2000. crt_buf s i = beyond i)"

lemma on_screen_screen: "screen t = screen s \<Longrightarrow> on_screen f s \<Longrightarrow> on_screen f t"
  by (simp add: on_screen_def screen_def)

lemma on_screen_ports:
  "on_screen f s \<Longrightarrow> on_screen f (serial_putc c s)" "on_screen f s \<Longrightarrow> on_screen f (lpt_putc c s)"
  "on_screen f s \<Longrightarrow> on_screen f (crt_cursor s)"
  by (erule on_screen_screen [rotated], simp)+

text \<open>A position one line or one cell too far is brought back by the scroll.\<close>

lemma on_screen_scroll:
  assumes "unat (crt_pos s) < 2080" and "\<And>i. 2000 \<le> i \<Longrightarrow> crt_buf s i = f i"
  shows "on_screen f (crt_scroll s)"
proof -
  have "unat (crt_pos s - 80) = unat (crt_pos s) - 80" if "2000 \<le> unat (crt_pos s)"
    using that by (simp add: unat_sub_if_size)
  then show ?thesis using assms by (auto simp: on_screen_def crt_scroll_def)
qed

lemma crt_return_le: "unat (crt_pos (crt_return s)) \<le> unat (crt_pos s)"
proof -
  have "unat (crt_pos s mod 80) \<le> unat (crt_pos s)" by (simp add: unat_mod)
  then show ?thesis by (simp add: crt_return_def unat_sub_if_size)
qed

lemma on_screen_body:
  assumes s: "on_screen f s" and tab: "\<And>t. on_screen f t \<Longrightarrow> on_screen f (tab t)"
  shows "on_screen f (cga_body tab c s)"
proof -
  have add: "unat (crt_pos s + k) = unat (crt_pos s) + unat k" if "unat k \<le> 80" for k
    using that s by (simp add: on_screen_def unat_plus_if')
  have sub: "unat (crt_pos s - 1) < unat (crt_pos s)" if "0 < crt_pos s"
    using that by (simp add: unat_sub_if_size word_less_nat_alt Suc_le_eq)
  have ret: "unat (crt_pos (crt_return (s\<lparr>crt_pos := crt_pos s + 80\<rparr>))) < 2080" "unat (crt_pos (crt_return s)) < 2080"
    using crt_return_le [of "s\<lparr>crt_pos := crt_pos s + 80\<rparr>"] crt_return_le [of s] add [of 80] s
    by (simp_all add: on_screen_def)
  have buf: "crt_buf (crt_return t) = crt_buf t" for t by (simp add: crt_return_def)
  show ?thesis unfolding cga_body_def Let_def
    by (intro on_screen_ports on_screen_scroll)
      (use s tab [OF s] ret add [of 1] sub in \<open>auto simp: on_screen_def buf\<close>)
qed

lemma on_screen_space: "on_screen f s \<Longrightarrow> on_screen f (put_space s)"
  unfolding put_space_def by (intro on_screen_body on_screen_ports)

text \<open>
  Whatever character is printed (backspace, newline, return, tab, any other, with or
  without attribute bits), a cursor on the 80 by 25 screen stays on it, scrolling when the last
  line is left, and no cell behind the display buffer is written.
\<close>

theorem cons_putc_on_screen:
  assumes "on_screen beyond s"
  shows "on_screen beyond (cons_putc c s)"
  unfolding cons_putc_def cga_putc_def by (intro on_screen_body on_screen_ports on_screen_space assms)

theorem cons_putc_on_screen_witness:
  "on_screen (\<lambda>_. 0x0720) (cons_putc 10 (demo_console\<lparr>crt_pos := 1999\<rparr>))"
  by (rule cons_putc_on_screen) (simp add: on_screen_def demo_console_def)

section \<open>Polling ends\<close>

text \<open>
  A device that \<open>cons_intr\<close> may drain: while it answers something, a counter of what the
  hardware still has goes down, and storing a character disturbs neither the counter nor the
  condition under which that is so.
\<close>

locale polled_device =
  fixes poll :: "console \<Rightarrow> int \<times> console"
    and calm :: "console \<Rightarrow> bool"
    and pending :: "console \<Rightarrow> nat"
  assumes calm_poll: "calm s \<Longrightarrow> calm (snd (poll s))"
    and pending_poll: "calm s \<Longrightarrow> fst (poll s) \<noteq> - 1 \<Longrightarrow> pending (snd (poll s)) < pending s"
    and calm_store: "calm s \<Longrightarrow> calm (cons_store c s)"
    and pending_store: "pending (cons_store c s) = pending s"
begin

lemma drains: "calm s \<Longrightarrow> \<exists>t. cons_intr poll s = Some t \<and> calm t"
proof (induction "pending s" arbitrary: s rule: less_induct)
  case less
  obtain c t where poll: "poll s = (c, t)" by (cases "poll s")
  note t = calm_poll [OF less.prems] pending_poll [OF less.prems]
  show ?case
  proof (cases "c = - 1")
    case True
    then show ?thesis using poll t by (subst cons_intr.simps) simp
  next
    case False
    then have "pending t < pending s" "calm t" using poll t by simp_all
    with less.hyps [of t] less.hyps [of "cons_store (word_of_int c) t"] False poll
    show ?thesis by (subst cons_intr.simps) (simp add: calm_store pending_store)
  qed
qed

end

text \<open>With its queues empty the serial port has no data and the keyboard no scan code.\<close>

definition quiet :: "console \<Rightarrow> bool" where
  "quiet s \<longleftrightarrow> idle s 0x3FD AND COM_LSR_DATA = 0 \<and> idle s KBSTATP AND KBS_DIB = 0"

lemma inb_fields [simp]:
  "idle (snd (inb p s)) = idle s" "feed (snd (inb p s)) q = (if q = p then tl (feed s p) else feed s q)"
  by (auto simp: inb_def split: list.split)

lemma inb_idle: "feed s p = [] \<Longrightarrow> fst (inb p s) = idle s p"
  by (simp add: inb_def)

lemma outb_fields [simp]: "idle (outb p b s) = idle s" "feed (outb p b s) = feed s"
  by (simp_all add: outb_def)

lemma cons_store_fields [simp]: "idle (cons_store c s) = idle s" "feed (cons_store c s) = feed s"
  by (simp_all add: cons_store_def Let_def)

text \<open>Printing reads neither of the keyboard's ports.\<close>

definition same_keys :: "console \<Rightarrow> console \<Rightarrow> bool" where
  "same_keys s t \<longleftrightarrow> idle t = idle s \<and> feed t 0x64 = feed s 0x64"

lemma same_keys_wait: "p \<noteq> 0x64 \<Longrightarrow> same_keys s (wait_port p r n s)"
proof (induction n arbitrary: s)
  case (Suc n)
  from Suc.IH [of "delay (snd (inb p s))"] Suc.prems show ?case
    by (simp add: same_keys_def delay_def case_prod_beta)
qed (simp add: same_keys_def)

lemma same_keys_ports: "same_keys s (serial_putc c s)" "same_keys s (lpt_putc c s)"
  using same_keys_wait [of "COM1 + COM_LSR" s COM_LSR_TXRDY 12800] same_keys_wait [of "0x379" s "0x80" 12800]
  by (simp_all add: serial_putc_def lpt_putc_def same_keys_def)

lemma same_keys_body: "(\<And>t. same_keys s t \<Longrightarrow> same_keys s (tab t)) \<Longrightarrow> same_keys s t \<Longrightarrow> same_keys s (cga_body tab c t)"
  by (auto simp: cga_body_def crt_cursor_def crt_scroll_def crt_return_def same_keys_def Let_def)

lemma same_keys_refl: "same_keys s s"
  by (simp add: same_keys_def)

lemma same_keys_trans: "same_keys s t \<Longrightarrow> same_keys t u \<Longrightarrow> same_keys s u"
  by (simp add: same_keys_def)

lemma same_keys_putc: "same_keys s t \<Longrightarrow> same_keys s (cons_putc c t)"
proof -
  assume s: "same_keys s t"
  have ports: "same_keys s (lpt_putc c (serial_putc c t))" if "same_keys s t" for c t
    using that same_keys_ports same_keys_trans by meson
  have space: "same_keys s (put_space t)" if "same_keys s t" for t
    unfolding put_space_def by (intro same_keys_body ports that)
  show "same_keys s (cons_putc c t)"
    unfolding cons_putc_def cga_putc_def by (intro same_keys_body ports space s)
qed

lemma same_keys_cprintf: "cprintf fmt ap s = Inr t \<Longrightarrow> same_keys s t"
proof -
  assume "cprintf fmt ap s = Inr t"
  then obtain n where "kern_vcprintf cputchar s (ascii fmt) ap = Inr (t, n)"
    by (auto simp: cprintf_def andThen_eq_Inr)
  then have "same_keys s (fst (t, n))"
    unfolding kern_vcprintf_def
    by (rule vprintfmt_keeps [of "\<lambda>p. same_keys s (fst p)", rotated 2])
      (simp_all add: kern_putch_def cputchar_def same_keys_putc same_keys_refl)
  then show "same_keys s t" by simp
qed

lemma same_keys_key: "same_keys s (snd (kbd_key d s))"
  using same_keys_cprintf
  by (fastforce simp: kbd_key_def same_keys_def Let_def split: sum.splits prod.splits)

interpretation serial: polled_device serial_proc_data quiet "\<lambda>s. length (feed s 0x3FD)"
proof
  fix s
  show "quiet s \<Longrightarrow> quiet (snd (serial_proc_data s))"
    by (simp add: serial_proc_data_def quiet_def case_prod_beta)
  show "length (feed (snd (serial_proc_data s)) 0x3FD) < length (feed s 0x3FD)"
    if "quiet s" and "fst (serial_proc_data s) \<noteq> - 1"
    using that inb_idle [of s "0x3FD"]
    by (cases "feed s 0x3FD") (simp_all add: serial_proc_data_def quiet_def case_prod_beta split: if_splits)
qed (simp_all add: quiet_def)

interpretation keyboard: polled_device kbd_proc_data quiet "\<lambda>s. length (feed s 0x64)"
proof
  fix s
  let ?t = "snd (inb KBSTATP s)"
  have k: "same_keys (snd (inb KBDATAP ?t)) (snd (kbd_key d (snd (inb KBDATAP ?t))))" for d
    by (rule same_keys_key)
  show "quiet s \<Longrightarrow> quiet (snd (kbd_proc_data s))"
    using k by (simp add: kbd_proc_data_def quiet_def case_prod_beta same_keys_def)
  show "length (feed (snd (kbd_proc_data s)) 0x64) < length (feed s 0x64)"
    if "quiet s" and "fst (kbd_proc_data s) \<noteq> - 1"
    using that k inb_idle [of s "0x64"]
    by (cases "feed s 0x64") (simp_all add: kbd_proc_data_def quiet_def case_prod_beta same_keys_def split: if_splits)
qed (simp_all add: quiet_def)

text \<open>
  C33. Reading a character never hangs on the hardware: whatever the serial port and the
  keyboard have queued, as long as the serial port reports no data and the keyboard no scan code
  once their queues are empty, both drain loops end, and \<open>cons_getc\<close> returns a byte.
\<close>

theorem cons_getc_returns:
  assumes "quiet s"
  shows "\<exists>c t. cons_getc s = Some (c, t) \<and> 0 \<le> c \<and> c < 256 \<and> quiet t"
proof -
  have "\<exists>t. serial_intr s = Some t \<and> quiet t"
    using assms serial.drains [of s] by (simp add: serial_intr_def)
  then obtain t where t: "serial_intr s = Some t" "quiet t" by blast
  from keyboard.drains [OF t(2)] obtain u where "kbd_intr t = Some u" "quiet u"
    by (auto simp: kbd_intr_def)
  with t show ?thesis
    by (auto simp: cons_getc_def cons_take_def quiet_def Let_def uint_lt2p [where 'a = 8, simplified])
qed

theorem cons_getc_returns_witness:
  "\<exists>c t. cons_getc (demo_console\<lparr>serial_exists := True, feed := (\<lambda>p. if p = 0x3FD then [1, 1] else [])\<rparr>) = Some (c, t)"
  using cons_getc_returns [of "demo_console\<lparr>serial_exists := True, feed := (\<lambda>p. if p = 0x3FD then [1, 1] else [])\<rparr>"]
  by (auto simp: quiet_def demo_console_def)

end
