(* ===== verification/Shell.thy ===== *)
theory Shell
  imports Prelude
begin

text \<open>
  The shell of \<open>TPs/Shell\<close>: reading a line, the built-in commands, the parser
  (\<open>parsing.c\<close>, \<open>utils.c\<close>, \<open>createcmd.c\<close>), execution as the sequence of system calls a process
  makes (\<open>exec.c\<close>), and the status of the last command. A C string is the list of its
  characters; \<open>KUndef\<close> marks the accesses that leave a fixed-size buffer or follow a null
  pointer. What the operating system answers is an argument.
\<close>

section \<open>Types (defs.h, types.h)\<close>

definition BUFLEN :: nat where [simp]: "BUFLEN = 1024"

definition MAXARGS :: nat where [simp]: "MAXARGS = 20"

definition ARGSIZE :: nat where [simp]: "ARGSIZE = 1024"

definition FNAMESIZE :: nat where [simp]: "FNAMESIZE = 1024"

datatype cmdtype = EXEC | REDIR

record execcmd =
  kind :: cmdtype
  scmd :: string
  argv :: "string list"
  eargv :: "string list"
  out_file :: string
  in_file :: string
  err_file :: string

text \<open>The left command of a pipe is a null pointer when the text before the bar is empty.\<close>

datatype cmd = Execcmd execcmd | Backcmd string cmd | Pipecmd "cmd option" cmd

section \<open>Lines (utils.c)\<close>

definition SPACE :: char where [simp]: "SPACE = CHR '' ''"

text \<open>
  \<open>room\<close> is what is left of the line buffer from \<open>buf\<close> on. Without a splitter the scan for
  spaces starts behind the terminator, where the buffer that \<open>read_line\<close> cleared holds zeros.
\<close>

definition split_line :: "nat \<Rightarrow> string \<Rightarrow> char \<Rightarrow> (string \<times> string) fallible" where
  "split_line room buf splitter =
     (let left = takeWhile (\<lambda>c. c \<noteq> splitter) buf; rest = dropWhile (\<lambda>c. c \<noteq> splitter) buf
      in case rest of
           [] \<Rightarrow> if room \<le> length buf + 1 then Inl (KUndef ''split_line'') else Inr (left, [])
         | _ # right \<Rightarrow> Inr (left, dropWhile (\<lambda>c. c = SPACE) right))"

fun block_contains_from :: "nat \<Rightarrow> string \<Rightarrow> char \<Rightarrow> int" where
  "block_contains_from i [] c = - 1"
| "block_contains_from i (b # bs) c = (if b = c then int i else block_contains_from (i + 1) bs c)"

definition block_contains :: "string \<Rightarrow> char \<Rightarrow> int" where
  "block_contains buf c = block_contains_from 0 buf c"

section \<open>Building commands (createcmd.c)\<close>

definition exec_cmd_create :: "string \<Rightarrow> execcmd fallible" where
  "exec_cmd_create buf_cmd =
     (if BUFLEN \<le> length buf_cmd then Inl (KUndef ''strcpy past scmd'')
      else Inr \<lparr>kind = EXEC, scmd = buf_cmd, argv = [], eargv = [], out_file = '''', in_file = '''', err_file = ''''\<rparr>)"

fun cmd_text :: "cmd \<Rightarrow> string" where
  "cmd_text (Execcmd e) = scmd e"
| "cmd_text (Backcmd s c) = s"
| "cmd_text (Pipecmd l r) = ''''"

definition back_cmd_create :: "cmd \<Rightarrow> cmd" where
  "back_cmd_create c = Backcmd (cmd_text c) c"

definition pipe_cmd_create :: "cmd option \<Rightarrow> cmd option \<Rightarrow> cmd option" where
  "pipe_cmd_create left right = (case right of None \<Rightarrow> left | Some r \<Rightarrow> Some (Pipecmd left r))"

section \<open>Parsing (parsing.c)\<close>

text \<open>The environment, and the status of the last command.\<close>

record shell =
  env :: "string \<Rightarrow> string option"
  status :: int
  prompt :: string
  cwd :: string
  printed :: "string list"

text \<open>The token at the head of the rest of the line.\<close>

definition get_token :: "string \<Rightarrow> string fallible" where
  "get_token rest =
     (let tok = takeWhile (\<lambda>c. c \<noteq> SPACE) rest
      in if ARGSIZE \<le> length tok then Inl (KUndef ''token too long'') else Inr tok)"

definition parse_redir_flow :: "execcmd \<Rightarrow> string \<Rightarrow> execcmd option" where
  "parse_redir_flow c arg =
     (let outIdx = block_contains arg (CHR ''>'')
      in if 0 \<le> outIdx
         then Some ((if outIdx = 0 then c\<lparr>out_file := tl arg\<rparr>
                     else if outIdx = 1 then c\<lparr>err_file := drop 2 arg\<rparr> else c)\<lparr>kind := REDIR\<rparr>)
         else if 0 \<le> block_contains arg (CHR ''<'')
         then Some (c\<lparr>in_file := tl arg, kind := REDIR\<rparr>)
         else None)"

definition parse_environ_var :: "execcmd \<Rightarrow> string \<Rightarrow> execcmd fallible option" where
  "parse_environ_var c arg =
     (if 0 < block_contains arg (CHR ''='') \<and> block_contains arg (CHR ''-'') < 0
      then Some (if MAXARGS \<le> length (eargv c) then Inl (KUndef ''eargv'') else Inr (c\<lparr>eargv := eargv c @ [arg]\<rparr>))
      else None)"

fun show_nat :: "nat \<Rightarrow> string" where
  "show_nat n = (if n < 10 then [char_of (48 + n)] else show_nat (n div 10) @ [char_of (48 + n mod 10)])"

declare show_nat.simps [simp del]

text \<open>\<open>sprintf("%d")\<close>.\<close>

definition show_int :: "int \<Rightarrow> string" where
  "show_int i = (if i < 0 then CHR ''-'' # show_nat (nat (- i)) else show_nat (nat i))"

text \<open>\<open>status_str\<close> has \<open>sizeof(int)\<close> = 4 bytes, terminator included.\<close>

definition expand_environ_var :: "shell \<Rightarrow> string \<Rightarrow> string fallible" where
  "expand_environ_var sh arg =
     (case arg of
        [] \<Rightarrow> Inr arg
      | c # name \<Rightarrow>
          if c \<noteq> CHR ''$'' then Inr arg
          else if take 1 name = ''?''
          then (if 4 \<le> length (show_int (status sh)) then Inl (KUndef ''status_str'') else Inr (show_int (status sh)))
          else case env sh name of None \<Rightarrow> Inr '''' | Some v \<Rightarrow> Inr v)"

text \<open>One round of the loop of \<open>parse_exec\<close>.\<close>

definition parse_token :: "shell \<Rightarrow> string \<Rightarrow> execcmd \<Rightarrow> execcmd fallible" where
  "parse_token sh tok c =
     (case parse_redir_flow c tok of
        Some c \<Rightarrow> Inr c
      | None \<Rightarrow> (case parse_environ_var c tok of
          Some r \<Rightarrow> r
        | None \<Rightarrow> andThen (expand_environ_var sh tok) (\<lambda>tok.
            if tok \<noteq> ''''
            then (if MAXARGS \<le> length (argv c) then Inl (KUndef ''argv'') else Inr (c\<lparr>argv := argv c @ [tok]\<rparr>))
            else Inr c)))"

text \<open>\<open>idx\<close> moves past the token and, unless the line ends there, past one space.\<close>

definition skip_token :: "string \<Rightarrow> string \<Rightarrow> string" where
  "skip_token tok rest = (case drop (length tok) rest of [] \<Rightarrow> [] | _ # r \<Rightarrow> r)"

lemma skip_token_less: "get_token rest = Inr tok \<Longrightarrow> rest \<noteq> [] \<Longrightarrow> length (skip_token tok rest) < length rest"
  by (auto simp: skip_token_def split: list.split) (metis Suc_le_lessD diff_le_self length_Cons length_drop)

function parse_tokens :: "shell \<Rightarrow> string \<Rightarrow> execcmd \<Rightarrow> execcmd fallible" where
  "parse_tokens sh rest c =
     (if rest = [] then Inr c
      else case get_token rest of
        Inl e \<Rightarrow> Inl e
      | Inr tok \<Rightarrow> (case parse_token sh tok c of
          Inl e \<Rightarrow> Inl e
        | Inr c \<Rightarrow> parse_tokens sh (skip_token tok rest) c))"
  by pat_completeness auto

termination
  by (relation "measure (\<lambda>(sh, rest, c). length rest)") (auto dest: skip_token_less)

declare parse_tokens.simps [simp del]

text \<open>The null pointer that ends \<open>argv\<close> needs a slot too.\<close>

definition parse_exec :: "shell \<Rightarrow> string \<Rightarrow> cmd fallible" where
  "parse_exec sh buf_cmd =
     andThen (exec_cmd_create buf_cmd) (\<lambda>c. andThen (parse_tokens sh buf_cmd c) (\<lambda>c.
       if MAXARGS \<le> length (argv c) then Inl (KUndef ''argv'') else Inr (Execcmd c)))"

definition parse_back :: "shell \<Rightarrow> string \<Rightarrow> cmd fallible" where
  "parse_back sh buf_cmd =
     andThen (parse_exec sh (takeWhile (\<lambda>c. c \<noteq> CHR ''&'') buf_cmd)) (\<lambda>e. Inr (back_cmd_create e))"

definition parse_cmd :: "shell \<Rightarrow> string \<Rightarrow> cmd option fallible" where
  "parse_cmd sh buf_cmd =
     (if buf_cmd = '''' then Inr None
      else let idx = block_contains buf_cmd (CHR ''&'')
           in if idx = 0 then Inl (KUndef ''buf_cmd[-1]'')
              else if 0 < idx \<and> buf_cmd ! nat (idx - 1) \<noteq> CHR ''>''
              then andThen (parse_back sh buf_cmd) (\<lambda>c. Inr (Some c))
              else andThen (parse_exec sh buf_cmd) (\<lambda>c. Inr (Some c)))"

lemma split_line_less: "split_line room buf c = Inr (left, right) \<Longrightarrow> right \<noteq> [] \<Longrightarrow> length right < length buf"
proof (cases "dropWhile (\<lambda>x. x \<noteq> c) buf")
  case (Cons x xs)
  assume s: "split_line room buf c = Inr (left, right)" "right \<noteq> []"
  have "length right \<le> length xs" using s Cons by (auto simp: split_line_def length_dropWhile_le)
  moreover have "length (x # xs) \<le> length buf" unfolding Cons [symmetric] by (rule length_dropWhile_le)
  ultimately show ?thesis by simp
qed (auto simp: split_line_def split: if_splits)

function parse_line :: "shell \<Rightarrow> nat \<Rightarrow> string \<Rightarrow> cmd option fallible" where
  "parse_line sh room buf =
     (case split_line room buf (CHR ''|'') of
        Inl e \<Rightarrow> Inl e
      | Inr (left, right) \<Rightarrow>
          andThen (parse_cmd sh left) (\<lambda>l.
            if right \<noteq> []
            then andThen (parse_line sh (room - (length buf - length right)) right) (\<lambda>r. Inr (pipe_cmd_create l r))
            else Inr (pipe_cmd_create l None)))"
  by pat_completeness auto

termination
  by (relation "measure (\<lambda>(sh, room, buf). length buf)") (auto dest: split_line_less)

declare parse_line.simps [simp del]

section \<open>Freeing (freecmd.c)\<close>

text \<open>The number of blocks given back; a null command is dereferenced.\<close>

fun free_cmd :: "cmd \<Rightarrow> nat fallible" where
  "free_cmd (Execcmd e) = Inr (length (argv e) + length (eargv e) + 1)"
| "free_cmd (Backcmd s c) = andThen (free_cmd c) (\<lambda>n. Inr (n + 1))"
| "free_cmd (Pipecmd None r) = Inl (KUndef ''free_command(NULL)'')"
| "free_cmd (Pipecmd (Some l) r) = andThen (free_cmd l) (\<lambda>n. andThen (free_cmd r) (\<lambda>k. Inr (n + k + 1)))"

definition free_command :: "cmd option \<Rightarrow> nat fallible" where
  "free_command c = (case c of None \<Rightarrow> Inl (KUndef ''free_command(NULL)'') | Some c \<Rightarrow> free_cmd c)"

section \<open>Execution (exec.c)\<close>

text \<open>
  The system calls of the process that executes a command, in order. A fork carries the calls
  of the child; \<open>Execvp\<close> is followed by what runs only if it fails.
\<close>

datatype openmode = ReadOnly | Truncate

datatype sysop = Putenv string | OpenDup string openmode nat | Dup2 nat nat | Execvp "string list"
  | Pipe | Fork "sysop list" | ClosePipe | Waitpids | FreePipe | Exit int

definition set_environ_vars :: "string list \<Rightarrow> sysop list" where
  "set_environ_vars vars = map Putenv vars"

text \<open>\<open>open_redir_fd\<close> on each non-empty file name, in the order stdin, stdout, stderr.\<close>

definition redir_ops :: "execcmd \<Rightarrow> sysop list" where
  "redir_ops r =
     (if in_file r = '''' then [] else [OpenDup (in_file r) ReadOnly 0])
     @ (if out_file r = '''' then [] else [OpenDup (out_file r) Truncate 1])
     @ (if err_file r = '''' then []
        else if err_file r = ''&1'' then [Dup2 1 2] else [OpenDup (err_file r) Truncate 2])"

text \<open>A redirection that fails ends the process with status \<open>-1\<close>.\<close>

fun run_ops :: "(sysop \<Rightarrow> bool) \<Rightarrow> sysop list \<Rightarrow> sysop list \<Rightarrow> sysop list" where
  "run_ops ok [] k = k"
| "run_ops ok (op # ops) k = (if ok op then op # run_ops ok ops k else [op, Exit (- 1)])"

definition exec_simple :: "(sysop \<Rightarrow> bool) \<Rightarrow> execcmd \<Rightarrow> sysop list" where
  "exec_simple ok e =
     (let run = set_environ_vars (eargv e) @ [Execvp (argv e), Exit (- 1)]
      in case kind e of EXEC \<Rightarrow> run | REDIR \<Rightarrow> run_ops ok (redir_ops e) run)"

fun exec_cmd :: "(sysop \<Rightarrow> bool) \<Rightarrow> cmd \<Rightarrow> sysop list fallible" where
  "exec_cmd ok (Execcmd e) = Inr (exec_simple ok e)"
| "exec_cmd ok (Backcmd s c) = exec_cmd ok c"
| "exec_cmd ok (Pipecmd None r) = Inl (KUndef ''exec_cmd(NULL)'')"
| "exec_cmd ok (Pipecmd (Some l) r) =
     (if \<not> ok Pipe then Inr [Pipe, Exit (- 1)]
      else andThen (exec_cmd ok l) (\<lambda>l. andThen (exec_cmd ok r) (\<lambda>r.
        Inr [Pipe, Fork ([Dup2 4 1, ClosePipe] @ l), Fork ([Dup2 3 0, ClosePipe] @ r),
             ClosePipe, Waitpids, FreePipe, Exit 0])))"

section \<open>Status (printstatus.c, background_handler.c)\<close>

definition WTERMSIG :: "int \<Rightarrow> int" where "WTERMSIG s = s mod 128"

definition WEXITSTATUS :: "int \<Rightarrow> int" where "WEXITSTATUS s = s div 256 mod 256"

definition WIFEXITED :: "int \<Rightarrow> bool" where "WIFEXITED s \<longleftrightarrow> WTERMSIG s = 0"

definition WIFSIGNALED :: "int \<Rightarrow> bool" where "WIFSIGNALED s \<longleftrightarrow> 0 < WTERMSIG s \<and> WTERMSIG s < 127"

definition print_status_info :: "cmd \<Rightarrow> shell \<Rightarrow> shell" where
  "print_status_info c sh =
     (if cmd_text c = '''' \<or> (case c of Pipecmd _ _ \<Rightarrow> True | _ \<Rightarrow> False) then sh
      else if WIFEXITED (status sh) then sh\<lparr>status := WEXITSTATUS (status sh)\<rparr>
      else if WIFSIGNALED (status sh) then sh\<lparr>status := - WTERMSIG (status sh)\<rparr>
      else if WTERMSIG (status sh) \<noteq> 0 then sh\<lparr>status := - WEXITSTATUS (status sh)\<rparr>
      else sh)"

text \<open>The handler of \<open>SIGCHLD\<close>: \<open>waited\<close> is the child that \<open>waitpid\<close> found, if any, with its raw status.\<close>

definition bg_handler :: "int option \<Rightarrow> shell \<Rightarrow> shell" where
  "bg_handler waited sh = (case waited of None \<Rightarrow> sh | Some exit_status \<Rightarrow> sh\<lparr>status := exit_status\<rparr>)"

section \<open>Built-in commands (builtin.c)\<close>

definition streqword :: "string \<Rightarrow> string \<Rightarrow> bool" where
  "streqword a b \<longleftrightarrow> take (length b) a = b \<and> (length a = length b \<or> a ! length b = SPACE)"

definition exit_shell :: "string \<Rightarrow> bool" where
  "exit_shell cmd = streqword cmd ''exit''"

text \<open>\<open>chdir\<close> maps directory and path to the new directory; \<open>getcwd\<close> succeeds.\<close>

definition cd :: "(string \<Rightarrow> string \<Rightarrow> string option) \<Rightarrow> string \<Rightarrow> shell \<Rightarrow> (bool \<times> shell) fallible" where
  "cd chdir cmd sh =
     (if \<not> streqword cmd ''cd'' then Inr (False, sh)
      else let path = dropWhile (\<lambda>c. c = SPACE) (drop 2 cmd);
               target = (if path = '''' then env sh ''HOME'' else Some path)
           in case target of
                None \<Rightarrow> Inl (KUndef ''chdir(NULL)'')
              | Some path \<Rightarrow> (case chdir (cwd sh) path of
                  None \<Rightarrow> Inr (True, sh\<lparr>status := 1\<rparr>)
                | Some d \<Rightarrow> Inr (True, sh\<lparr>cwd := d, prompt := take 1023 (''('' @ d @ '')''), status := 0\<rparr>)))"

definition pwd :: "string \<Rightarrow> shell \<Rightarrow> bool \<times> shell" where
  "pwd cmd sh =
     (if \<not> streqword cmd ''pwd'' then (False, sh)
      else (True, sh\<lparr>printed := printed sh @ [cwd sh], status := 0\<rparr>))"

definition history :: "string \<Rightarrow> bool" where
  "history cmd = False"

section \<open>The loop (readline.c, runcmd.c, sh.c)\<close>

text \<open>A line of the input and the rest; \<open>None\<close> at the end of the file, even after a partial line.\<close>

definition read_line :: "string \<Rightarrow> (string option \<times> string) fallible" where
  "read_line inp =
     (let line = takeWhile (\<lambda>c. c \<noteq> CHR 0x0A) inp
      in if BUFLEN < length line then Inl (KUndef ''buffer'')
         else case dropWhile (\<lambda>c. c \<noteq> CHR 0x0A) inp of
             [] \<Rightarrow> Inr (None, [])
           | _ # rest \<Rightarrow> if BUFLEN = length line then Inl (KUndef ''buffer'') else Inr (Some line, rest))"

text \<open>\<open>wait\<close> is the status that \<open>waitpid\<close> stores for the child with the given system calls.\<close>

definition run_cmd :: "(string \<Rightarrow> string \<Rightarrow> string option) \<Rightarrow> (sysop \<Rightarrow> bool) \<Rightarrow> (sysop list \<Rightarrow> int)
    \<Rightarrow> string \<Rightarrow> shell \<Rightarrow> (bool \<times> shell) fallible" where
  "run_cmd chdir ok wait cmd sh =
     (if cmd = '''' then Inr (False, sh)
      else if history cmd then Inr (False, sh)
      else andThen (cd chdir cmd sh) (\<lambda>(done, sh).
        if done then Inr (False, sh)
        else if exit_shell cmd then Inr (True, sh)
        else case pwd cmd sh of
          (True, sh) \<Rightarrow> Inr (False, sh)
        | (False, sh) \<Rightarrow>
            andThen (parse_line sh BUFLEN cmd) (\<lambda>parsed.
              case parsed of
                None \<Rightarrow> Inl (KUndef ''parsed->type'')
              | Some c \<Rightarrow>
                  andThen (case c of Backcmd _ _ \<Rightarrow> Inr sh
                    | _ \<Rightarrow> andThen (exec_cmd ok c) (\<lambda>ops. Inr (print_status_info c (sh\<lparr>status := wait ops\<rparr>))))
                    (\<lambda>sh. andThen (free_command (Some c)) (\<lambda>_. Inr (False, sh))))))"

lemma read_line_less:
  assumes run: "read_line inp = Inr (Some line, rest)"
  shows "length rest < length inp"
proof (cases "dropWhile (\<lambda>c. c \<noteq> CHR 0x0A) inp")
  case Nil
  with run show ?thesis unfolding read_line_def Let_def by (simp only: Nil list.case split: if_splits) auto
next
  case (Cons x xs)
  with run have "rest = xs" by (simp add: read_line_def Let_def split: if_splits)
  moreover have "length (x # xs) \<le> length inp" unfolding Cons [symmetric] by (rule length_dropWhile_le)
  ultimately show ?thesis by simp
qed

function run_shell :: "(string \<Rightarrow> string \<Rightarrow> string option) \<Rightarrow> (sysop \<Rightarrow> bool) \<Rightarrow> (sysop list \<Rightarrow> int)
    \<Rightarrow> string \<Rightarrow> shell \<Rightarrow> shell fallible" where
  "run_shell chdir ok wait inp sh =
     (case read_line inp of
        Inl e \<Rightarrow> Inl e
      | Inr (None, rest) \<Rightarrow> Inr sh
      | Inr (Some line, rest) \<Rightarrow>
          andThen (run_cmd chdir ok wait line sh) (\<lambda>(quit, sh).
            if quit then Inr sh else run_shell chdir ok wait rest sh))"
  by pat_completeness auto

termination
  by (relation "measure (\<lambda>(chdir, ok, wait, inp, sh). length inp)") (auto dest: read_line_less)

declare run_shell.simps [simp del]

definition init_shell :: "(string \<Rightarrow> string \<Rightarrow> string option) \<Rightarrow> shell \<Rightarrow> shell fallible" where
  "init_shell chdir sh =
     (case env sh ''HOME'' of
        None \<Rightarrow> Inl (KUndef ''chdir(NULL)'')
      | Some home \<Rightarrow> (case chdir (cwd sh) home of
          None \<Rightarrow> Inr sh
        | Some d \<Rightarrow> Inr (sh\<lparr>cwd := d, prompt := take 1023 (''('' @ home @ '')'')\<rparr>)))"

end
