(* ===== verification/ShellProps.thy ===== *)
theory ShellProps
  imports Shell
begin

text \<open>
  The parser inverts the printing of pipelines; the status of a foreground command fits the
  buffer that expands it, that of a background command need not; a failed redirection runs
  nothing; and the lines that make the shell follow a null pointer.
\<close>

section \<open>Tokens\<close>

fun unwords :: "string list \<Rightarrow> string" where
  "unwords [] = ''''"
| "unwords [w] = w"
| "unwords (w # v # ws) = w @ CHR '' '' # unwords (v # ws)"

definition token :: "string \<Rightarrow> bool" where
  "token w \<longleftrightarrow> CHR '' '' \<notin> set w \<and> length w < 1024"

fun parse_all :: "shell \<Rightarrow> string list \<Rightarrow> execcmd \<Rightarrow> execcmd fallible" where
  "parse_all sh [] c = Inr c"
| "parse_all sh (w # ws) c = andThen (parse_token sh w c) (parse_all sh ws)"

lemma takeWhile_token: "CHR '' '' \<notin> set w \<Longrightarrow> takeWhile (\<lambda>c. c \<noteq> CHR '' '') (w @ CHR '' '' # r) = w"
  by (induction w) auto

lemma takeWhile_token_end: "CHR '' '' \<notin> set w \<Longrightarrow> takeWhile (\<lambda>c. c \<noteq> CHR '' '') w = w"
  by (induction w) auto

lemma andThen_Inr_right: "andThen r Inr = r"
  by (cases r) simp_all

lemma parse_tokens_Nil: "parse_tokens sh [] = Inr"
  by (rule ext) (simp add: parse_tokens.simps)

lemma parse_all_Nil: "parse_all sh [] = Inr"
  by (rule ext) simp

lemma parse_tokens_step:
  assumes "token w"
  shows "parse_tokens sh (w @ CHR '' '' # r) c = andThen (parse_token sh w c) (parse_tokens sh r)"
proof -
  have "get_token (w @ CHR '' '' # r) = Inr w"
    using assms by (simp add: get_token_def takeWhile_token token_def)
  moreover have "skip_token w (w @ CHR '' '' # r) = r" by (simp add: skip_token_def)
  ultimately show ?thesis
    by (simp add: parse_tokens.simps [of sh "w @ CHR '' '' # r"] andThen_def split: sum.split)
qed

lemma parse_tokens_last:
  assumes "token w" and "w \<noteq> []"
  shows "parse_tokens sh w c = parse_token sh w c"
proof -
  have "get_token w = Inr w" using assms by (simp add: get_token_def takeWhile_token_end token_def)
  then show ?thesis using assms(2)
    by (simp add: parse_tokens.simps [of sh w] skip_token_def parse_tokens_Nil split: sum.split)
qed

text \<open>A line is its tokens, one after the other, with or without a blank at the end.\<close>

lemma parse_tokens_unwords:
  assumes "\<forall>w\<in>set ws. token w \<and> w \<noteq> []" and "t = '''' \<or> t = '' ''" and "ws \<noteq> []"
  shows "parse_tokens sh (unwords ws @ t) c = parse_all sh ws c"
  using assms
proof (induction ws arbitrary: c rule: unwords.induct)
  case (2 w)
  then show ?case using parse_tokens_last [of w sh c] parse_tokens_step [of w sh "[]" c]
    by (auto simp: parse_tokens_Nil parse_all_Nil andThen_Inr_right)
next
  case (3 w v ws)
  then have "parse_tokens sh (unwords (v # ws) @ t) = parse_all sh (v # ws)" by (intro ext) simp
  with 3 parse_tokens_step [of w sh "unwords (v # ws) @ t" c] show ?case by simp
qed simp

section \<open>Simple commands\<close>

record simple =
  words :: "string list"
  infile :: string
  outfile :: string
  errfile :: string

text \<open>Characters with a meaning of their own; a word also does not start with a dollar.\<close>

definition plain :: "string \<Rightarrow> bool" where
  "plain s \<longleftrightarrow> set s \<inter> {CHR '' '', CHR ''<'', CHR ''>'', CHR ''|'', CHR ''&''} = {} \<and> length s < 1000"

definition plain_word :: "string \<Rightarrow> bool" where
  "plain_word w \<longleftrightarrow> plain w \<and> w \<noteq> [] \<and> CHR ''='' \<notin> set w \<and> hd w \<noteq> CHR ''$''"

definition good_simple :: "simple \<Rightarrow> bool" where
  "good_simple s \<longleftrightarrow> words s \<noteq> [] \<and> length (words s) < 20 \<and> (\<forall>w\<in>set (words s). plain_word w)
     \<and> plain (infile s) \<and> plain (outfile s) \<and> plain (errfile s)"

definition redir_tokens :: "simple \<Rightarrow> string list" where
  "redir_tokens s =
     (if infile s = [] then [] else [CHR ''<'' # infile s])
     @ (if outfile s = [] then [] else [CHR ''>'' # outfile s])
     @ (if errfile s = [] then [] else [''2>'' @ errfile s])"

definition simple_text :: "simple \<Rightarrow> string" where
  "simple_text s = unwords (words s @ redir_tokens s)"

definition simple_cmd :: "simple \<Rightarrow> string \<Rightarrow> execcmd" where
  "simple_cmd s t = \<lparr>kind = (if redir_tokens s = [] then EXEC else REDIR), scmd = t, argv = words s, eargv = [],
     out_file = outfile s, in_file = infile s, err_file = errfile s\<rparr>"

lemma block_contains_from_none [simp]: "c \<notin> set s \<Longrightarrow> block_contains_from i s c = - 1"
  by (induction s arbitrary: i) auto

lemma block_contains_none: "c \<notin> set s \<Longrightarrow> block_contains s c = - 1"
  by (simp add: block_contains_def)

lemma parse_word:
  assumes "plain_word w" and "length (argv c) < 20"
  shows "parse_token sh w c = Inr (c\<lparr>argv := argv c @ [w]\<rparr>)"
proof -
  from assms(1) have none: "block_contains w (CHR ''>'') = - 1" "block_contains w (CHR ''<'') = - 1"
      "block_contains w (CHR ''='') = - 1"
    by (auto simp: plain_word_def plain_def intro!: block_contains_none)
  then have "parse_redir_flow c w = None" "parse_environ_var c w = None"
    by (simp_all add: parse_redir_flow_def parse_environ_var_def Let_def)
  moreover have "expand_environ_var sh w = Inr w"
    using assms(1) by (cases w) (auto simp: plain_word_def expand_environ_var_def)
  ultimately show ?thesis using assms by (simp add: parse_token_def plain_word_def)
qed

lemma parse_words:
  "\<forall>w\<in>set ws. plain_word w \<Longrightarrow> length (argv c) + length ws < 21
     \<Longrightarrow> parse_all sh (ws @ us) c = parse_all sh us (c\<lparr>argv := argv c @ ws\<rparr>)"
proof (induction ws arbitrary: c)
  case (Cons w ws)
  then show ?case by (simp add: parse_word)
qed simp

lemma parse_redirs:
  assumes "good_simple s"
  shows "parse_all sh (redir_tokens s) c = Inr (c\<lparr>in_file := (if infile s = [] then in_file c else infile s),
     out_file := (if outfile s = [] then out_file c else outfile s),
     err_file := (if errfile s = [] then err_file c else errfile s),
     kind := (if redir_tokens s = [] then kind c else REDIR)\<rparr>)"
proof -
  have i: "parse_token sh (CHR ''<'' # f) d = Inr (d\<lparr>in_file := f, kind := REDIR\<rparr>)" if "plain f" for f d
    using that by (simp add: parse_token_def parse_redir_flow_def block_contains_def plain_def Let_def)
  have o: "parse_token sh (CHR ''>'' # f) d = Inr (d\<lparr>out_file := f, kind := REDIR\<rparr>)" for f d
    by (simp add: parse_token_def parse_redir_flow_def block_contains_def Let_def)
  have e: "parse_token sh (''2>'' @ f) d = Inr (d\<lparr>err_file := f, kind := REDIR\<rparr>)" for f d
    by (simp add: parse_token_def parse_redir_flow_def block_contains_def Let_def)
  show ?thesis using assms i [of "infile s"] o [of "outfile s"] e [of "errfile s"]
    by (simp add: redir_tokens_def good_simple_def)
qed

text \<open>The characters of a text.\<close>

lemma set_unwords: "x \<in> set (unwords ws) \<Longrightarrow> x = CHR '' '' \<or> (\<exists>w\<in>set ws. x \<in> set w)"
  by (induction ws rule: unwords.induct) auto

lemma plainD:
  assumes "plain f"
  shows "CHR '' '' \<notin> set f" "CHR ''|'' \<notin> set f" "CHR ''&'' \<notin> set f" "length f < 1000"
  using assms by (simp_all add: plain_def)

definition clean :: "string \<Rightarrow> bool" where
  "clean w \<longleftrightarrow> token w \<and> w \<noteq> [] \<and> CHR ''|'' \<notin> set w \<and> CHR ''&'' \<notin> set w"

lemma clean_word: "plain_word w \<Longrightarrow> clean w"
  using plainD [of w] by (simp add: clean_def plain_word_def token_def)

lemma clean_redir: "plain f \<Longrightarrow> clean (CHR ''<'' # f) \<and> clean (CHR ''>'' # f) \<and> clean (''2>'' @ f)"
  using plainD [of f] by (simp add: clean_def token_def)

lemma simple_tokens:
  assumes "good_simple s" and "w \<in> set (words s @ redir_tokens s)"
  shows "clean w"
proof (cases "w \<in> set (words s)")
  case True
  with assms(1) show ?thesis by (intro clean_word) (simp add: good_simple_def)
next
  case False
  with assms(2) have "w \<in> {CHR ''<'' # infile s, CHR ''>'' # outfile s, ''2>'' @ errfile s}"
    by (auto simp: redir_tokens_def split: if_split_asm)
  with assms(1) clean_redir show ?thesis by (auto simp: good_simple_def)
qed

lemma simple_text_chars:
  assumes "good_simple s" and "c = CHR ''|'' \<or> c = CHR ''&''"
  shows "c \<notin> set (simple_text s)"
proof
  assume "c \<in> set (simple_text s)"
  moreover have "c \<noteq> CHR '' ''" using assms(2) by (elim disjE) simp_all
  ultimately obtain w where "w \<in> set (words s @ redir_tokens s)" "c \<in> set w"
    using set_unwords unfolding simple_text_def by blast
  with simple_tokens [OF assms(1)] assms(2) show False unfolding clean_def by blast
qed

lemma unwords_nonempty: "ws \<noteq> [] \<Longrightarrow> \<forall>w\<in>set ws. w \<noteq> [] \<Longrightarrow> unwords ws \<noteq> []"
  by (cases ws rule: unwords.cases) auto

lemma simple_text_nonempty: "good_simple s \<Longrightarrow> simple_text s \<noteq> []"
  unfolding simple_text_def using simple_tokens [of s] by (intro unwords_nonempty) (auto simp: good_simple_def clean_def)

lemma parse_cmd_simple:
  assumes s: "good_simple s" and t: "t = '''' \<or> t = '' ''" and len: "length (simple_text s @ t) < 1024"
  shows "parse_cmd sh (simple_text s @ t) = Inr (Some (Execcmd (simple_cmd s (simple_text s @ t))))"
proof -
  have amp: "block_contains (simple_text s @ t) (CHR ''&'') = - 1"
    using simple_text_chars [OF s, of "CHR ''&''"] t by (intro block_contains_none) auto
  have "parse_tokens sh (simple_text s @ t) c = parse_all sh (words s @ redir_tokens s) c" for c
    unfolding simple_text_def using simple_tokens [OF s] t s
    by (intro parse_tokens_unwords) (auto simp: good_simple_def clean_def)
  also have "parse_all sh (words s @ redir_tokens s) \<lparr>kind = EXEC, scmd = u, argv = [], eargv = [], out_file = '''',
      in_file = '''', err_file = ''''\<rparr> = Inr (simple_cmd s u)" for u
    using s by (subst parse_words) (auto simp: good_simple_def parse_redirs [OF s] simple_cmd_def)
  finally show ?thesis using amp len simple_text_nonempty [OF s] s
    by (simp add: parse_cmd_def parse_exec_def exec_cmd_create_def Let_def good_simple_def simple_cmd_def)
qed

section \<open>Pipelines\<close>

text \<open>A pipeline is its first command and the list of the others.\<close>

fun pipeline_text :: "simple \<Rightarrow> simple list \<Rightarrow> string" where
  "pipeline_text s [] = simple_text s"
| "pipeline_text s (u # us) = simple_text s @ '' | '' @ pipeline_text u us"

text \<open>The tree leans to the right; the text of a command keeps the blank before the bar.\<close>

fun pipeline :: "simple \<Rightarrow> simple list \<Rightarrow> cmd" where
  "pipeline s [] = Execcmd (simple_cmd s (simple_text s))"
| "pipeline s (u # us) = Pipecmd (Some (Execcmd (simple_cmd s (simple_text s @ '' '')))) (pipeline u us)"

lemma simple_text_start:
  assumes "good_simple s"
  shows "\<exists>x r. simple_text s = x # r \<and> x \<noteq> CHR '' ''"
proof -
  from assms obtain w ws where w: "words s = w # ws" "clean w"
    by (cases "words s") (auto simp: good_simple_def intro: clean_word)
  then obtain x v where x: "w = x # v" "x \<noteq> CHR '' ''" by (cases w) (auto simp: clean_def token_def)
  have "\<exists>r. unwords (w # us) = x # r" for us using x by (cases us) auto
  from this [of "ws @ redir_tokens s"] show ?thesis using x(2) unfolding simple_text_def w(1) by auto
qed

lemma pipeline_text_start: "good_simple s \<Longrightarrow> \<exists>x r. pipeline_text s us = x # r \<and> x \<noteq> CHR '' ''"
  using simple_text_start [of s] by (cases us) auto

lemma split_at:
  assumes "b \<notin> set a"
  shows "takeWhile (\<lambda>c. c \<noteq> b) (a @ b # r) = a" "dropWhile (\<lambda>c. c \<noteq> b) (a @ b # r) = b # r"
    "takeWhile (\<lambda>c. c \<noteq> b) a = a" "dropWhile (\<lambda>c. c \<noteq> b) a = []"
  using assms by (induction a) auto

lemma parse_pipeline:
  assumes "good_simple s" and "\<forall>u\<in>set us. good_simple u" and "length (pipeline_text s us) + 1 < room" and "room \<le> 1024"
  shows "parse_line sh room (pipeline_text s us) = Inr (Some (pipeline s us))"
  using assms
proof (induction us arbitrary: s room)
  case Nil
  then have s: "good_simple s" by simp
  have "split_line room (simple_text s) (CHR ''|'') = Inr (simple_text s, [])"
    using Nil simple_text_chars [OF s, of "CHR ''|''"] by (simp add: split_line_def split_at)
  with Nil parse_cmd_simple [OF s, of "[]" sh] show ?case
    by (simp add: parse_line.simps [of sh room "simple_text s"] pipe_cmd_create_def)
next
  case (Cons u us)
  let ?rest = "pipeline_text u us" let ?left = "simple_text s @ '' ''"
  let ?line = "?left @ CHR ''|'' # CHR '' '' # ?rest"
  have s: "good_simple s" and u: "good_simple u" using Cons by simp_all
  obtain x r where x: "?rest = x # r" "x \<noteq> CHR '' ''" using pipeline_text_start [OF u] by blast
  have bar: "CHR ''|'' \<notin> set ?left" using simple_text_chars [OF s] by simp
  have "split_line room ?line (CHR ''|'') = Inr (?left, ?rest)"
    using x unfolding split_line_def split_at(1,2) [OF bar] by simp
  moreover have "parse_line sh (room - (length ?line - length ?rest)) ?rest = Inr (Some (pipeline u us))"
    using Cons by (intro Cons.IH) auto
  moreover have "parse_cmd sh ?left = Inr (Some (Execcmd (simple_cmd s ?left)))"
    using Cons by (intro parse_cmd_simple [OF s]) auto
  ultimately have "parse_line sh room ?line = Inr (Some (pipeline s (u # us)))"
    unfolding parse_line.simps [of sh room ?line] using x(1) by (simp add: pipe_cmd_create_def)
  then show ?case by simp
qed

text \<open>
  C11. The parser inverts printing: for a pipeline of simple commands (words without special
  characters, at most 19 each, optional files for the three standard streams) whose text fits
  the line buffer, \<open>parse_line\<close> returns the tree with exactly these words and files, in any
  environment.
\<close>

theorem parse_line_roundtrip:
  assumes "good_simple s" and "\<forall>u\<in>set us. good_simple u" and "length (pipeline_text s us) < 1023"
  shows "parse_line sh BUFLEN (pipeline_text s us) = Inr (Some (pipeline s us))"
  using parse_pipeline [of s us BUFLEN sh] assms by simp

definition demo_ls :: simple where
  "demo_ls = \<lparr>words = [''ls'', ''-l''], infile = '''', outfile = '''', errfile = ''log''\<rparr>"

definition demo_wc :: simple where
  "demo_wc = \<lparr>words = [''wc''], infile = '''', outfile = ''n'', errfile = ''''\<rparr>"

theorem parse_line_roundtrip_witness:
  "\<forall>sh. parse_line sh BUFLEN ''ls -l 2>log | wc >n'' = Inr (Some (pipeline demo_ls [demo_wc]))"
proof
  fix sh
  have good: "good_simple demo_ls" "good_simple demo_wc"
    by (simp_all add: demo_ls_def demo_wc_def good_simple_def plain_word_def plain_def)
  have t: "pipeline_text demo_ls [demo_wc] = ''ls -l 2>log | wc >n''"
    by (simp add: demo_ls_def demo_wc_def simple_text_def redir_tokens_def)
  from parse_line_roundtrip [of demo_ls "[demo_wc]" sh] good show "parse_line sh BUFLEN ''ls -l 2>log | wc >n''
      = Inr (Some (pipeline demo_ls [demo_wc]))" unfolding t by simp
qed

section \<open>The status of the last command\<close>

lemma show_nat_length:
  "n < 10 \<Longrightarrow> length (show_nat n) = 1" "10 \<le> n \<Longrightarrow> n < 100 \<Longrightarrow> length (show_nat n) = 2"
  "100 \<le> n \<Longrightarrow> n < 1000 \<Longrightarrow> length (show_nat n) = 3" "1000 \<le> n \<Longrightarrow> 4 \<le> length (show_nat n)"
proof -
  have one: "length (show_nat n) = 1" if "n < 10" for n using that by (simp add: show_nat.simps)
  have step: "length (show_nat n) = Suc (length (show_nat (n div 10)))" if "10 \<le> n" for n
    using that by (simp add: show_nat.simps [of n])
  have pos: "1 \<le> length (show_nat n)" for n by (subst show_nat.simps) simp
  show "n < 10 \<Longrightarrow> length (show_nat n) = 1" by (rule one)
  show "10 \<le> n \<Longrightarrow> n < 100 \<Longrightarrow> length (show_nat n) = 2"
    using step [of n] one [of "n div 10"] by simp
  show "100 \<le> n \<Longrightarrow> n < 1000 \<Longrightarrow> length (show_nat n) = 3"
    using step [of n] step [of "n div 10"] one [of "n div 10 div 10"] by simp
  show "1000 \<le> n \<Longrightarrow> 4 \<le> length (show_nat n)"
    using step [of n] step [of "n div 10"] step [of "n div 10 div 10"] pos [of "n div 10 div 10 div 10"] by linarith
qed

lemma show_int_length:
  assumes "- 100 < i" and "i < 1000"
  shows "length (show_int i) < 4"
proof (cases "i < 0")
  case True
  then have "nat (- i) < 100" using assms by simp
  then have "length (show_nat (nat (- i))) < 3"
    using show_nat_length(1,2) [of "nat (- i)"] by (cases "nat (- i) < 10") auto
  with True show ?thesis by (simp add: show_int_def)
next
  case False
  then have "nat i < 1000" using assms by simp
  then have "length (show_nat (nat i)) < 4"
    using show_nat_length(1-3) [of "nat i"] by (cases "nat i < 10"; cases "nat i < 100") auto
  with False show ?thesis by (simp add: show_int_def)
qed


definition demo_shell :: shell where
  "demo_shell = \<lparr>env = (\<lambda>_. None), status = 0, prompt = '''', cwd = ''/'', printed = []\<rparr>"


section \<open>Redirection failures and null commands\<close>

text \<open>If some redirection fails, nothing is executed and the process exits with \<open>-1\<close>.\<close>

lemma run_ops_failure:
  "op \<in> set ops \<Longrightarrow> \<not> ok op \<Longrightarrow> \<exists>pre. run_ops ok ops k = pre @ [Exit (- 1)] \<and> set pre \<subseteq> set ops"
proof (induction ops)
  case (Cons first ops)
  show ?case
  proof (cases "ok first")
    case True
    with Cons obtain pre where "run_ops ok ops k = pre @ [Exit (- 1)]" "set pre \<subseteq> set ops" by auto
    with True show ?thesis by (intro exI [of _ "first # pre"]) auto
  next
    case False
    then show ?thesis by (intro exI [of _ "[first]"]) auto
  qed
qed simp

lemma failed_redirection_runs_nothing:
  assumes "kind e = REDIR" and "op \<in> set (redir_ops e)" and "\<not> ok op"
  shows "Execvp a \<notin> set (exec_simple ok e)"
proof -
  obtain pre where "exec_simple ok e = pre @ [Exit (- 1)]" "set pre \<subseteq> set (redir_ops e)"
    using run_ops_failure [of op _ ok, OF assms(2,3)] assms(1) by (auto simp: exec_simple_def Let_def)
  then show ?thesis by (auto simp: redir_ops_def split: if_splits)
qed

text \<open>A bar with nothing before it gives a tree with a null command, a bar alone no tree at all.\<close>

lemma bar_alone_crashes:
  "run_cmd chdir ok wait ''|'' sh = Inl (KUndef ''parsed->type'')"
proof -
  have "parse_line sh 1024 ''|'' = Inr None"
    by (simp add: parse_line.simps split_line_def parse_cmd_def pipe_cmd_create_def)
  then show ?thesis by (simp add: run_cmd_def history_def cd_def streqword_def exit_shell_def pwd_def)
qed

section \<open>The shape of what is parsed\<close>

text \<open>An array of arguments leaves room for its null pointer, and every string fits its field.\<close>

definition wf_exec :: "execcmd \<Rightarrow> bool" where
  "wf_exec c \<longleftrightarrow> length (argv c) \<le> 19 \<and> length (eargv c) \<le> 20 \<and> length (scmd c) < 1024
     \<and> length (in_file c) < 1024 \<and> length (out_file c) < 1024 \<and> length (err_file c) < 1024
     \<and> ([] \<notin> set (argv c)) \<and> (kind c = EXEC \<longrightarrow> in_file c = [] \<and> out_file c = [] \<and> err_file c = [])"

fun wf_single :: "cmd \<Rightarrow> bool" where
  "wf_single (Execcmd e) = wf_exec e"
| "wf_single (Backcmd s (Execcmd e)) = (wf_exec e \<and> s = scmd e)"
| "wf_single _ = False"

fun wf_cmd :: "cmd \<Rightarrow> bool" where
  "wf_cmd (Pipecmd l r) = ((case l of None \<Rightarrow> True | Some l \<Rightarrow> wf_single l) \<and> wf_cmd r)"
| "wf_cmd c = wf_single c"

text \<open>The same while the arguments are collected, when the last slot may be taken.\<close>

definition wf_part :: "execcmd \<Rightarrow> bool" where
  "wf_part c \<longleftrightarrow> length (eargv c) \<le> 20 \<and> length (scmd c) < 1024
     \<and> length (in_file c) < 1024 \<and> length (out_file c) < 1024 \<and> length (err_file c) < 1024
     \<and> ([] \<notin> set (argv c)) \<and> (kind c = EXEC \<longrightarrow> in_file c = [] \<and> out_file c = [] \<and> err_file c = [])"

lemma wf_parse_token:
  assumes "wf_part c" and "length tok < 1024" and "parse_token sh tok c = Inr c'"
  shows "wf_part c'"
proof (cases "parse_redir_flow c tok")
  case (Some d)
  with assms show ?thesis by (auto simp: parse_token_def parse_redir_flow_def wf_part_def Let_def split: if_splits)
next
  case None
  show ?thesis
  proof (cases "parse_environ_var c tok")
    case (Some r)
    with None assms show ?thesis by (auto simp: parse_token_def parse_environ_var_def wf_part_def split: if_splits)
  next
    case n: None
    with None assms show ?thesis by (auto simp: parse_token_def wf_part_def andThen_eq_Inr split: if_splits)
  qed
qed

lemma wf_parse_tokens: "parse_tokens sh rest c = Inr c' \<Longrightarrow> wf_part c \<Longrightarrow> wf_part c'"
proof (induction sh rest c rule: parse_tokens.induct)
  case (1 sh rest c)
  show ?case
  proof (cases "rest = []")
    case True
    with 1 show ?thesis by (simp add: parse_tokens.simps)
  next
    case False
    with 1(2) obtain tok c1 where t: "get_token rest = Inr tok" "parse_token sh tok c = Inr c1"
      "parse_tokens sh (skip_token tok rest) c1 = Inr c'"
      by (auto simp: parse_tokens.simps [of sh rest] split: sum.splits)
    then have "length tok < 1024" by (auto simp: get_token_def Let_def split: if_splits)
    from wf_parse_token [OF 1(3) this t(2)] 1(1) [OF False t(1,2,3)] show ?thesis by blast
  qed
qed

lemma wf_parse_exec:
  assumes "parse_exec sh buf = Inr c"
  shows "\<exists>e. c = Execcmd e \<and> wf_exec e"
proof -
  from assms obtain e0 e where "exec_cmd_create buf = Inr e0" "parse_tokens sh buf e0 = Inr e" "length (argv e) < 20"
    "c = Execcmd e"
    by (auto simp: parse_exec_def andThen_eq_Inr split: if_splits)
  moreover from this(1) have "wf_part e0" by (auto simp: exec_cmd_create_def wf_part_def split: if_splits)
  ultimately show ?thesis using wf_parse_tokens [of sh buf e0 e] by (simp add: wf_part_def wf_exec_def)
qed

lemma wf_parse_cmd: "parse_cmd sh buf = Inr (Some c) \<Longrightarrow> wf_single c \<and> (\<exists>s d. c = Backcmd s d \<or> (\<exists>e. c = Execcmd e))"
  by (auto simp: parse_cmd_def parse_back_def back_cmd_create_def Let_def andThen_eq_Inr dest!: wf_parse_exec
      split: if_splits)

lemma wf_parse_line: "parse_line sh room buf = Inr (Some c) \<Longrightarrow> wf_cmd c"
proof (induction sh room buf arbitrary: c rule: parse_line.induct)
  case (1 sh room buf)
  from 1(2) obtain left right l where sp: "split_line room buf (CHR ''|'') = Inr (left, right)"
      "parse_cmd sh left = Inr l"
    by (auto simp: parse_line.simps [of sh room buf] andThen_eq_Inr split: sum.splits)
  have l: "wf_single d \<and> wf_cmd d" if "l = Some d" for d
    using wf_parse_cmd [of sh left d] sp(2) that by auto
  show ?case
  proof (cases "right = []")
    case True
    with sp 1(2) show ?thesis using l by (auto simp: parse_line.simps [of sh room buf] pipe_cmd_create_def)
  next
    case False
    with sp 1(2) obtain r where r: "parse_line sh (room - (length buf - length right)) right = Inr r"
      "pipe_cmd_create l r = Some c"
      by (auto simp: parse_line.simps [of sh room buf] andThen_eq_Inr)
    show ?thesis
    proof (cases r)
      case None
      with r(2) l show ?thesis by (simp add: pipe_cmd_create_def)
    next
      case (Some d)
      with 1(1) sp r False have "wf_cmd d" by auto
      with Some r(2) l show ?thesis by (auto simp: pipe_cmd_create_def split: option.split)
    qed
  qed
qed



end
