(* ===== verification/Spec2Isabelle.thy ===== *)
theory Spec2Isabelle
  imports Startup ForkLab MonitorProps MultiprocProps UserLibProps KdebugProps Spinlock FisopfsProps ConsoleProps PrintfmtProps ShellProps
begin

text \<open>
  A verification library of the operating-systems projects under \<open>src/TPs\<close>: the JOS kernel of
  \<open>Sched\<close> (\<open>kern/\<close>, \<open>lib/\<close>, \<open>inc/\<close>) with its user library, the FUSE file system of
  \<open>FileSystem/fisopfs\<close>, the shell of \<open>Shell\<close> and the programs of \<open>Fork\<close>.

  The parts and how they interact. At start the kernel lays out its arrays, builds its own address
  space and starts the other processors. Its physical page allocator hands out pages with
  reference counts; the page tables map them into address spaces; an environment owns one
  address space, its table slot and a place on the free list; the schedulers choose the next
  environment; traps enter the kernel, save the environment's registers and dispatch to system
  calls, page-fault handling or the scheduler; system calls act on environments and address
  spaces, under one kernel lock. The user library turns them into \<open>fork\<close> with copy on write and
  messages. The console prints through the formatted output, which kernel and user programs share,
  and feeds the kernel monitor. The file system, the shell and the fork programs stand alone.

  Conventions. C integers of a fixed width are words, array indices and counts that cannot
  wrap are natural numbers. A \<open>panic\<close> or a failed assertion is \<open>Inl (KPanic m)\<close>; what C leaves
  undefined (an access outside an array, a null pointer) is \<open>Inl (KUndef m)\<close>; error codes are
  values inside the normal result. Calls that leave the kernel are \<open>ctl\<close> outcomes. A loop that
  the hardware or the data could keep busy for ever is \<open>partial_function (option)\<close>, with \<open>None\<close>
  for "does not return"; every other loop is structural or has its termination proof.

  The theories, with the code they model.

  Prelude: faults and sequencing, linked lists in arrays, the free-list interface
  (\<open>free_list\<close>), bounded searches. Mmu: \<open>inc/mmu.h\<close>, \<open>inc/memlayout.h\<close>, \<open>inc/types.h\<close>.
  KState: the kernel state (physical memory as pages of 1024 words, \<open>pages\<close>, \<open>envs\<close>, \<open>cpus\<close>),
  \<open>inc/env.h\<close>, \<open>inc/trap.h\<close>, \<open>kern/cpu.h\<close>. PhysPages: \<open>boot_alloc\<close>, \<open>page_init\<close>,
  \<open>page_alloc\<close>, \<open>page_free\<close>, \<open>page_decref\<close> of \<open>kern/pmap.c\<close>. PageTables: \<open>pgdir_walk\<close>,
  \<open>page_lookup\<close>, \<open>page_insert\<close>, \<open>page_remove\<close>, \<open>boot_map_region\<close>, \<open>mmio_map_region\<close>,
  \<open>user_mem_check\<close>, \<open>check_va2pa\<close>, and the invariant \<open>ref_inv\<close>: the \<open>pp_ref\<close> of every page but
  the kernel's directory is exactly the number of table entries that hold it, and the free list is
  exactly the unused pages. AddrSpace, AddrSpaceProps: one mapping changed, all others untouched
  (the locale \<open>page_map\<close>). DirLife: directories that are born and die. Envs, EnvProps:
  \<open>kern/env.c\<close> and the kernel invariant \<open>kinv\<close>. UserMem: address translation for the loader,
  \<open>load_icode\<close>, \<open>env_create\<close>. Loader: what they leave in memory. Sched: both builds of \<open>kern/sched.c\<close> (the locale \<open>sched_policy\<close>).
  Syscall, SyscallProps: every system call of \<open>kern/syscall.c\<close>. Trap, TrapProps: \<open>kern/trap.c\<close>.

  MemInit: \<open>mem_init\<close> of \<open>kern/pmap.c\<close>, with every assertion of its self tests. BootData: its
  stages up to the first free list. KernMap: the invariant \<open>kdir\<close> of the kernel's directory, kept
  by \<open>boot_map_region\<close>. BootMap: the whole map above \<open>UTOP\<close>, and \<open>kern/entrypgdir.c\<close>. PageTest,
  FreeListTest: the self tests pass; \<open>check_page\<close> works in a laboratory whose free list hides all but
  three pages. MemInitProps: all stages of \<open>mem_init\<close> together. Startup: \<open>i386_init\<close>, \<open>boot_aps\<close> and
  \<open>mp_main\<close> of \<open>kern/init.c\<close> over the kernel state.
  Multiproc, MultiprocProps: \<open>kern/mpconfig.c\<close>, \<open>kern/lapic.c\<close> and the start protocol of
  \<open>kern/init.c\<close> as a step relation. Spinlock: \<open>kern/spinlock.c\<close>, every shared access a step of
  one of any number of processors, refining the atomic lock of the kernel state. UserLib,
  UserLibProps: \<open>lib/syscall.c\<close>, \<open>lib/fork.c\<close>, \<open>lib/pgfault.c\<close>, \<open>lib/ipc.c\<close>, \<open>lib/libmain.c\<close>
  over the kernel model. Kdebug, KdebugProps: \<open>kern/kdebug.c\<close>. Monitor, MonitorProps:
  \<open>lib/readline.c\<close>, \<open>kern/monitor.c\<close>, the printing of trap frames, \<open>_panic\<close> and \<open>_warn\<close>.

  CString, CStringProps: \<open>lib/string.c\<close> on a byte memory. Printfmt, PrintfmtProps:
  \<open>lib/printfmt.c\<close>, \<open>kern/printf.c\<close>, \<open>lib/printf.c\<close>; the locale \<open>sink_map\<close> says what a change of
  sink keeps. Console, ConsoleProps: \<open>kern/console.c\<close>, \<open>kern/picirq.c\<close>; the locale \<open>byte_queue\<close>
  is the contract of the input buffer.

  Fisopfs, FisopfsProps: \<open>utils.c\<close>, \<open>fisopfs.c\<close>; the invariant \<open>fs_wf\<close> and the step relation
  \<open>fs_step\<close> of the mounted file system. Shell, ShellProps: \<open>parsing.c\<close>, \<open>utils.c\<close>,
  \<open>createcmd.c\<close>, \<open>freecmd.c\<close>, \<open>exec.c\<close>, \<open>runcmd.c\<close>, \<open>builtin.c\<close>, \<open>readline.c\<close>,
  \<open>printstatus.c\<close>, \<open>sh.c\<close>. ForkLab: \<open>primes.c\<close> and \<open>xargs.c\<close> of \<open>Fork\<close>.

  What the theorems show. Start: \<open>mem_init\<close> returns on every machine with enough memory, no
  assertion of its self tests fails, the map above \<open>UTOP\<close> is exact, and the kernel then satisfies
  the invariant \<open>kinv\<close> that the system calls keep; \<open>env_create\<close> puts exactly the segments of an
  image and its stack into a fresh address space; together, \<open>i386_init\<close> takes a machine from
  power-on to the first instruction of the first program. The table of processors is read back;
  each processor starts on its own stack. Memory: mapping and unmapping
  are exact and keep all reference counts; user pointers are checked page by page, with the
  wrap-around the check misses. Environments: creation and destruction on every branch, with every
  page accounted for; identifiers are fresh. Scheduling: the first runnable in circular order,
  progress, and what the priority build really picks. System calls: strangers are refused, pages
  are shared exactly, messages are delivered or refused; where the code departs from its comments
  a theorem says so. User library: \<open>fork\<close> shares every page copy-on-write and changes nothing
  else. Lock: mutual exclusion in every interleaving. Output: formatting into a buffer or through
  system calls is formatting into a list, then copying; numbers are read back. Console: the input
  buffer is a queue of 511 characters, the cursor stays on the screen. Debugging tables: what the
  binary search finds. Monitor: what the line editor leaves, and that the monitor never returns.
  File system: every sequence of callbacks keeps the table well formed; written text is read
  back; truncation keeps a prefix; duplicate names are reachable. Shell: the parser inverts
  printing and yields well-formed trees; the status fits its buffer in the foreground only. Fork
  programs: the primes printed and the lines repeated; the batches run.

  Bounds. Loops of the schedulers carry fuel for one step per slot, enough because a scan
  visits every slot once; running out is a fault, and the theorems on them show that it never
  happens. Table walks count down the 1024 entries of a table, walks of the free list
  the number of pages. Polling loops count to 12800 as the code does. The kernel map needs 67 free
  pages for its tables: one each for \<open>pages\<close>, \<open>envs\<close> and the stacks, 64 for physical memory;
  \<open>check_page\<close> costs two more for the device window, which is why \<open>mem_init\<close> asks for 70 pages behind
  the kernel's data. A loaded page is counted as two, itself and a table (\<open>memory_needed\<close>).

  Not modelled. Entry code, trap stubs and context switch (the \<open>.S\<close> files of \<open>kern/\<close> and \<open>lib/\<close>):
  written in assembly. The inline assembly of \<open>inc/x86.h\<close> appears as the state changes its callers
  rely on. \<open>i386_init\<close> is composed of its calls on the kernel state; those that only set up devices
  and descriptor tables (\<open>cons_init\<close>, \<open>trap_init\<close>, \<open>pic_init\<close>) are modelled with the console and the
  traps. The pages of \<open>entrypgdir.c\<close> below its directory are
  disabled code. User programs under \<open>user/\<close>: examples of the library. Third-party parts: the
  FUSE library, the C library and the operating system of the host are only called; what they
  answer is an argument of the model.
\<close>

end
